(* ===== verification/Aster_Prelude.thy ===== *)
theory Aster_Prelude
  imports
    Main
    "HOL-Library.Word"
    "HOL-Library.List_Lexorder"
    "HOL-Library.Char_ord"
    "HOL-Library.Product_Lexorder"
begin

text \<open>
  Shared vocabulary of the development.

  \<^item> The machine integers of the Rust sources as words, with the standard library's
    \<open>checked_add\<close> and \<open>saturating_add\<close> written out.
  \<^item> The \<open>?\<close> operator on \<open>Result\<close> as \<open>rbind\<close> on a sum type (\<open>Inl\<close> is the error), and
    \<open>try_map\<close> for \<open>collect::<Result<Vec<_>>>()\<close>.
  \<^item> \<open>to_be_bytes\<close>, \<open>to_le_bytes\<close> and their inverses on byte lists.
  \<^item> \<open>std::collections::BTreeMap\<close> as the type \<open>btmap\<close> of association lists that are
    strictly sorted by key, with its interface stated as the locale \<open>ordered_map\<close>.
\<close>

unbundle bit_operations_syntax

named_theorems result_simps \<open>rewriting rules for results and early returns\<close>
named_theorems codec_simps \<open>rewriting rules for encoders and decoders\<close>

section \<open>Machine integers\<close>

type_synonym u8 = "8 word"
type_synonym u32 = "32 word"
type_synonym u64 = "64 word"
type_synonym bytes = "u8 list"

definition checked_add :: "u64 \<Rightarrow> u64 \<Rightarrow> u64 option" where
  "checked_add a b = (if unat a + unat b < 2 ^ 64 then Some (a + b) else None)"

definition saturating_add :: "u64 \<Rightarrow> u64 \<Rightarrow> u64" where
  "saturating_add a b = (if unat a + unat b < 2 ^ 64 then a + b else - 1)"

lemma unat_lt2p_u64: "unat (a :: u64) < 2 ^ 64"
  using unsigned_less [where ?'b = 64 and w = a and ?'a = nat] by simp

lemma unat_add_no_overflow:
  fixes a b :: u64
  assumes "unat a + unat b < 2 ^ 64"
  shows "unat (a + b) = unat a + unat b"
  using assms by (simp add: unat_word_ariths)

lemma checked_add_Some:
  assumes "checked_add a b = Some c"
  shows "c = a + b" and "unat c = unat a + unat b"
  using assms by (auto simp: checked_add_def unat_add_no_overflow split: if_splits)

lemma checked_add_one_less:
  assumes "checked_add a 1 = Some c"
  shows "a < c" and "\<And>x. x < c \<longleftrightarrow> x \<le> a" and "0 < c"
  using checked_add_Some[OF assms]
  by (auto simp: word_less_nat_alt word_le_nat_alt)

lemma checked_add_one_None: "checked_add a 1 = None \<longleftrightarrow> a = - 1"
proof -
  have "unat a < 2 ^ 64" using unat_lt2p_u64 .
  moreover have "unat a = 2 ^ 64 - 1 \<longleftrightarrow> a = - 1"
    by (simp add: word_unat_eq_iff unsigned_minus_1_eq_mask mask_eq_exp_minus_1)
  ultimately show ?thesis by (auto simp: checked_add_def)
qed

lemma of_nat_u32_inject:
  assumes "(of_nat x :: u32) = of_nat y" "x < 2 ^ 32" "y < 2 ^ 32"
  shows "x = y"
proof -
  have "unat (of_nat x :: u32) = unat (of_nat y :: u32)" by (simp only: assms(1))
  then have "x mod 2 ^ 32 = y mod 2 ^ 32" by (simp only: unat_of_nat) simp
  with assms(2,3) show ?thesis by simp
qed

lemma of_nat_u64_inject:
  assumes "(of_nat x :: u64) = of_nat y" "x < 2 ^ 64" "y < 2 ^ 64"
  shows "x = y"
proof -
  have "unat (of_nat x :: u64) = unat (of_nat y :: u64)" by (simp only: assms(1))
  then have "x mod 2 ^ 64 = y mod 2 ^ 64" by (simp only: unat_of_nat) simp
  with assms(2,3) show ?thesis by simp
qed

section \<open>Results\<close>

fun rbind :: "'e + 'a \<Rightarrow> ('a \<Rightarrow> 'e + 'b) \<Rightarrow> 'e + 'b" where
  "rbind (Inl e) f = Inl e"
| "rbind (Inr x) f = f x"

definition ok_or :: "'a option \<Rightarrow> 'e \<Rightarrow> 'e + 'a" where
  "ok_or x e = (case x of None \<Rightarrow> Inl e | Some v \<Rightarrow> Inr v)"

definition require :: "bool \<Rightarrow> 'e \<Rightarrow> 'e + unit" where
  "require c e = (if c then Inr () else Inl e)"

fun map_err :: "('e \<Rightarrow> 'f) \<Rightarrow> 'e + 'a \<Rightarrow> 'f + 'a" where
  "map_err f (Inl e) = Inl (f e)"
| "map_err f (Inr x) = Inr x"

fun is_ok :: "'e + 'a \<Rightarrow> bool" where
  "is_ok (Inl e) = False"
| "is_ok (Inr x) = True"

fun try_map :: "('a \<Rightarrow> 'e + 'b) \<Rightarrow> 'a list \<Rightarrow> 'e + 'b list" where
  "try_map f [] = Inr []"
| "try_map f (x # xs) = rbind (f x) (\<lambda>y. rbind (try_map f xs) (\<lambda>ys. Inr (y # ys)))"

fun try_fold :: "('s \<Rightarrow> 'a \<Rightarrow> 'e + 's) \<Rightarrow> 's \<Rightarrow> 'a list \<Rightarrow> 'e + 's" where
  "try_fold f s [] = Inr s"
| "try_fold f s (x # xs) = rbind (f s x) (\<lambda>s'. try_fold f s' xs)"

fun try_each :: "('a \<Rightarrow> 'e + unit) \<Rightarrow> 'a list \<Rightarrow> 'e + unit" where
  "try_each f [] = Inr ()"
| "try_each f (x # xs) = rbind (f x) (\<lambda>_. try_each f xs)"

lemma rbind_eq_Inr [result_simps]: "rbind m f = Inr y \<longleftrightarrow> (\<exists>x. m = Inr x \<and> f x = Inr y)"
  by (cases m) auto

lemma rbind_eq_Inl [result_simps]:
  "rbind m f = Inl e \<longleftrightarrow> m = Inl e \<or> (\<exists>x. m = Inr x \<and> f x = Inl e)"
  by (cases m) auto

lemma rbind_assoc: "rbind (rbind m f) g = rbind m (\<lambda>x. rbind (f x) g)"
  by (cases m) auto

lemma rbind_cong [fundef_cong]:
  "m = m' \<Longrightarrow> (\<And>x. m' = Inr x \<Longrightarrow> f x = f' x) \<Longrightarrow> rbind m f = rbind m' f'"
  by (cases m') auto

lemma ok_or_eq_Inr [result_simps]: "ok_or x e = Inr v \<longleftrightarrow> x = Some v"
  by (auto simp: ok_or_def split: option.splits)

lemma ok_or_eq_Inl [result_simps]: "ok_or x e = Inl e' \<longleftrightarrow> x = None \<and> e' = e"
  by (auto simp: ok_or_def split: option.splits)

lemma ok_or_simps [simp]: "ok_or None e = Inl e" "ok_or (Some v) e = Inr v"
  by (simp_all add: ok_or_def)

lemma require_eq_Inr [result_simps]: "require c e = Inr u \<longleftrightarrow> c"
  by (auto simp: require_def)

lemma require_eq_Inl [result_simps]: "require c e = Inl e' \<longleftrightarrow> \<not> c \<and> e' = e"
  by (auto simp: require_def)

lemma require_simps [simp]: "require True e = Inr ()" "require False e = Inl e"
  by (simp_all add: require_def)

lemma map_err_eq_Inr [result_simps]: "map_err f r = Inr x \<longleftrightarrow> r = Inr x"
  by (cases r) auto

lemma map_err_eq_Inl [result_simps]: "map_err f r = Inl e \<longleftrightarrow> (\<exists>d. r = Inl d \<and> e = f d)"
  by (cases r) auto

lemma is_ok_iff: "is_ok r \<longleftrightarrow> (\<exists>x. r = Inr x)"
  by (cases r) auto

lemma try_map_eq_Inr [result_simps]:
  "try_map f xs = Inr ys \<longleftrightarrow> list_all2 (\<lambda>x y. f x = Inr y) xs ys"
  by (induction xs arbitrary: ys) (auto simp: result_simps list_all2_Cons1)

lemma try_each_eq_Inr [result_simps]: "try_each f xs = Inr u \<longleftrightarrow> (\<forall>x\<in>set xs. f x = Inr ())"
  by (induction xs) (auto simp: result_simps)

lemma try_fold_append:
  "try_fold f s (xs @ ys) = rbind (try_fold f s xs) (\<lambda>s'. try_fold f s' ys)"
  by (induction xs arbitrary: s) (auto simp: rbind_assoc)

lemma try_fold_invariant:
  assumes "try_fold f s xs = Inr t" and "P s"
    and "\<And>u x v. x \<in> set xs \<Longrightarrow> P u \<Longrightarrow> f u x = Inr v \<Longrightarrow> P v"
  shows "P t"
  using assms
proof (induction xs arbitrary: s)
  case Nil
  then show ?case by simp
next
  case (Cons x xs)
  from Cons.prems(1) obtain u where u: "f s x = Inr u" and rest: "try_fold f u xs = Inr t"
    by (auto simp: result_simps)
  have "P u" using Cons.prems(2,3) u by (metis list.set_intros(1))
  with rest show ?case using Cons.IH Cons.prems(3) by (meson list.set_intros(2))
qed

section \<open>Windows of a slice\<close>

text \<open>\<open>slice.windows(2)\<close>: the adjacent pairs.\<close>

fun windows2 :: "'a list \<Rightarrow> ('a \<times> 'a) list" where
  "windows2 (x # y # zs) = (x, y) # windows2 (y # zs)"
| "windows2 _ = []"

lemma windows2_ascending:
  fixes f :: "'a \<Rightarrow> 'b :: linorder"
  shows "list_ex (\<lambda>(x, y). f y \<le> f x) (windows2 xs) \<longleftrightarrow> \<not> sorted_wrt (<) (map f xs)"
proof (induction xs rule: windows2.induct)
  case (1 x y zs)
  then show ?case by (auto simp: not_le dest: less_trans) force
qed simp_all

lemma windows2_descending:
  fixes f :: "'a \<Rightarrow> 'b :: linorder"
  shows "list_ex (\<lambda>(x, y). f x \<le> f y) (windows2 xs) \<longleftrightarrow> \<not> sorted_wrt (>) (map f xs)"
proof (induction xs rule: windows2.induct)
  case (1 x y zs)
  then show ?case by (auto simp: not_le dest: less_trans) force
qed simp_all

section \<open>Fixed-width integers as bytes\<close>

text \<open>
  \<open>le_bytes n x\<close> are the \<open>n\<close> low bytes of \<open>x\<close>, least significant first; \<open>le_val\<close>
  reads them back. The \<open>to_le_bytes\<close>, \<open>to_be_bytes\<close>, \<open>from_le_bytes\<close> and \<open>from_be_bytes\<close>
  methods of \<open>u32\<close> and \<open>u64\<close> are instances.
\<close>

fun le_bytes :: "nat \<Rightarrow> nat \<Rightarrow> bytes" where
  "le_bytes 0 x = []"
| "le_bytes (Suc n) x = of_nat (x mod 256) # le_bytes n (x div 256)"

fun le_val :: "bytes \<Rightarrow> nat" where
  "le_val [] = 0"
| "le_val (b # bs) = unat b + 256 * le_val bs"

definition be_bytes :: "nat \<Rightarrow> nat \<Rightarrow> bytes" where
  "be_bytes n x = rev (le_bytes n x)"

definition be_val :: "bytes \<Rightarrow> nat" where
  "be_val bs = le_val (rev bs)"

lemma length_le_bytes [simp]: "length (le_bytes n x) = n"
  by (induction n arbitrary: x) auto

lemma le_bytes_numeral:
  "le_bytes (numeral k) x = of_nat (x mod 256) # le_bytes (pred_numeral k) (x div 256)"
  using le_bytes.simps(2)[of "pred_numeral k" x] numeral_eq_Suc[of k] by metis

lemma length_be_bytes [simp]: "length (be_bytes n x) = n"
  by (simp add: be_bytes_def)

lemma unat_u8_less: "unat (b :: u8) < 256"
  using unsigned_less [where ?'b = 8 and w = b and ?'a = nat] by simp

lemma unat_of_nat_u8: "unat (of_nat (x mod 256) :: u8) = x mod 256"
  by (simp add: unat_of_nat)

lemma le_val_le_bytes: "le_val (le_bytes n x) = x mod 256 ^ n"
proof (induction n arbitrary: x)
  case 0
  then show ?case by simp
next
  case (Suc n)
  have "x mod 256 ^ Suc n = x mod 256 + 256 * (x div 256 mod 256 ^ n)"
    by (simp add: mod_mult2_eq)
  with Suc show ?case by (simp add: unat_of_nat_u8)
qed

lemma le_bytes_le_val: "le_bytes (length bs) (le_val bs) = bs"
proof (induction bs)
  case Nil
  then show ?case by simp
next
  case (Cons b bs)
  have "unat b mod 256 = unat b" "unat b div 256 = 0"
    using unat_u8_less[of b] by simp_all
  with Cons show ?case by simp
qed

lemma le_val_bound: "le_val bs < 256 ^ length bs"
  by (metis le_bytes_le_val le_val_le_bytes mod_less_divisor zero_less_numeral zero_less_power)

lemma be_val_be_bytes: "be_val (be_bytes n x) = x mod 256 ^ n"
  by (simp add: be_val_def be_bytes_def le_val_le_bytes)

lemma be_bytes_be_val: "be_bytes (length bs) (be_val bs) = bs"
  using le_bytes_le_val[of "rev bs"] by (simp add: be_bytes_def be_val_def)

lemma be_val_bound: "be_val bs < 256 ^ length bs"
  using le_val_bound[of "rev bs"] by (simp add: be_val_def)

lemma le_val_append: "le_val (xs @ ys) = le_val xs + 256 ^ length xs * le_val ys"
  by (induction xs) (auto simp: algebra_simps)

lemma be_val_Cons: "be_val (x # xs) = unat x * 256 ^ length xs + be_val xs"
  by (simp add: be_val_def le_val_append)

lemma two_digit_less_iff:
  fixes a b c d m :: nat
  assumes "b < m" and "d < m"
  shows "a * m + b < c * m + d \<longleftrightarrow> a < c \<or> a = c \<and> b < d"
proof -
  have "a * m + b < c * m + d" if "a < c"
  proof -
    from that have "(a + 1) * m \<le> c * m" by (intro mult_le_mono1) simp
    with assms show ?thesis by (simp add: algebra_simps)
  qed
  moreover have "c * m + d < a * m + b" if "c < a"
  proof -
    from that have "(c + 1) * m \<le> a * m" by (intro mult_le_mono1) simp
    with assms show ?thesis by (simp add: algebra_simps)
  qed
  ultimately show ?thesis
    by (metis add_less_cancel_left less_asym' linorder_neqE_nat)
qed

lemma be_val_less_iff:
  "length xs = length ys \<Longrightarrow> be_val xs < be_val ys \<longleftrightarrow> xs < ys"
proof (induction xs ys rule: list_induct2)
  case Nil
  then show ?case by (simp add: be_val_def)
next
  case (Cons x xs y ys)
  have "be_val xs < 256 ^ length xs" "be_val ys < 256 ^ length xs"
    using be_val_bound[of xs] be_val_bound[of ys] Cons.hyps by simp_all
  then have "be_val (x # xs) < be_val (y # ys)
      \<longleftrightarrow> unat x < unat y \<or> unat x = unat y \<and> be_val xs < be_val ys"
    using Cons.hyps by (simp add: be_val_Cons two_digit_less_iff)
  with Cons.IH show ?case by (simp add: word_less_nat_alt word_unat_eq_iff)
qed

lemma be_bytes_less_iff:
  assumes "x < 256 ^ n" and "y < 256 ^ n"
  shows "be_bytes n x < be_bytes n y \<longleftrightarrow> x < y"
  using be_val_less_iff[of "be_bytes n x" "be_bytes n y"] assms
  by (simp add: be_val_be_bytes)

lemma append_less_append_iff:
  fixes a b c d :: "'a :: linorder list"
  assumes "length a = length b"
  shows "a @ c < b @ d \<longleftrightarrow> a < b \<or> a = b \<and> c < d"
  using assms by (induction a b rule: list_induct2) auto

definition u64_to_le :: "u64 \<Rightarrow> bytes" where "u64_to_le w = le_bytes 8 (unat w)"
definition u64_to_be :: "u64 \<Rightarrow> bytes" where "u64_to_be w = be_bytes 8 (unat w)"
definition u64_from_le :: "bytes \<Rightarrow> u64" where "u64_from_le bs = of_nat (le_val bs)"
definition u32_to_le :: "u32 \<Rightarrow> bytes" where "u32_to_le w = le_bytes 4 (unat w)"
definition u32_to_be :: "u32 \<Rightarrow> bytes" where "u32_to_be w = be_bytes 4 (unat w)"
definition u32_from_le :: "bytes \<Rightarrow> u32" where "u32_from_le bs = of_nat (le_val bs)"

lemma length_int_bytes [simp]:
  "length (u64_to_le a) = 8" "length (u64_to_be a) = 8"
  "length (u32_to_le b) = 4" "length (u32_to_be b) = 4"
  by (simp_all add: u64_to_le_def u64_to_be_def u32_to_le_def u32_to_be_def)

lemma unat_lt2p_u32: "unat (a :: u32) < 2 ^ 32"
  using unsigned_less [where ?'b = 32 and w = a and ?'a = nat] by simp

lemma u64_le_inverse [simp]: "u64_from_le (u64_to_le w) = w"
  using unat_lt2p_u64[of w] by (simp add: u64_from_le_def u64_to_le_def le_val_le_bytes)

lemma u32_le_inverse [simp]: "u32_from_le (u32_to_le w) = w"
  using unat_lt2p_u32[of w] by (simp add: u32_from_le_def u32_to_le_def le_val_le_bytes)

lemma u64_to_be_less_iff: "u64_to_be a < u64_to_be b \<longleftrightarrow> a < b"
  using unat_lt2p_u64[of a] unat_lt2p_u64[of b]
  by (simp add: u64_to_be_def be_bytes_less_iff word_less_nat_alt)

lemma u64_to_be_inject [simp]: "u64_to_be a = u64_to_be b \<longleftrightarrow> a = b"
  by (metis u64_to_be_less_iff less_irrefl linorder_neqE)

lemma u32_to_be_inject [simp]: "u32_to_be a = u32_to_be b \<longleftrightarrow> a = b"
proof
  assume "u32_to_be a = u32_to_be b"
  then have "be_val (u32_to_be a) = be_val (u32_to_be b)" by simp
  then show "a = b"
    using unat_lt2p_u32[of a] unat_lt2p_u32[of b]
    by (simp add: u32_to_be_def be_val_be_bytes word_unat_eq_iff)
qed simp

section \<open>Ordered maps\<close>

text \<open>
  What the components rely on of \<open>BTreeMap\<close>: point lookups, and entries listed in strictly
  increasing key order. The consequences proved here hold for every implementation of that
  contract.
\<close>

locale ordered_map =
  fixes empty :: "'m"
    and get :: "'m \<Rightarrow> 'k :: linorder \<Rightarrow> 'v option"
    and insert :: "'k \<Rightarrow> 'v \<Rightarrow> 'm \<Rightarrow> 'm"
    and remove :: "'k \<Rightarrow> 'm \<Rightarrow> 'm"
    and entries :: "'m \<Rightarrow> ('k \<times> 'v) list"
  assumes get_empty: "get empty k = None"
    and get_insert: "get (insert k v m) k' = (if k' = k then Some v else get m k')"
    and get_remove: "get (remove k m) k' = (if k' = k then None else get m k')"
    and get_entries: "get m = map_of (entries m)"
    and entries_sorted: "sorted_wrt (<) (map fst (entries m))"
begin

lemma distinct_keys: "distinct (map fst (entries m))"
  using entries_sorted[of m] by (simp add: strict_sorted_iff)

lemma get_eq_Some_iff: "get m k = Some v \<longleftrightarrow> (k, v) \<in> set (entries m)"
  using distinct_keys[of m] by (simp add: get_entries)

lemma get_eq_None_iff: "get m k = None \<longleftrightarrow> k \<notin> fst ` set (entries m)"
  by (simp add: get_entries map_of_eq_None_iff)

lemma entries_unique:
  assumes "get m = get n"
  shows "entries m = entries n"
proof -
  have keys: "map fst (entries m) = map fst (entries n)"
  proof (rule strict_sorted_equal)
    have "dom (get m) = dom (get n)" using assms by simp
    then show "set (map fst (entries m)) = set (map fst (entries n))"
      by (simp add: get_entries dom_map_of_conv_image_fst)
  qed (simp_all add: entries_sorted)
  have "entries x = map (\<lambda>k. (k, the (get x k))) (map fst (entries x))" for x
    using distinct_keys[of x] by (auto simp: get_entries intro!: map_idI[symmetric])
  then show ?thesis using keys assms by metis
qed

end

fun al_insert :: "'k :: linorder \<Rightarrow> 'v \<Rightarrow> ('k \<times> 'v) list \<Rightarrow> ('k \<times> 'v) list" where
  "al_insert k v [] = [(k, v)]"
| "al_insert k v ((k', v') # xs) =
     (if k < k' then (k, v) # (k', v') # xs
      else if k = k' then (k, v) # xs
      else (k', v') # al_insert k v xs)"

lemma keys_al_insert: "set (map fst (al_insert k v xs)) = Set.insert k (set (map fst xs))"
  by (induction k v xs rule: al_insert.induct) auto

lemma sorted_al_insert:
  "sorted_wrt (<) (map fst xs) \<Longrightarrow> sorted_wrt (<) (map fst (al_insert k v xs))"
proof (induction xs)
  case (Cons x xs)
  obtain k' v' where x: "x = (k', v')" by (cases x)
  have "\<forall>j \<in> set (map fst (al_insert k v xs)). k' < j" if "\<not> k < k'" "k \<noteq> k'"
    using that Cons.prems x by (simp only: keys_al_insert) auto
  with Cons x show ?case by (fastforce intro: less_trans)
qed simp

lemma map_of_al_insert: "map_of (al_insert k v xs) = (map_of xs)(k \<mapsto> v)"
  by (induction xs) (auto simp: fun_eq_iff)

lemma sorted_filter_keys:
  "sorted_wrt (<) (map fst xs) \<Longrightarrow> sorted_wrt (<) (map fst (filter P xs))"
  by (induction xs) auto

lemma map_of_filter_keys:
  "map_of (filter (\<lambda>(j, v). Q j) xs) k = (if Q k then map_of xs k else None)"
  by (induction xs) auto

lemma map_of_filter_distinct:
  "distinct (map fst xs) \<Longrightarrow> map_of (filter (\<lambda>(k, v). P k v) xs) k
     = (case map_of xs k of None \<Rightarrow> None | Some v \<Rightarrow> if P k v then Some v else None)"
  by (induction xs) (auto simp: map_of_eq_None_iff rev_image_eqI split: option.splits)

typedef (overloaded) ('k :: linorder, 'v) btmap =
  "{xs :: ('k \<times> 'v) list. sorted_wrt (<) (map fst xs)}"
  morphisms bt_entries Abs_btmap
  by (rule exI[of _ "[]"]) simp

setup_lifting type_definition_btmap

lift_definition bt_empty :: "('k :: linorder, 'v) btmap" is "[]"
  by simp

lift_definition bt_get :: "('k :: linorder, 'v) btmap \<Rightarrow> 'k \<Rightarrow> 'v option" is map_of .

lift_definition bt_insert :: "'k :: linorder \<Rightarrow> 'v \<Rightarrow> ('k, 'v) btmap \<Rightarrow> ('k, 'v) btmap"
  is al_insert
  by (rule sorted_al_insert)

lift_definition bt_remove :: "'k :: linorder \<Rightarrow> ('k, 'v) btmap \<Rightarrow> ('k, 'v) btmap"
  is "\<lambda>k. filter (\<lambda>(j, v). j \<noteq> k)"
  by (rule sorted_filter_keys)

lift_definition bt_retain :: "('k :: linorder \<Rightarrow> 'v \<Rightarrow> bool) \<Rightarrow> ('k, 'v) btmap \<Rightarrow> ('k, 'v) btmap"
  is "\<lambda>P. filter (\<lambda>(k, v). P k v)"
  by (rule sorted_filter_keys)

lift_definition bt_map :: "('v \<Rightarrow> 'w) \<Rightarrow> ('k :: linorder, 'v) btmap \<Rightarrow> ('k, 'w) btmap"
  is "\<lambda>f. map (\<lambda>(k, v). (k, f v))"
  by (simp add: comp_def split_beta)

definition bt_keys :: "('k :: linorder, 'v) btmap \<Rightarrow> 'k list" where
  "bt_keys m = map fst (bt_entries m)"

definition bt_values :: "('k :: linorder, 'v) btmap \<Rightarrow> 'v list" where
  "bt_values m = map snd (bt_entries m)"

definition bt_len :: "('k :: linorder, 'v) btmap \<Rightarrow> nat" where
  "bt_len m = length (bt_entries m)"

definition bt_contains :: "('k :: linorder, 'v) btmap \<Rightarrow> 'k \<Rightarrow> bool" where
  "bt_contains m k = (bt_get m k \<noteq> None)"

definition bt_of_list :: "('k :: linorder \<times> 'v) list \<Rightarrow> ('k, 'v) btmap" where
  "bt_of_list xs = fold (\<lambda>(k, v). bt_insert k v) xs bt_empty"

definition bt_last_key :: "('k :: linorder, 'v) btmap \<Rightarrow> 'k option" where
  "bt_last_key m = (if bt_keys m = [] then None else Some (last (bt_keys m)))"

interpretation bt: ordered_map bt_empty bt_get bt_insert bt_remove bt_entries
proof
  show "bt_get bt_empty k = (None :: 'v option)" for k :: "'k :: linorder"
    by transfer simp
  show "bt_get (bt_insert k v m) k' = (if k' = k then Some v else bt_get m k')"
    for k k' :: "'k :: linorder" and v :: 'v and m
    by transfer (simp add: map_of_al_insert)
  show "bt_get (bt_remove k m) k' = (if k' = k then None else bt_get m k')"
    for k k' :: "'k :: linorder" and m :: "('k, 'v) btmap"
    by transfer (simp add: map_of_filter_keys)
  show "bt_get m = map_of (bt_entries m)" for m :: "('k :: linorder, 'v) btmap"
    by transfer simp
  show "sorted_wrt (<) (map fst (bt_entries m))" for m :: "('k :: linorder, 'v) btmap"
    by transfer simp
qed

lemmas bt_get_simps [simp] = bt.get_empty bt.get_insert bt.get_remove

lemma btmap_eqI:
  assumes "\<And>k. bt_get m k = bt_get n k"
  shows "m = n"
  using bt.entries_unique[of m n] assms by (simp add: bt_entries_inject fun_eq_iff)

instantiation btmap :: (linorder, equal) equal
begin

definition "equal_class.equal (m :: ('a, 'b) btmap) n = (bt_entries m = bt_entries n)"

instance by standard (simp add: equal_btmap_def bt_entries_inject)

end

lemma bt_entries_empty [simp]: "bt_entries bt_empty = []"
  by transfer simp

lemma bt_entries_insert [simp]: "bt_entries (bt_insert k v m) = al_insert k v (bt_entries m)"
  by transfer simp

lemma bt_get_map [simp]: "bt_get (bt_map f m) k = map_option f (bt_get m k)"
  by transfer (simp add: map_of_map)

lemma bt_get_retain [simp]:
  "bt_get (bt_retain P m) k
     = (case bt_get m k of None \<Rightarrow> None | Some v \<Rightarrow> if P k v then Some v else None)"
  by transfer (simp add: map_of_filter_distinct strict_sorted_iff)

lemma bt_contains_simps [simp]:
  "bt_contains bt_empty k = False"
  "bt_contains (bt_insert k v m) k' = (k' = k \<or> bt_contains m k')"
  by (auto simp: bt_contains_def)

lemma set_bt_keys: "set (bt_keys m) = {k. bt_get m k \<noteq> None}"
  by (auto simp: bt_keys_def bt.get_eq_None_iff)

lemma set_bt_values: "set (bt_values m) = {v. \<exists>k. bt_get m k = Some v}"
  by (force simp: bt_values_def bt.get_eq_Some_iff)

lemma bt_entries_get: "(k, v) \<in> set (bt_entries m) \<longleftrightarrow> bt_get m k = Some v"
  by (simp add: bt.get_eq_Some_iff)

lemma ball_bt_entries:
  "(\<forall>(k, v) \<in> set (bt_entries m). P k v) \<longleftrightarrow> (\<forall>k v. bt_get m k = Some v \<longrightarrow> P k v)"
  by (auto simp: bt_entries_get[symmetric])

lemma sorted_bt_keys: "sorted_wrt (<) (bt_keys m)"
  by (simp add: bt_keys_def bt.entries_sorted)

lemma bt_get_of_list: "bt_get (bt_of_list xs) k = map_of (rev xs) k"
proof -
  have "bt_get (fold (\<lambda>(k, v). bt_insert k v) xs m) k = (bt_get m ++ map_of (rev xs)) k" for m
    by (induction xs arbitrary: m) (auto simp: map_add_def split: option.splits)
  then show ?thesis by (simp add: bt_of_list_def map_add_def split: option.splits)
qed

lemma bt_of_list_entries: "bt_of_list (bt_entries m) = m"
proof (rule btmap_eqI)
  fix k
  have "distinct (map fst (rev (bt_entries m)))"
    using bt.distinct_keys[of m] by (simp add: rev_map[symmetric])
  moreover have "set (rev (bt_entries m)) = set (bt_entries m)" by simp
  ultimately have "map_of (rev (bt_entries m)) = map_of (bt_entries m)"
    using bt.distinct_keys[of m] by (metis map_of_inject_set)
  then show "bt_get (bt_of_list (bt_entries m)) k = bt_get m k"
    by (simp add: bt_get_of_list) (simp add: bt.get_entries)
qed

lemma bt_last_key_greatest:
  assumes "bt_last_key m = Some k" and "bt_get m j \<noteq> None"
  shows "j \<le> k"
proof -
  from assms(1) have ne: "bt_keys m \<noteq> []" and k: "k = last (bt_keys m)"
    by (auto simp: bt_last_key_def split: if_splits)
  have "j \<in> set (bt_keys m)" using assms(2) by (simp add: set_bt_keys)
  moreover have "sorted (bt_keys m)"
    using sorted_bt_keys strict_sorted_iff by blast
  ultimately show ?thesis using k
    by (metis in_set_conv_nth last_conv_nth le_Suc_ex length_pos_if_in_set less_Suc_eq_le
        One_nat_def Suc_pred diff_less length_greater_0_conv sorted_nth_mono zero_less_one)
qed

end
