(* ===== verification/Core_Values.thy ===== *)
theory Core_Values
  imports Aster_Prelude
begin

text \<open>
  The data model of \<open>crates/aster-core/src/lib.rs\<close>: errors, data types, values, columns,
  schemas and rows, with \<open>Value::checked_cmp\<close>, \<open>Schema::validate\<close> and
  \<open>Schema::validate_row\<close>.

  A Rust \<open>String\<close> is a HOL \<open>string\<close> with one \<open>char\<close> per UTF-8 byte; \<open>i64\<close> is a 64-bit word
  read by \<open>sint\<close>. Error constructors carry the fixed text of the message; the values
  the source interpolates into it are left out.
\<close>

section \<open>Errors, types and values\<close>

datatype core_error =
    InvalidEncoding string
  | LimitExceeded string
  | TypeError string
  | Constraint string
  | Conflict string
  | Unsupported string
  | NotLeader "string option"
  | Corruption string
  | Io string
  | Invariant string

definition MAX_VALUE_BYTES :: nat where "MAX_VALUE_BYTES = 16 * 1024 * 1024"
definition MAX_ROW_COLUMNS :: nat where "MAX_ROW_COLUMNS = 4096"

datatype data_type = DInt64 | DBool | DText | DBytes

datatype sql_value = Null | Int64 u64 | Bool bool | Text string | Bytes bytes

fun value_data_type :: "sql_value \<Rightarrow> data_type option" where
  "value_data_type Null = None"
| "value_data_type (Int64 _) = Some DInt64"
| "value_data_type (Bool _) = Some DBool"
| "value_data_type (Text _) = Some DText"
| "value_data_type (Bytes _) = Some DBytes"

definition is_null :: "sql_value \<Rightarrow> bool" where
  "is_null v = (case v of Null \<Rightarrow> True | _ \<Rightarrow> False)"

lemma is_null_iff [simp]: "is_null v \<longleftrightarrow> v = Null"
  by (simp add: is_null_def split: sql_value.splits)

lemma value_data_type_None_iff [simp]: "value_data_type v = None \<longleftrightarrow> v = Null"
  by (cases v) auto

datatype ordering = OLess | OEqual | OGreater

definition ord_cmp :: "'a :: linorder \<Rightarrow> 'a \<Rightarrow> ordering" where
  "ord_cmp a b = (if a < b then OLess else if a = b then OEqual else OGreater)"

fun ordering_reverse :: "ordering \<Rightarrow> ordering" where
  "ordering_reverse OLess = OGreater"
| "ordering_reverse OEqual = OEqual"
| "ordering_reverse OGreater = OLess"

lemma ord_cmp_simps [simp]:
  "ord_cmp a b = OLess \<longleftrightarrow> a < b"
  "ord_cmp a b = OEqual \<longleftrightarrow> a = b"
  "ord_cmp a b = OGreater \<longleftrightarrow> b < a"
  by (auto simp: ord_cmp_def)

lemma ord_cmp_reverse: "ordering_reverse (ord_cmp a b) = ord_cmp b a"
  by (auto simp: ord_cmp_def)

fun checked_cmp :: "sql_value \<Rightarrow> sql_value \<Rightarrow> core_error + ordering option" where
  "checked_cmp Null _ = Inr None"
| "checked_cmp _ Null = Inr None"
| "checked_cmp (Int64 a) (Int64 b) = Inr (Some (ord_cmp (sint a) (sint b)))"
| "checked_cmp (Bool a) (Bool b) = Inr (Some (ord_cmp a b))"
| "checked_cmp (Text a) (Text b) = Inr (Some (ord_cmp a b))"
| "checked_cmp (Bytes a) (Bytes b) = Inr (Some (ord_cmp a b))"
| "checked_cmp _ _ = Inl (TypeError ''cannot compare'')"

lemma checked_cmp_ok_iff:
  "(\<exists>r. checked_cmp a b = Inr r) \<longleftrightarrow> a = Null \<or> b = Null \<or> value_data_type a = value_data_type b"
  by (cases a; cases b) auto

lemma checked_cmp_equal_iff:
  "checked_cmp a b = Inr (Some OEqual) \<longleftrightarrow> a = b \<and> a \<noteq> Null"
  by (cases a; cases b) (auto intro: signed_word_eqI)

lemma checked_cmp_antisym:
  "checked_cmp b a = map_err id (case checked_cmp a b of
      Inl e \<Rightarrow> Inl e | Inr r \<Rightarrow> Inr (map_option ordering_reverse r))"
  by (cases a; cases b) (auto simp: ord_cmp_reverse)

section \<open>Schemas and rows\<close>

record column =
  col_name :: string
  col_data_type :: data_type
  col_nullable :: bool
  col_primary_key :: bool

record schema =
  columns :: "column list"

record row =
  row_values :: "sql_value list"

definition ascii_lower :: "char \<Rightarrow> char" where
  "ascii_lower c = (if CHR ''A'' \<le> c \<and> c \<le> CHR ''Z'' then char_of (of_char c + (32 :: nat)) else c)"

definition to_ascii_lowercase :: "string \<Rightarrow> string" where
  "to_ascii_lowercase s = map ascii_lower s"

definition eq_ignore_ascii_case :: "string \<Rightarrow> string \<Rightarrow> bool" where
  "eq_ignore_ascii_case a b = (length a = length b
     \<and> list_all (\<lambda>(x, y). ascii_lower x = ascii_lower y) (zip a b))"

lemma eq_ignore_ascii_case_iff:
  "eq_ignore_ascii_case a b \<longleftrightarrow> to_ascii_lowercase a = to_ascii_lowercase b"
proof -
  have "length a = length b \<Longrightarrow>
      list_all (\<lambda>(x, y). ascii_lower x = ascii_lower y) (zip a b)
        \<longleftrightarrow> map ascii_lower a = map ascii_lower b"
    by (induction a b rule: list_induct2) auto
  then show ?thesis
    by (auto simp: eq_ignore_ascii_case_def to_ascii_lowercase_def dest: map_eq_imp_length_eq)
qed

fun validate_column_names :: "column list \<Rightarrow> column list \<Rightarrow> core_error + unit" where
  "validate_column_names seen [] = Inr ()"
| "validate_column_names seen (left # rest) =
     (if col_name left = [] then Inl (Constraint ''column names cannot be empty'')
      else if list_ex (\<lambda>right. eq_ignore_ascii_case (col_name right) (col_name left)) seen
      then Inl (Constraint ''duplicate column name'')
      else validate_column_names (seen @ [left]) rest)"

definition schema_validate :: "schema \<Rightarrow> core_error + nat" where
  "schema_validate s =
     (if columns s = [] then Inl (Constraint ''a table must have at least one column'')
      else if MAX_ROW_COLUMNS < length (columns s) then Inl (LimitExceeded ''schema columns'')
      else
        (let primary_keys = filter (\<lambda>(_, column). col_primary_key column)
               (enumerate 0 (columns s))
         in case primary_keys of
              [(primary_index, primary)] \<Rightarrow>
                if col_nullable primary then Inl (Constraint ''primary key cannot be nullable'')
                else rbind (validate_column_names [] (columns s)) (\<lambda>_. Inr primary_index)
            | _ \<Rightarrow> Inl (Constraint ''exactly one primary-key column is required'')))"

definition validate_cell :: "column \<times> sql_value \<Rightarrow> core_error + unit" where
  "validate_cell = (\<lambda>(column, v).
     case value_data_type v of
       None \<Rightarrow> if \<not> col_nullable column then Inl (Constraint ''column is not nullable'') else Inr ()
     | Some actual \<Rightarrow>
         if actual \<noteq> col_data_type column then Inl (TypeError ''column type mismatch'') else Inr ())"

definition validate_row :: "schema \<Rightarrow> row \<Rightarrow> core_error + unit" where
  "validate_row s r =
     rbind (schema_validate s) (\<lambda>_.
       if length (row_values r) \<noteq> length (columns s)
       then Inl (Constraint ''row arity'')
       else try_each validate_cell (zip (columns s) (row_values r)))"

section \<open>What validation establishes\<close>

text \<open>The declarative reading of the two checks.\<close>

definition folded_name :: "column \<Rightarrow> string" where
  "folded_name c = to_ascii_lowercase (col_name c)"

definition schema_ok :: "schema \<Rightarrow> nat \<Rightarrow> bool" where
  "schema_ok s pk \<longleftrightarrow>
     length (columns s) \<le> MAX_ROW_COLUMNS
     \<and> pk < length (columns s)
     \<and> (\<forall>i < length (columns s). col_primary_key (columns s ! i) \<longleftrightarrow> i = pk)
     \<and> \<not> col_nullable (columns s ! pk)
     \<and> (\<forall>c \<in> set (columns s). col_name c \<noteq> [])
     \<and> distinct (map folded_name (columns s))"

definition cell_ok :: "column \<Rightarrow> sql_value \<Rightarrow> bool" where
  "cell_ok c v \<longleftrightarrow> (if v = Null then col_nullable c else value_data_type v = Some (col_data_type c))"

definition row_ok :: "schema \<Rightarrow> row \<Rightarrow> bool" where
  "row_ok s r \<longleftrightarrow> list_all2 cell_ok (columns s) (row_values r)"

lemma seen_column_name:
  "list_ex (\<lambda>right. eq_ignore_ascii_case (col_name right) (col_name left)) seen
     \<longleftrightarrow> folded_name left \<in> folded_name ` set seen"
  by (auto simp: list_ex_iff eq_ignore_ascii_case_iff folded_name_def intro: rev_image_eqI)

lemma validate_column_names_ok:
  "validate_column_names seen cs = Inr u \<longleftrightarrow>
     (\<forall>c \<in> set cs. col_name c \<noteq> [])
     \<and> distinct (map folded_name cs)
     \<and> folded_name ` set cs \<inter> folded_name ` set seen = {}"
  by (induction seen cs rule: validate_column_names.induct) (auto simp: seen_column_name)

lemma distinct_singletonD: "set xs = {a} \<Longrightarrow> distinct xs \<Longrightarrow> xs = [a]"
  by (cases xs; cases "tl xs") auto

lemma filter_enumerate_singleton:
  "filter (\<lambda>(_, x). P x) (enumerate n xs) = [(i, x)] \<longleftrightarrow>
     n \<le> i \<and> i < n + length xs \<and> xs ! (i - n) = x
     \<and> (\<forall>j < length xs. P (xs ! j) \<longleftrightarrow> n + j = i)"
proof
  assume single: "filter (\<lambda>(_, x). P x) (enumerate n xs) = [(i, x)]"
  have mem: "(j, y) \<in> set (enumerate n xs) \<and> P y \<longleftrightarrow> j = i \<and> y = x" for j y
  proof -
    have "(j, y) \<in> set (filter (\<lambda>(_, x). P x) (enumerate n xs)) \<longleftrightarrow> (j, y) = (i, x)"
      by (simp add: single)
    then show ?thesis by auto
  qed
  have "P (xs ! j) \<longleftrightarrow> n + j = i" if "j < length xs" for j
    using mem[of "n + j" "xs ! j"] mem[of i x] that
    by (auto simp: in_set_enumerate_eq)
  moreover have "n \<le> i \<and> i < n + length xs \<and> xs ! (i - n) = x"
    using mem[of i x] by (auto simp: in_set_enumerate_eq)
  ultimately show "n \<le> i \<and> i < n + length xs \<and> xs ! (i - n) = x
     \<and> (\<forall>j < length xs. P (xs ! j) \<longleftrightarrow> n + j = i)"
    by blast
next
  assume r: "n \<le> i \<and> i < n + length xs \<and> xs ! (i - n) = x
     \<and> (\<forall>j < length xs. P (xs ! j) \<longleftrightarrow> n + j = i)"
  let ?f = "filter (\<lambda>(_, x). P x) (enumerate n xs)"
  have "set ?f = {(i, x)}"
    using r by (force simp: in_set_enumerate_eq)
  moreover have "distinct ?f" by simp
  ultimately show "?f = [(i, x)]"
    by (rule distinct_singletonD)
qed

lemma schema_validate_ok: "schema_validate s = Inr pk \<longleftrightarrow> schema_ok s pk"
proof -
  let ?cs = "columns s"
  let ?f = "filter (\<lambda>(_, column). col_primary_key column) (enumerate 0 ?cs)"
  have "schema_validate s = Inr pk \<longleftrightarrow>
      ?cs \<noteq> [] \<and> length ?cs \<le> MAX_ROW_COLUMNS
      \<and> (\<exists>p. ?f = [(pk, p)] \<and> \<not> col_nullable p \<and> validate_column_names [] ?cs = Inr ())"
    by (auto simp: schema_validate_def Let_def result_simps split: list.splits if_splits)
  then show ?thesis
    by (auto simp: filter_enumerate_singleton validate_column_names_ok schema_ok_def)
qed

lemma validate_cell_ok: "validate_cell (c, v) = Inr u \<longleftrightarrow> cell_ok c v"
  by (auto simp: validate_cell_def cell_ok_def split: option.splits)

lemma validate_row_ok:
  "validate_row s r = Inr u \<longleftrightarrow> (\<exists>pk. schema_ok s pk) \<and> row_ok s r"
  by (auto simp: validate_row_def result_simps schema_validate_ok row_ok_def
      list_all2_iff validate_cell_ok split: if_splits)

lemma schema_ok_unique: "schema_ok s i \<Longrightarrow> schema_ok s j \<Longrightarrow> i = j"
  by (auto simp: schema_ok_def)

text \<open>
  C1: \<open>Schema::validate_row\<close> accepts a row exactly when the schema has one non-null primary
  key column, its column names are non-empty and distinct up to ASCII case, the row has one
  value per column, and every value is either NULL in a nullable column or of the column's
  declared type.
\<close>

theorem validate_row_exact:
  "is_ok (validate_row s r) \<longleftrightarrow>
     (\<exists>pk. schema_ok s pk) \<and> list_all2 cell_ok (columns s) (row_values r)"
  by (auto simp: is_ok_iff validate_row_ok row_ok_def)

end
