(* ===== verification/Core_Codec.thy ===== *)
theory Core_Codec
  imports Core_Values
begin

text \<open>
  The binary codec of \<open>crates/aster-core/src/lib.rs\<close> (module \<open>codec\<close>): the row format written
  to disk and to the Raft log, and the order-preserving key format behind every MVCC and
  index key. Encoders take the output buffer and return it extended, as the source's
  \<open>&mut Vec<u8>\<close> argument; the decoder threads a \<open>cursor\<close>.
\<close>

section \<open>Strings as UTF-8 bytes\<close>

definition as_bytes :: "string \<Rightarrow> bytes" where
  "as_bytes s = map of_char s"

definition string_of_bytes :: "bytes \<Rightarrow> string" where
  "string_of_bytes bs = map (\<lambda>b. char_of (unat b)) bs"

definition in_range :: "u8 \<Rightarrow> u8 \<Rightarrow> u8 \<Rightarrow> bool" where
  "in_range lo hi b \<longleftrightarrow> lo \<le> b \<and> b \<le> hi"

text \<open>The well-formed byte sequences of the Unicode standard, as \<open>String::from_utf8\<close> checks them.\<close>

fun utf8_valid :: "bytes \<Rightarrow> bool" where
  "utf8_valid [] = True"
| "utf8_valid (b # bs) =
     (if b < 0x80 then utf8_valid bs
      else if in_range 0xC2 0xDF b then
        (case bs of c1 # r \<Rightarrow> in_range 0x80 0xBF c1 \<and> utf8_valid r | _ \<Rightarrow> False)
      else if in_range 0xE0 0xEF b then
        (case bs of
           c1 # c2 # r \<Rightarrow>
             in_range (if b = 0xE0 then 0xA0 else 0x80) (if b = 0xED then 0x9F else 0xBF) c1
             \<and> in_range 0x80 0xBF c2 \<and> utf8_valid r
         | _ \<Rightarrow> False)
      else if in_range 0xF0 0xF4 b then
        (case bs of
           c1 # c2 # c3 # r \<Rightarrow>
             in_range (if b = 0xF0 then 0x90 else 0x80) (if b = 0xF4 then 0x8F else 0xBF) c1
             \<and> in_range 0x80 0xBF c2 \<and> in_range 0x80 0xBF c3 \<and> utf8_valid r
         | _ \<Rightarrow> False)
      else False)"

definition from_utf8 :: "bytes \<Rightarrow> core_error + string" where
  "from_utf8 bs = (if utf8_valid bs then Inr (string_of_bytes bs)
                   else Inl (InvalidEncoding ''invalid utf-8''))"

lemma unat_of_char: "unat (of_char c :: u8) = of_char c"
proof -
  have "(of_char c :: u8) = of_nat (of_char c)" by (simp only: of_nat_of_char)
  moreover have "(of_char c :: nat) < 256" by simp
  ultimately show ?thesis by (simp only: unat_of_nat) simp
qed

lemma of_char_char_of_unat: "of_char (char_of (unat b)) = (b :: u8)"
  using unat_u8_less[of b] by (simp add: word_unat_eq_iff unat_of_char)

lemma string_of_as_bytes [simp]: "string_of_bytes (as_bytes s) = s"
  by (induction s) (auto simp: as_bytes_def string_of_bytes_def unat_of_char)

lemma as_bytes_of_string [simp]: "as_bytes (string_of_bytes bs) = bs"
  by (induction bs) (auto simp: as_bytes_def string_of_bytes_def of_char_char_of_unat)

lemma as_bytes_inject [simp]: "as_bytes s = as_bytes t \<longleftrightarrow> s = t"
  by (metis string_of_as_bytes)

lemma length_as_bytes [simp]: "length (as_bytes s) = length s"
  by (simp add: as_bytes_def)

lemma as_bytes_less_iff: "as_bytes s < as_bytes t \<longleftrightarrow> s < t"
proof (induction s arbitrary: t)
  case Nil
  then show ?case by (cases t) (auto simp: as_bytes_def)
next
  case (Cons c s)
  have "(of_char c :: u8) < of_char d \<longleftrightarrow> c < d" for d
    by (simp add: word_less_nat_alt unat_of_char less_char_def)
  moreover have "(of_char c :: u8) = of_char d \<longleftrightarrow> c = d" for d
    by (simp add: word_unat_eq_iff unat_of_char)
  ultimately show ?case using Cons by (cases t) (auto simp: as_bytes_def)
qed

section \<open>The row format\<close>

definition encode_bytes :: "bytes \<Rightarrow> bytes \<Rightarrow> core_error + bytes" where
  "encode_bytes v out =
     (if MAX_VALUE_BYTES < length v then Inl (LimitExceeded ''value bytes'')
      else if 2 ^ 32 \<le> length v then Inl (LimitExceeded ''value length does not fit encoding'')
      else Inr (out @ u32_to_le (of_nat (length v)) @ v))"

fun encode_value :: "sql_value \<Rightarrow> bytes \<Rightarrow> core_error + bytes" where
  "encode_value Null out = Inr (out @ [0])"
| "encode_value (Int64 i) out = Inr (out @ [1] @ u64_to_le i)"
| "encode_value (Bool False) out = Inr (out @ [2])"
| "encode_value (Bool True) out = Inr (out @ [3])"
| "encode_value (Text s) out = encode_bytes (as_bytes s) (out @ [4])"
| "encode_value (Bytes b) out = encode_bytes b (out @ [5])"

definition encode_row :: "row \<Rightarrow> core_error + bytes" where
  "encode_row r =
     (if MAX_ROW_COLUMNS < length (row_values r) then Inl (LimitExceeded ''too many row values'')
      else if 2 ^ 32 \<le> length (row_values r)
      then Inl (LimitExceeded ''row value count does not fit encoding'')
      else try_fold (\<lambda>out v. encode_value v out)
             (u32_to_le (of_nat (length (row_values r)))) (row_values r))"

record cursor =
  cur_input :: bytes
  cur_offset :: nat

definition cursor_new :: "bytes \<Rightarrow> cursor" where
  "cursor_new input = \<lparr>cur_input = input, cur_offset = 0\<rparr>"

definition cursor_take :: "nat \<Rightarrow> cursor \<Rightarrow> core_error + bytes \<times> cursor" where
  "cursor_take count c =
     (if 2 ^ 64 \<le> cur_offset c + count then Inl (InvalidEncoding ''offset overflow'')
      else if length (cur_input c) < cur_offset c + count
      then Inl (InvalidEncoding ''truncated input'')
      else Inr (take count (drop (cur_offset c) (cur_input c)),
                c\<lparr>cur_offset := cur_offset c + count\<rparr>))"

definition cursor_byte :: "cursor \<Rightarrow> core_error + u8 \<times> cursor" where
  "cursor_byte c = rbind (cursor_take 1 c) (\<lambda>(bs, c'). Inr (hd bs, c'))"

definition cursor_u32 :: "cursor \<Rightarrow> core_error + u32 \<times> cursor" where
  "cursor_u32 c = rbind (cursor_take 4 c) (\<lambda>(bs, c'). Inr (u32_from_le bs, c'))"

definition cursor_i64 :: "cursor \<Rightarrow> core_error + u64 \<times> cursor" where
  "cursor_i64 c = rbind (cursor_take 8 c) (\<lambda>(bs, c'). Inr (u64_from_le bs, c'))"

definition cursor_bytes :: "cursor \<Rightarrow> core_error + bytes \<times> cursor" where
  "cursor_bytes c = rbind (cursor_u32 c) (\<lambda>(n, c').
     if MAX_VALUE_BYTES < unat n then Inl (LimitExceeded ''encoded value bytes'')
     else cursor_take (unat n) c')"

definition cursor_finish :: "cursor \<Rightarrow> core_error + unit" where
  "cursor_finish c = (if cur_offset c = length (cur_input c) then Inr ()
                      else Inl (InvalidEncoding ''trailing bytes''))"

definition decode_value :: "cursor \<Rightarrow> core_error + sql_value \<times> cursor" where
  "decode_value c = rbind (cursor_byte c) (\<lambda>(tag, c1).
     if tag = 0 then Inr (Null, c1)
     else if tag = 1 then rbind (cursor_i64 c1) (\<lambda>(i, c2). Inr (Int64 i, c2))
     else if tag = 2 then Inr (Bool False, c1)
     else if tag = 3 then Inr (Bool True, c1)
     else if tag = 4 then rbind (cursor_bytes c1) (\<lambda>(bs, c2).
            rbind (from_utf8 bs) (\<lambda>s. Inr (Text s, c2)))
     else if tag = 5 then rbind (cursor_bytes c1) (\<lambda>(bs, c2). Inr (Bytes bs, c2))
     else Inl (InvalidEncoding ''unknown value tag''))"

fun decode_values :: "nat \<Rightarrow> cursor \<Rightarrow> core_error + sql_value list \<times> cursor" where
  "decode_values 0 c = Inr ([], c)"
| "decode_values (Suc n) c = rbind (decode_value c) (\<lambda>(v, c1).
     rbind (decode_values n c1) (\<lambda>(vs, c2). Inr (v # vs, c2)))"

definition decode_row :: "bytes \<Rightarrow> core_error + row" where
  "decode_row input = rbind (cursor_u32 (cursor_new input)) (\<lambda>(count, c).
     if MAX_ROW_COLUMNS < unat count then Inl (LimitExceeded ''encoded row values'')
     else rbind (decode_values (unat count) c) (\<lambda>(vs, c').
       rbind (cursor_finish c') (\<lambda>_. Inr \<lparr>row_values = vs\<rparr>)))"

section \<open>The key format\<close>

fun encode_memcomparable :: "bytes \<Rightarrow> bytes \<Rightarrow> bytes" where
  "encode_memcomparable [] out = out @ [0, 0]"
| "encode_memcomparable (b # bs) out =
     encode_memcomparable bs (if b = 0 then out @ [0, 0xFF] else out @ [b])"

definition sign_bit :: u64 where
  "sign_bit = push_bit 63 1"

definition sortable :: "u64 \<Rightarrow> u64" where
  "sortable i = i XOR sign_bit"

fun encode_ordered :: "sql_value \<Rightarrow> bytes \<Rightarrow> bytes" where
  "encode_ordered Null out = out @ [0]"
| "encode_ordered (Int64 i) out = out @ [1] @ u64_to_be (sortable i)"
| "encode_ordered (Bool False) out = out @ [2]"
| "encode_ordered (Bool True) out = out @ [3]"
| "encode_ordered (Text s) out = encode_memcomparable (as_bytes s) (out @ [4])"
| "encode_ordered (Bytes b) out = encode_memcomparable b (out @ [5])"

definition encode_mvcc_key :: "u64 \<Rightarrow> sql_value \<Rightarrow> u64 \<Rightarrow> core_error + bytes" where
  "encode_mvcc_key table_id primary_key commit_timestamp =
     Inr (encode_ordered primary_key (u64_to_be table_id) @ u64_to_be (NOT commit_timestamp))"

definition value_matches_type :: "sql_value \<Rightarrow> data_type \<Rightarrow> bool \<Rightarrow> bool" where
  "value_matches_type v expected nullable \<longleftrightarrow>
     (is_null v \<and> nullable) \<or> value_data_type v = Some expected"

section \<open>Decoders as inverses of encoders\<close>

text \<open>
  \<open>decodes d E\<close>: on every cursor, \<open>d\<close> returns \<open>x\<close> and the advanced cursor exactly when the
  unread input starts with an encoding of \<open>x\<close> in the sense of \<open>E\<close>. The rules below follow
  the shape of the decoders, so the round trip of the whole row format is one composition.
\<close>

definition remaining :: "cursor \<Rightarrow> bytes" where
  "remaining c = drop (cur_offset c) (cur_input c)"

definition cursor_ok :: "cursor \<Rightarrow> bool" where
  "cursor_ok c \<longleftrightarrow> cur_offset c \<le> length (cur_input c) \<and> length (cur_input c) < 2 ^ 64"

definition advance :: "cursor \<Rightarrow> nat \<Rightarrow> cursor" where
  "advance c n = c\<lparr>cur_offset := cur_offset c + n\<rparr>"

definition decodes ::
  "(cursor \<Rightarrow> core_error + 'a \<times> cursor) \<Rightarrow> ('a \<Rightarrow> bytes \<Rightarrow> bool) \<Rightarrow> bool" where
  "decodes d E \<longleftrightarrow> (\<forall>c x c'. cursor_ok c \<longrightarrow>
     (d c = Inr (x, c') \<longleftrightarrow>
        (\<exists>e r. E x e \<and> remaining c = e @ r \<and> c' = advance c (length e))))"

lemma decodesD:
  "decodes d E \<Longrightarrow> cursor_ok c \<Longrightarrow> d c = Inr (x, c') \<longleftrightarrow>
     (\<exists>e r. E x e \<and> remaining c = e @ r \<and> c' = advance c (length e))"
  unfolding decodes_def by blast

lemma advance_simps [simp]:
  "advance c 0 = c" "advance (advance c m) n = advance c (m + n)"
  by (simp_all add: advance_def add.assoc)

lemma remaining_advance:
  assumes "remaining c = e @ r"
  shows "remaining (advance c (length e)) = r"
proof -
  have "drop (length e) (drop (cur_offset c) (cur_input c)) = r"
    using assms by (simp add: remaining_def)
  then show ?thesis by (simp add: remaining_def advance_def add.commute)
qed

lemma cursor_ok_advance:
  assumes "cursor_ok c" and "remaining c = e @ r"
  shows "cursor_ok (advance c (length e))"
proof -
  have "length (cur_input c) - cur_offset c = length e + length r"
    using arg_cong[OF assms(2), of length] by (simp add: remaining_def)
  with assms(1) have "cur_offset c + length e \<le> length (cur_input c)"
    unfolding cursor_ok_def by linarith
  with assms(1) show ?thesis by (simp add: cursor_ok_def advance_def)
qed

lemma decodes_take: "decodes (cursor_take n) (\<lambda>x e. x = e \<and> length e = n)"
  unfolding decodes_def
proof (intro allI impI)
  fix c x c'
  assume ok: "cursor_ok c"
  have "(\<exists>e r. (x = e \<and> length e = n) \<and> remaining c = e @ r \<and> c' = advance c (length e))
      \<longleftrightarrow> n \<le> length (remaining c) \<and> x = take n (remaining c) \<and> c' = advance c n"
    by (auto simp: min_def intro: exI[of _ "drop n (remaining c)"])
  then show "cursor_take n c = Inr (x, c') \<longleftrightarrow>
      (\<exists>e r. (x = e \<and> length e = n) \<and> remaining c = e @ r \<and> c' = advance c (length e))"
    using ok by (auto simp: cursor_take_def cursor_ok_def remaining_def advance_def split: if_splits)
qed

lemma decodes_return: "decodes (\<lambda>c. Inr (y, c)) (\<lambda>x e. x = y \<and> e = [])"
  by (auto simp: decodes_def)

lemma decodes_fail: "decodes (\<lambda>c. Inl err) (\<lambda>_ _. False)"
  by (auto simp: decodes_def)

lemma decodes_bind:
  assumes "decodes d E" and "\<And>x. decodes (f x) (F x)"
  shows "decodes (\<lambda>c. rbind (d c) (\<lambda>(x, c1). f x c1))
           (\<lambda>y e. \<exists>x e1 e2. E x e1 \<and> F x y e2 \<and> e = e1 @ e2)"
  unfolding decodes_def
proof (intro allI impI)
  fix c y c'
  assume ok: "cursor_ok c"
  have "rbind (d c) (\<lambda>(x, c1). f x c1) = Inr (y, c') \<longleftrightarrow>
      (\<exists>x e1 r. E x e1 \<and> remaining c = e1 @ r \<and> f x (advance c (length e1)) = Inr (y, c'))"
    by (auto simp: result_simps decodesD[OF assms(1) ok])
  also have "\<dots> \<longleftrightarrow> (\<exists>x e1 r. E x e1 \<and> remaining c = e1 @ r \<and>
      (\<exists>e2 s. F x y e2 \<and> r = e2 @ s \<and> c' = advance c (length e1 + length e2)))"
    using cursor_ok_advance[OF ok] decodesD[OF assms(2)] remaining_advance
    by (simp cong: conj_cong)
  also have "\<dots> \<longleftrightarrow> (\<exists>e r. (\<exists>x e1 e2. E x e1 \<and> F x y e2 \<and> e = e1 @ e2)
      \<and> remaining c = e @ r \<and> c' = advance c (length e))"
  proof (intro iffI; elim exE conjE)
    fix x e1 r e2 t
    assume "E x e1" "remaining c = e1 @ r" "F x y e2" "r = e2 @ t"
      "c' = advance c (length e1 + length e2)"
    then show "\<exists>e r. (\<exists>x e1 e2. E x e1 \<and> F x y e2 \<and> e = e1 @ e2)
        \<and> remaining c = e @ r \<and> c' = advance c (length e)"
      by (intro exI[of _ "e1 @ e2"] exI[of _ t]) auto
  next
    fix e r x e1 e2
    assume "remaining c = e @ r" "c' = advance c (length e)" "E x e1" "F x y e2" "e = e1 @ e2"
    then show "\<exists>x e1 r. E x e1 \<and> remaining c = e1 @ r \<and>
        (\<exists>e2 s. F x y e2 \<and> r = e2 @ s \<and> c' = advance c (length e1 + length e2))"
      by (intro exI[of _ x] exI[of _ e1] exI[of _ "e2 @ r"]) auto
  qed
  finally show "rbind (d c) (\<lambda>(x, c1). f x c1) = Inr (y, c') \<longleftrightarrow> \<dots>" .
qed

lemma decodes_if:
  "decodes d E \<Longrightarrow> decodes d' E' \<Longrightarrow>
     decodes (\<lambda>c. if b then d c else d' c) (\<lambda>x e. if b then E x e else E' x e)"
  by (cases b) simp_all

lemma decodes_cong:
  assumes "decodes d E" and "\<And>x e. E x e \<longleftrightarrow> F x e"
  shows "decodes d F"
  using assms by (simp add: decodes_def)

text \<open>A stored value: text is UTF-8, as the type \<open>String\<close> guarantees.\<close>

definition value_wf :: "sql_value \<Rightarrow> bool" where
  "value_wf v = (case v of Text s \<Rightarrow> utf8_valid (as_bytes s) | _ \<Rightarrow> True)"

definition row_wf :: "row \<Rightarrow> bool" where
  "row_wf r = list_all value_wf (row_values r)"

lemma encode_bytes_out: "encode_bytes v out = rbind (encode_bytes v []) (\<lambda>e. Inr (out @ e))"
  by (simp add: encode_bytes_def)

lemma encode_bytes_append: "encode_bytes v (a @ b) = rbind (encode_bytes v b) (\<lambda>e. Inr (a @ e))"
  by (simp add: encode_bytes_def)

lemma encode_value_out: "encode_value v out = rbind (encode_value v []) (\<lambda>e. Inr (out @ e))"
  by (cases "(v, out)" rule: encode_value.cases) (simp_all add: encode_bytes_append)

lemma encode_bytes_iff:
  "encode_bytes v [] = Inr e \<longleftrightarrow>
     length v \<le> MAX_VALUE_BYTES \<and> e = u32_to_le (of_nat (length v)) @ v"
  by (auto simp: encode_bytes_def MAX_VALUE_BYTES_def)

lemma encode_value_text: "encode_value (Text s) [] = Inr e \<longleftrightarrow>
    (\<exists>e'. encode_bytes (as_bytes s) [] = Inr e' \<and> e = 4 # e')"
  using encode_bytes_append[of "as_bytes s" "[4]" "[]"] by (auto simp: result_simps)

lemma encode_value_bytes: "encode_value (Bytes b) [] = Inr e \<longleftrightarrow>
    (\<exists>e'. encode_bytes b [] = Inr e' \<and> e = 5 # e')"
  using encode_bytes_append[of b "[5]" "[]"] by (auto simp: result_simps)

lemma decodes_byte: "decodes cursor_byte (\<lambda>x e. e = [x])"
proof -
  have "decodes (\<lambda>c. rbind (cursor_take 1 c) (\<lambda>(bs, c'). Inr (hd bs, c'))) (\<lambda>y e.
      \<exists>x e1 e2. (x = e1 \<and> length e1 = 1) \<and> (y = hd x \<and> e2 = []) \<and> e = e1 @ e2)"
    by (rule decodes_bind[OF decodes_take decodes_return])
  then show ?thesis
    unfolding cursor_byte_def
    by (rule decodes_cong) (auto simp: length_Suc_conv)
qed

lemma u32_to_from_le: "length bs = 4 \<Longrightarrow> u32_to_le (u32_from_le bs) = bs"
  using le_val_bound[of bs] le_bytes_le_val[of bs]
  by (simp add: u32_to_le_def u32_from_le_def unat_of_nat)

lemma u64_to_from_le: "length bs = 8 \<Longrightarrow> u64_to_le (u64_from_le bs) = bs"
  using le_val_bound[of bs] le_bytes_le_val[of bs]
  by (simp add: u64_to_le_def u64_from_le_def unat_of_nat)

lemma decodes_u32: "decodes cursor_u32 (\<lambda>x e. e = u32_to_le x)"
proof -
  have "decodes (\<lambda>c. rbind (cursor_take 4 c) (\<lambda>(bs, c'). Inr (u32_from_le bs, c'))) (\<lambda>y e.
      \<exists>x e1 e2. (x = e1 \<and> length e1 = 4) \<and> (y = u32_from_le x \<and> e2 = []) \<and> e = e1 @ e2)"
    by (rule decodes_bind[OF decodes_take decodes_return])
  then show ?thesis
    unfolding cursor_u32_def
    by (rule decodes_cong) (auto simp: u32_to_from_le)
qed

lemma decodes_i64: "decodes cursor_i64 (\<lambda>x e. e = u64_to_le x)"
proof -
  have "decodes (\<lambda>c. rbind (cursor_take 8 c) (\<lambda>(bs, c'). Inr (u64_from_le bs, c'))) (\<lambda>y e.
      \<exists>x e1 e2. (x = e1 \<and> length e1 = 8) \<and> (y = u64_from_le x \<and> e2 = []) \<and> e = e1 @ e2)"
    by (rule decodes_bind[OF decodes_take decodes_return])
  then show ?thesis
    unfolding cursor_i64_def
    by (rule decodes_cong) (auto simp: u64_to_from_le)
qed

lemma decodes_bytes: "decodes cursor_bytes (\<lambda>x e. encode_bytes x [] = Inr e)"
proof -
  have "decodes (\<lambda>c. rbind (cursor_u32 c) (\<lambda>(n, c').
       if MAX_VALUE_BYTES < unat n then Inl (LimitExceeded ''encoded value bytes'')
       else cursor_take (unat n) c'))
     (\<lambda>y e. \<exists>x e1 e2. e1 = u32_to_le x \<and>
        (if MAX_VALUE_BYTES < unat x then False else y = e2 \<and> length e2 = unat x)
        \<and> e = e1 @ e2)"
    by (intro decodes_bind decodes_u32 decodes_if decodes_fail decodes_take)
  moreover have "(\<exists>x e1 e2. e1 = u32_to_le x \<and>
        (if MAX_VALUE_BYTES < unat x then False else y = e2 \<and> length e2 = unat x)
        \<and> e = e1 @ e2) \<longleftrightarrow> encode_bytes y [] = Inr e" for y e
  proof -
    have "unat (of_nat (length y) :: u32) = length y" if "length y \<le> MAX_VALUE_BYTES"
      using that by (simp add: unat_of_nat MAX_VALUE_BYTES_def)
    then show ?thesis
      by (auto simp: encode_bytes_iff not_less intro!: exI[of _ "of_nat (length y)"])
  qed
  ultimately show ?thesis
    unfolding cursor_bytes_def by (rule decodes_cong)
qed

lemma decodes_map:
  assumes "decodes d E"
  shows "decodes (\<lambda>c. rbind (d c) (\<lambda>(x, c1). Inr (f x, c1))) (\<lambda>y e. \<exists>x. E x e \<and> y = f x)"
  using decodes_bind[OF assms decodes_return, of f] by (rule decodes_cong) auto

lemma decodes_text:
  "decodes (\<lambda>c. rbind (cursor_bytes c) (\<lambda>(bs, c2). rbind (from_utf8 bs) (\<lambda>s. Inr (Text s, c2))))
     (\<lambda>v e. \<exists>s. v = Text s \<and> utf8_valid (as_bytes s) \<and> encode_bytes (as_bytes s) [] = Inr e)"
proof -
  have inner: "decodes (\<lambda>c2. rbind (from_utf8 bs) (\<lambda>s. Inr (Text s, c2)))
      (\<lambda>v e. utf8_valid bs \<and> v = Text (string_of_bytes bs) \<and> e = [])" for bs
    by (cases "utf8_valid bs") (auto simp: from_utf8_def decodes_def)
  show ?thesis
    by (rule decodes_cong[OF decodes_bind[OF decodes_bytes inner]])
      (metis as_bytes_of_string string_of_as_bytes append_Nil2)
qed

lemma decodes_value: "decodes decode_value (\<lambda>v e. encode_value v [] = Inr e \<and> value_wf v)"
proof -
  let ?E = "\<lambda>tag v e.
     if tag = 0 then v = Null \<and> e = []
     else if tag = 1 then \<exists>i. e = u64_to_le i \<and> v = Int64 i
     else if tag = 2 then v = Bool False \<and> e = []
     else if tag = 3 then v = Bool True \<and> e = []
     else if tag = 4 then
       \<exists>s. v = Text s \<and> utf8_valid (as_bytes s) \<and> encode_bytes (as_bytes s) [] = Inr e
     else if tag = 5 then \<exists>b. encode_bytes b [] = Inr e \<and> v = Bytes b
     else False"
  have "decodes decode_value (\<lambda>v e. \<exists>tag e1 e2. e1 = [tag] \<and> ?E tag v e2 \<and> e = e1 @ e2)"
    unfolding decode_value_def
    by (intro decodes_bind decodes_byte decodes_if decodes_return decodes_map decodes_i64
        decodes_text decodes_bytes decodes_fail)
  moreover have "(\<exists>tag e1 e2. e1 = [tag] \<and> ?E tag v e2 \<and> e = e1 @ e2) \<longleftrightarrow>
      encode_value v [] = Inr e \<and> value_wf v" for v e
  proof (cases e)
    case Nil
    then show ?thesis
      by (cases "(v, [] :: bytes)" rule: encode_value.cases) (auto simp: encode_bytes_def)
  next
    case (Cons t e2)
    then have "(\<exists>tag e1 e2. e1 = [tag] \<and> ?E tag v e2 \<and> e = e1 @ e2) \<longleftrightarrow> ?E t v e2"
      by auto
    also have "\<dots> \<longleftrightarrow> encode_value v [] = Inr (t # e2) \<and> value_wf v"
      by (cases "(v, [] :: bytes)" rule: encode_value.cases)
        (auto simp: value_wf_def encode_value_text encode_value_bytes
          simp del: encode_value.simps(5,6))
    finally show ?thesis using Cons by simp
  qed
  ultimately show ?thesis by (rule decodes_cong)
qed

abbreviation encode_values :: "bytes \<Rightarrow> sql_value list \<Rightarrow> core_error + bytes" where
  "encode_values \<equiv> try_fold (\<lambda>out v. encode_value v out)"

lemma encode_values_out:
  "encode_values out vs = rbind (encode_values [] vs) (\<lambda>e. Inr (out @ e))"
proof (induction vs arbitrary: out)
  case (Cons v vs)
  show ?case
  proof (cases "encode_value v []")
    case (Inl err)
    then show ?thesis by (simp add: encode_value_out[of v out])
  next
    case (Inr e)
    then show ?thesis
      using Cons[of "out @ e"] Cons[of e] by (simp add: encode_value_out[of v out] rbind_assoc)
  qed
qed simp

lemma decodes_values:
  "decodes (decode_values n)
     (\<lambda>vs e. length vs = n \<and> encode_values [] vs = Inr e \<and> list_all value_wf vs)"
proof (induction n)
  case 0
  have "decode_values 0 = (\<lambda>c. Inr ([], c))" by (rule ext) simp
  then show ?case
    by (simp only:) (rule decodes_cong[OF decodes_return], auto)
next
  case (Suc n)
  have "decodes (decode_values (Suc n)) (\<lambda>ws e. \<exists>v e1 e2.
      (encode_value v [] = Inr e1 \<and> value_wf v)
      \<and> (\<exists>vs. (length vs = n \<and> encode_values [] vs = Inr e2 \<and> list_all value_wf vs) \<and> ws = v # vs)
      \<and> e = e1 @ e2)"
    unfolding decode_values.simps by (intro decodes_bind decodes_value decodes_map Suc)
  moreover have "(\<exists>v e1 e2. (encode_value v [] = Inr e1 \<and> value_wf v)
      \<and> (\<exists>vs. (length vs = n \<and> encode_values [] vs = Inr e2 \<and> list_all value_wf vs) \<and> ws = v # vs)
      \<and> e = e1 @ e2) \<longleftrightarrow>
      length ws = Suc n \<and> encode_values [] ws = Inr e \<and> list_all value_wf ws" for ws e
  proof (cases ws)
    case (Cons w ws')
    have "encode_values [] (w # ws') = Inr e \<longleftrightarrow>
        (\<exists>e1 e2. encode_value w [] = Inr e1 \<and> encode_values [] ws' = Inr e2 \<and> e = e1 @ e2)"
    proof (cases "encode_value w []")
      case (Inr e1)
      then show ?thesis using encode_values_out[of e1 ws'] by (auto simp: result_simps)
    qed simp
    with Cons show ?thesis by auto
  qed auto
  ultimately show ?case by (rule decodes_cong)
qed

lemma remaining_new [simp]: "remaining (cursor_new bs) = bs"
  by (simp add: remaining_def cursor_new_def)

lemma finish_iff: "cursor_ok c \<Longrightarrow> cursor_finish c = Inr u \<longleftrightarrow> remaining c = []"
  by (auto simp: cursor_finish_def remaining_def cursor_ok_def)

lemma decodes_whole:
  assumes "decodes d E" and "cursor_ok c"
  shows "rbind (d c) (\<lambda>(x, c'). rbind (cursor_finish c') (\<lambda>_. Inr (f x))) = Inr y
    \<longleftrightarrow> (\<exists>x. E x (remaining c) \<and> y = f x)"
proof -
  have fin: "cursor_finish (advance c (length e)) = Inr () \<longleftrightarrow> r = []" if "remaining c = e @ r" for e r
    using finish_iff[OF cursor_ok_advance[OF assms(2) that]] remaining_advance[OF that] by simp
  have "rbind (d c) (\<lambda>(x, c'). rbind (cursor_finish c') (\<lambda>_. Inr (f x))) = Inr y
      \<longleftrightarrow> (\<exists>x c'. d c = Inr (x, c') \<and> cursor_finish c' = Inr () \<and> y = f x)"
    by (auto simp: result_simps)
  also have "\<dots> \<longleftrightarrow> (\<exists>x e r. E x e \<and> remaining c = e @ r
      \<and> cursor_finish (advance c (length e)) = Inr () \<and> y = f x)"
    by (auto simp: decodesD[OF assms])
  also have "\<dots> \<longleftrightarrow> (\<exists>x e r. E x e \<and> remaining c = e @ r \<and> r = [] \<and> y = f x)"
    by (simp add: fin cong: conj_cong)
  finally show ?thesis by simp
qed

lemma encode_row_iff:
  "encode_row r = Inr bs \<longleftrightarrow> length (row_values r) \<le> MAX_ROW_COLUMNS
     \<and> (\<exists>e. encode_values [] (row_values r) = Inr e
            \<and> bs = u32_to_le (of_nat (length (row_values r))) @ e)"
  using encode_values_out[of "u32_to_le (of_nat (length (row_values r)))" "row_values r"]
  by (auto simp: encode_row_def MAX_ROW_COLUMNS_def result_simps)

lemma decode_row_iff:
  assumes "length bs < 2 ^ 64"
  shows "decode_row bs = Inr r \<longleftrightarrow> encode_row r = Inr bs \<and> row_wf r"
proof -
  have ok: "cursor_ok (cursor_new bs)"
    using assms by (simp add: cursor_ok_def cursor_new_def)
  let ?body = "\<lambda>n c. if MAX_ROW_COLUMNS < unat n then Inl (LimitExceeded ''encoded row values'')
      else decode_values (unat n) c"
  let ?d = "\<lambda>c. rbind (cursor_u32 c) (\<lambda>(n, c). ?body n c)"
  have d: "decodes ?d (\<lambda>vs e. \<exists>n e1 e2. e1 = u32_to_le n
      \<and> (if MAX_ROW_COLUMNS < unat n then False
         else length vs = unat n \<and> encode_values [] vs = Inr e2 \<and> list_all value_wf vs)
      \<and> e = e1 @ e2)"
    by (intro decodes_bind decodes_u32 decodes_if decodes_fail decodes_values)
  have "decode_row bs = rbind (?d (cursor_new bs)) (\<lambda>(vs, c').
      rbind (cursor_finish c') (\<lambda>_. Inr \<lparr>row_values = vs\<rparr>))"
    by (cases "cursor_u32 (cursor_new bs)") (simp_all add: decode_row_def split_beta)
  then have "decode_row bs = Inr r \<longleftrightarrow>
      (\<exists>n e2. unat n \<le> MAX_ROW_COLUMNS \<and> length (row_values r) = unat n
        \<and> encode_values [] (row_values r) = Inr e2 \<and> row_wf r \<and> bs = u32_to_le n @ e2)"
    by (cases r) (auto simp: decodes_whole[OF d ok] row_wf_def not_less split: if_splits)
  also have "\<dots> \<longleftrightarrow> encode_row r = Inr bs \<and> row_wf r"
    by (auto simp: encode_row_iff unat_of_nat MAX_ROW_COLUMNS_def
        intro!: exI[of _ "of_nat (length (row_values r))"])
  finally show ?thesis .
qed

lemma decodes_unique:
  assumes "decodes d E" "E x e" "E y e" "length e < 2 ^ 64"
  shows "x = y"
proof -
  have ok: "cursor_ok (cursor_new e)" using assms(4) by (simp add: cursor_ok_def cursor_new_def)
  have "d (cursor_new e) = Inr (x, advance (cursor_new e) (length e))"
    "d (cursor_new e) = Inr (y, advance (cursor_new e) (length e))"
    using decodesD[OF assms(1) ok] assms(2,3) by auto
  then show ?thesis by simp
qed

text \<open>
  C2: The row codec is exact. On any input a Rust slice can have, \<open>decode_row\<close> accepts a
  byte string and returns a row if and only if \<open>encode_row\<close> maps that row to that byte string
  (and its text is UTF-8): decoding inverts encoding, and no row has a second encoding, no
  trailing bytes are accepted and no limit is bypassed.
\<close>

theorem row_codec_exact:
  assumes "length bs < 2 ^ 64"
  shows "decode_row bs = Inr r \<longleftrightarrow> encode_row r = Inr bs \<and> row_wf r"
  using assms by (rule decode_row_iff)

theorem row_codec_exact_witness:
  "length [1, 0, 0, 0, 3 :: u8] < 2 ^ 64
   \<and> decode_row [1, 0, 0, 0, 3] = Inr \<lparr>row_values = [Bool True]\<rparr>"
proof
  show len: "length [1, 0, 0, 0, 3 :: u8] < 2 ^ 64" by simp
  have "encode_row \<lparr>row_values = [Bool True]\<rparr> = Inr [1, 0, 0, 0, 3]"
    by (simp add: encode_row_def MAX_ROW_COLUMNS_def u32_to_le_def le_bytes_numeral)
  moreover have "row_wf \<lparr>row_values = [Bool True]\<rparr>"
    by (simp add: row_wf_def value_wf_def)
  ultimately show "decode_row [1, 0, 0, 0, 3] = Inr \<lparr>row_values = [Bool True]\<rparr>"
    using row_codec_exact[OF len] by blast
qed

section \<open>The key format preserves order\<close>

lemma encode_memcomparable_out: "encode_memcomparable v out = out @ encode_memcomparable v []"
proof (induction v arbitrary: out)
  case (Cons b bs)
  show ?case
    using Cons[of "out @ [0, 0xFF]"] Cons[of "[0, 0xFF]"] Cons[of "out @ [b]"] Cons[of "[b]"]
    by simp
qed simp

lemma encode_memcomparable_Cons:
  "encode_memcomparable (b # bs) [] = (if b = 0 then [0, 0xFF] else [b]) @ encode_memcomparable bs []"
  using encode_memcomparable_out[of bs "[0, 0xFF]"] encode_memcomparable_out[of bs "[b]"] by simp

lemma encode_ordered_out: "encode_ordered v out = out @ encode_ordered v []"
  using encode_memcomparable_out[of _ "out @ [4]"] encode_memcomparable_out[of _ "[4]"]
    encode_memcomparable_out[of _ "out @ [5]"] encode_memcomparable_out[of _ "[5]"]
  by (cases "(v, out)" rule: encode_ordered.cases) auto

text \<open>
  Escaping a zero byte as \<open>00 FF\<close> and ending with \<open>00 00\<close> makes the code both monotone and
  self-delimiting: what follows the key decides only between equal strings.
\<close>

lemma memcomparable_less:
  "encode_memcomparable a [] @ s < encode_memcomparable b [] @ t \<longleftrightarrow> a < b \<or> a = b \<and> s < t"
proof (induction a arbitrary: b)
  case Nil
  show ?case
  proof (cases b)
    case (Cons y ys)
    then show ?thesis by (auto simp: encode_memcomparable_Cons word_gt_0 simp del: encode_memcomparable.simps(2))
  qed simp
next
  case (Cons x xs)
  have "\<not> x < 0" by simp
  show ?case
  proof (cases b)
    case Nil
    then show ?thesis by (auto simp: encode_memcomparable_Cons simp del: encode_memcomparable.simps(2))
  next
    case b: (Cons y ys)
    have "\<not> x < y" if "y = 0" using that by simp
    moreover have "x < y" if "x = 0" "y \<noteq> 0" using that by (simp add: word_gt_0)
    ultimately show ?thesis
      using b Cons.IH[of ys]
      by (auto simp: encode_memcomparable_Cons simp del: encode_memcomparable.simps(2))
  qed
qed

lemma bit_sign_bit: "bit sign_bit n \<longleftrightarrow> n = 63"
  unfolding sign_bit_def bit_push_bit_iff bit_1_iff by auto

lemma sortable_add: "sortable i = i + sign_bit"
proof (cases "bit i 63")
  case False
  have "i AND sign_bit = 0"
    by (rule bit_eqI) (use False in \<open>auto simp: bit_and_iff bit_sign_bit\<close>)
  then show ?thesis by (simp add: sortable_def disjunctive_add_eq_xor)
next
  case True
  have "(i XOR sign_bit) AND sign_bit = 0"
    by (rule bit_eqI) (use True in \<open>auto simp: bit_and_iff bit_xor_iff bit_sign_bit\<close>)
  then have "sortable i + sign_bit = (i XOR sign_bit) XOR sign_bit"
    unfolding sortable_def by (rule disjunctive_add_eq_xor)
  then have "sortable i + sign_bit = i" by (simp add: xor.assoc)
  then have "i + sign_bit = sortable i + (sign_bit + sign_bit)" by (metis add.assoc)
  moreover have "sign_bit + sign_bit = 0" by (simp add: sign_bit_def)
  ultimately show ?thesis by simp
qed

lemma uint_sortable: "uint (sortable i) = sint i + 2 ^ 63"
proof -
  have lo: "- (2 ^ 63) \<le> sint i" and hi: "sint i < 2 ^ 63"
    using sint_ge[of i] sint_lt[of i] by simp_all
  have "sortable i = word_of_int (sint i + 2 ^ 63)"
    unfolding sortable_add by (simp add: sign_bit_def)
  then have "uint (sortable i) = (sint i + 2 ^ 63) mod 2 ^ 64"
    by (simp only: uint_word_of_int) simp
  then show ?thesis using lo hi by simp
qed

lemma sortable_less: "sortable i < sortable j \<longleftrightarrow> sint i < sint j"
  unfolding word_less_def by (simp add: uint_sortable)

lemma sortable_inject: "sortable i = sortable j \<longleftrightarrow> i = j"
  by (simp add: sortable_add)

text \<open>The order of SQL keys: NULL first, then by type, then by value.\<close>

fun value_rank :: "sql_value \<Rightarrow> nat" where
  "value_rank Null = 0"
| "value_rank (Int64 _) = 1"
| "value_rank (Bool _) = 2"
| "value_rank (Text _) = 4"
| "value_rank (Bytes _) = 5"

fun value_less :: "sql_value \<Rightarrow> sql_value \<Rightarrow> bool" where
  "value_less (Int64 a) (Int64 b) = (sint a < sint b)"
| "value_less (Bool a) (Bool b) = (a < b)"
| "value_less (Text a) (Text b) = (a < b)"
| "value_less (Bytes a) (Bytes b) = (a < b)"
| "value_less a b = (value_rank a < value_rank b)"

lemma encode_ordered_Text: "encode_ordered (Text x) [] = 4 # encode_memcomparable (as_bytes x) []"
  using encode_memcomparable_out[of "as_bytes x" "[4]"] by simp

lemma encode_ordered_Bytes: "encode_ordered (Bytes x) [] = 5 # encode_memcomparable x []"
  using encode_memcomparable_out[of x "[5]"] by simp

lemma encode_ordered_Bool: "encode_ordered (Bool x) [] = [if x then 3 else 2]"
  by (cases x) auto

lemmas encode_ordered_simps =
  encode_ordered.simps(1,2) encode_ordered_Text encode_ordered_Bytes encode_ordered_Bool

lemma encode_ordered_less_append:
  "encode_ordered a [] @ s < encode_ordered b [] @ t \<longleftrightarrow> value_less a b \<or> a = b \<and> s < t"
  by (cases a; cases b)
    (auto simp: encode_ordered_simps memcomparable_less as_bytes_less_iff append_less_append_iff
      u64_to_be_less_iff sortable_less sortable_inject simp del: encode_ordered.simps(3-6))

lemma encode_ordered_less_iff: "encode_ordered a [] < encode_ordered b [] \<longleftrightarrow> value_less a b"
  using encode_ordered_less_append[of a "[]" b "[]"] by simp

lemma value_less_linear: "value_less a b \<or> a = b \<or> value_less b a"
  by (cases a; cases b) (auto intro: signed_word_eqI)

lemma value_less_irrefl [simp]: "\<not> value_less a a"
  by (cases a) auto

lemma encode_ordered_inject: "encode_ordered a [] = encode_ordered b [] \<longleftrightarrow> a = b"
  by (metis encode_ordered_less_iff less_irrefl value_less_linear)

lemma uint_not_u64: "uint (NOT (x :: u64)) = 2 ^ 64 - 1 - uint x"
proof -
  have u: "0 \<le> uint x" "uint x < 2 ^ 64" using uint_lt2p[of x] by simp_all
  have "uint (NOT x) = (- uint x - 1) mod 2 ^ 64"
    by (simp only: word_not_def uint_word_of_int not_eq_complement) simp
  also have "\<dots> = (2 ^ 64 - 1 - uint x) mod 2 ^ 64"
    using mod_add_self2[of "- uint x - 1" "2 ^ 64"] by (simp add: algebra_simps)
  also have "\<dots> = 2 ^ 64 - 1 - uint x"
    by (intro mod_pos_pos_trivial) (use u in linarith)+
  finally show ?thesis .
qed

lemma not_less_not_u64: "NOT (x :: u64) < NOT y \<longleftrightarrow> y < x"
  unfolding word_less_def by (simp add: uint_not_u64)

text \<open>
  C3: The key encoding agrees with \<open>Value::checked_cmp\<close>. NULL is incomparable, values of
  different types are a type error, and two values of one type compare exactly as their
  encodings compare as byte strings, so an ordered scan over encoded keys is an ordered scan
  over values.
\<close>

theorem ordered_key_agrees_with_cmp:
  "checked_cmp a b =
     (if a = Null \<or> b = Null then Inr None
      else if value_data_type a = value_data_type b
      then Inr (Some (ord_cmp (encode_ordered a []) (encode_ordered b [])))
      else Inl (TypeError ''cannot compare''))"
  by (cases a; cases b)
    (auto simp: ord_cmp_def encode_ordered_less_iff encode_ordered_inject
      simp del: encode_ordered.simps intro: signed_word_eqI)

text \<open>
  C4: MVCC keys sort by table, then by primary key, then by descending commit timestamp, so
  that the newest version of a row is the first key of its run.
\<close>

theorem mvcc_key_order:
  assumes "encode_mvcc_key t k c = Inr x" and "encode_mvcc_key t' k' c' = Inr y"
  shows "x < y \<longleftrightarrow> t < t' \<or> t = t' \<and> (value_less k k' \<or> k = k' \<and> c' < c)"
proof -
  have x: "x = u64_to_be t @ encode_ordered k [] @ u64_to_be (NOT c)"
    and y: "y = u64_to_be t' @ encode_ordered k' [] @ u64_to_be (NOT c')"
    using assms encode_ordered_out[of k "u64_to_be t"] encode_ordered_out[of k' "u64_to_be t'"]
    by (simp_all add: encode_mvcc_key_def)
  show ?thesis
    unfolding x y
    by (simp add: append_less_append_iff encode_ordered_less_append u64_to_be_less_iff
        not_less_not_u64)
qed

theorem mvcc_key_order_witness:
  "\<exists>x y. encode_mvcc_key 7 (Int64 42) 11 = Inr x \<and> encode_mvcc_key 7 (Int64 42) 10 = Inr y \<and> x < y"
proof -
  obtain x y where xy: "encode_mvcc_key 7 (Int64 42) 11 = Inr x" "encode_mvcc_key 7 (Int64 42) 10 = Inr y"
    by (simp add: encode_mvcc_key_def)
  from mvcc_key_order[OF xy] have "x < y" by simp
  with xy show ?thesis by blast
qed

end
