(* ===== verification/Engine_Catalog.thy ===== *)
theory Engine_Catalog
  imports Core_Codec
begin

text \<open>
  The transactional catalog of \<open>crates/aster-engine/src/catalog.rs\<close>, with the engine's error
  type of \<open>error.rs\<close>: table and index metadata, the case-folded name lookups, the two
  mutations, and the validation a restored snapshot goes through.
\<close>

section \<open>Definitions\<close>

text \<open>
  The constructors of \<open>EngineError\<close>, and \<open>Panic\<close>, which is not one of them: it stands for the
  abort of the thread when the source indexes a slice out of range.
\<close>

datatype engine_error =
    Core core_error
  | UnknownTable u64
  | UnknownIndex u64
  | UnknownColumn string string
  | TransactionFinished u64
  | SnapshotTooOld u64 u64
  | ApplyGap u64 u64
  | ApplyHashMismatch u64
  | CommandHashMismatch
  | InvalidAttempt string
  | InvalidSnapshot string
  | Expression string
  | Panic

definition normalize :: "string \<Rightarrow> string" where
  "normalize name = to_ascii_lowercase name"

definition is_ascii_alphabetic :: "char \<Rightarrow> bool" where
  "is_ascii_alphabetic c \<longleftrightarrow>
     CHR ''A'' \<le> c \<and> c \<le> CHR ''Z'' \<or> CHR ''a'' \<le> c \<and> c \<le> CHR ''z''"

definition is_ascii_alphanumeric :: "char \<Rightarrow> bool" where
  "is_ascii_alphanumeric c \<longleftrightarrow> is_ascii_alphabetic c \<or> CHR ''0'' \<le> c \<and> c \<le> CHR ''9''"

fun identifier_ok :: "string \<Rightarrow> bool" where
  "identifier_ok [] = False"
| "identifier_ok (c # cs) =
     ((c = CHR ''_'' \<or> is_ascii_alphabetic c)
      \<and> list_all (\<lambda>ch. ch = CHR ''_'' \<or> is_ascii_alphanumeric ch) cs)"

definition validate_identifier :: "string \<Rightarrow> string \<Rightarrow> engine_error + unit" where
  "validate_identifier name kind =
     (if identifier_ok name then Inr () else Inl (Core (Constraint (kind @ '' identifier''))))"

record table_meta =
  tm_id :: u64
  tm_name :: string
  tm_schema :: schema
  tm_primary_key_column :: nat

definition table_meta_new :: "u64 \<Rightarrow> string \<Rightarrow> schema \<Rightarrow> engine_error + table_meta" where
  "table_meta_new ident name s =
     rbind (validate_identifier name ''table'') (\<lambda>_.
       if ident = 0 then Inl (Core (Constraint ''table id zero is reserved''))
       else rbind (map_err Core (schema_validate s)) (\<lambda>pk.
         Inr \<lparr>tm_id = ident, tm_name = name, tm_schema = s, tm_primary_key_column = pk\<rparr>))"

fun position :: "('a \<Rightarrow> bool) \<Rightarrow> 'a list \<Rightarrow> nat option" where
  "position P [] = None"
| "position P (x # xs) = (if P x then Some 0 else map_option Suc (position P xs))"

definition table_meta_column :: "table_meta \<Rightarrow> string \<Rightarrow> engine_error + nat" where
  "table_meta_column t name =
     ok_or (position (\<lambda>c. eq_ignore_ascii_case (col_name c) name) (columns (tm_schema t)))
       (UnknownColumn (tm_name t) name)"

definition table_meta_validate :: "table_meta \<Rightarrow> engine_error + unit" where
  "table_meta_validate t =
     rbind (validate_identifier (tm_name t) ''table'') (\<lambda>_.
       if tm_id t = 0 then Inl (Core (Constraint ''table id zero is reserved''))
       else rbind (map_err Core (schema_validate (tm_schema t))) (\<lambda>actual.
         if actual \<noteq> tm_primary_key_column t then Inl (InvalidSnapshot ''primary-key column'')
         else Inr ()))"

record index_meta =
  im_id :: u64
  im_name :: string
  im_table_id :: u64
  im_column :: nat

definition index_meta_new :: "u64 \<Rightarrow> string \<Rightarrow> table_meta \<Rightarrow> nat \<Rightarrow> engine_error + index_meta" where
  "index_meta_new ident name t column =
     rbind (validate_identifier name ''index'') (\<lambda>_.
       if ident = 0 then Inl (Core (Constraint ''index id zero is reserved''))
       else if length (columns (tm_schema t)) \<le> column
       then Inl (Core (Constraint ''index column is outside table''))
       else Inr \<lparr>im_id = ident, im_name = name, im_table_id = tm_id t, im_column = column\<rparr>)"

datatype catalog_mutation = CreateTable table_meta | CreateIndex index_meta

fun mutation_sort_key :: "catalog_mutation \<Rightarrow> nat \<times> u64" where
  "mutation_sort_key (CreateTable t) = (0, tm_id t)"
| "mutation_sort_key (CreateIndex i) = (1, im_id i)"

record catalog =
  cat_schema_epoch :: u64
  cat_tables :: "(u64, table_meta) btmap"
  cat_table_names :: "(string, u64) btmap"
  cat_indexes :: "(u64, index_meta) btmap"
  cat_index_names :: "(string, u64) btmap"

definition catalog_default :: catalog where
  "catalog_default = \<lparr>cat_schema_epoch = 0, cat_tables = bt_empty, cat_table_names = bt_empty,
     cat_indexes = bt_empty, cat_index_names = bt_empty\<rparr>"

definition catalog_table :: "catalog \<Rightarrow> u64 \<Rightarrow> table_meta option" where
  "catalog_table c ident = bt_get (cat_tables c) ident"

definition catalog_table_named :: "catalog \<Rightarrow> string \<Rightarrow> table_meta option" where
  "catalog_table_named c name =
     Option.bind (bt_get (cat_table_names c) (normalize name)) (bt_get (cat_tables c))"

definition catalog_index :: "catalog \<Rightarrow> u64 \<Rightarrow> index_meta option" where
  "catalog_index c ident = bt_get (cat_indexes c) ident"

definition catalog_index_named :: "catalog \<Rightarrow> string \<Rightarrow> index_meta option" where
  "catalog_index_named c name =
     Option.bind (bt_get (cat_index_names c) (normalize name)) (bt_get (cat_indexes c))"

definition indexes_for_table :: "catalog \<Rightarrow> u64 \<Rightarrow> index_meta list" where
  "indexes_for_table c table_id = filter (\<lambda>i. im_table_id i = table_id) (bt_values (cat_indexes c))"

definition next_table_id :: "catalog \<Rightarrow> u64" where
  "next_table_id c =
     (case bt_last_key (cat_tables c) of None \<Rightarrow> 1 | Some ident \<Rightarrow> saturating_add ident 1)"

definition next_index_id :: "catalog \<Rightarrow> u64" where
  "next_index_id c =
     (case bt_last_key (cat_indexes c) of None \<Rightarrow> 1 | Some ident \<Rightarrow> saturating_add ident 1)"

definition catalog_create_table :: "catalog \<Rightarrow> table_meta \<Rightarrow> engine_error + catalog" where
  "catalog_create_table c t =
     rbind (table_meta_validate t) (\<lambda>_.
       if bt_contains (cat_tables c) (tm_id t)
       then Inl (Core (Constraint ''table id already exists''))
       else let normalized = normalize (tm_name t) in
         if bt_contains (cat_table_names c) normalized
         then Inl (Core (Constraint ''table already exists''))
         else Inr (c\<lparr>cat_table_names := bt_insert normalized (tm_id t) (cat_table_names c),
                     cat_tables := bt_insert (tm_id t) t (cat_tables c)\<rparr>))"

definition catalog_create_index :: "catalog \<Rightarrow> index_meta \<Rightarrow> engine_error + catalog" where
  "catalog_create_index c i =
     rbind (validate_identifier (im_name i) ''index'') (\<lambda>_.
       if im_id i = 0 then Inl (Core (Constraint ''index id zero is reserved''))
       else if bt_contains (cat_indexes c) (im_id i)
       then Inl (Core (Constraint ''index id already exists''))
       else let normalized = normalize (im_name i) in
         if bt_contains (cat_index_names c) normalized
         then Inl (Core (Constraint ''index already exists''))
         else rbind (ok_or (bt_get (cat_tables c) (im_table_id i)) (UnknownTable (im_table_id i)))
           (\<lambda>t. if length (columns (tm_schema t)) \<le> im_column i
                then Inl (Core (Constraint ''index references column outside table''))
                else Inr (c\<lparr>cat_index_names := bt_insert normalized (im_id i) (cat_index_names c),
                            cat_indexes := bt_insert (im_id i) i (cat_indexes c)\<rparr>)))"

fun apply_mutation_loop ::
  "catalog \<Rightarrow> u64 list \<Rightarrow> catalog_mutation list \<Rightarrow> engine_error + catalog \<times> u64 list" where
  "apply_mutation_loop c new_indexes [] = Inr (c, new_indexes)"
| "apply_mutation_loop c new_indexes (CreateTable t # ms) =
     rbind (catalog_create_table c t) (\<lambda>c'. apply_mutation_loop c' new_indexes ms)"
| "apply_mutation_loop c new_indexes (CreateIndex i # ms) =
     rbind (catalog_create_index c i) (\<lambda>c'. apply_mutation_loop c' (new_indexes @ [im_id i]) ms)"

definition apply_mutations ::
  "catalog \<Rightarrow> catalog_mutation list \<Rightarrow> engine_error + catalog \<times> u64 list" where
  "apply_mutations c ms =
     rbind (apply_mutation_loop c [] ms) (\<lambda>(c', new_indexes).
       if ms = [] then Inr (c', new_indexes)
       else rbind (ok_or (checked_add (cat_schema_epoch c') 1)
                     (Core (Invariant ''schema epoch overflow'')))
              (\<lambda>epoch. Inr (c'\<lparr>cat_schema_epoch := epoch\<rparr>, new_indexes)))"

fun validate_tables :: "string set \<Rightarrow> (u64 \<times> table_meta) list \<Rightarrow> engine_error + unit" where
  "validate_tables names [] = Inr ()"
| "validate_tables names ((ident, t) # rest) =
     (if ident \<noteq> tm_id t then Inl (InvalidSnapshot ''table map key'')
      else rbind (table_meta_validate t) (\<lambda>_.
        if normalize (tm_name t) \<in> names then Inl (InvalidSnapshot ''duplicate table name'')
        else validate_tables (insert (normalize (tm_name t)) names) rest))"

fun validate_indexes ::
  "catalog \<Rightarrow> string set \<Rightarrow> (u64 \<times> index_meta) list \<Rightarrow> engine_error + unit" where
  "validate_indexes c names [] = Inr ()"
| "validate_indexes c names ((ident, i) # rest) =
     (if ident \<noteq> im_id i \<or> im_id i = 0 then Inl (InvalidSnapshot ''invalid index map entry'')
      else rbind (validate_identifier (im_name i) ''index'') (\<lambda>_.
        rbind (ok_or (bt_get (cat_tables c) (im_table_id i)) (UnknownTable (im_table_id i))) (\<lambda>t.
          if length (columns (tm_schema t)) \<le> im_column i
          then Inl (InvalidSnapshot ''index references missing column'')
          else if normalize (im_name i) \<in> names then Inl (InvalidSnapshot ''duplicate index name'')
          else validate_indexes c (insert (normalize (im_name i)) names) rest)))"

definition catalog_validate :: "catalog \<Rightarrow> engine_error + unit" where
  "catalog_validate c =
     rbind (validate_tables {} (bt_entries (cat_tables c))) (\<lambda>_.
       if bt_of_list (map (\<lambda>t. (normalize (tm_name t), tm_id t)) (bt_values (cat_tables c)))
          \<noteq> cat_table_names c
       then Inl (InvalidSnapshot ''table-name lookup does not match table metadata'')
       else rbind (validate_indexes c {} (bt_entries (cat_indexes c))) (\<lambda>_.
         if bt_of_list (map (\<lambda>i. (normalize (im_name i), im_id i)) (bt_values (cat_indexes c)))
            \<noteq> cat_index_names c
         then Inl (InvalidSnapshot ''index-name lookup does not match index metadata'')
         else Inr ()))"

section \<open>The catalog invariant\<close>

definition table_meta_ok :: "table_meta \<Rightarrow> bool" where
  "table_meta_ok t \<longleftrightarrow>
     identifier_ok (tm_name t) \<and> tm_id t \<noteq> 0 \<and> schema_ok (tm_schema t) (tm_primary_key_column t)"

definition index_meta_ok :: "catalog \<Rightarrow> index_meta \<Rightarrow> bool" where
  "index_meta_ok c i \<longleftrightarrow>
     identifier_ok (im_name i) \<and> im_id i \<noteq> 0
     \<and> (\<exists>t. bt_get (cat_tables c) (im_table_id i) = Some t
            \<and> im_column i < length (columns (tm_schema t)))"

text \<open>
  A catalog is consistent when each map key is the id of its metadata, all metadata is valid,
  indexes refer to columns of existing tables, and the name maps are exactly the inverses of
  the (case-folded) names in the metadata.
\<close>

definition catalog_ok :: "catalog \<Rightarrow> bool" where
  "catalog_ok c \<longleftrightarrow>
     (\<forall>ident t. bt_get (cat_tables c) ident = Some t \<longrightarrow> ident = tm_id t \<and> table_meta_ok t)
     \<and> (\<forall>n ident. bt_get (cat_table_names c) n = Some ident \<longleftrightarrow>
          (\<exists>t. bt_get (cat_tables c) ident = Some t \<and> normalize (tm_name t) = n))
     \<and> (\<forall>ident i. bt_get (cat_indexes c) ident = Some i \<longrightarrow> ident = im_id i \<and> index_meta_ok c i)
     \<and> (\<forall>n ident. bt_get (cat_index_names c) n = Some ident \<longleftrightarrow>
          (\<exists>i. bt_get (cat_indexes c) ident = Some i \<and> normalize (im_name i) = n))"

lemma validate_identifier_ok [result_simps]:
  "validate_identifier name kind = Inr u \<longleftrightarrow> identifier_ok name"
  by (simp add: validate_identifier_def)

lemma table_meta_validate_ok: "table_meta_validate t = Inr u \<longleftrightarrow> table_meta_ok t"
  by (auto simp: table_meta_validate_def table_meta_ok_def result_simps schema_validate_ok
      dest: schema_ok_unique)

lemma table_meta_new_ok:
  "table_meta_new ident name s = Inr t \<Longrightarrow>
     table_meta_ok t \<and> tm_id t = ident \<and> tm_name t = name \<and> tm_schema t = s"
  by (auto simp: table_meta_new_def table_meta_ok_def result_simps schema_validate_ok
      split: if_splits)

lemma validate_tables_ok:
  "validate_tables names xs = Inr u \<longleftrightarrow>
     (\<forall>(ident, t) \<in> set xs. ident = tm_id t \<and> table_meta_ok t)
     \<and> distinct (map (\<lambda>(ident, t). normalize (tm_name t)) xs)
     \<and> (\<lambda>(ident, t). normalize (tm_name t)) ` set xs \<inter> names = {}"
  by (induction names xs rule: validate_tables.induct)
    (auto simp: result_simps table_meta_validate_ok)

lemma validate_indexes_step:
  "validate_indexes c names ((ident, i) # rest) = Inr u \<longleftrightarrow>
     ident = im_id i \<and> index_meta_ok c i \<and> normalize (im_name i) \<notin> names
     \<and> validate_indexes c (insert (normalize (im_name i)) names) rest = Inr u"
  by (cases "bt_get (cat_tables c) (im_table_id i)")
    (auto simp: result_simps index_meta_ok_def not_le split: if_splits)

lemma validate_indexes_ok:
  "validate_indexes c names xs = Inr u \<longleftrightarrow>
     (\<forall>(ident, i) \<in> set xs. ident = im_id i \<and> index_meta_ok c i)
     \<and> distinct (map (\<lambda>(ident, i). normalize (im_name i)) xs)
     \<and> (\<lambda>(ident, i). normalize (im_name i)) ` set xs \<inter> names = {}"
proof (induction xs arbitrary: names)
  case (Cons x xs)
  then show ?case by (cases x) (auto simp: validate_indexes_step simp del: validate_indexes.simps)
qed simp

text \<open>A lookup rebuilt from metadata is right exactly when no two entries share a name.\<close>

lemma bt_of_list_eq_iff:
  assumes "distinct (map fst xs)"
  shows "bt_of_list xs = m \<longleftrightarrow> (\<forall>k v. bt_get m k = Some v \<longleftrightarrow> (k, v) \<in> set xs)"
proof -
  have get: "bt_get (bt_of_list xs) k = Some v \<longleftrightarrow> (k, v) \<in> set xs" for k v
    using assms by (simp add: bt_get_of_list map_of_eq_Some_iff rev_map[symmetric])
  show ?thesis
  proof
    assume "\<forall>k v. bt_get m k = Some v \<longleftrightarrow> (k, v) \<in> set xs"
    with get have "bt_get (bt_of_list xs) k = bt_get m k" for k
      by (metis not_None_eq)
    then show "bt_of_list xs = m" by (rule btmap_eqI)
  qed (use get in auto)
qed

lemma name_lookup_ok:
  fixes m :: "(u64, 'a) btmap"
  assumes ids: "\<forall>(id', x) \<in> set (bt_entries m). id' = idf x"
  shows "distinct (map (\<lambda>(id', x). key x) (bt_entries m))
      \<and> bt_of_list (map (\<lambda>x. (key x, idf x)) (bt_values m)) = names
    \<longleftrightarrow> (\<forall>n id'. bt_get names n = Some id' \<longleftrightarrow> (\<exists>x. bt_get m id' = Some x \<and> key x = n))"
proof -
  let ?l = "map (\<lambda>x. (key x, idf x)) (bt_values m)"
  have keys: "map fst ?l = map (\<lambda>(id', x). key x) (bt_entries m)"
    by (simp add: bt_values_def split_beta)
  have mem: "(n, id') \<in> set ?l \<longleftrightarrow> (\<exists>x. bt_get m id' = Some x \<and> key x = n)" for n id'
    using ids by (force simp: set_bt_values bt_entries_get)
  show ?thesis
  proof (cases "distinct (map (\<lambda>(id', x). key x) (bt_entries m))")
    case True
    then show ?thesis using bt_of_list_eq_iff[of ?l names] mem keys by simp
  next
    case False
    then obtain i j where ij: "i < j" "j < length (bt_entries m)"
      and same: "key (snd (bt_entries m ! i)) = key (snd (bt_entries m ! j))"
      by (auto simp: distinct_conv_nth split_beta) (metis linorder_neqE_nat)
    let ?a = "bt_entries m ! i" and ?b = "bt_entries m ! j"
    have mema: "bt_get m (fst ?a) = Some (snd ?a)" and memb: "bt_get m (fst ?b) = Some (snd ?b)"
      using ij by (simp_all add: bt.get_eq_Some_iff)
    have "fst ?a \<noteq> fst ?b"
      using ij bt.distinct_keys[of m] by (auto simp: distinct_conv_nth)
    with mema memb same have "\<not> (\<forall>n id'. bt_get names n = Some id' \<longleftrightarrow>
        (\<exists>x. bt_get m id' = Some x \<and> key x = n))"
      by (metis option.inject)
    with False show ?thesis by blast
  qed
qed

lemma catalog_validate_ok: "catalog_validate c = Inr u \<longleftrightarrow> catalog_ok c"
proof -
  let ?T = "\<forall>(ident, t) \<in> set (bt_entries (cat_tables c)). ident = tm_id t \<and> table_meta_ok t"
  let ?I = "\<forall>(ident, i) \<in> set (bt_entries (cat_indexes c)). ident = im_id i \<and> index_meta_ok c i"
  let ?TN = "distinct (map (\<lambda>(ident, t). normalize (tm_name t)) (bt_entries (cat_tables c)))
    \<and> bt_of_list (map (\<lambda>t. (normalize (tm_name t), tm_id t)) (bt_values (cat_tables c)))
        = cat_table_names c"
  let ?IN = "distinct (map (\<lambda>(ident, i). normalize (im_name i)) (bt_entries (cat_indexes c)))
    \<and> bt_of_list (map (\<lambda>i. (normalize (im_name i), im_id i)) (bt_values (cat_indexes c)))
        = cat_index_names c"
  have "catalog_validate c = Inr u \<longleftrightarrow> ?T \<and> ?TN \<and> ?I \<and> ?IN"
    by (simp add: catalog_validate_def result_simps validate_tables_ok validate_indexes_ok)
  also have "\<dots> \<longleftrightarrow> catalog_ok c"
  proof -
    have tn: "?T \<Longrightarrow> ?TN \<longleftrightarrow> (\<forall>n ident. bt_get (cat_table_names c) n = Some ident \<longleftrightarrow>
        (\<exists>t. bt_get (cat_tables c) ident = Some t \<and> normalize (tm_name t) = n))"
      by (rule name_lookup_ok) blast
    have "?I \<Longrightarrow> ?IN \<longleftrightarrow> (\<forall>n ident. bt_get (cat_index_names c) n = Some ident \<longleftrightarrow>
        (\<exists>i. bt_get (cat_indexes c) ident = Some i \<and> normalize (im_name i) = n))"
      by (rule name_lookup_ok) blast
    with tn show ?thesis
      unfolding catalog_ok_def ball_bt_entries by argo
  qed
  finally show ?thesis .
qed

section \<open>Mutations keep the catalog consistent\<close>

definition catalog_extends :: "catalog \<Rightarrow> catalog \<Rightarrow> bool" where
  "catalog_extends c c' \<longleftrightarrow>
     (\<forall>ident t. catalog_table c ident = Some t \<longrightarrow> catalog_table c' ident = Some t)
     \<and> (\<forall>ident i. catalog_index c ident = Some i \<longrightarrow> catalog_index c' ident = Some i)"

lemma catalog_extends_refl [simp]: "catalog_extends c c"
  by (simp add: catalog_extends_def)

lemma catalog_extends_trans:
  "catalog_extends a b \<Longrightarrow> catalog_extends b c \<Longrightarrow> catalog_extends a c"
  by (simp add: catalog_extends_def)

fun mutation_installed :: "catalog \<Rightarrow> catalog_mutation \<Rightarrow> bool" where
  "mutation_installed c (CreateTable t) = (catalog_table c (tm_id t) = Some t)"
| "mutation_installed c (CreateIndex i) = (catalog_index c (im_id i) = Some i)"

lemma mutation_installed_extends:
  "mutation_installed c m \<Longrightarrow> catalog_extends c c' \<Longrightarrow> mutation_installed c' m"
  by (cases m) (auto simp: catalog_extends_def)

lemma catalog_create_table_ok:
  assumes ok: "catalog_ok c" and step: "catalog_create_table c t = Inr c'"
  shows "catalog_ok c' \<and> catalog_extends c c' \<and> mutation_installed c' (CreateTable t)
    \<and> cat_schema_epoch c' = cat_schema_epoch c \<and> cat_indexes c' = cat_indexes c"
proof -
  have tok: "table_meta_ok t" and fresh: "bt_get (cat_tables c) (tm_id t) = None"
    and freshn: "bt_get (cat_table_names c) (normalize (tm_name t)) = None"
    and c': "c' = c\<lparr>cat_table_names := bt_insert (normalize (tm_name t)) (tm_id t) (cat_table_names c),
                     cat_tables := bt_insert (tm_id t) t (cat_tables c)\<rparr>"
    using step by (auto simp: catalog_create_table_def result_simps table_meta_validate_ok Let_def
        bt_contains_def split: if_splits)
  have idx: "index_meta_ok c i \<Longrightarrow> index_meta_ok c' i" for i
    using fresh by (auto simp: c' index_meta_ok_def bt_get_simps)
  have names: "bt_get (cat_table_names c') n = Some ident \<longleftrightarrow>
      (\<exists>x. bt_get (cat_tables c') ident = Some x \<and> normalize (tm_name x) = n)" for n ident
  proof (cases "n = normalize (tm_name t) \<or> ident = tm_id t")
    case True
    have "bt_get (cat_tables c) ident = Some x \<Longrightarrow> normalize (tm_name x) \<noteq> normalize (tm_name t)" for x
      using ok freshn unfolding catalog_ok_def by (metis option.distinct(1))
    moreover have "bt_get (cat_table_names c) n \<noteq> Some (tm_id t)"
      using ok fresh unfolding catalog_ok_def by auto
    ultimately show ?thesis using True by (auto simp: c' bt_get_simps)
  qed (use ok in \<open>auto simp: c' bt_get_simps catalog_ok_def\<close>)
  have "catalog_ok c'"
    unfolding catalog_ok_def
  proof (intro conjI allI)
    show "bt_get (cat_tables c') ident = Some x \<longrightarrow> ident = tm_id x \<and> table_meta_ok x" for ident x
      using ok tok by (auto simp: c' bt_get_simps catalog_ok_def)
    show "bt_get (cat_indexes c') ident = Some i \<longrightarrow> ident = im_id i \<and> index_meta_ok c' i" for ident i
      using ok idx by (auto simp: c' catalog_ok_def)
    show "bt_get (cat_index_names c') n = Some ident \<longleftrightarrow>
        (\<exists>i. bt_get (cat_indexes c') ident = Some i \<and> normalize (im_name i) = n)" for n ident
      using ok by (auto simp: c' catalog_ok_def)
  qed (rule names)
  moreover have "catalog_extends c c' \<and> mutation_installed c' (CreateTable t)"
    using fresh by (auto simp: catalog_extends_def catalog_table_def catalog_index_def c' bt_get_simps)
  ultimately show ?thesis by (simp add: c')
qed

lemma catalog_create_index_ok:
  assumes ok: "catalog_ok c" and step: "catalog_create_index c i = Inr c'"
  shows "catalog_ok c' \<and> catalog_extends c c' \<and> mutation_installed c' (CreateIndex i)
    \<and> cat_schema_epoch c' = cat_schema_epoch c \<and> catalog_index c (im_id i) = None
    \<and> cat_indexes c' = bt_insert (im_id i) i (cat_indexes c)"
proof -
  have iok: "index_meta_ok c i" and fresh: "bt_get (cat_indexes c) (im_id i) = None"
    and freshn: "bt_get (cat_index_names c) (normalize (im_name i)) = None"
    and c': "c' = c\<lparr>cat_index_names := bt_insert (normalize (im_name i)) (im_id i) (cat_index_names c),
                     cat_indexes := bt_insert (im_id i) i (cat_indexes c)\<rparr>"
    using step by (auto simp: catalog_create_index_def result_simps index_meta_ok_def Let_def
        bt_contains_def not_le split: if_splits)
  have idx: "index_meta_ok c' x = index_meta_ok c x" for x
    by (simp add: c' index_meta_ok_def)
  have names: "bt_get (cat_index_names c') n = Some ident \<longleftrightarrow>
      (\<exists>x. bt_get (cat_indexes c') ident = Some x \<and> normalize (im_name x) = n)" for n ident
  proof (cases "n = normalize (im_name i) \<or> ident = im_id i")
    case True
    have "bt_get (cat_indexes c) ident = Some x \<Longrightarrow> normalize (im_name x) \<noteq> normalize (im_name i)" for x
      using ok freshn unfolding catalog_ok_def by (metis option.distinct(1))
    moreover have "bt_get (cat_index_names c) n \<noteq> Some (im_id i)"
      using ok fresh unfolding catalog_ok_def by auto
    ultimately show ?thesis using True by (auto simp: c' bt_get_simps)
  qed (use ok in \<open>auto simp: c' bt_get_simps catalog_ok_def\<close>)
  have "catalog_ok c'"
    unfolding catalog_ok_def idx
  proof (intro conjI allI)
    show "bt_get (cat_tables c') ident = Some x \<longrightarrow> ident = tm_id x \<and> table_meta_ok x" for ident x
      using ok by (auto simp: c' catalog_ok_def)
    show "bt_get (cat_indexes c') ident = Some x \<longrightarrow> ident = im_id x \<and> index_meta_ok c x" for ident x
      using ok iok by (auto simp: c' bt_get_simps catalog_ok_def)
    show "bt_get (cat_table_names c') n = Some ident \<longleftrightarrow>
        (\<exists>t. bt_get (cat_tables c') ident = Some t \<and> normalize (tm_name t) = n)" for n ident
      using ok by (auto simp: c' catalog_ok_def)
  qed (rule names)
  moreover have "catalog_extends c c' \<and> mutation_installed c' (CreateIndex i)"
    using fresh by (auto simp: catalog_extends_def catalog_table_def catalog_index_def c' bt_get_simps)
  ultimately show ?thesis using fresh by (simp add: c' catalog_index_def)
qed

fun created_index :: "catalog_mutation \<Rightarrow> u64 list" where
  "created_index (CreateTable t) = []"
| "created_index (CreateIndex i) = [im_id i]"

lemma apply_mutation_loop_ok:
  assumes "catalog_ok c" "apply_mutation_loop c new ms = Inr (c', new')"
  shows "catalog_ok c' \<and> catalog_extends c c' \<and> list_all (mutation_installed c') ms
    \<and> cat_schema_epoch c' = cat_schema_epoch c \<and> new' = new @ concat (map created_index ms)
    \<and> distinct (concat (map created_index ms))
    \<and> (\<forall>ident \<in> set (concat (map created_index ms)). catalog_index c ident = None)
    \<and> (\<forall>ident. ident \<notin> set (concat (map created_index ms)) \<longrightarrow>
          catalog_index c' ident = catalog_index c ident)"
  using assms
proof (induction c new ms arbitrary: c' new' rule: apply_mutation_loop.induct)
  case (2 c new t ms)
  then obtain d where d: "catalog_create_table c t = Inr d"
    and rest: "apply_mutation_loop d new ms = Inr (c', new')"
    by (auto simp: result_simps)
  note step = catalog_create_table_ok[OF \<open>catalog_ok c\<close> d]
  with "2.IH"[OF d] rest show ?case
    using mutation_installed_extends[of d "CreateTable t" c'] catalog_extends_trans[of c d c']
    by (auto simp: catalog_index_def)
next
  case (3 c new i ms)
  then obtain d where d: "catalog_create_index c i = Inr d"
    and rest: "apply_mutation_loop d (new @ [im_id i]) ms = Inr (c', new')"
    by (auto simp: result_simps)
  note step = catalog_create_index_ok[OF \<open>catalog_ok c\<close> d]
  with "3.IH"[OF d] rest show ?case
    using mutation_installed_extends[of d "CreateIndex i" c'] catalog_extends_trans[of c d c']
    by (auto simp: catalog_index_def bt_get_simps split: if_splits)
qed simp

lemma schema_epoch_irrelevant [simp]:
  "catalog_table (c\<lparr>cat_schema_epoch := e\<rparr>) = catalog_table c"
  "catalog_index (c\<lparr>cat_schema_epoch := e\<rparr>) = catalog_index c"
  "catalog_ok (c\<lparr>cat_schema_epoch := e\<rparr>) = catalog_ok c"
  "catalog_extends d (c\<lparr>cat_schema_epoch := e\<rparr>) = catalog_extends d c"
  by (simp_all add: catalog_ok_def catalog_extends_def index_meta_ok_def catalog_table_def
      catalog_index_def fun_eq_iff)

lemma mutation_installed_schema_epoch [simp]:
  "mutation_installed (c\<lparr>cat_schema_epoch := e\<rparr>) = mutation_installed c"
proof
  show "mutation_installed (c\<lparr>cat_schema_epoch := e\<rparr>) m = mutation_installed c m" for m
    by (cases m) simp_all
qed

lemma apply_mutations_cases:
  assumes "apply_mutations c ms = Inr (c', new)"
  obtains (Empty) "ms = []" "c' = c" "new = []"
    | (Bump) d e where "ms \<noteq> []" "apply_mutation_loop c [] ms = Inr (d, new)"
        "checked_add (cat_schema_epoch d) 1 = Some e" "c' = d\<lparr>cat_schema_epoch := e\<rparr>"
  using assms by (cases ms) (auto simp: apply_mutations_def result_simps)

lemma apply_mutations_ok:
  assumes "catalog_ok c" "apply_mutations c ms = Inr (c', new)"
  shows "catalog_ok c' \<and> catalog_extends c c' \<and> list_all (mutation_installed c') ms
    \<and> new = concat (map created_index ms) \<and> distinct new
    \<and> (\<forall>ident \<in> set new. catalog_index c ident = None)
    \<and> (\<forall>ident. ident \<notin> set new \<longrightarrow> catalog_index c' ident = catalog_index c ident)
    \<and> unat (cat_schema_epoch c') = unat (cat_schema_epoch c) + (if ms = [] then 0 else 1)"
  using assms(2)
proof (cases rule: apply_mutations_cases)
  case (Bump d e)
  then show ?thesis
    using apply_mutation_loop_ok[OF assms(1) Bump(2)] checked_add_Some(2)[OF Bump(3)] by simp
qed (use assms(1) in simp)

lemma catalog_default_ok [simp]: "catalog_ok catalog_default"
  by (simp add: catalog_ok_def catalog_default_def bt_get_simps)

end
