(* ===== verification/Engine_Txn.thy ===== *)
theory Engine_Txn
  imports Engine_Catalog
begin

text \<open>
  Transactions and replicated attempts, \<open>crates/aster-engine/src/transaction.rs\<close>: the private
  write overlay of a transaction, the canonical order of an attempt and its canonical bytes.
  The SHA-256 function is a parameter.  The lemmas characterise canonical attempts and show
  that canonical bytes identify the attempt.
\<close>

section \<open>Definitions\<close>

datatype mutation = Put row | Delete

record txn_write =
  tw_table_id :: u64
  tw_primary_key :: sql_value
  tw_mutation :: mutation

datatype logical_key = LogicalKey (lk_table_id: u64) (lk_primary_key: bytes)

text \<open>The derived order compares the fields in declaration order.\<close>

instantiation logical_key :: linorder
begin

definition less_eq_logical_key :: "logical_key \<Rightarrow> logical_key \<Rightarrow> bool" where
  "k \<le> l \<longleftrightarrow> (lk_table_id k, lk_primary_key k) \<le> (lk_table_id l, lk_primary_key l)"

definition less_logical_key :: "logical_key \<Rightarrow> logical_key \<Rightarrow> bool" where
  "k < l \<longleftrightarrow> (lk_table_id k, lk_primary_key k) < (lk_table_id l, lk_primary_key l)"

instance
proof
  fix x y z :: logical_key
  show "x < y \<longleftrightarrow> x \<le> y \<and> \<not> y \<le> x"
    unfolding less_eq_logical_key_def less_logical_key_def by (rule less_le_not_le)
  show "x \<le> x" unfolding less_eq_logical_key_def by simp
  show "x \<le> y \<Longrightarrow> y \<le> z \<Longrightarrow> x \<le> z" unfolding less_eq_logical_key_def by (rule order_trans)
  show "x \<le> y \<Longrightarrow> y \<le> x \<Longrightarrow> x = y"
    unfolding less_eq_logical_key_def by (metis antisym logical_key.expand prod.inject)
  show "x \<le> y \<or> y \<le> x" unfolding less_eq_logical_key_def by (rule linear)
qed

end

definition logical_key_new :: "u64 \<Rightarrow> sql_value \<Rightarrow> engine_error + logical_key" where
  "logical_key_new table_id primary_key =
     rbind (map_err Core (encode_value primary_key [])) (\<lambda>_.
       Inr (LogicalKey table_id (encode_ordered primary_key [])))"

definition write_logical_key :: "txn_write \<Rightarrow> engine_error + logical_key" where
  "write_logical_key w = logical_key_new (tw_table_id w) (tw_primary_key w)"

record transaction =
  txn_id :: u64
  txn_read_ts :: u64
  txn_schema_epoch :: u64
  txn_writes :: "(logical_key, txn_write) btmap"
  txn_catalog_mutations :: "catalog_mutation list"

definition transaction_new :: "u64 \<Rightarrow> u64 \<Rightarrow> u64 \<Rightarrow> transaction" where
  "transaction_new ident read_ts schema_epoch =
     \<lparr>txn_id = ident, txn_read_ts = read_ts, txn_schema_epoch = schema_epoch,
      txn_writes = bt_empty, txn_catalog_mutations = []\<rparr>"

definition is_read_only :: "transaction \<Rightarrow> bool" where
  "is_read_only t \<longleftrightarrow> bt_len (txn_writes t) = 0 \<and> txn_catalog_mutations t = []"

definition overlay :: "transaction \<Rightarrow> logical_key \<Rightarrow> mutation option" where
  "overlay t key = map_option tw_mutation (bt_get (txn_writes t) key)"

definition stage_write :: "transaction \<Rightarrow> txn_write \<Rightarrow> engine_error + transaction" where
  "stage_write t w =
     rbind (write_logical_key w) (\<lambda>key. Inr (t\<lparr>txn_writes := bt_insert key w (txn_writes t)\<rparr>))"

definition stage_catalog :: "transaction \<Rightarrow> catalog_mutation \<Rightarrow> transaction" where
  "stage_catalog t m =
     t\<lparr>txn_catalog_mutations := sort_key mutation_sort_key (txn_catalog_mutations t @ [m])\<rparr>"

fun find_staged_table :: "catalog_mutation list \<Rightarrow> u64 \<Rightarrow> table_meta option" where
  "find_staged_table [] ident = None"
| "find_staged_table (CreateTable t # ms) ident =
     (if tm_id t = ident then Some t else find_staged_table ms ident)"
| "find_staged_table (CreateIndex i # ms) ident = find_staged_table ms ident"

fun find_staged_index :: "catalog_mutation list \<Rightarrow> u64 \<Rightarrow> index_meta option" where
  "find_staged_index [] ident = None"
| "find_staged_index (CreateTable t # ms) ident = find_staged_index ms ident"
| "find_staged_index (CreateIndex i # ms) ident =
     (if im_id i = ident then Some i else find_staged_index ms ident)"

definition staged_table :: "transaction \<Rightarrow> u64 \<Rightarrow> table_meta option" where
  "staged_table t = find_staged_table (txn_catalog_mutations t)"

definition staged_index :: "transaction \<Rightarrow> u64 \<Rightarrow> index_meta option" where
  "staged_index t = find_staged_index (txn_catalog_mutations t)"

record client_request_id =
  client_id :: bytes
  sequence :: u64

record txn_attempt =
  att_request :: client_request_id
  att_leader_term :: u64
  att_read_ts :: u64
  att_schema_epoch :: u64
  att_writes :: "txn_write list"
  att_catalog_mutations :: "catalog_mutation list"

definition into_attempt :: "transaction \<Rightarrow> client_request_id \<Rightarrow> u64 \<Rightarrow> txn_attempt" where
  "into_attempt t request leader_term =
     \<lparr>att_request = request, att_leader_term = leader_term, att_read_ts = txn_read_ts t,
      att_schema_epoch = txn_schema_epoch t, att_writes = bt_values (txn_writes t),
      att_catalog_mutations = txn_catalog_mutations t\<rparr>"

fun validate_write_order :: "logical_key option \<Rightarrow> txn_write list \<Rightarrow> engine_error + unit" where
  "validate_write_order previous [] = Inr ()"
| "validate_write_order previous (w # ws) =
     rbind (write_logical_key w) (\<lambda>key.
       if (case previous of None \<Rightarrow> False | Some prior \<Rightarrow> key \<le> prior)
       then Inl (InvalidAttempt ''writes must be strictly ordered by logical primary key'')
       else validate_write_order (Some key) ws)"

definition validate_canonical :: "txn_attempt \<Rightarrow> engine_error + unit" where
  "validate_canonical a =
     rbind (validate_write_order None (att_writes a)) (\<lambda>_.
       if list_ex (\<lambda>(x, y). mutation_sort_key y \<le> mutation_sort_key x)
            (windows2 (att_catalog_mutations a))
       then Inl (InvalidAttempt ''catalog mutations must have unique canonical ids'')
       else Inr ())"

text \<open>Each \<open>put\<close> function returns the bytes the source appends to its output buffer.\<close>

definition put_len :: "nat \<Rightarrow> engine_error + bytes" where
  "put_len n =
     (if n < 2 ^ 32 then Inr (u32_to_be (of_nat n))
      else Inl (Core (LimitExceeded ''canonical command field is too large'')))"

definition put_bytes :: "bytes \<Rightarrow> engine_error + bytes" where
  "put_bytes v = rbind (put_len (length v)) (\<lambda>n. Inr (n @ v))"

definition put_string :: "string \<Rightarrow> engine_error + bytes" where
  "put_string s = put_bytes (as_bytes s)"

definition put_value :: "sql_value \<Rightarrow> engine_error + bytes" where
  "put_value v = rbind (map_err Core (encode_value v [])) put_bytes"

definition data_type_tag :: "data_type \<Rightarrow> u8" where
  "data_type_tag d = (case d of DInt64 \<Rightarrow> 1 | DBool \<Rightarrow> 2 | DText \<Rightarrow> 3 | DBytes \<Rightarrow> 4)"

definition put_column :: "column \<Rightarrow> engine_error + bytes" where
  "put_column c = rbind (put_string (col_name c)) (\<lambda>n.
     Inr (n @ [data_type_tag (col_data_type c), of_bool (col_nullable c), of_bool (col_primary_key c)]))"

definition put_usize :: "nat \<Rightarrow> string \<Rightarrow> engine_error + bytes" where
  "put_usize n msg =
     (if n < 2 ^ 64 then Inr (u64_to_be (of_nat n)) else Inl (InvalidAttempt msg))"

definition put_mutation :: "mutation \<Rightarrow> engine_error + bytes" where
  "put_mutation m =
     (case m of
        Put r \<Rightarrow> rbind (map_err Core (encode_row r)) (\<lambda>e. rbind (put_bytes e) (\<lambda>b. Inr (1 # b)))
      | Delete \<Rightarrow> Inr [2])"

definition put_write :: "txn_write \<Rightarrow> engine_error + bytes" where
  "put_write w =
     rbind (put_value (tw_primary_key w)) (\<lambda>k. rbind (put_mutation (tw_mutation w)) (\<lambda>m.
       Inr (u64_to_be (tw_table_id w) @ k @ m)))"

definition put_table :: "table_meta \<Rightarrow> engine_error + bytes" where
  "put_table t =
     rbind (put_string (tm_name t)) (\<lambda>name.
       rbind (put_len (length (columns (tm_schema t)))) (\<lambda>n.
         rbind (try_map put_column (columns (tm_schema t))) (\<lambda>cs.
           rbind (put_usize (tm_primary_key_column t) ''primary-key column overflow'') (\<lambda>pk.
             Inr (u64_to_be (tm_id t) @ name @ n @ concat cs @ pk)))))"

definition put_index :: "index_meta \<Rightarrow> engine_error + bytes" where
  "put_index i =
     rbind (put_string (im_name i)) (\<lambda>name.
       rbind (put_usize (im_column i) ''index column overflow'') (\<lambda>c.
         Inr (u64_to_be (im_id i) @ name @ u64_to_be (im_table_id i) @ c)))"

definition put_catalog_mutation :: "catalog_mutation \<Rightarrow> engine_error + bytes" where
  "put_catalog_mutation m =
     (case m of
        CreateTable t \<Rightarrow> rbind (put_table t) (\<lambda>b. Inr (1 # b))
      | CreateIndex i \<Rightarrow> rbind (put_index i) (\<lambda>b. Inr (2 # b)))"

definition canonical_bytes :: "txn_attempt \<Rightarrow> engine_error + bytes" where
  "canonical_bytes a =
     rbind (validate_canonical a) (\<lambda>_.
       rbind (put_len (length (att_writes a))) (\<lambda>n.
         rbind (try_map put_write (att_writes a)) (\<lambda>ws.
           rbind (put_len (length (att_catalog_mutations a))) (\<lambda>m.
             rbind (try_map put_catalog_mutation (att_catalog_mutations a)) (\<lambda>ms.
               Inr (as_bytes ''ASTRTXN'' @ [1] @ client_id (att_request a)
                 @ u64_to_be (sequence (att_request a)) @ u64_to_be (att_leader_term a)
                 @ u64_to_be (att_read_ts a) @ u64_to_be (att_schema_epoch a)
                 @ n @ concat ws @ m @ concat ms))))))"

definition command_hash :: "(bytes \<Rightarrow> bytes) \<Rightarrow> txn_attempt \<Rightarrow> engine_error + bytes" where
  "command_hash sha256 a = rbind (canonical_bytes a) (\<lambda>b. Inr (sha256 b))"

section \<open>Canonical attempts\<close>

lemma logical_key_new_ok:
  "logical_key_new tid v = Inr k \<longleftrightarrow>
     is_ok (encode_value v []) \<and> k = LogicalKey tid (encode_ordered v [])"
  by (auto simp: logical_key_new_def result_simps is_ok_iff)

definition write_keys :: "txn_write list \<Rightarrow> logical_key list \<Rightarrow> bool" where
  "write_keys ws ks \<longleftrightarrow> list_all2 (\<lambda>w k. write_logical_key w = Inr k) ws ks"

lemma write_keys_simps [simp]:
  "write_keys [] ks \<longleftrightarrow> ks = []"
  "write_keys (w # ws) ks \<longleftrightarrow> (\<exists>k ks'. ks = k # ks' \<and> write_logical_key w = Inr k \<and> write_keys ws ks')"
  by (auto simp: write_keys_def list_all2_Cons1)

lemma ex_write_keys_Cons:
  "(\<exists>ks. write_keys (w # ws) ks \<and> Q ks) \<longleftrightarrow>
     (\<exists>k ks. write_logical_key w = Inr k \<and> write_keys ws ks \<and> Q (k # ks))"
  by auto

lemma validate_write_order_ok:
  "validate_write_order previous ws = Inr u \<longleftrightarrow>
     (\<exists>ks. write_keys ws ks \<and> sorted_wrt (<) ks
        \<and> (case previous of None \<Rightarrow> True | Some prior \<Rightarrow> \<forall>k \<in> set ks. prior < k))"
proof (induction previous ws rule: validate_write_order.induct)
  case (2 previous w ws)
  show ?case
  proof (cases "write_logical_key w")
    case (Inr key)
    let ?blocked = "case previous of None \<Rightarrow> False | Some prior \<Rightarrow> key \<le> prior"
    have "validate_write_order previous (w # ws) = Inr u \<longleftrightarrow>
        \<not> ?blocked \<and> (\<exists>ks. write_keys ws ks \<and> sorted_wrt (<) ks \<and> (\<forall>k \<in> set ks. key < k))"
      using 2[OF Inr] by (simp add: Inr)
    also have "\<dots> \<longleftrightarrow> (\<exists>ks. write_keys (w # ws) ks \<and> sorted_wrt (<) ks
        \<and> (case previous of None \<Rightarrow> True | Some prior \<Rightarrow> \<forall>k \<in> set ks. prior < k))"
      unfolding ex_write_keys_Cons
      by (cases previous) (auto simp: Inr not_le intro: less_trans)
    finally show ?thesis .
  qed simp
qed (simp split: option.split)

lemma validate_canonical_ok:
  "validate_canonical a = Inr u \<longleftrightarrow>
     (\<exists>ks. write_keys (att_writes a) ks \<and> sorted_wrt (<) ks)
     \<and> sorted_wrt (<) (map mutation_sort_key (att_catalog_mutations a))"
  by (auto simp: validate_canonical_def result_simps validate_write_order_ok windows2_ascending)

definition txn_wf :: "transaction \<Rightarrow> bool" where
  "txn_wf t \<longleftrightarrow>
     (\<forall>k w. bt_get (txn_writes t) k = Some w \<longrightarrow> write_logical_key w = Inr k)
     \<and> sorted_wrt (<) (map mutation_sort_key (txn_catalog_mutations t))"

lemma txn_wf_new [simp]: "txn_wf (transaction_new ident ts epoch)"
  by (simp add: txn_wf_def transaction_new_def)

lemma stage_write_wf:
  assumes "txn_wf t" "stage_write t w = Inr t'"
  shows "txn_wf t'"
  using assms by (auto simp: txn_wf_def stage_write_def result_simps split: if_splits)

lemma stage_catalog_wf:
  assumes "txn_wf t" "mutation_sort_key m \<notin> mutation_sort_key ` set (txn_catalog_mutations t)"
  shows "txn_wf (stage_catalog t m)"
proof -
  let ?ms = "txn_catalog_mutations t"
  have "distinct (map mutation_sort_key (?ms @ [m]))"
    using assms by (auto simp: txn_wf_def strict_sorted_iff)
  then have "distinct (map mutation_sort_key (sort_key mutation_sort_key (?ms @ [m])))"
    by (simp add: distinct_map) blast
  then show ?thesis
    using assms(1) by (simp add: txn_wf_def stage_catalog_def strict_sorted_iff sorted_sort_key)
qed

lemma into_attempt_canonical:
  assumes "txn_wf t"
  shows "validate_canonical (into_attempt t request leader_term) = Inr ()"
proof -
  have "write_keys (bt_values (txn_writes t)) (bt_keys (txn_writes t))"
    using assms by (auto simp: write_keys_def bt_values_def bt_keys_def list_all2_map1 list_all2_map2
        txn_wf_def bt_entries_get intro!: list.rel_refl_strong)
  then show ?thesis
    using assms sorted_bt_keys[of "txn_writes t"]
    by (auto simp: validate_canonical_ok into_attempt_def txn_wf_def)
qed

section \<open>Canonical bytes identify the attempt\<close>

text \<open>
  An encoder is self-delimiting on a set of inputs when the encoding of one input followed by
  anything determines that input and what follows it.
\<close>

definition delimits :: "('a \<Rightarrow> bool) \<Rightarrow> ('a \<Rightarrow> engine_error + bytes) \<Rightarrow> bool" where
  "delimits P f \<longleftrightarrow> (\<forall>x y a b s t. P x \<longrightarrow> P y \<longrightarrow> f x = Inr a \<longrightarrow> f y = Inr b \<longrightarrow>
     a @ s = b @ t \<longrightarrow> x = y \<and> s = t)"

lemma delimitsD:
  assumes "delimits P f" "P x" "P y" "f x = Inr a" "f y = Inr b" "a @ s = b @ t"
  shows "x = y \<and> s = t"
  using assms unfolding delimits_def by blast

lemma delimits_fixed:
  assumes "\<And>x a. f x = Inr a \<Longrightarrow> length a = n"
    and "\<And>x y a. P x \<Longrightarrow> P y \<Longrightarrow> f x = Inr a \<Longrightarrow> f y = Inr a \<Longrightarrow> x = y"
  shows "delimits P f"
  unfolding delimits_def using assms by (metis append_eq_append_conv)

lemma u64_to_be_append [simp]:
  "u64_to_be x @ s = u64_to_be y @ t \<longleftrightarrow> x = y \<and> s = t"
  by (auto simp: append_eq_append_conv)

lemma delimits_len: "delimits (\<lambda>_. True) put_len"
proof (rule delimits_fixed[where n = 4])
  fix x y a
  assume "put_len x = Inr a" "put_len y = Inr a"
  then have "(of_nat x :: u32) = of_nat y" "x < 2 ^ 32" "y < 2 ^ 32"
    by (auto simp: put_len_def split: if_splits)
  then show "x = y" by (rule of_nat_u32_inject)
qed (auto simp: put_len_def split: if_splits)

lemma delimits_usize: "delimits (\<lambda>_. True) (\<lambda>n. put_usize n msg)"
proof (rule delimits_fixed[where n = 8])
  fix x y a
  assume "put_usize x msg = Inr a" "put_usize y msg = Inr a"
  then have "(of_nat x :: u64) = of_nat y" "x < 2 ^ 64" "y < 2 ^ 64"
    by (auto simp: put_usize_def split: if_splits)
  then show "x = y" by (rule of_nat_u64_inject)
qed (auto simp: put_usize_def split: if_splits)

lemma usize_delimits:
  assumes "put_usize x msg = Inr a" "put_usize y msg = Inr b" "a @ s = b @ t"
  shows "x = y \<and> s = t"
  using delimits_usize[of msg] assms unfolding delimits_def by blast

lemma len_delimits:
  assumes "put_len x = Inr a" "put_len y = Inr b" "a @ s = b @ t"
  shows "x = y \<and> s = t"
  using delimits_len assms unfolding delimits_def by blast

lemma delimits_bytes: "delimits (\<lambda>_. True) put_bytes"
  unfolding delimits_def
proof (intro allI impI)
  fix x y a b s t
  assume "put_bytes x = Inr a" "put_bytes y = Inr b" and eq: "a @ s = b @ t"
  then obtain m n where len: "put_len (length x) = Inr m" "put_len (length y) = Inr n"
    and "a = m @ x" "b = n @ y" by (auto simp: put_bytes_def result_simps)
  with eq have "m @ x @ s = n @ y @ t" by simp
  from len_delimits[OF len this] show "x = y \<and> s = t"
    by (metis append_eq_append_conv)
qed

lemma put_bytes_bound: "put_bytes x = Inr a \<Longrightarrow> length x < 2 ^ 32"
  by (auto simp: put_bytes_def put_len_def result_simps split: if_splits)

text \<open>Length-prefixing an injective encoding gives a self-delimiting one.\<close>

lemma delimits_prefixed:
  assumes inj: "\<And>x y e. P x \<Longrightarrow> P y \<Longrightarrow> enc x = Inr e \<Longrightarrow> enc y = Inr e \<Longrightarrow> length e < 2 ^ 32 \<Longrightarrow> x = y"
    and f: "\<And>x. f x = rbind (enc x) put_bytes"
  shows "delimits P f"
  unfolding delimits_def
proof (intro allI impI)
  fix x y a b s t
  assume P: "P x" "P y" and "f x = Inr a" "f y = Inr b" and eq: "a @ s = b @ t"
  then obtain d e where de: "enc x = Inr d" "enc y = Inr e"
    and put: "put_bytes d = Inr a" "put_bytes e = Inr b" by (auto simp: f result_simps)
  have "d = e \<and> s = t" by (rule delimitsD[OF delimits_bytes _ _ put eq]) simp_all
  with inj[OF P] de put_bytes_bound[OF put(1)] show "x = y \<and> s = t" by blast
qed

lemma encode_value_inject:
  assumes "value_wf v" "value_wf w" "encode_value v [] = Inr e" "encode_value w [] = Inr e"
    "length e < 2 ^ 32"
  shows "v = w"
  using assms by (intro decodes_unique[OF decodes_value, of _ e]) auto

lemma encode_row_inject:
  assumes "row_wf r" "row_wf q" "encode_row r = Inr e" "encode_row q = Inr e" "length e < 2 ^ 32"
  shows "r = q"
  using assms decode_row_iff[of e r] decode_row_iff[of e q] by simp

lemma delimits_value: "delimits value_wf put_value"
  by (rule delimits_prefixed[where enc = "\<lambda>v. map_err Core (encode_value v [])"])
    (auto simp: put_value_def result_simps intro: encode_value_inject)

lemma delimits_row: "delimits row_wf (\<lambda>r. rbind (map_err Core (encode_row r)) put_bytes)"
  by (rule delimits_prefixed[where enc = "\<lambda>r. map_err Core (encode_row r)"])
    (auto simp: result_simps intro: encode_row_inject)

lemma delimits_string: "delimits (\<lambda>_. True) put_string"
  by (rule delimits_prefixed[where enc = "\<lambda>s. Inr (as_bytes s)"]) (auto simp: put_string_def)

lemma string_delimits:
  assumes "put_string x = Inr a" "put_string y = Inr b" "a @ s = b @ t"
  shows "x = y \<and> s = t"
  using delimits_string assms unfolding delimits_def by blast

lemma data_type_tag_inject [simp]: "data_type_tag d = data_type_tag e \<longleftrightarrow> d = e"
  by (cases d; cases e) (simp_all add: data_type_tag_def)

lemma delimits_column: "delimits (\<lambda>_. True) put_column"
  unfolding delimits_def
proof (intro allI impI)
  fix x y a b s t
  assume "put_column x = Inr a" "put_column y = Inr b" and eq: "a @ s = b @ t"
  then obtain m n where mn: "put_string (col_name x) = Inr m" "put_string (col_name y) = Inr n"
    and ab: "a = m @ [data_type_tag (col_data_type x), of_bool (col_nullable x), of_bool (col_primary_key x)]"
      "b = n @ [data_type_tag (col_data_type y), of_bool (col_nullable y), of_bool (col_primary_key y)]"
    by (auto simp: put_column_def result_simps)
  have "col_name x = col_name y \<and>
      [data_type_tag (col_data_type x), of_bool (col_nullable x), of_bool (col_primary_key x)] @ s
      = [data_type_tag (col_data_type y), of_bool (col_nullable y), of_bool (col_primary_key y)] @ t"
    using eq by (intro string_delimits[OF mn]) (simp_all add: ab)
  then show "x = y \<and> s = t" by (auto intro: column.equality)
qed

lemma delimits_try_map:
  assumes f: "delimits P f" and "list_all P xs" "list_all P ys" "length xs = length ys"
    and "try_map f xs = Inr as" "try_map f ys = Inr bs" "concat as @ s = concat bs @ t"
  shows "xs = ys \<and> s = t"
  using assms(2-)
proof (induction xs arbitrary: ys as bs)
  case (Cons x xs)
  then obtain y ys' where ys: "ys = y # ys'" by (cases ys) auto
  from Cons.prems obtain a as' b bs' where ab: "f x = Inr a" "f y = Inr b"
    and as: "as = a # as'" "bs = b # bs'" "try_map f xs = Inr as'" "try_map f ys' = Inr bs'"
    by (auto simp: ys result_simps simp flip: try_map_eq_Inr)
  have "x = y \<and> concat as' @ s = concat bs' @ t"
    using Cons.prems ys as by (intro delimitsD[OF f _ _ ab]) simp_all
  with Cons.IH[of ys' as' bs'] Cons.prems ys as show ?case by simp
qed simp

definition write_wf :: "txn_write \<Rightarrow> bool" where
  "write_wf w \<longleftrightarrow> value_wf (tw_primary_key w) \<and> (\<forall>r. tw_mutation w = Put r \<longrightarrow> row_wf r)"

lemma delimits_mutation: "delimits (\<lambda>m. \<forall>r. m = Put r \<longrightarrow> row_wf r) put_mutation"
  unfolding delimits_def
proof (intro allI impI)
  fix x y a b s t
  assume wf: "\<forall>r. x = Put r \<longrightarrow> row_wf r" "\<forall>r. y = Put r \<longrightarrow> row_wf r"
    and ab: "put_mutation x = Inr a" "put_mutation y = Inr b" and eq: "a @ s = b @ t"
  show "x = y \<and> s = t"
  proof (cases x; cases y)
    fix r q
    assume xy: "x = Put r" "y = Put q"
    then obtain c d where cd: "rbind (map_err Core (encode_row r)) put_bytes = Inr c"
      "rbind (map_err Core (encode_row q)) put_bytes = Inr d" "a = 1 # c" "b = 1 # d"
      using ab by (auto simp: put_mutation_def result_simps)
    have "r = q \<and> s = t"
      using wf eq by (intro delimitsD[OF delimits_row _ _ cd(1,2)]) (simp_all add: xy cd(3,4))
    then show ?thesis by (simp add: xy)
  qed (use ab eq in \<open>auto simp: put_mutation_def result_simps\<close>)
qed

lemma delimits_write: "delimits write_wf put_write"
  unfolding delimits_def
proof (intro allI impI)
  fix x y a b s t
  assume wf: "write_wf x" "write_wf y"
    and "put_write x = Inr a" "put_write y = Inr b" and eq: "a @ s = b @ t"
  then obtain k l m n where kl: "put_value (tw_primary_key x) = Inr k" "put_value (tw_primary_key y) = Inr l"
    and mn: "put_mutation (tw_mutation x) = Inr m" "put_mutation (tw_mutation y) = Inr n"
    and a: "a = u64_to_be (tw_table_id x) @ k @ m" and b: "b = u64_to_be (tw_table_id y) @ l @ n"
    by (auto simp: put_write_def result_simps)
  have "tw_primary_key x = tw_primary_key y \<and> m @ s = n @ t"
    using wf eq by (intro delimitsD[OF delimits_value _ _ kl]) (simp_all add: a b write_wf_def)
  moreover from this have "tw_mutation x = tw_mutation y \<and> s = t"
    using wf by (intro delimitsD[OF delimits_mutation _ _ mn]) (simp_all add: write_wf_def)
  ultimately show "x = y \<and> s = t" using eq by (auto simp: a b intro: txn_write.equality)
qed

lemma put_table_cases:
  assumes "put_table x = Inr a"
  obtains n l c p where "put_string (tm_name x) = Inr n"
    "put_len (length (columns (tm_schema x))) = Inr l"
    "try_map put_column (columns (tm_schema x)) = Inr c"
    "put_usize (tm_primary_key_column x) ''primary-key column overflow'' = Inr p"
    "a = u64_to_be (tm_id x) @ n @ l @ concat c @ p"
proof -
  obtain n l c p where "put_string (tm_name x) = Inr n"
    "put_len (length (columns (tm_schema x))) = Inr l"
    "try_map put_column (columns (tm_schema x)) = Inr c"
    "put_usize (tm_primary_key_column x) ''primary-key column overflow'' = Inr p"
    "Inr (u64_to_be (tm_id x) @ n @ l @ concat c @ p) = (Inr a :: engine_error + bytes)"
    using assms unfolding put_table_def rbind_eq_Inr by blast
  then show ?thesis by (intro that) auto
qed

lemma delimits_table: "delimits (\<lambda>_. True) put_table"
  unfolding delimits_def
proof (intro allI impI)
  fix x y a b s t
  assume "put_table x = Inr a" "put_table y = Inr b" and eq: "a @ s = b @ t"
  then obtain n l c p n' l' c' p' where x: "put_string (tm_name x) = Inr n"
    "put_len (length (columns (tm_schema x))) = Inr l"
    "try_map put_column (columns (tm_schema x)) = Inr c"
    "put_usize (tm_primary_key_column x) ''primary-key column overflow'' = Inr p"
    and a: "a = u64_to_be (tm_id x) @ n @ l @ concat c @ p"
    and y: "put_string (tm_name y) = Inr n'"
    "put_len (length (columns (tm_schema y))) = Inr l'"
    "try_map put_column (columns (tm_schema y)) = Inr c'"
    "put_usize (tm_primary_key_column y) ''primary-key column overflow'' = Inr p'"
    and b: "b = u64_to_be (tm_id y) @ n' @ l' @ concat c' @ p'"
    by (elim put_table_cases) blast
  have 1: "tm_name x = tm_name y \<and> l @ concat c @ p @ s = l' @ concat c' @ p' @ t"
    using eq by (intro string_delimits[OF x(1) y(1)]) (simp only: a b append.assoc u64_to_be_append)
  then have 2: "length (columns (tm_schema x)) = length (columns (tm_schema y))
      \<and> concat c @ p @ s = concat c' @ p' @ t"
    by (intro len_delimits[OF x(2) y(2)]) blast
  have 3: "columns (tm_schema x) = columns (tm_schema y) \<and> p @ s = p' @ t"
    by (rule delimits_try_map[OF delimits_column _ _ conjunct1[OF 2] x(3) y(3) conjunct2[OF 2]])
      (simp_all add: list_all_iff)
  have 4: "tm_primary_key_column x = tm_primary_key_column y \<and> s = t"
    by (rule usize_delimits[OF x(4) y(4) conjunct2[OF 3]])
  have "tm_id x = tm_id y" using eq by (simp only: a b append.assoc u64_to_be_append)
  moreover have "tm_schema x = tm_schema y" using 3 by (intro schema.equality) simp_all
  ultimately show "x = y \<and> s = t" using 1 4 by (intro conjI table_meta.equality) simp_all
qed

lemma delimits_index: "delimits (\<lambda>_. True) put_index"
  unfolding delimits_def
proof (intro allI impI)
  fix x y a b s t
  assume "put_index x = Inr a" "put_index y = Inr b" and eq: "a @ s = b @ t"
  then obtain n n' c c' where n: "put_string (im_name x) = Inr n" "put_string (im_name y) = Inr n'"
    and c: "put_usize (im_column x) ''index column overflow'' = Inr c"
      "put_usize (im_column y) ''index column overflow'' = Inr c'"
    and a: "a = u64_to_be (im_id x) @ n @ u64_to_be (im_table_id x) @ c"
    and b: "b = u64_to_be (im_id y) @ n' @ u64_to_be (im_table_id y) @ c'"
    by (auto simp: put_index_def rbind_eq_Inr)
  have 1: "im_name x = im_name y
      \<and> u64_to_be (im_table_id x) @ c @ s = u64_to_be (im_table_id y) @ c' @ t"
    using eq by (intro string_delimits[OF n]) (simp_all add: a b)
  then have "c @ s = c' @ t" by (simp only: u64_to_be_append)
  from usize_delimits[OF c this] have "im_column x = im_column y \<and> s = t" .
  with 1 eq show "x = y \<and> s = t" by (auto simp: a b intro: index_meta.equality)
qed

lemma delimits_catalog_mutation: "delimits (\<lambda>_. True) put_catalog_mutation"
  unfolding delimits_def
proof (intro allI impI)
  fix x y a b s t
  assume ab: "put_catalog_mutation x = Inr a" "put_catalog_mutation y = Inr b" and eq: "a @ s = b @ t"
  show "x = y \<and> s = t"
  proof (cases x; cases y)
    fix v w
    assume xy: "x = CreateTable v" "y = CreateTable w"
    then obtain c d where cd: "put_table v = Inr c" "put_table w = Inr d" "a = 1 # c" "b = 1 # d"
      using ab unfolding put_catalog_mutation_def by (auto simp: rbind_eq_Inr)
    have "v = w \<and> s = t" by (rule delimitsD[OF delimits_table _ _ cd(1,2)]) (use eq cd in simp_all)
    then show ?thesis by (simp add: xy)
  next
    fix v w
    assume xy: "x = CreateIndex v" "y = CreateIndex w"
    then obtain c d where cd: "put_index v = Inr c" "put_index w = Inr d" "a = 2 # c" "b = 2 # d"
      using ab unfolding put_catalog_mutation_def by (auto simp: rbind_eq_Inr)
    have "v = w \<and> s = t" by (rule delimitsD[OF delimits_index _ _ cd(1,2)]) (use eq cd in simp_all)
    then show ?thesis by (simp add: xy)
  qed (use ab eq in \<open>auto simp: put_catalog_mutation_def rbind_eq_Inr\<close>)
qed

text \<open>
  What the Rust types guarantee of an attempt: a client id is sixteen bytes and text is UTF-8.
\<close>

definition attempt_wf :: "txn_attempt \<Rightarrow> bool" where
  "attempt_wf a \<longleftrightarrow> length (client_id (att_request a)) = 16 \<and> list_all write_wf (att_writes a)"

definition canonical_header :: "txn_attempt \<Rightarrow> bytes" where
  "canonical_header a = as_bytes ''ASTRTXN'' @ [1] @ client_id (att_request a)
     @ u64_to_be (sequence (att_request a)) @ u64_to_be (att_leader_term a)
     @ u64_to_be (att_read_ts a) @ u64_to_be (att_schema_epoch a)"

lemma canonical_header_append:
  assumes "attempt_wf a" "attempt_wf b" "canonical_header a @ s = canonical_header b @ t"
  shows "att_request a = att_request b \<and> att_leader_term a = att_leader_term b
    \<and> att_read_ts a = att_read_ts b \<and> att_schema_epoch a = att_schema_epoch b \<and> s = t"
proof -
  let ?r = "\<lambda>a s. u64_to_be (sequence (att_request a)) @ u64_to_be (att_leader_term a)
     @ u64_to_be (att_read_ts a) @ u64_to_be (att_schema_epoch a) @ s"
  have eq: "client_id (att_request a) @ ?r a s = client_id (att_request b) @ ?r b t"
    using assms(3) by (simp add: canonical_header_def)
  have len: "length (client_id (att_request a)) = length (client_id (att_request b))"
    using assms(1,2) by (simp add: attempt_wf_def)
  from iffD1[OF append_eq_append_conv[OF disjI1[OF len]] eq]
  show ?thesis by (simp add: client_request_id.equality)
qed

lemma canonical_bytes_cases:
  assumes "canonical_bytes a = Inr bs"
  obtains n w m c where "put_len (length (att_writes a)) = Inr n"
    "try_map put_write (att_writes a) = Inr w"
    "put_len (length (att_catalog_mutations a)) = Inr m"
    "try_map put_catalog_mutation (att_catalog_mutations a) = Inr c"
    "bs = canonical_header a @ n @ concat w @ m @ concat c"
proof -
  obtain n w m c where "put_len (length (att_writes a)) = Inr n"
    "try_map put_write (att_writes a) = Inr w"
    "put_len (length (att_catalog_mutations a)) = Inr m"
    "try_map put_catalog_mutation (att_catalog_mutations a) = Inr c"
    "Inr (as_bytes ''ASTRTXN'' @ [1] @ client_id (att_request a)
      @ u64_to_be (sequence (att_request a)) @ u64_to_be (att_leader_term a)
      @ u64_to_be (att_read_ts a) @ u64_to_be (att_schema_epoch a)
      @ n @ concat w @ m @ concat c) = (Inr bs :: engine_error + bytes)"
    using assms unfolding canonical_bytes_def rbind_eq_Inr by blast
  then show ?thesis by (intro that) (auto simp: canonical_header_def)
qed

text \<open>
  C8: canonical bytes identify the attempt.  Two attempts with the same canonical bytes are
  equal, in every field down to the column flags of created tables; so two different attempts
  can share a command hash only through a SHA-256 collision.
\<close>

theorem canonical_bytes_inject:
  assumes "attempt_wf a" "attempt_wf b"
    and "canonical_bytes a = Inr bs" "canonical_bytes b = Inr bs"
  shows "a = b"
proof -
  obtain n w m c where
    a: "put_len (length (att_writes a)) = Inr n" "try_map put_write (att_writes a) = Inr w"
      "put_len (length (att_catalog_mutations a)) = Inr m"
      "try_map put_catalog_mutation (att_catalog_mutations a) = Inr c"
    and bsa: "bs = canonical_header a @ n @ concat w @ m @ concat c"
    using assms(3) by (rule canonical_bytes_cases)
  obtain n' w' m' c' where
    b: "put_len (length (att_writes b)) = Inr n'" "try_map put_write (att_writes b) = Inr w'"
      "put_len (length (att_catalog_mutations b)) = Inr m'"
      "try_map put_catalog_mutation (att_catalog_mutations b) = Inr c'"
    and bsb: "bs = canonical_header b @ n' @ concat w' @ m' @ concat c'"
    using assms(4) by (rule canonical_bytes_cases)
  from bsa bsb have "canonical_header a @ n @ concat w @ m @ concat c
    = canonical_header b @ n' @ concat w' @ m' @ concat c'" by simp
  from canonical_header_append[OF assms(1,2) this]
  have head: "att_request a = att_request b" "att_leader_term a = att_leader_term b"
    "att_read_ts a = att_read_ts b" "att_schema_epoch a = att_schema_epoch b"
    and rest: "n @ concat w @ m @ concat c = n' @ concat w' @ m' @ concat c'"
    by simp_all
  have 1: "length (att_writes a) = length (att_writes b)
      \<and> concat w @ m @ concat c = concat w' @ m' @ concat c'"
    by (rule len_delimits[OF a(1) b(1) rest])
  then have 2: "att_writes a = att_writes b \<and> m @ concat c = m' @ concat c'"
    using assms(1,2) by (intro delimits_try_map[OF delimits_write _ _ _ a(2) b(2)])
      (simp_all add: attempt_wf_def)
  then have 3: "length (att_catalog_mutations a) = length (att_catalog_mutations b)
      \<and> concat c @ [] = concat c' @ []"
    by (intro len_delimits[OF a(3) b(3)]) simp_all
  then have 4: "att_catalog_mutations a = att_catalog_mutations b \<and> ([] :: bytes) = []"
    by (intro delimits_try_map[OF delimits_catalog_mutation _ _ _ a(4) b(4)])
      (simp_all add: list_all_iff)
  show ?thesis
    by (rule txn_attempt.equality[OF head conjunct1[OF 2] conjunct1[OF 4]]) simp
qed

definition example_attempt :: txn_attempt where
  "example_attempt = \<lparr>att_request = \<lparr>client_id = replicate 16 7, sequence = 1\<rparr>, att_leader_term = 2,
     att_read_ts = 5, att_schema_epoch = 1,
     att_writes = [\<lparr>tw_table_id = 1, tw_primary_key = Bool True, tw_mutation = Delete\<rparr>],
     att_catalog_mutations = []\<rparr>"

theorem canonical_bytes_inject_witness:
  "attempt_wf example_attempt \<and> attempt_wf (example_attempt\<lparr>att_leader_term := 3\<rparr>)
   \<and> is_ok (canonical_bytes example_attempt)
   \<and> canonical_bytes example_attempt \<noteq> canonical_bytes (example_attempt\<lparr>att_leader_term := 3\<rparr>)"
proof -
  let ?other = "example_attempt\<lparr>att_leader_term := 3\<rparr>"
  have wf: "attempt_wf example_attempt" "attempt_wf ?other"
    by (simp_all add: attempt_wf_def example_attempt_def write_wf_def value_wf_def)
  have ok: "is_ok (canonical_bytes example_attempt)"
    by (simp add: canonical_bytes_def example_attempt_def validate_canonical_def write_logical_key_def
        logical_key_new_def put_len_def put_write_def put_value_def put_bytes_def put_mutation_def
        is_ok_iff)
  then obtain bs where bs: "canonical_bytes example_attempt = Inr bs" by (auto simp: is_ok_iff)
  have "example_attempt \<noteq> ?other" by (simp add: example_attempt_def)
  with canonical_bytes_inject[OF wf bs] bs have "canonical_bytes example_attempt \<noteq> canonical_bytes ?other"
    by metis
  with wf ok show ?thesis by blast
qed

end
