(* ===== verification/Engine_Chain.thy ===== *)
theory Engine_Chain
  imports Engine_Txn
begin

text \<open>
  Version chains of \<open>crates/aster-engine/src/engine.rs\<close>: row versions and secondary-index versions
  with their visibility, vacuum and validation functions.  The source has each function twice,
  once per version type; both copies are modelled, and one locale proves their common laws.
\<close>

section \<open>Definitions\<close>

record row_version =
  rv_commit_index :: u64
  rv_row :: "row option"

record secondary_version =
  sv_commit_index :: u64
  sv_present :: bool

definition visible_row :: "row_version list \<Rightarrow> u64 \<Rightarrow> row option" where
  "visible_row versions read_ts =
     Option.bind (find (\<lambda>v. rv_commit_index v \<le> read_ts) versions) rv_row"

definition visible_secondary :: "secondary_version list \<Rightarrow> u64 \<Rightarrow> bool" where
  "visible_secondary versions read_ts =
     (case find (\<lambda>v. sv_commit_index v \<le> read_ts) versions of None \<Rightarrow> False | Some v \<Rightarrow> sv_present v)"

definition total_versions :: "('k :: linorder, 'v list) btmap \<Rightarrow> nat" where
  "total_versions m = sum_list (map length (bt_values m))"

definition vacuum_rows :: "row_version list \<Rightarrow> u64 \<Rightarrow> row_version list" where
  "vacuum_rows versions floor =
     takeWhile (\<lambda>v. rv_commit_index v > floor) versions
     @ (case find (\<lambda>v. rv_commit_index v \<le> floor) versions of
          None \<Rightarrow> []
        | Some v \<Rightarrow> if rv_row v \<noteq> None then [v] else [])"

definition vacuum_secondary :: "secondary_version list \<Rightarrow> u64 \<Rightarrow> secondary_version list" where
  "vacuum_secondary versions floor =
     takeWhile (\<lambda>v. sv_commit_index v > floor) versions
     @ (case find (\<lambda>v. sv_commit_index v \<le> floor) versions of
          None \<Rightarrow> []
        | Some v \<Rightarrow> if sv_present v then [v] else [])"

definition validate_row_versions :: "row_version list \<Rightarrow> u64 \<Rightarrow> engine_error + unit" where
  "validate_row_versions versions last_applied =
     (if versions = []
         \<or> list_ex (\<lambda>(a, b). rv_commit_index a \<le> rv_commit_index b) (windows2 versions)
         \<or> list_ex (\<lambda>v. rv_commit_index v = 0 \<or> rv_commit_index v > last_applied) versions
      then Inl (InvalidSnapshot ''primary version chain is empty, unordered, or out of range'')
      else Inr ())"

definition validate_secondary_versions :: "secondary_version list \<Rightarrow> u64 \<Rightarrow> engine_error + unit" where
  "validate_secondary_versions versions last_applied =
     (if versions = []
         \<or> list_ex (\<lambda>(a, b). sv_commit_index a \<le> sv_commit_index b) (windows2 versions)
         \<or> list_ex (\<lambda>v. sv_commit_index v = 0 \<or> sv_commit_index v > last_applied) versions
      then Inl (InvalidSnapshot ''secondary version chain is empty, unordered, or out of range'')
      else Inr ())"

section \<open>The laws of a version chain\<close>

text \<open>
  What the engine relies on of either kind of chain: a version has a commit index and a
  content, one content means absence, reading picks the newest version not after the
  timestamp, and vacuum keeps what is newer than the floor and the baseline below it.
\<close>

locale version_chain =
  fixes commit :: "'v \<Rightarrow> u64"
    and content :: "'v \<Rightarrow> 'a"
    and absent :: 'a
    and visible :: "'v list \<Rightarrow> u64 \<Rightarrow> 'a"
    and vacuum :: "'v list \<Rightarrow> u64 \<Rightarrow> 'v list"
    and validate :: "'v list \<Rightarrow> u64 \<Rightarrow> engine_error + unit"
  assumes visible_Nil: "visible [] ts = absent"
    and visible_Cons: "visible (v # vs) ts = (if commit v \<le> ts then content v else visible vs ts)"
    and vacuum_Nil: "vacuum [] f = []"
    and vacuum_Cons: "vacuum (v # vs) f =
      (if commit v > f then v # vacuum vs f else if content v = absent then [] else [v])"
    and validate_iff: "validate vs bnd = Inr () \<longleftrightarrow>
      vs \<noteq> [] \<and> sorted_wrt (>) (map commit vs) \<and> (\<forall>v \<in> set vs. 0 < commit v \<and> commit v \<le> bnd)"
begin

definition chain_ok :: "'v list \<Rightarrow> u64 \<Rightarrow> bool" where
  "chain_ok vs bnd \<longleftrightarrow>
     sorted_wrt (>) (map commit vs) \<and> (\<forall>v \<in> set vs. 0 < commit v \<and> commit v \<le> bnd)"

lemma validate_chain_ok: "validate vs bnd = Inr () \<longleftrightarrow> vs \<noteq> [] \<and> chain_ok vs bnd"
  by (simp add: validate_iff chain_ok_def)

lemma chain_ok_Nil: "chain_ok [] bnd"
  by (simp add: chain_ok_def)

lemma chain_ok_mono: "chain_ok vs bnd \<Longrightarrow> bnd \<le> bnd' \<Longrightarrow> chain_ok vs bnd'"
  by (auto simp: chain_ok_def intro: order_trans)

lemma chain_ok_push:
  assumes "chain_ok vs bnd" "commit v = c" "bnd < c"
  shows "chain_ok (v # vs) c"
  using assms by (fastforce simp: chain_ok_def word_gt_0_no word_neq_0_conv[symmetric])

lemma visible_future:
  assumes "chain_ok vs bnd" "bnd \<le> ts"
  shows "visible vs ts = visible vs bnd"
  using assms by (cases vs) (auto simp: chain_ok_def visible_Nil visible_Cons intro: order_trans)

lemma visible_push_old: "ts < commit v \<Longrightarrow> visible (v # vs) ts = visible vs ts"
  by (simp add: visible_Cons not_le[symmetric])

lemma visible_push_new: "commit v \<le> ts \<Longrightarrow> visible (v # vs) ts = content v"
  by (simp add: visible_Cons)

lemma visible_mem:
  assumes "visible vs ts \<noteq> absent"
  obtains v where "v \<in> set vs" "commit v \<le> ts" "content v = visible vs ts"
  using assms by (induction vs) (auto simp: visible_Nil visible_Cons split: if_splits)

lemma set_vacuum: "set (vacuum vs f) \<subseteq> set vs"
  by (induction vs) (auto simp: vacuum_Nil vacuum_Cons)

lemma length_vacuum: "length (vacuum vs f) \<le> length vs"
  by (induction vs) (auto simp: vacuum_Nil vacuum_Cons)

lemma visible_vacuum:
  assumes "f \<le> ts"
  shows "visible (vacuum vs f) ts = visible vs ts"
proof (induction vs)
  case (Cons v vs)
  show ?case
  proof (cases "commit v > f")
    case False
    then have "commit v \<le> ts" using assms by simp
    with False show ?thesis by (simp add: visible_Nil visible_Cons vacuum_Cons)
  qed (simp add: Cons visible_Cons vacuum_Cons)
qed (simp add: visible_Nil vacuum_Nil)

lemma chain_ok_vacuum:
  assumes "chain_ok vs bnd"
  shows "chain_ok (vacuum vs f) bnd"
  using assms
proof (induction vs)
  case (Cons v vs)
  have "chain_ok vs bnd" using Cons.prems by (simp add: chain_ok_def)
  then have IH: "chain_ok (vacuum vs f) bnd" by (rule Cons.IH)
  have "\<forall>w \<in> set (vacuum vs f). commit w < commit v"
    using Cons.prems set_vacuum[of vs f] by (auto simp: chain_ok_def)
  moreover have "0 < commit v" "commit v \<le> bnd" using Cons.prems by (simp_all add: chain_ok_def)
  ultimately have "chain_ok (v # vacuum vs f) bnd" "chain_ok [v] bnd"
    using IH unfolding chain_ok_def by auto
  then show ?case by (simp add: vacuum_Cons chain_ok_Nil)
qed (simp add: vacuum_Nil)

lemma vacuum_vacuum: "f \<le> g \<Longrightarrow> vacuum (vacuum vs f) g = vacuum vs g"
  by (induction vs) (auto simp: vacuum_Nil vacuum_Cons not_less intro: order_trans)

text \<open>The newest commit, which decides write conflicts, survives whenever it can matter.\<close>

lemma newest_vacuum:
  assumes "f \<le> ts" "chain_ok vs bnd"
  shows "(vacuum vs f \<noteq> [] \<and> commit (hd (vacuum vs f)) > ts) \<longleftrightarrow> (vs \<noteq> [] \<and> commit (hd vs) > ts)"
  using assms by (cases vs) (auto simp: vacuum_Nil vacuum_Cons intro: le_less_trans)

end

lemma visible_row_simps:
  "visible_row [] ts = None"
  "visible_row (v # vs) ts = (if rv_commit_index v \<le> ts then rv_row v else visible_row vs ts)"
  by (simp_all add: visible_row_def)

lemma visible_secondary_simps:
  "visible_secondary [] ts = False"
  "visible_secondary (v # vs) ts = (if sv_commit_index v \<le> ts then sv_present v else visible_secondary vs ts)"
  by (simp_all add: visible_secondary_def)

interpretation rows: version_chain rv_commit_index rv_row None visible_row vacuum_rows
  validate_row_versions
proof
  show "validate_row_versions vs bnd = Inr () \<longleftrightarrow>
      vs \<noteq> [] \<and> sorted_wrt (>) (map rv_commit_index vs)
      \<and> (\<forall>v \<in> set vs. 0 < rv_commit_index v \<and> rv_commit_index v \<le> bnd)" for vs bnd
    by (simp only: validate_row_versions_def windows2_descending)
      (auto simp: list_ex_iff word_neq_0_conv[symmetric] not_le[symmetric])
qed (auto simp: visible_row_simps vacuum_rows_def not_le[symmetric])

interpretation secondaries: version_chain sv_commit_index sv_present False visible_secondary
  vacuum_secondary validate_secondary_versions
proof
  show "validate_secondary_versions vs bnd = Inr () \<longleftrightarrow>
      vs \<noteq> [] \<and> sorted_wrt (>) (map sv_commit_index vs)
      \<and> (\<forall>v \<in> set vs. 0 < sv_commit_index v \<and> sv_commit_index v \<le> bnd)" for vs bnd
    by (simp only: validate_secondary_versions_def windows2_descending)
      (auto simp: list_ex_iff word_neq_0_conv[symmetric] not_le[symmetric])
qed (auto simp: visible_secondary_simps vacuum_secondary_def not_le[symmetric])

end
