(* ===== verification/Engine_Mvcc.thy ===== *)
theory Engine_Mvcc
  imports Engine_Chain
begin

text \<open>
  The replicated state machine of \<open>crates/aster-engine/src/engine.rs\<close>: the engine state, request
  admission, validation and application of attempts, secondary-index maintenance, no-ops and
  vacuum.  Definitions only; the invariant and the theorems are in the theories that import
  this one.
\<close>

section \<open>Data\<close>

text \<open>
  \<open>AbortReason::Validation\<close> holds rendered text: here the error whose text it is, or the
  literal message without its interpolated values.
\<close>

datatype abort_reason =
    WriteConflict u64 sql_value u64
  | SchemaChanged u64 u64
  | SnapshotVacuumed u64 u64
  | Validation "engine_error + string"

datatype commit_result =
    Committed u64 nat u64
  | Aborted u64 abort_reason

datatype request_rejection =
    FirstSequenceMustBeOne u64
  | SequenceGap u64 u64
  | SequenceTooOld u64 u64
  | SequenceHashMismatch u64

datatype apply_outcome =
    Applied commit_result
  | Duplicate commit_result
  | Rejected request_rejection
  | Noop

record client_record =
  cr_sequence :: u64
  cr_request_hash :: bytes
  cr_result :: commit_result

record engine_stats =
  committed_transactions :: u64
  aborted_transactions :: u64
  duplicate_requests :: u64
  rejected_requests :: u64
  primary_versions :: u64
  secondary_versions :: u64
  vacuumed_primary_versions :: u64
  vacuumed_secondary_versions :: u64

record vacuum_report =
  vr_previous_floor :: u64
  vr_retained_floor :: u64
  vr_primary_versions_removed :: nat
  vr_secondary_versions_removed :: nat
  vr_empty_primary_chains_removed :: nat
  vr_empty_secondary_chains_removed :: nat

datatype secondary_key =
  SecondaryKey (sk_index_id: u64) (sk_secondary_value: bytes) (sk_primary_key: bytes)

instantiation secondary_key :: linorder
begin

definition less_eq_secondary_key :: "secondary_key \<Rightarrow> secondary_key \<Rightarrow> bool" where
  "k \<le> l \<longleftrightarrow> (sk_index_id k, sk_secondary_value k, sk_primary_key k)
     \<le> (sk_index_id l, sk_secondary_value l, sk_primary_key l)"

definition less_secondary_key :: "secondary_key \<Rightarrow> secondary_key \<Rightarrow> bool" where
  "k < l \<longleftrightarrow> (sk_index_id k, sk_secondary_value k, sk_primary_key k)
     < (sk_index_id l, sk_secondary_value l, sk_primary_key l)"

instance
proof
  fix x y z :: secondary_key
  show "x < y \<longleftrightarrow> x \<le> y \<and> \<not> y \<le> x"
    unfolding less_eq_secondary_key_def less_secondary_key_def by (rule less_le_not_le)
  show "x \<le> x" unfolding less_eq_secondary_key_def by simp
  show "x \<le> y \<Longrightarrow> y \<le> z \<Longrightarrow> x \<le> z" unfolding less_eq_secondary_key_def by (rule order_trans)
  show "x \<le> y \<Longrightarrow> y \<le> x \<Longrightarrow> x = y"
    unfolding less_eq_secondary_key_def by (metis antisym secondary_key.expand prod.inject)
  show "x \<le> y \<or> y \<le> x" unfolding less_eq_secondary_key_def by (rule linear)
qed

end

record engine =
  eng_catalog :: catalog
  eng_primary :: "(logical_key, row_version list) btmap"
  eng_secondary :: "(secondary_key, secondary_version list) btmap"
  eng_clients :: "(bytes, client_record) btmap"
  last_applied :: u64
  last_apply_hash :: "bytes option"
  last_apply_outcome :: "apply_outcome option"
  retained_floor :: u64
  next_txn_id :: u64
  eng_stats :: engine_stats

definition engine_stats_default :: engine_stats where
  "engine_stats_default = \<lparr>committed_transactions = 0, aborted_transactions = 0,
     duplicate_requests = 0, rejected_requests = 0, primary_versions = 0, secondary_versions = 0,
     vacuumed_primary_versions = 0, vacuumed_secondary_versions = 0\<rparr>"

definition engine_new :: engine where
  "engine_new = \<lparr>eng_catalog = catalog_default, eng_primary = bt_empty, eng_secondary = bt_empty,
     eng_clients = bt_empty, last_applied = 0, last_apply_hash = None, last_apply_outcome = None,
     retained_floor = 0, next_txn_id = 1, eng_stats = engine_stats_default\<rparr>"

section \<open>Admission\<close>

datatype admission = New | DuplicateOf commit_result | RejectedWith request_rejection

definition admit_request :: "engine \<Rightarrow> client_request_id \<Rightarrow> bytes \<Rightarrow> admission" where
  "admit_request e request hash =
     (case bt_get (eng_clients e) (client_id request) of
        None \<Rightarrow> if sequence request = 1 then New
                else RejectedWith (FirstSequenceMustBeOne (sequence request))
      | Some r \<Rightarrow>
          if sequence request < cr_sequence r
          then RejectedWith (SequenceTooOld (cr_sequence r) (sequence request))
          else if sequence request = cr_sequence r
          then if hash = cr_request_hash r then DuplicateOf (cr_result r)
               else RejectedWith (SequenceHashMismatch (sequence request))
          else if sequence request = saturating_add (cr_sequence r) 1 then New
          else RejectedWith (SequenceGap (saturating_add (cr_sequence r) 1) (sequence request)))"

section \<open>Validation of an attempt\<close>

text \<open>\<open>slice[i]\<close>, which panics out of range.\<close>

definition index_or_panic :: "'a list \<Rightarrow> nat \<Rightarrow> engine_error + 'a" where
  "index_or_panic xs i = (if i < length xs then Inr (xs ! i) else Inl Panic)"

definition newest_commit :: "engine \<Rightarrow> logical_key \<Rightarrow> u64 option" where
  "newest_commit e key =
     Option.bind (bt_get (eng_primary e) key)
       (\<lambda>vs. case vs of [] \<Rightarrow> None | v # _ \<Rightarrow> Some (rv_commit_index v))"

text \<open>
  The checks of one write: \<open>None\<close> when it is valid, the abort reason otherwise; the outer sum is
  the panic of a slice index.
\<close>

definition validate_put :: "table_meta \<Rightarrow> txn_write \<Rightarrow> engine_error + abort_reason option" where
  "validate_put t w =
     (case tw_mutation w of
        Delete \<Rightarrow> Inr None
      | Put r \<Rightarrow>
          (case validate_row (tm_schema t) r of
             Inl err \<Rightarrow> Inr (Some (Validation (Inl (Core err))))
           | Inr _ \<Rightarrow> rbind (index_or_panic (row_values r) (tm_primary_key_column t)) (\<lambda>v.
               if v \<noteq> tw_primary_key w
               then Inr (Some (Validation (Inr ''row primary key differs from write key'')))
               else Inr None)))"

definition validate_conflict ::
  "engine \<Rightarrow> u64 \<Rightarrow> txn_write \<Rightarrow> abort_reason option" where
  "validate_conflict e read_ts w =
     (case write_logical_key w of
        Inl err \<Rightarrow> Some (Validation (Inl err))
      | Inr key \<Rightarrow>
          (case newest_commit e key of
             None \<Rightarrow> None
           | Some commit \<Rightarrow>
               if commit > read_ts
               then Some (WriteConflict (tw_table_id w) (tw_primary_key w) commit)
               else None))"

definition validate_write ::
  "engine \<Rightarrow> catalog \<Rightarrow> u64 \<Rightarrow> txn_write \<Rightarrow> engine_error + abort_reason option" where
  "validate_write e next_catalog read_ts w =
     (case catalog_table next_catalog (tw_table_id w) of
        None \<Rightarrow> Inr (Some (Validation (Inr ''unknown table'')))
      | Some t \<Rightarrow> rbind (index_or_panic (columns (tm_schema t)) (tm_primary_key_column t)) (\<lambda>c.
          if is_null (tw_primary_key w) \<or> value_data_type (tw_primary_key w) \<noteq> Some (col_data_type c)
          then Inr (Some (Validation (Inr ''invalid primary key for table'')))
          else rbind (validate_put t w) (\<lambda>bad.
            case bad of Some reason \<Rightarrow> Inr (Some reason)
            | None \<Rightarrow> Inr (validate_conflict e read_ts w))))"

fun validate_writes ::
  "engine \<Rightarrow> catalog \<Rightarrow> u64 \<Rightarrow> txn_write list \<Rightarrow> engine_error + abort_reason option" where
  "validate_writes e next_catalog read_ts [] = Inr None"
| "validate_writes e next_catalog read_ts (w # ws) =
     rbind (validate_write e next_catalog read_ts w) (\<lambda>bad.
       case bad of Some reason \<Rightarrow> Inr (Some reason)
       | None \<Rightarrow> validate_writes e next_catalog read_ts ws)"

definition created_indexes :: "catalog \<Rightarrow> u64 list \<Rightarrow> abort_reason + index_meta list" where
  "created_indexes c ids =
     try_map (\<lambda>ident. ok_or (catalog_index c ident)
       (Validation (Inr ''catalog mutation returned missing index''))) ids"

definition validate_attempt_for_apply ::
  "engine \<Rightarrow> txn_attempt \<Rightarrow> engine_error + (abort_reason + catalog \<times> index_meta list)" where
  "validate_attempt_for_apply e a =
     (if att_read_ts a < retained_floor e
      then Inr (Inl (SnapshotVacuumed (att_read_ts a) (retained_floor e)))
      else if att_read_ts a > last_applied e
      then Inr (Inl (Validation (Inr ''read timestamp is ahead of applied index'')))
      else if att_schema_epoch a \<noteq> cat_schema_epoch (eng_catalog e)
      then Inr (Inl (SchemaChanged (att_schema_epoch a) (cat_schema_epoch (eng_catalog e))))
      else case validate_canonical a of
        Inl err \<Rightarrow> Inr (Inl (Validation (Inl err)))
      | Inr _ \<Rightarrow>
        (case apply_mutations (eng_catalog e) (att_catalog_mutations a) of
           Inl err \<Rightarrow> Inr (Inl (Validation (Inl err)))
         | Inr (next_catalog, ids) \<Rightarrow>
           (case created_indexes next_catalog ids of
              Inl reason \<Rightarrow> Inr (Inl reason)
            | Inr new_indexes \<Rightarrow>
              rbind (validate_writes e next_catalog (att_read_ts a) (att_writes a)) (\<lambda>bad.
                case bad of Some reason \<Rightarrow> Inr (Inl reason)
                | None \<Rightarrow> Inr (Inr (next_catalog, new_indexes))))))"

section \<open>Application of an attempt\<close>

text \<open>\<open>map.entry(key).or_default().insert(0, v)\<close>.\<close>

definition bt_push :: "'k :: linorder \<Rightarrow> 'v \<Rightarrow> ('k, 'v list) btmap \<Rightarrow> ('k, 'v list) btmap" where
  "bt_push k v m = bt_insert k (v # (case bt_get m k of None \<Rightarrow> [] | Some vs \<Rightarrow> vs)) m"

definition push_secondary ::
  "u64 \<Rightarrow> sql_value \<Rightarrow> logical_key \<Rightarrow> u64 \<Rightarrow> bool \<Rightarrow> engine \<Rightarrow> engine" where
  "push_secondary index_id v primary_key commit_index present e =
     e\<lparr>eng_secondary :=
         bt_push (SecondaryKey index_id (encode_ordered v []) (lk_primary_key primary_key))
           \<lparr>sv_commit_index = commit_index, sv_present = present\<rparr> (eng_secondary e)\<rparr>"

text \<open>\<open>row.values.get(column)\<close> of an optional row.\<close>

definition column_value :: "row option \<Rightarrow> nat \<Rightarrow> sql_value option" where
  "column_value r c =
     Option.bind r (\<lambda>r. if c < length (row_values r) then Some (row_values r ! c) else None)"

definition push_if_value ::
  "u64 \<Rightarrow> sql_value option \<Rightarrow> logical_key \<Rightarrow> u64 \<Rightarrow> bool \<Rightarrow> engine \<Rightarrow> engine" where
  "push_if_value index_id v primary_key commit_index present e =
     (case v of
        None \<Rightarrow> e
      | Some x \<Rightarrow> if is_null x then e else push_secondary index_id x primary_key commit_index present e)"

definition update_secondary ::
  "index_meta \<Rightarrow> logical_key \<Rightarrow> row option \<Rightarrow> row option \<Rightarrow> u64 \<Rightarrow> engine \<Rightarrow> engine" where
  "update_secondary i primary_key old_row new_row commit_index e =
     (let old_value = column_value old_row (im_column i);
          new_value = column_value new_row (im_column i)
      in if old_value = new_value then e
         else push_if_value (im_id i) new_value primary_key commit_index True
                (push_if_value (im_id i) old_value primary_key commit_index False e))"

fun mutation_row :: "mutation \<Rightarrow> row option" where
  "mutation_row (Put r) = Some r"
| "mutation_row Delete = None"

definition before_row :: "engine \<Rightarrow> txn_write \<Rightarrow> engine_error + logical_key \<times> row option" where
  "before_row e w =
     rbind (write_logical_key w) (\<lambda>key.
       Inr (key, Option.bind (bt_get (eng_primary e) key) (\<lambda>vs. visible_row vs (last_applied e))))"

fun apply_write ::
  "catalog \<Rightarrow> u64 \<Rightarrow> txn_write \<times> logical_key \<times> row option \<Rightarrow> engine \<Rightarrow> engine" where
  "apply_write previous_catalog commit_index (w, key, old_row) e =
     (let new_row = mutation_row (tw_mutation w);
          e' = fold (\<lambda>i. update_secondary i key old_row new_row commit_index)
                 (indexes_for_table previous_catalog (tw_table_id w)) e
      in e'\<lparr>eng_primary := bt_push key \<lparr>rv_commit_index = commit_index, rv_row = new_row\<rparr>
              (eng_primary e')\<rparr>)"

fun backfill_entries ::
  "index_meta \<Rightarrow> u64 \<Rightarrow> (logical_key \<times> row_version list) list \<Rightarrow> engine_error + (logical_key \<times> sql_value) list"
where
  "backfill_entries i commit_index [] = Inr []"
| "backfill_entries i commit_index ((key, versions) # rest) =
     (case visible_row versions commit_index of
        None \<Rightarrow> backfill_entries i commit_index rest
      | Some r \<Rightarrow> rbind (index_or_panic (row_values r) (im_column i)) (\<lambda>v.
          rbind (backfill_entries i commit_index rest) (\<lambda>tail.
            Inr (if is_null v then tail else (key, v) # tail))))"

definition backfill_index :: "u64 \<Rightarrow> engine \<Rightarrow> index_meta \<Rightarrow> engine_error + engine" where
  "backfill_index commit_index e i =
     rbind (backfill_entries i commit_index
              (filter (\<lambda>(key, _). lk_table_id key = im_table_id i) (bt_entries (eng_primary e))))
       (\<lambda>entries. Inr (fold (\<lambda>(key, v). push_secondary (im_id i) v key commit_index True) entries e))"

definition refresh_version_stats :: "engine \<Rightarrow> engine" where
  "refresh_version_stats e =
     e\<lparr>eng_stats := (eng_stats e)
        \<lparr>primary_versions := of_nat (total_versions (eng_primary e)),
         secondary_versions := of_nat (total_versions (eng_secondary e))\<rparr>\<rparr>"

definition count_aborted :: "engine \<Rightarrow> engine" where
  "count_aborted e =
     e\<lparr>eng_stats := (eng_stats e)
        \<lparr>aborted_transactions := saturating_add (aborted_transactions (eng_stats e)) 1\<rparr>\<rparr>"

definition count_committed :: "engine \<Rightarrow> engine" where
  "count_committed e =
     e\<lparr>eng_stats := (eng_stats e)
        \<lparr>committed_transactions := saturating_add (committed_transactions (eng_stats e)) 1\<rparr>\<rparr>"

definition evaluate_and_apply ::
  "engine \<Rightarrow> u64 \<Rightarrow> txn_attempt \<Rightarrow> engine_error + commit_result \<times> engine" where
  "evaluate_and_apply e index a =
     rbind (validate_attempt_for_apply e a) (\<lambda>result.
       case result of
         Inl reason \<Rightarrow> Inr (Aborted index reason, count_aborted e)
       | Inr (next_catalog, new_indexes) \<Rightarrow>
         (case try_map (before_row e) (att_writes a) of
            Inl err \<Rightarrow> Inr (Aborted index (Validation (Inl err)), count_aborted e)
          | Inr before_rows \<Rightarrow>
            rbind (try_fold (backfill_index index)
                     (fold (apply_write (eng_catalog e) index) (zip (att_writes a) before_rows)
                        (e\<lparr>eng_catalog := next_catalog\<rparr>))
                     new_indexes)
              (\<lambda>e'. Inr (Committed index (length (att_writes a)) (cat_schema_epoch (eng_catalog e')),
                         refresh_version_stats (count_committed e')))))"

definition admit_new ::
  "engine \<Rightarrow> u64 \<Rightarrow> bytes \<Rightarrow> txn_attempt \<Rightarrow> engine_error + apply_outcome \<times> engine" where
  "admit_new e index request_hash a =
     rbind (evaluate_and_apply e index a) (\<lambda>(result, e').
       Inr (Applied result,
            e'\<lparr>eng_clients := bt_insert (client_id (att_request a))
                 \<lparr>cr_sequence = sequence (att_request a), cr_request_hash = request_hash,
                  cr_result = result\<rparr> (eng_clients e')\<rparr>))"

definition apply_with_request_hash ::
  "engine \<Rightarrow> u64 \<Rightarrow> bytes \<Rightarrow> bytes \<Rightarrow> txn_attempt \<Rightarrow> engine_error + apply_outcome \<times> engine" where
  "apply_with_request_hash e index apply_hash request_hash a =
     rbind (validate_canonical a) (\<lambda>_.
       if index = last_applied e
       then if last_apply_hash e \<noteq> Some apply_hash then Inl (ApplyHashMismatch index)
            else rbind (ok_or (last_apply_outcome e) (InvalidSnapshot ''last apply outcome is missing''))
                   (\<lambda>outcome. Inr (outcome, e))
       else rbind (ok_or (checked_add (last_applied e) 1) (Core (Invariant ''applied index overflow'')))
         (\<lambda>expected.
           if index \<noteq> expected then Inl (ApplyGap expected index)
           else rbind
             (case admit_request e (att_request a) request_hash of
                New \<Rightarrow> admit_new e index request_hash a
              | DuplicateOf result \<Rightarrow>
                  Inr (Duplicate result,
                       e\<lparr>eng_stats := (eng_stats e)\<lparr>duplicate_requests :=
                            saturating_add (duplicate_requests (eng_stats e)) 1\<rparr>\<rparr>)
              | RejectedWith rejection \<Rightarrow>
                  Inr (Rejected rejection,
                       e\<lparr>eng_stats := (eng_stats e)\<lparr>rejected_requests :=
                            saturating_add (rejected_requests (eng_stats e)) 1\<rparr>\<rparr>))
             (\<lambda>(outcome, e'). Inr (outcome,
                e'\<lparr>last_applied := index, last_apply_hash := Some apply_hash,
                   last_apply_outcome := Some outcome\<rparr>))))"

definition engine_apply ::
  "(bytes \<Rightarrow> bytes) \<Rightarrow> engine \<Rightarrow> u64 \<Rightarrow> bytes \<Rightarrow> txn_attempt \<Rightarrow> engine_error + apply_outcome \<times> engine" where
  "engine_apply sha256 e index hash a =
     rbind (command_hash sha256 a) (\<lambda>h.
       if h \<noteq> hash then Inl CommandHashMismatch
       else apply_with_request_hash e index hash hash a)"

definition apply_noop :: "engine \<Rightarrow> u64 \<Rightarrow> bytes \<Rightarrow> engine_error + apply_outcome \<times> engine" where
  "apply_noop e index entry_hash =
     (if index = last_applied e
      then if last_apply_hash e \<noteq> Some entry_hash \<or> last_apply_outcome e \<noteq> Some Noop
           then Inl (ApplyHashMismatch index)
           else Inr (Noop, e)
      else rbind (ok_or (checked_add (last_applied e) 1) (Core (Invariant ''applied index overflow'')))
        (\<lambda>expected.
          if index \<noteq> expected then Inl (ApplyGap expected index)
          else Inr (Noop, e\<lparr>last_applied := index, last_apply_hash := Some entry_hash,
                            last_apply_outcome := Some Noop\<rparr>)))"

section \<open>Vacuum\<close>

definition vacuum_offline :: "engine \<Rightarrow> u64 \<Rightarrow> engine_error + vacuum_report \<times> engine" where
  "vacuum_offline e retain_from =
     (if retain_from > last_applied e
      then Inl (Core (Constraint ''vacuum floor is ahead of applied index''))
      else
        let previous_floor = retained_floor e;
            floor = max retain_from previous_floor;
            primary = bt_retain (\<lambda>_ vs. vs \<noteq> []) (bt_map (\<lambda>vs. vacuum_rows vs floor) (eng_primary e));
            secondary = bt_retain (\<lambda>_ vs. vs \<noteq> [])
              (bt_map (\<lambda>vs. vacuum_secondary vs floor) (eng_secondary e));
            primary_removed = total_versions (eng_primary e) - total_versions primary;
            secondary_removed = total_versions (eng_secondary e) - total_versions secondary;
            e' = e\<lparr>eng_primary := primary, eng_secondary := secondary, retained_floor := floor,
                   eng_stats := (eng_stats e)
                     \<lparr>vacuumed_primary_versions :=
                        saturating_add (vacuumed_primary_versions (eng_stats e)) (of_nat primary_removed),
                      vacuumed_secondary_versions :=
                        saturating_add (vacuumed_secondary_versions (eng_stats e)) (of_nat secondary_removed)\<rparr>\<rparr>
        in Inr (\<lparr>vr_previous_floor = previous_floor, vr_retained_floor = floor,
                 vr_primary_versions_removed = primary_removed,
                 vr_secondary_versions_removed = secondary_removed,
                 vr_empty_primary_chains_removed = bt_len (eng_primary e) - bt_len primary,
                 vr_empty_secondary_chains_removed = bt_len (eng_secondary e) - bt_len secondary\<rparr>,
                refresh_version_stats e'))"

section \<open>Opening transactions\<close>

definition begin_at :: "engine \<Rightarrow> u64 \<Rightarrow> u64 \<Rightarrow> engine_error + transaction \<times> engine" where
  "begin_at e read_ts schema_epoch =
     (if read_ts < retained_floor e then Inl (SnapshotTooOld read_ts (retained_floor e))
      else if read_ts > last_applied e
      then Inl (Core (Constraint ''snapshot is ahead of applied index''))
      else if schema_epoch > cat_schema_epoch (eng_catalog e)
      then Inl (Core (Constraint ''schema epoch is ahead of current epoch''))
      else rbind (ok_or (checked_add (next_txn_id e) 1) (Core (Invariant ''transaction id overflow'')))
        (\<lambda>following. Inr (transaction_new (next_txn_id e) read_ts schema_epoch,
                         e\<lparr>next_txn_id := following\<rparr>)))"

definition engine_begin :: "engine \<Rightarrow> engine_error + transaction \<times> engine" where
  "engine_begin e = begin_at e (last_applied e) (cat_schema_epoch (eng_catalog e))"

definition prepare_transaction :: "engine \<Rightarrow> engine_error + transaction" where
  "prepare_transaction e =
     (if last_applied e < retained_floor e
      then Inl (SnapshotTooOld (last_applied e) (retained_floor e))
      else Inr (transaction_new 0 (last_applied e) (cat_schema_epoch (eng_catalog e))))"

end
