(* ===== verification/Engine_Effect.thy ===== *)
theory Engine_Effect
  imports Engine_Mvcc
begin

text \<open>
  What the application of an attempt does to the two version stores of the engine: every
  loop of \<open>evaluate_and_apply\<close> (writes, secondary indexes of a write, backfills) is reduced to
  one equation per store that says which versions are pushed on which chain.
\<close>

section \<open>Chains as functions of the key\<close>

definition chain_of :: "('k :: linorder, 'v list) btmap \<Rightarrow> 'k \<Rightarrow> 'v list" where
  "chain_of m k = (case bt_get m k of None \<Rightarrow> [] | Some vs \<Rightarrow> vs)"

lemma chain_of_push [simp]:
  "chain_of (bt_push k v m) l = (if l = k then v # chain_of m k else chain_of m l)"
  by (simp add: chain_of_def bt_push_def)

lemma bt_get_push:
  "bt_get (bt_push k v m) l = (if l = k then Some (v # chain_of m k) else bt_get m l)"
  by (simp add: chain_of_def bt_push_def)

lemma chain_of_empty [simp]: "chain_of bt_empty k = []"
  by (simp add: chain_of_def)

abbreviation prim :: "engine \<Rightarrow> logical_key \<Rightarrow> row_version list" where
  "prim e \<equiv> chain_of (eng_primary e)"

abbreviation sec :: "engine \<Rightarrow> secondary_key \<Rightarrow> secondary_version list" where
  "sec e \<equiv> chain_of (eng_secondary e)"

text \<open>What a snapshot at a timestamp shows under a key, and what an index shows.\<close>

definition view :: "engine \<Rightarrow> u64 \<Rightarrow> logical_key \<Rightarrow> row option" where
  "view e ts k = visible_row (prim e k) ts"

definition index_view :: "engine \<Rightarrow> u64 \<Rightarrow> secondary_key \<Rightarrow> bool" where
  "index_view e ts k = visible_secondary (sec e k) ts"

lemma visible_chain [simp]:
  "Option.bind (bt_get (eng_primary e) k) (\<lambda>vs. visible_row vs ts) = view e ts k"
  by (simp add: view_def chain_of_def visible_row_simps split: option.split)

section \<open>What application leaves alone\<close>

text \<open>The write and backfill loops touch only the two version stores.\<close>

definition stores_only :: "engine \<Rightarrow> engine \<Rightarrow> bool" where
  "stores_only e e' \<longleftrightarrow>
     eng_catalog e' = eng_catalog e \<and> eng_clients e' = eng_clients e
     \<and> last_applied e' = last_applied e \<and> last_apply_hash e' = last_apply_hash e
     \<and> last_apply_outcome e' = last_apply_outcome e \<and> retained_floor e' = retained_floor e
     \<and> next_txn_id e' = next_txn_id e \<and> eng_stats e' = eng_stats e"

lemma stores_onlyD:
  assumes "stores_only e e'"
  shows "eng_catalog e' = eng_catalog e" "eng_clients e' = eng_clients e"
    "last_applied e' = last_applied e" "last_apply_hash e' = last_apply_hash e"
    "last_apply_outcome e' = last_apply_outcome e" "retained_floor e' = retained_floor e"
    "next_txn_id e' = next_txn_id e" "eng_stats e' = eng_stats e"
  using assms by (simp_all add: stores_only_def)

lemma stores_only_refl [simp]: "stores_only e e"
  by (simp add: stores_only_def)

lemma stores_only_trans: "stores_only a b \<Longrightarrow> stores_only b c \<Longrightarrow> stores_only a c"
  by (simp add: stores_only_def)

lemma stores_only_fold:
  assumes "\<And>x e. stores_only e (f x e)"
  shows "stores_only e (fold f xs e)"
  using assms by (induction xs arbitrary: e) (auto intro: stores_only_trans)

lemma stores_only_push_secondary: "stores_only e (push_secondary i v k c p e)"
  by (simp add: stores_only_def push_secondary_def)

lemma stores_only_update_secondary: "stores_only e (update_secondary i k r s c e)"
  by (auto simp: update_secondary_def push_if_value_def Let_def split: option.split
      intro: stores_only_trans stores_only_push_secondary)

lemma stores_only_apply_write: "stores_only e (apply_write cat c x e)"
proof -
  obtain w key old where x: "x = (w, key, old)" by (cases x)
  let ?e = "fold (\<lambda>i. update_secondary i key old (mutation_row (tw_mutation w)) c)
    (indexes_for_table cat (tw_table_id w)) e"
  have "stores_only e ?e" by (rule stores_only_fold) (rule stores_only_update_secondary)
  moreover have "stores_only ?e (apply_write cat c x e)"
    by (simp add: stores_only_def x Let_def)
  ultimately show ?thesis by (rule stores_only_trans)
qed

lemma stores_only_backfill: "backfill_index c e i = Inr e' \<Longrightarrow> stores_only e e'"
  by (auto simp: backfill_index_def result_simps intro!: stores_only_fold stores_only_push_secondary
      split: prod.split)

lemma stores_only_backfills:
  assumes "try_fold (backfill_index c) e is = Inr e'"
  shows "stores_only e e'"
  using assms
  by (induction "is" arbitrary: e)
    (auto simp: rbind_eq_Inr intro: stores_only_trans stores_only_backfill)

section \<open>Effect of the writes on the primary store\<close>

lemma primary_push_secondary [simp]: "eng_primary (push_secondary i v k c p e) = eng_primary e"
  by (simp add: push_secondary_def)

lemma primary_update_secondary [simp]: "eng_primary (update_secondary i k r s c e) = eng_primary e"
  by (simp add: update_secondary_def push_if_value_def Let_def split: option.split)

lemma primary_fold_update [simp]:
  "eng_primary (fold (\<lambda>i. update_secondary i k r s c) is e) = eng_primary e"
  by (induction "is" arbitrary: e) simp_all

lemma primary_apply_write:
  "eng_primary (apply_write cat c (w, key, old) e) =
     bt_push key \<lparr>rv_commit_index = c, rv_row = mutation_row (tw_mutation w)\<rparr> (eng_primary e)"
  by (simp add: Let_def)

lemma primary_backfill: "backfill_index c e i = Inr e' \<Longrightarrow> eng_primary e' = eng_primary e"
proof -
  have "eng_primary (fold (\<lambda>(key, v). push_secondary (im_id i) v key c True) xs e) = eng_primary e" for xs
    by (induction xs arbitrary: e) (auto split: prod.split)
  then show "backfill_index c e i = Inr e' \<Longrightarrow> eng_primary e' = eng_primary e"
    by (auto simp: backfill_index_def result_simps)
qed

lemma primary_backfills:
  "try_fold (backfill_index c) e is = Inr e' \<Longrightarrow> eng_primary e' = eng_primary e"
  by (induction "is" arbitrary: e) (auto simp: rbind_eq_Inr dest: primary_backfill)

text \<open>The writes of an attempt as changes: key, row before, row after.\<close>

definition changes :: "txn_write list \<Rightarrow> (logical_key \<times> row option) list \<Rightarrow> (logical_key \<times> row option \<times> row option) list" where
  "changes ws before = map (\<lambda>(w, key, old). (key, old, mutation_row (tw_mutation w))) (zip ws before)"

lemma changes_simps [simp]:
  "changes [] before = []"
  "changes (w # ws) ((key, old) # before) = (key, old, mutation_row (tw_mutation w)) # changes ws before"
  by (simp_all add: changes_def)

lemma prim_apply_writes:
  assumes "length before = length ws" "distinct (map fst before)"
  shows "prim (fold (apply_write cat c) (zip ws before) e) k =
    (case map_of (changes ws before) k of
       None \<Rightarrow> prim e k
     | Some (old, new) \<Rightarrow> \<lparr>rv_commit_index = c, rv_row = new\<rparr> # prim e k)"
  using assms
proof (induction ws arbitrary: before e)
  case (Cons w ws)
  then obtain key old bs where before: "before = (key, old) # bs" by (cases before) auto
  with Cons.prems have len: "length bs = length ws" and dist: "distinct (map fst bs)"
    and fresh: "key \<notin> set (map fst bs)" by auto
  have "map_of (changes ws bs) key = None"
    using fresh by (force simp: map_of_eq_None_iff changes_def dest!: set_zip_rightD)
  then show ?case
    by (simp add: before Cons.IH[OF len dist] primary_apply_write del: apply_write.simps split: option.split)
qed simp

section \<open>Effect of the writes on the secondary store\<close>

definition indexed :: "sql_value option \<Rightarrow> bytes \<Rightarrow> bool" where
  "indexed v ev \<longleftrightarrow> (\<exists>x. v = Some x \<and> x \<noteq> Null \<and> encode_ordered x [] = ev)"

text \<open>The versions one write pushes on the chain of an encoded value.\<close>

definition secondary_delta ::
  "sql_value option \<Rightarrow> sql_value option \<Rightarrow> u64 \<Rightarrow> bytes \<Rightarrow> secondary_version list" where
  "secondary_delta old new c ev =
     (if old = new then []
      else (if indexed new ev then [\<lparr>sv_commit_index = c, sv_present = True\<rparr>] else [])
           @ (if indexed old ev then [\<lparr>sv_commit_index = c, sv_present = False\<rparr>] else []))"

lemma indexed_unique: "indexed a ev \<Longrightarrow> indexed b ev \<Longrightarrow> a = b"
  by (auto simp: indexed_def encode_ordered_inject simp del: encode_ordered.simps)

lemma secondary_delta_cases:
  obtains "secondary_delta old new c ev = []" "indexed new ev = indexed old ev"
  | "secondary_delta old new c ev = [\<lparr>sv_commit_index = c, sv_present = indexed new ev\<rparr>]"
proof (cases "old = new")
  case True
  then show ?thesis using that(1) by (simp add: secondary_delta_def)
next
  case False
  then have "\<not> (indexed new ev \<and> indexed old ev)" using indexed_unique by blast
  with False show ?thesis using that
    by (cases "indexed new ev"; cases "indexed old ev") (simp_all add: secondary_delta_def)
qed

lemma sec_push_secondary:
  "sec (push_secondary iid v key c p e) sk =
     (if sk = SecondaryKey iid (encode_ordered v []) (lk_primary_key key)
      then \<lparr>sv_commit_index = c, sv_present = p\<rparr> # sec e sk else sec e sk)"
  by (simp add: push_secondary_def)

lemma sec_push_if_value:
  "sec (push_if_value iid v key c p e) (SecondaryKey jid ev pk) =
     (if jid = iid \<and> pk = lk_primary_key key \<and> indexed v ev
      then \<lparr>sv_commit_index = c, sv_present = p\<rparr> # sec e (SecondaryKey jid ev pk)
      else sec e (SecondaryKey jid ev pk))"
  by (cases v) (auto simp: push_if_value_def sec_push_secondary indexed_def)

lemma sec_update_secondary:
  "sec (update_secondary i key old new c e) (SecondaryKey iid ev pk) =
     (if iid = im_id i \<and> pk = lk_primary_key key
      then secondary_delta (column_value old (im_column i)) (column_value new (im_column i)) c ev
           @ sec e (SecondaryKey iid ev pk)
      else sec e (SecondaryKey iid ev pk))"
  by (simp add: update_secondary_def Let_def sec_push_if_value secondary_delta_def)

lemma sec_fold_update:
  assumes "distinct (map im_id is)"
  shows "sec (fold (\<lambda>i. update_secondary i key old new c) is e) (SecondaryKey iid ev pk) =
    (case find (\<lambda>i. im_id i = iid) is of
       None \<Rightarrow> sec e (SecondaryKey iid ev pk)
     | Some i \<Rightarrow> (if pk = lk_primary_key key
         then secondary_delta (column_value old (im_column i)) (column_value new (im_column i)) c ev
         else []) @ sec e (SecondaryKey iid ev pk))"
  using assms
proof (induction "is" arbitrary: e)
  case (Cons i "is")
  have "im_id i = iid \<Longrightarrow> find (\<lambda>i. im_id i = iid) is = None"
    using Cons.prems by (auto simp: find_None_iff) (metis imageI)
  with Cons show ?case by (auto simp: sec_update_secondary split: option.split)
qed simp

lemma find_filter: "find P (filter Q xs) = find (\<lambda>x. Q x \<and> P x) xs"
  by (induction xs) auto

lemma find_unique:
  assumes "distinct (map f xs)" "x \<in> set xs" "f x = a"
  shows "find (\<lambda>y. Q y \<and> f y = a) xs = (if Q x then Some x else None)"
  using assms by (induction xs) (auto simp: find_None_iff image_iff)

lemma bt_values_ids:
  assumes "\<forall>k v. bt_get m k = Some v \<longrightarrow> k = f v"
  shows "distinct (map f (bt_values m))"
proof -
  have "map f (bt_values m) = bt_keys m"
    using assms by (auto simp: bt_values_def bt_keys_def bt_entries_get[symmetric])
  then show ?thesis using sorted_bt_keys[of m] by (simp add: strict_sorted_iff)
qed

lemma distinct_indexes_for_table:
  assumes "catalog_ok c"
  shows "distinct (map im_id (indexes_for_table c tid))"
  using bt_values_ids[of "cat_indexes c" im_id] assms
  by (auto simp: indexes_for_table_def catalog_ok_def intro: distinct_map_filter)

lemma find_index_for_table:
  assumes "catalog_ok c"
  shows "find (\<lambda>i. im_id i = iid) (indexes_for_table c tid) =
    (case catalog_index c iid of
       None \<Rightarrow> None | Some i \<Rightarrow> if im_table_id i = tid then Some i else None)"
proof (cases "catalog_index c iid")
  case None
  then have "\<forall>i \<in> set (bt_values (cat_indexes c)). im_id i \<noteq> iid"
    using assms by (auto simp: catalog_index_def catalog_ok_def set_bt_values)
  with None show ?thesis by (auto simp: indexes_for_table_def find_None_iff)
next
  case (Some i)
  then have "i \<in> set (bt_values (cat_indexes c))" "im_id i = iid"
    using assms by (auto simp: catalog_index_def catalog_ok_def set_bt_values)
  moreover have "distinct (map im_id (bt_values (cat_indexes c)))"
    using assms by (intro bt_values_ids) (simp add: catalog_ok_def)
  ultimately show ?thesis
    by (simp add: Some indexes_for_table_def find_filter find_unique[where f = im_id])
qed

lemma sec_apply_write:
  assumes "catalog_ok cat" "lk_table_id key = tw_table_id w"
  shows "sec (apply_write cat c (w, key, old) e) (SecondaryKey iid ev pk) =
    (case catalog_index cat iid of
       None \<Rightarrow> sec e (SecondaryKey iid ev pk)
     | Some i \<Rightarrow> (if key = LogicalKey (im_table_id i) pk
         then secondary_delta (column_value old (im_column i))
                (column_value (mutation_row (tw_mutation w)) (im_column i)) c ev
         else []) @ sec e (SecondaryKey iid ev pk))"
proof -
  have "key = LogicalKey t pk \<longleftrightarrow> t = tw_table_id w \<and> pk = lk_primary_key key" for t
    using assms(2) by (cases key) auto
  then show ?thesis
    using assms by (simp add: Let_def sec_fold_update distinct_indexes_for_table find_index_for_table
        split: option.split)
qed

lemma sec_apply_writes:
  assumes cat: "catalog_ok cat"
    and "length before = length ws" "distinct (map fst before)"
    and "list_all2 (\<lambda>w (key, _). lk_table_id key = tw_table_id w) ws before"
  shows "sec (fold (apply_write cat c) (zip ws before) e) (SecondaryKey iid ev pk) =
    (case catalog_index cat iid of
       None \<Rightarrow> []
     | Some i \<Rightarrow> (case map_of (changes ws before) (LogicalKey (im_table_id i) pk) of
           None \<Rightarrow> []
         | Some (old, new) \<Rightarrow> secondary_delta (column_value old (im_column i))
             (column_value new (im_column i)) c ev))
    @ sec e (SecondaryKey iid ev pk)"
  using assms(2-)
proof (induction ws arbitrary: before e)
  case (Cons w ws)
  then obtain key old bs where before: "before = (key, old) # bs" by (cases before) auto
  with Cons.prems have prems: "length bs = length ws" "distinct (map fst bs)"
    "list_all2 (\<lambda>w (key, _). lk_table_id key = tw_table_id w) ws bs"
    and fresh: "key \<notin> set (map fst bs)" and tid: "lk_table_id key = tw_table_id w" by auto
  have none: "map_of (changes ws bs) key = None"
    using fresh by (force simp: map_of_eq_None_iff changes_def dest!: set_zip_rightD)
  show ?case
    unfolding before
    by (simp add: Cons.IH[OF prems] sec_apply_write[OF cat tid] none del: apply_write.simps
        split: option.split)
qed (simp split: option.split)

section \<open>Effect of the backfills on the secondary store\<close>

lemma backfill_entries_Inr:
  assumes "backfill_entries i c xs = Inr es" "distinct (map fst xs)"
  shows "distinct (map fst es) \<and> fst ` set es \<subseteq> fst ` set xs \<and>
    (\<forall>k v. (k, v) \<in> set es \<longleftrightarrow>
       (\<exists>vs. (k, vs) \<in> set xs \<and> column_value (visible_row vs c) (im_column i) = Some v \<and> v \<noteq> Null))"
  using assms
proof (induction i c xs arbitrary: es rule: backfill_entries.induct)
  case (2 i c key versions rest)
  show ?case
  proof (cases "visible_row versions c")
    case None
    with 2 show ?thesis by (auto simp: column_value_def)
  next
    case (Some r)
    with "2.prems" obtain tail where col: "im_column i < length (row_values r)"
      and tail: "backfill_entries i c rest = Inr tail"
      and es: "es = (if row_values r ! im_column i = Null then tail
        else (key, row_values r ! im_column i) # tail)"
      by (auto simp: rbind_eq_Inr index_or_panic_def split: if_splits)
    from "2.prems"(2) have fresh: "key \<notin> fst ` set rest" and dist: "distinct (map fst rest)" by auto
    from Some col tail dist have IH: "distinct (map fst tail) \<and> fst ` set tail \<subseteq> fst ` set rest \<and>
        (\<forall>k v. (k, v) \<in> set tail \<longleftrightarrow>
          (\<exists>vs. (k, vs) \<in> set rest \<and> column_value (visible_row vs c) (im_column i) = Some v \<and> v \<noteq> Null))"
      by (intro "2.IH"(2)[OF Some]) (simp_all add: index_or_panic_def)
    have here: "column_value (visible_row versions c) (im_column i) = Some (row_values r ! im_column i)"
      using Some col by (simp add: column_value_def)
    from IH fresh here show ?thesis
      by (auto simp: es)
  qed
qed simp

lemma backfill_entries_ok:
  assumes "\<forall>(k, vs) \<in> set xs. \<forall>r. visible_row vs c = Some r \<longrightarrow> im_column i < length (row_values r)"
  shows "\<exists>es. backfill_entries i c xs = Inr es"
  using assms
proof (induction xs)
  case (Cons x xs)
  then obtain es where "backfill_entries i c xs = Inr es" by auto
  with Cons.prems show ?case by (cases x) (auto simp: index_or_panic_def split: option.splits)
qed simp

lemma sec_fold_push:
  assumes "distinct (map fst es)" "\<forall>(k, v) \<in> set es. lk_table_id k = tid \<and> v \<noteq> Null"
  shows "sec (fold (\<lambda>(key, v). push_secondary iid v key c True) es e) (SecondaryKey jid ev pk) =
    (if jid = iid \<and> indexed (map_of es (LogicalKey tid pk)) ev
     then [\<lparr>sv_commit_index = c, sv_present = True\<rparr>] else []) @ sec e (SecondaryKey jid ev pk)"
  using assms
proof (induction es arbitrary: e)
  case (Cons x es)
  obtain key v where x: "x = (key, v)" by (cases x)
  with Cons.prems have key: "lk_table_id key = tid" "v \<noteq> Null" and fresh: "map_of es key = None"
    by (auto simp: map_of_eq_None_iff)
  have same: "pk = lk_primary_key key \<longleftrightarrow> LogicalKey tid pk = key" using key by (cases key) auto
  show ?case
    using Cons.prems Cons.IH[of "push_secondary iid v key c True e"] key fresh
    by (auto simp: x sec_push_secondary same indexed_def simp del: encode_ordered.simps)
qed (simp add: indexed_def)

lemma map_of_eqI:
  assumes "distinct (map fst es)" "\<And>v. (k, v) \<in> set es \<longleftrightarrow> m = Some v"
  shows "map_of es k = m"
  using assms by (cases m) (auto simp: map_of_eq_None_iff map_of_eq_Some_iff)

lemma sec_backfill:
  assumes "backfill_index c e i = Inr e'"
  shows "sec e' (SecondaryKey iid ev pk) =
    (if iid = im_id i
        \<and> indexed (column_value (view e c (LogicalKey (im_table_id i) pk)) (im_column i)) ev
     then [\<lparr>sv_commit_index = c, sv_present = True\<rparr>] else []) @ sec e (SecondaryKey iid ev pk)"
proof -
  let ?xs = "filter (\<lambda>(key, _). lk_table_id key = im_table_id i) (bt_entries (eng_primary e))"
  obtain es where es: "backfill_entries i c ?xs = Inr es"
    and e': "e' = fold (\<lambda>(key, v). push_secondary (im_id i) v key c True) es e"
    using assms by (auto simp: backfill_index_def rbind_eq_Inr)
  have "distinct (map fst ?xs)" using bt.distinct_keys[of "eng_primary e"] by (simp add: distinct_map_filter)
  note es = backfill_entries_Inr[OF es this]
  let ?k = "LogicalKey (im_table_id i) pk"
  let ?col = "column_value (view e c ?k) (im_column i)"
  have "(?k, v) \<in> set es \<longleftrightarrow> ?col = Some v \<and> v \<noteq> Null" for v
    using es by (auto simp: bt_entries_get view_def chain_of_def visible_row_simps column_value_def
        split: option.splits)
  then have "map_of es ?k = (if ?col = Some Null then None else ?col)"
    using es by (intro map_of_eqI) auto
  then have ix: "indexed (map_of es ?k) ev = indexed ?col ev"
    by (auto simp: indexed_def)
  have "\<forall>(k, v) \<in> set es. lk_table_id k = im_table_id i \<and> v \<noteq> Null" using es by auto
  from sec_fold_push[OF _ this, of "im_id i" c e iid ev pk] es show ?thesis by (simp add: e' ix)
qed

lemma view_backfill: "backfill_index c e i = Inr e' \<Longrightarrow> view e' = view e"
  by (simp add: fun_eq_iff view_def primary_backfill)

lemma sec_backfills:
  assumes "try_fold (backfill_index c) e is = Inr e'" "distinct (map im_id is)"
  shows "sec e' (SecondaryKey iid ev pk) =
    (case find (\<lambda>i. im_id i = iid) is of
       None \<Rightarrow> []
     | Some i \<Rightarrow> if indexed (column_value (view e c (LogicalKey (im_table_id i) pk)) (im_column i)) ev
         then [\<lparr>sv_commit_index = c, sv_present = True\<rparr>] else [])
    @ sec e (SecondaryKey iid ev pk)"
  using assms
proof (induction "is" arbitrary: e)
  case (Cons i "is")
  then obtain f where f: "backfill_index c e i = Inr f" and rest: "try_fold (backfill_index c) f is = Inr e'"
    by (auto simp: rbind_eq_Inr)
  have "im_id i = iid \<Longrightarrow> find (\<lambda>i. im_id i = iid) is = None"
    using Cons.prems by (auto simp: find_None_iff) (metis imageI)
  then show ?case
    using Cons.IH[OF rest] Cons.prems(2)
    by (auto simp: sec_backfill[OF f] view_backfill[OF f] split: option.split)
qed simp

end
