(* ===== verification/Engine_Commit.thy ===== *)
theory Engine_Commit
  imports Engine_Effect
begin

text \<open>
  The whole of \<open>evaluate_and_apply\<close> as one effect: an attempt either aborts and changes nothing
  but a counter, or commits, and then every written key gets exactly one new version and every
  index exactly the versions that keep it in step.
\<close>

section \<open>What a valid write satisfies\<close>

definition write_ok :: "catalog \<Rightarrow> txn_write \<Rightarrow> logical_key \<Rightarrow> bool" where
  "write_ok c w key \<longleftrightarrow>
     write_logical_key w = Inr key \<and>
     (\<exists>t. catalog_table c (tw_table_id w) = Some t
        \<and> value_data_type (tw_primary_key w) = Some (col_data_type (columns (tm_schema t) ! tm_primary_key_column t))
        \<and> (\<forall>r. tw_mutation w = Put r \<longrightarrow>
             row_ok (tm_schema t) r \<and> row_values r ! tm_primary_key_column t = tw_primary_key w))"

definition unconflicted :: "engine \<Rightarrow> u64 \<Rightarrow> logical_key \<Rightarrow> bool" where
  "unconflicted e read_ts key \<longleftrightarrow> (\<forall>c. newest_commit e key = Some c \<longrightarrow> c \<le> read_ts)"

lemma validate_conflict_None:
  "validate_conflict e ts w = None \<longleftrightarrow> (\<exists>key. write_logical_key w = Inr key \<and> unconflicted e ts key)"
  by (auto simp: validate_conflict_def unconflicted_def not_less split: sum.split option.split)

lemma schema_ok_bound: "schema_ok s pk \<Longrightarrow> pk < length (columns s)"
  by (auto simp: schema_ok_def)

lemma catalog_table_ok:
  assumes "catalog_ok c" "catalog_table c tid = Some t"
  shows "tm_id t = tid" "schema_ok (tm_schema t) (tm_primary_key_column t)"
    "tm_primary_key_column t < length (columns (tm_schema t))"
  using assms by (auto simp: catalog_ok_def catalog_table_def table_meta_ok_def schema_ok_bound)

lemma catalog_index_ok:
  assumes "catalog_ok c" "catalog_index c iid = Some i"
  obtains t where "im_id i = iid" "catalog_table c (im_table_id i) = Some t"
    "im_column i < length (columns (tm_schema t))"
proof -
  have "iid = im_id i \<and> index_meta_ok c i"
    using assms unfolding catalog_ok_def catalog_index_def by blast
  then show ?thesis using that by (auto simp: index_meta_ok_def catalog_table_def)
qed

lemma validate_put_spec:
  assumes "schema_ok (tm_schema t) (tm_primary_key_column t)"
  shows "\<exists>bad. validate_put t w = Inr bad"
    and "validate_put t w = Inr None \<longleftrightarrow> (\<forall>r. tw_mutation w = Put r \<longrightarrow>
      row_ok (tm_schema t) r \<and> row_values r ! tm_primary_key_column t = tw_primary_key w)"
proof -
  have valid: "validate_row (tm_schema t) r = Inr () \<longleftrightarrow> row_ok (tm_schema t) r" for r
    using assms by (auto simp: validate_row_ok)
  have bound: "row_ok (tm_schema t) r \<Longrightarrow> tm_primary_key_column t < length (row_values r)" for r
    using schema_ok_bound[OF assms] by (simp add: row_ok_def list_all2_lengthD[symmetric])
  have "(case validate_row (tm_schema t) r of
      Inl _ \<Rightarrow> \<not> row_ok (tm_schema t) r
    | Inr _ \<Rightarrow> row_ok (tm_schema t) r \<and> tm_primary_key_column t < length (row_values r))" for r
    using valid[of r] bound[of r] by (auto split: sum.split)
  note row = this
  have "(\<exists>bad. validate_put t w = Inr bad) \<and> (validate_put t w = Inr None \<longleftrightarrow>
    (\<forall>r. tw_mutation w = Put r \<longrightarrow>
      row_ok (tm_schema t) r \<and> row_values r ! tm_primary_key_column t = tw_primary_key w))"
  proof (cases "tw_mutation w")
    case (Put r)
    with row[of r] show ?thesis
      by (cases "validate_row (tm_schema t) r") (auto simp: validate_put_def index_or_panic_def)
  qed (simp add: validate_put_def)
  then show "\<exists>bad. validate_put t w = Inr bad"
    and "validate_put t w = Inr None \<longleftrightarrow> (\<forall>r. tw_mutation w = Put r \<longrightarrow>
      row_ok (tm_schema t) r \<and> row_values r ! tm_primary_key_column t = tw_primary_key w)" by blast+
qed

lemma validate_write_spec:
  assumes "catalog_ok c"
  shows "\<exists>bad. validate_write e c ts w = Inr bad"
    and "validate_write e c ts w = Inr None \<longleftrightarrow> (\<exists>key. write_ok c w key \<and> unconflicted e ts key)"
proof -
  show "\<exists>bad. validate_write e c ts w = Inr bad"
  proof (cases "catalog_table c (tw_table_id w)")
    case (Some t)
    note t = catalog_table_ok[OF assms Some]
    obtain bad where "validate_put t w = Inr bad" using validate_put_spec(1)[OF t(2)] ..
    with t Some show ?thesis
      by (cases bad) (auto simp: validate_write_def index_or_panic_def)
  qed (simp add: validate_write_def)
  show "validate_write e c ts w = Inr None \<longleftrightarrow> (\<exists>key. write_ok c w key \<and> unconflicted e ts key)"
  proof (cases "catalog_table c (tw_table_id w)")
    case None
    then show ?thesis by (simp add: validate_write_def write_ok_def)
  next
    case (Some t)
    note t = catalog_table_ok[OF assms Some]
    obtain bad where bad: "validate_put t w = Inr bad" using validate_put_spec(1)[OF t(2)] ..
    show ?thesis
      using validate_put_spec(2)[OF t(2), of w] t(3) Some bad
      by (cases bad) (auto simp: validate_write_def index_or_panic_def write_ok_def
          validate_conflict_None)
  qed
qed

lemma validate_writes_spec:
  assumes "catalog_ok c"
  shows "\<exists>bad. validate_writes e c ts ws = Inr bad"
    and "validate_writes e c ts ws = Inr None \<longleftrightarrow>
      (\<forall>w \<in> set ws. \<exists>key. write_ok c w key \<and> unconflicted e ts key)"
proof -
  have "(\<exists>bad. validate_writes e c ts ws = Inr bad) \<and> (validate_writes e c ts ws = Inr None \<longleftrightarrow>
      (\<forall>w \<in> set ws. \<exists>key. write_ok c w key \<and> unconflicted e ts key))"
  proof (induction ws)
    case (Cons w ws)
    obtain bad where bad: "validate_write e c ts w = Inr bad" using validate_write_spec(1)[OF assms] ..
    then show ?case
      using Cons validate_write_spec(2)[OF assms, of e ts w] by (cases bad) auto
  qed simp
  then show "\<exists>bad. validate_writes e c ts ws = Inr bad"
    and "validate_writes e c ts ws = Inr None \<longleftrightarrow>
      (\<forall>w \<in> set ws. \<exists>key. write_ok c w key \<and> unconflicted e ts key)" by blast+
qed

lemma created_indexes_ok:
  assumes "catalog_ok c" "apply_mutations c ms = Inr (next, ids)"
  shows "\<exists>is. created_indexes next ids = Inr is \<and> map im_id is = ids
    \<and> (\<forall>i \<in> set is. catalog_index next (im_id i) = Some i)"
proof -
  note ok = apply_mutations_ok[OF assms]
  have "\<forall>ident \<in> set ids. \<exists>i. catalog_index next ident = Some i \<and> im_id i = ident"
  proof
    fix ident
    assume "ident \<in> set ids"
    then obtain m where m: "m \<in> set ms" "ident \<in> set (created_index m)" using ok by auto
    then have "mutation_installed next m" using ok by (auto simp: list_all_iff)
    then show "\<exists>i. catalog_index next ident = Some i \<and> im_id i = ident"
      using m(2) by (cases m rule: catalog_mutation.exhaust) auto
  qed
  then show ?thesis
    unfolding created_indexes_def
  proof (induction ids)
    case (Cons ident ids)
    then obtain "is" where "try_map (\<lambda>ident. ok_or (catalog_index next ident)
        (Validation (Inr ''catalog mutation returned missing index''))) ids = Inr is"
      "map im_id is = ids" "\<forall>i \<in> set is. catalog_index next (im_id i) = Some i" by auto
    moreover obtain i where "catalog_index next ident = Some i" "im_id i = ident" using Cons.prems by auto
    ultimately show ?case by (intro exI[of _ "i # is"]) simp
  qed simp
qed

section \<open>The effect of a commit\<close>

text \<open>No key is mapped to an empty chain.\<close>

definition dense :: "('k :: linorder, 'v list) btmap \<Rightarrow> bool" where
  "dense m \<longleftrightarrow> (\<forall>k. bt_get m k \<noteq> Some [])"

lemma dense_empty [simp]: "dense bt_empty"
  by (simp add: dense_def)

lemma dense_push [simp]: "dense m \<Longrightarrow> dense (bt_push k v m)"
  by (simp add: dense_def bt_get_push)

lemma dense_get: "dense m \<Longrightarrow> bt_get m k = (if chain_of m k = [] then None else Some (chain_of m k))"
  by (auto simp: dense_def chain_of_def split: option.split)

definition dense_stores :: "engine \<Rightarrow> bool" where
  "dense_stores e \<longleftrightarrow> dense (eng_primary e) \<and> dense (eng_secondary e)"

lemma dense_fold:
  assumes "\<And>x e. dense_stores e \<Longrightarrow> dense_stores (f x e)" "dense_stores e"
  shows "dense_stores (fold f xs e)"
  using assms(2) by (induction xs arbitrary: e) (auto intro: assms(1))

lemma dense_push_secondary: "dense_stores e \<Longrightarrow> dense_stores (push_secondary i v k c p e)"
  by (simp add: dense_stores_def push_secondary_def)

lemma dense_update_secondary: "dense_stores e \<Longrightarrow> dense_stores (update_secondary i k r s c e)"
  by (auto simp: update_secondary_def push_if_value_def Let_def dense_push_secondary split: option.split)

lemma dense_apply_write: "dense_stores e \<Longrightarrow> dense_stores (apply_write cat c x e)"
proof -
  assume "dense_stores e"
  moreover obtain w key old where x: "x = (w, key, old)" by (cases x)
  ultimately have "dense_stores (fold (\<lambda>i. update_secondary i key old (mutation_row (tw_mutation w)) c)
    (indexes_for_table cat (tw_table_id w)) e)" by (intro dense_fold dense_update_secondary)
  then show ?thesis by (simp add: x Let_def dense_stores_def)
qed

lemma dense_backfill: "backfill_index c e i = Inr e' \<Longrightarrow> dense_stores e \<Longrightarrow> dense_stores e'"
  by (auto simp: backfill_index_def rbind_eq_Inr intro!: dense_fold dense_push_secondary split: prod.split)

lemma dense_backfills:
  "try_fold (backfill_index c) e is = Inr e' \<Longrightarrow> dense_stores e \<Longrightarrow> dense_stores e'"
  by (induction "is" arbitrary: e) (auto simp: rbind_eq_Inr dest: dense_backfill)

text \<open>The row an attempt writes under a key: the outer option says whether it writes it.\<close>

definition written :: "txn_write list \<Rightarrow> logical_key list \<Rightarrow> logical_key \<Rightarrow> row option option" where
  "written ws ks = map_of (zip ks (map (\<lambda>w. mutation_row (tw_mutation w)) ws))"

definition pushed_secondary ::
  "engine \<Rightarrow> engine \<Rightarrow> u64 \<Rightarrow> (logical_key \<Rightarrow> row option option) \<Rightarrow> u64 \<Rightarrow> bytes \<Rightarrow> bytes \<Rightarrow> secondary_version list"
where
  "pushed_secondary e e' index wr iid ev pk =
     (case catalog_index (eng_catalog e) iid of
        Some i \<Rightarrow>
          (case wr (LogicalKey (im_table_id i) pk) of
             None \<Rightarrow> []
           | Some new \<Rightarrow> secondary_delta
               (column_value (view e (last_applied e) (LogicalKey (im_table_id i) pk)) (im_column i))
               (column_value new (im_column i)) index ev)
      | None \<Rightarrow>
          (case catalog_index (eng_catalog e') iid of
             None \<Rightarrow> []
           | Some i \<Rightarrow>
               if indexed (column_value (view e' index (LogicalKey (im_table_id i) pk)) (im_column i)) ev
               then [\<lparr>sv_commit_index = index, sv_present = True\<rparr>] else []))"

definition commit_effect ::
  "engine \<Rightarrow> u64 \<Rightarrow> (logical_key \<Rightarrow> row option option) \<Rightarrow> engine \<Rightarrow> bool" where
  "commit_effect e index wr e' \<longleftrightarrow>
     (\<forall>k. prim e' k = (case wr k of
        None \<Rightarrow> prim e k | Some new \<Rightarrow> \<lparr>rv_commit_index = index, rv_row = new\<rparr> # prim e k))
     \<and> (\<forall>iid ev pk. sec e' (SecondaryKey iid ev pk)
          = pushed_secondary e e' index wr iid ev pk @ sec e (SecondaryKey iid ev pk))
     \<and> (dense_stores e \<longrightarrow> dense_stores e')
     \<and> eng_clients e' = eng_clients e \<and> last_applied e' = last_applied e
     \<and> last_apply_hash e' = last_apply_hash e \<and> last_apply_outcome e' = last_apply_outcome e
     \<and> retained_floor e' = retained_floor e \<and> next_txn_id e' = next_txn_id e
     \<and> primary_versions (eng_stats e') = of_nat (total_versions (eng_primary e'))
     \<and> secondary_versions (eng_stats e') = of_nat (total_versions (eng_secondary e'))"

lemma before_rows:
  assumes "write_keys ws ks"
  shows "try_map (before_row e) ws = Inr (map (\<lambda>k. (k, view e (last_applied e) k)) ks)"
  using assms by (induction ws arbitrary: ks) (auto simp: before_row_def)

lemma write_keys_length: "write_keys ws ks \<Longrightarrow> length ks = length ws"
  by (simp add: write_keys_def list_all2_lengthD)

lemma changes_written:
  assumes "length ks = length ws"
  shows "map_of (changes ws (map (\<lambda>k. (k, f k)) ks)) k = map_option (\<lambda>new. (f k, new)) (written ws ks k)"
  using assms
proof (induction ws arbitrary: ks)
  case (Cons w ws)
  then show ?case by (cases ks) (auto simp: written_def)
qed (simp add: written_def)

lemma write_key_table: "write_logical_key w = Inr k \<Longrightarrow> lk_table_id k = tw_table_id w"
  by (auto simp: write_logical_key_def logical_key_new_ok)

lemma commit_stores:
  assumes cat: "catalog_ok (eng_catalog e)" "apply_mutations (eng_catalog e) ms = Inr (next, ids)"
    and created: "created_indexes next ids = Inr is"
    and keys: "write_keys ws ks" "distinct ks"
    and fills: "try_fold (backfill_index index)
      (fold (apply_write (eng_catalog e) index) (zip ws (map (\<lambda>k. (k, view e (last_applied e) k)) ks))
         (e\<lparr>eng_catalog := next\<rparr>)) is = Inr d"
  shows "commit_effect e index (written ws ks) (refresh_version_stats (count_committed d))"
    and "eng_catalog d = next"
proof -
  let ?before = "map (\<lambda>k. (k, view e (last_applied e) k)) ks"
  let ?mid = "fold (apply_write (eng_catalog e) index) (zip ws ?before) (e\<lparr>eng_catalog := next\<rparr>)"
  have mid: "stores_only (e\<lparr>eng_catalog := next\<rparr>) ?mid"
    by (rule stores_only_fold) (rule stores_only_apply_write)
  have d: "stores_only (e\<lparr>eng_catalog := next\<rparr>) d"
    by (rule stores_only_trans[OF mid stores_only_backfills[OF fills]])
  show catd: "eng_catalog d = next" using stores_onlyD(1)[OF d] by simp
  have len: "length ?before = length ws" and dist: "distinct (map fst ?before)"
    using keys by (simp_all add: write_keys_length comp_def)
  have tids: "list_all2 (\<lambda>w (key, _). lk_table_id key = tw_table_id w) ws ?before"
    using keys(1) by (auto simp: write_keys_def list_all2_map2 intro: list_all2_mono write_key_table)
  have prim_d: "prim d k = (case written ws ks k of
      None \<Rightarrow> prim e k | Some new \<Rightarrow> \<lparr>rv_commit_index = index, rv_row = new\<rparr> # prim e k)" for k
    using prim_apply_writes[OF len dist, of "eng_catalog e" index "e\<lparr>eng_catalog := next\<rparr>" k]
    by (simp add: primary_backfills[OF fills] changes_written write_keys_length[OF keys(1)]
        split: option.splits)
  obtain is' where is': "created_indexes next ids = Inr is'" "map im_id is' = ids"
    "\<forall>i \<in> set is'. catalog_index next (im_id i) = Some i"
    using created_indexes_ok[OF cat] by blast
  with created have ids: "map im_id is = ids" "\<forall>i \<in> set is. catalog_index next (im_id i) = Some i" by auto
  note muts = apply_mutations_ok[OF cat]
  from muts have "distinct ids" by blast
  then have distinct_ids: "distinct (map im_id is)" by (simp only: ids(1))
  have new: "find (\<lambda>i. im_id i = iid) is =
      (case catalog_index (eng_catalog e) iid of Some _ \<Rightarrow> None | None \<Rightarrow> catalog_index next iid)" for iid
  proof (cases "iid \<in> set ids")
    case True
    then obtain i where i: "i \<in> set is" "im_id i = iid" using ids(1) by auto
    with find_unique[OF distinct_ids i, of "\<lambda>_. True"] ids(2) muts True show ?thesis
      by (auto split: option.split)
  next
    case False
    then have "find (\<lambda>i. im_id i = iid) is = None" using ids(1) by (auto simp: find_None_iff)
    with False muts show ?thesis by (auto split: option.split)
  qed
  have view_mid: "view ?mid = view d" by (simp add: fun_eq_iff view_def primary_backfills[OF fills])
  have sec_d: "sec d (SecondaryKey iid ev pk) =
      pushed_secondary e d index (written ws ks) iid ev pk @ sec e (SecondaryKey iid ev pk)" for iid ev pk
    using sec_backfills[OF fills distinct_ids, of iid ev pk]
      sec_apply_writes[OF cat(1) len dist tids, of index "e\<lparr>eng_catalog := next\<rparr>" iid ev pk]
    by (simp add: new view_mid pushed_secondary_def catd changes_written write_keys_length[OF keys(1)]
        split: option.splits)
  have dense: "dense_stores e \<Longrightarrow> dense_stores d"
    using dense_backfills[OF fills] dense_fold[of "apply_write (eng_catalog e) index", OF dense_apply_write]
    by (simp add: dense_stores_def)
  let ?e = "refresh_version_stats (count_committed d)"
  have same: "eng_primary ?e = eng_primary d" "eng_secondary ?e = eng_secondary d"
    "eng_catalog ?e = eng_catalog d" "view ?e = view d"
    by (simp_all add: refresh_version_stats_def count_committed_def view_def fun_eq_iff)
  show "commit_effect e index (written ws ks) ?e"
    unfolding commit_effect_def same pushed_secondary_def[of e ?e] dense_stores_def[of ?e]
    using prim_d sec_d dense stores_onlyD[OF d]
    by (simp add: pushed_secondary_def dense_stores_def refresh_version_stats_def count_committed_def)
qed

text \<open>The facts validation establishes about an attempt it lets through.\<close>

definition attempt_valid :: "engine \<Rightarrow> txn_attempt \<Rightarrow> catalog \<Rightarrow> logical_key list \<Rightarrow> bool" where
  "attempt_valid e a next ks \<longleftrightarrow>
     retained_floor e \<le> att_read_ts a \<and> att_read_ts a \<le> last_applied e
     \<and> att_schema_epoch a = cat_schema_epoch (eng_catalog e)
     \<and> (\<exists>ids. apply_mutations (eng_catalog e) (att_catalog_mutations a) = Inr (next, ids))
     \<and> write_keys (att_writes a) ks \<and> sorted_wrt (<) ks
     \<and> list_all2 (\<lambda>w k. write_ok next w k \<and> unconflicted e (att_read_ts a) k) (att_writes a) ks"

lemma validate_attempt_Inr:
  assumes cat: "catalog_ok (eng_catalog e)"
    and v: "validate_attempt_for_apply e a = Inr (Inr (next, is))"
  obtains ids ks where "attempt_valid e a next ks"
    "apply_mutations (eng_catalog e) (att_catalog_mutations a) = Inr (next, ids)"
    "created_indexes next ids = Inr is"
proof -
  from v have guards: "retained_floor e \<le> att_read_ts a" "att_read_ts a \<le> last_applied e"
    "att_schema_epoch a = cat_schema_epoch (eng_catalog e)" "validate_canonical a = Inr ()"
    by (auto simp: validate_attempt_for_apply_def not_less split: if_splits sum.splits)
  from v guards obtain ids where ids: "apply_mutations (eng_catalog e) (att_catalog_mutations a) = Inr (next, ids)"
    "created_indexes next ids = Inr is"
    and ws: "validate_writes e next (att_read_ts a) (att_writes a) = Inr None"
    by (auto simp: validate_attempt_for_apply_def not_less[symmetric] rbind_eq_Inr
        split: if_splits sum.splits prod.splits option.splits)
  from guards(4) obtain ks where ks: "write_keys (att_writes a) ks" "sorted_wrt (<) ks"
    by (auto simp: validate_canonical_ok)
  have "catalog_ok next" using apply_mutations_ok[OF cat ids(1)] by blast
  with ws have "\<forall>w \<in> set (att_writes a). \<exists>key. write_ok next w key \<and> unconflicted e (att_read_ts a) key"
    by (simp add: validate_writes_spec(2))
  with ks(1) have "list_all2 (\<lambda>w k. write_ok next w k \<and> unconflicted e (att_read_ts a) k) (att_writes a) ks"
    unfolding write_keys_def
    by (auto simp: list_all2_conv_all_nth write_ok_def) (metis nth_mem sum.inject(2))+
  with guards ids ks show ?thesis using that by (auto simp: attempt_valid_def)
qed

lemma evaluate_and_apply_cases:
  assumes cat: "catalog_ok (eng_catalog e)"
    and ev: "evaluate_and_apply e index a = Inr (res, e')"
  obtains (Abort) reason where "res = Aborted index reason" "e' = count_aborted e"
  | (Commit) ks where "attempt_valid e a (eng_catalog e') ks"
      "res = Committed index (length (att_writes a)) (cat_schema_epoch (eng_catalog e'))"
      "commit_effect e index (written (att_writes a) ks) e'"
proof -
  obtain v where v: "validate_attempt_for_apply e a = Inr v"
    using ev by (auto simp: evaluate_and_apply_def rbind_eq_Inr)
  show ?thesis
  proof (cases v)
    case (Inl reason)
    with v ev show ?thesis by (intro Abort[of reason]) (auto simp: evaluate_and_apply_def)
  next
    case (Inr x)
    then obtain "next" "is" where x: "validate_attempt_for_apply e a = Inr (Inr (next, is))"
      using v by (cases x) simp
    obtain ids ks where valid: "attempt_valid e a next ks"
      and ids: "apply_mutations (eng_catalog e) (att_catalog_mutations a) = Inr (next, ids)"
        "created_indexes next ids = Inr is"
      by (rule validate_attempt_Inr[OF cat x])
    then have keys: "write_keys (att_writes a) ks" "distinct ks"
      by (auto simp: attempt_valid_def strict_sorted_iff)
    let ?start = "fold (apply_write (eng_catalog e) index)
      (zip (att_writes a) (map (\<lambda>k. (k, view e (last_applied e) k)) ks)) (e\<lparr>eng_catalog := next\<rparr>)"
    from ev obtain d where d: "try_fold (backfill_index index) ?start is = Inr d"
      and res: "res = Committed index (length (att_writes a)) (cat_schema_epoch (eng_catalog d))"
      and e': "e' = refresh_version_stats (count_committed d)"
      by (auto simp: evaluate_and_apply_def x before_rows[OF keys(1)] rbind_eq_Inr)
    note eff = commit_stores[OF cat ids keys d]
    have "eng_catalog e' = next" using eff(2) by (simp add: e' refresh_version_stats_def count_committed_def)
    with eff valid res show ?thesis by (intro Commit) (simp_all add: e')
  qed
qed

end
