(* ===== verification/Engine_Inv.thy ===== *)
theory Engine_Inv
  imports Engine_Commit
begin

text \<open>
  The invariant of the engine and its preservation by every operation that changes the state.
  It says what a snapshot restore checks (metadata, ordered version chains, known indexes) and
  what it does not: stored rows fit their schema, and every secondary index shows exactly the
  rows of its table at the last applied index.
\<close>

section \<open>The invariant\<close>

definition row_fits :: "catalog \<Rightarrow> logical_key \<Rightarrow> row \<Rightarrow> bool" where
  "row_fits c k r \<longleftrightarrow>
     (\<exists>t. catalog_table c (lk_table_id k) = Some t \<and> row_ok (tm_schema t) r
        \<and> lk_primary_key k = encode_ordered (row_values r ! tm_primary_key_column t) [])"

definition index_exact :: "engine \<Rightarrow> index_meta \<Rightarrow> u64 \<Rightarrow> bool" where
  "index_exact e i ts \<longleftrightarrow>
     (\<forall>v pk. v \<noteq> Null \<longrightarrow>
        (index_view e ts (SecondaryKey (im_id i) (encode_ordered v []) pk) \<longleftrightarrow>
         column_value (view e ts (LogicalKey (im_table_id i) pk)) (im_column i) = Some v))"

definition meta_inv :: "engine \<Rightarrow> bool" where
  "meta_inv e \<longleftrightarrow>
     catalog_ok (eng_catalog e) \<and> retained_floor e \<le> last_applied e
     \<and> (last_applied e = 0 \<longleftrightarrow> last_apply_hash e = None)
     \<and> (last_apply_hash e = None \<longleftrightarrow> last_apply_outcome e = None)
     \<and> next_txn_id e \<noteq> 0
     \<and> (\<forall>c r. bt_get (eng_clients e) c = Some r \<longrightarrow> cr_sequence r \<noteq> 0)"

definition stores_upto :: "engine \<Rightarrow> u64 \<Rightarrow> bool" where
  "stores_upto e n \<longleftrightarrow>
     dense_stores e
     \<and> (\<forall>k. rows.chain_ok (prim e k) n)
     \<and> (\<forall>k. secondaries.chain_ok (sec e k) n)
     \<and> (\<forall>k. sec e k \<noteq> [] \<longrightarrow> catalog_index (eng_catalog e) (sk_index_id k) \<noteq> None)"

abbreviation stores_inv :: "engine \<Rightarrow> bool" where
  "stores_inv e \<equiv> stores_upto e (last_applied e)"

definition stats_inv :: "engine \<Rightarrow> bool" where
  "stats_inv e \<longleftrightarrow>
     primary_versions (eng_stats e) = of_nat (total_versions (eng_primary e))
     \<and> secondary_versions (eng_stats e) = of_nat (total_versions (eng_secondary e))"

definition rows_inv :: "engine \<Rightarrow> bool" where
  "rows_inv e \<longleftrightarrow>
     (\<forall>k v r. v \<in> set (prim e k) \<longrightarrow> rv_row v = Some r \<longrightarrow> row_fits (eng_catalog e) k r)"

definition index_upto :: "engine \<Rightarrow> u64 \<Rightarrow> bool" where
  "index_upto e n \<longleftrightarrow> (\<forall>iid i. catalog_index (eng_catalog e) iid = Some i \<longrightarrow> index_exact e i n)"

abbreviation index_inv :: "engine \<Rightarrow> bool" where
  "index_inv e \<equiv> index_upto e (last_applied e)"

definition engine_inv :: "engine \<Rightarrow> bool" where
  "engine_inv e \<longleftrightarrow> meta_inv e \<and> stores_inv e \<and> stats_inv e \<and> rows_inv e \<and> index_inv e"

lemmas engine_inv_defs = engine_inv_def meta_inv_def stores_upto_def stats_inv_def rows_inv_def index_upto_def

lemma catalog_index_default [simp]: "catalog_index catalog_default iid = None"
  by (simp add: catalog_index_def catalog_default_def)

lemma engine_new_inv: "engine_inv engine_new"
  by (auto simp: engine_inv_defs engine_new_def engine_stats_default_def dense_stores_def
      rows.chain_ok_Nil secondaries.chain_ok_Nil total_versions_def bt_values_def)

section \<open>Reading around a commit\<close>

lemma view_commit_old:
  assumes "commit_effect e index wr e'" "ts < index"
  shows "view e' ts k = view e ts k"
  using assms by (auto simp: view_def commit_effect_def rows.visible_push_old split: option.split)

lemma view_commit_new:
  assumes "commit_effect e index wr e'" "rows.chain_ok (prim e k) (last_applied e)"
    and "last_applied e \<le> ts" "index \<le> ts"
  shows "view e' ts k = (case wr k of None \<Rightarrow> view e (last_applied e) k | Some new \<Rightarrow> new)"
proof (cases "wr k")
  case None
  then have "view e' ts k = view e ts k" using assms(1) by (simp add: view_def commit_effect_def)
  also have "\<dots> = view e (last_applied e) k"
    unfolding view_def by (rule rows.visible_future[OF assms(2,3)])
  finally show ?thesis by (simp add: None)
next
  case (Some new)
  then show ?thesis using assms(1,4) by (simp add: view_def commit_effect_def rows.visible_push_new)
qed

lemma pushed_secondary_commit:
  "\<forall>v \<in> set (pushed_secondary e e' index wr iid ev pk). sv_commit_index v = index"
  by (auto simp: pushed_secondary_def secondary_delta_def split: option.split)

lemma length_pushed_secondary: "length (pushed_secondary e e' index wr iid ev pk) \<le> 1"
proof -
  have "length (secondary_delta old new index ev) \<le> 1" for old new
    by (rule secondary_delta_cases[of old new index ev]) auto
  then show ?thesis by (simp add: pushed_secondary_def split: option.split)
qed

lemma pushed_secondary_cases:
  obtains "pushed_secondary e e' index wr iid ev pk = []"
  | v where "pushed_secondary e e' index wr iid ev pk = [v]" "sv_commit_index v = index"
  using length_pushed_secondary[of e e' index wr iid ev pk] pushed_secondary_commit[of e e' index wr iid ev pk]
  by (cases "pushed_secondary e e' index wr iid ev pk") auto

lemma index_view_commit_old:
  assumes "commit_effect e index wr e'" "ts < index"
  shows "index_view e' ts k = index_view e ts k"
proof (cases k)
  case (SecondaryKey iid ev pk)
  have "sec e' k = pushed_secondary e e' index wr iid ev pk @ sec e k"
    using assms(1) by (simp add: commit_effect_def SecondaryKey)
  then show ?thesis
    using assms(2) by (cases rule: pushed_secondary_cases[of e e' index wr iid ev pk])
      (auto simp: index_view_def secondaries.visible_push_old)
qed

lemma indexed_encode: "v \<noteq> Null \<Longrightarrow> indexed x (encode_ordered v []) \<longleftrightarrow> x = Some v"
  by (auto simp: indexed_def encode_ordered_inject simp del: encode_ordered.simps)

lemma index_exact_commit_old:
  assumes "commit_effect e index wr e'" "ts < index"
  shows "index_exact e' i ts \<longleftrightarrow> index_exact e i ts"
  by (simp add: index_exact_def view_commit_old[OF assms] index_view_commit_old[OF assms])

text \<open>An index that was exact before a commit is exact after it.\<close>

lemma index_exact_commit:
  assumes eff: "commit_effect e index wr e'" and inv: "stores_inv e"
    and lt: "last_applied e < index"
    and i: "catalog_index (eng_catalog e) (im_id i) = Some i" and exact: "index_exact e i (last_applied e)"
  shows "index_exact e' i index"
  unfolding index_exact_def
proof (intro allI impI)
  fix v pk
  assume v: "v \<noteq> Null"
  let ?ev = "encode_ordered v []" and ?k = "LogicalKey (im_table_id i) pk"
  let ?sk = "SecondaryKey (im_id i) ?ev pk"
  let ?p = "pushed_secondary e e' index wr (im_id i) ?ev pk"
  let ?old = "column_value (view e (last_applied e) ?k) (im_column i)"
  have le: "last_applied e \<le> index" using lt by simp
  have chain: "rows.chain_ok (prim e ?k) (last_applied e)" "secondaries.chain_ok (sec e ?sk) (last_applied e)"
    using inv by (simp_all add: stores_upto_def)
  have sec: "sec e' ?sk = ?p @ sec e ?sk" using eff by (simp add: commit_effect_def)
  have new: "view e' index ?k = (case wr ?k of None \<Rightarrow> view e (last_applied e) ?k | Some new \<Rightarrow> new)"
    using view_commit_new[OF eff chain(1) le] by simp
  have before: "visible_secondary (sec e ?sk) index \<longleftrightarrow> indexed ?old ?ev"
    using exact v le secondaries.visible_future[OF chain(2) le]
    by (simp add: index_exact_def index_view_def indexed_encode)
  show "index_view e' index ?sk \<longleftrightarrow> column_value (view e' index ?k) (im_column i) = Some v"
  proof (cases "wr ?k")
    case None
    then have "?p = []" using i by (simp add: pushed_secondary_def)
    then show ?thesis using before new None v by (simp add: index_view_def sec indexed_encode)
  next
    case (Some n)
    let ?new = "column_value n (im_column i)"
    have "?p = secondary_delta ?old ?new index ?ev" using i Some by (simp add: pushed_secondary_def)
    then have "index_view e' index ?sk \<longleftrightarrow> indexed ?new ?ev"
      using before
      by (cases rule: secondary_delta_cases[of ?old ?new index ?ev])
        (simp_all add: index_view_def sec secondaries.visible_push_new)
    then show ?thesis using new Some v by (simp add: indexed_encode)
  qed
qed

text \<open>An index created by a commit is exact at that commit.\<close>

lemma index_exact_created:
  assumes eff: "commit_effect e index wr e'" and inv: "stores_inv e"
    and old: "catalog_index (eng_catalog e) (im_id i) = None"
    and new: "catalog_index (eng_catalog e') (im_id i) = Some i"
  shows "index_exact e' i index"
  unfolding index_exact_def
proof (intro allI impI)
  fix v pk
  assume v: "v \<noteq> Null"
  let ?sk = "SecondaryKey (im_id i) (encode_ordered v []) pk"
  have "sec e ?sk = []" using inv old unfolding stores_upto_def by force
  then have "sec e' ?sk = pushed_secondary e e' index wr (im_id i) (encode_ordered v []) pk"
    using eff by (simp add: commit_effect_def)
  then show "index_view e' index ?sk \<longleftrightarrow>
      column_value (view e' index (LogicalKey (im_table_id i) pk)) (im_column i) = Some v"
    using old new v by (auto simp: index_view_def pushed_secondary_def indexed_encode visible_secondary_simps)
qed

section \<open>Preservation\<close>

lemma view_bookkeeping [simp]:
  "view (e\<lparr>last_applied := n\<rparr>) = view e" "index_view (e\<lparr>last_applied := n\<rparr>) = index_view e"
  "view (e\<lparr>last_apply_hash := h\<rparr>) = view e" "index_view (e\<lparr>last_apply_hash := h\<rparr>) = index_view e"
  "view (e\<lparr>last_apply_outcome := r\<rparr>) = view e" "index_view (e\<lparr>last_apply_outcome := r\<rparr>) = index_view e"
  "view (e\<lparr>eng_clients := c\<rparr>) = view e" "index_view (e\<lparr>eng_clients := c\<rparr>) = index_view e"
  "view (e\<lparr>eng_stats := s\<rparr>) = view e" "index_view (e\<lparr>eng_stats := s\<rparr>) = index_view e"
  "view (e\<lparr>next_txn_id := x\<rparr>) = view e" "index_view (e\<lparr>next_txn_id := x\<rparr>) = index_view e"
  by (simp_all add: fun_eq_iff view_def index_view_def)

definition advance_to :: "u64 \<Rightarrow> bytes \<Rightarrow> apply_outcome \<Rightarrow> engine \<Rightarrow> engine" where
  "advance_to index hash outcome e =
     e\<lparr>last_applied := index, last_apply_hash := Some hash, last_apply_outcome := Some outcome\<rparr>"

lemma advance_to_inv:
  assumes "catalog_ok (eng_catalog e)" "retained_floor e \<le> index" "index \<noteq> 0" "next_txn_id e \<noteq> 0"
    and "\<forall>c r. bt_get (eng_clients e) c = Some r \<longrightarrow> cr_sequence r \<noteq> 0"
    and "stores_upto e index" "stats_inv e" "rows_inv e" "index_upto e index"
  shows "engine_inv (advance_to index hash outcome e)"
  using assms by (simp add: engine_inv_defs advance_to_def dense_stores_def index_exact_def)

lemma stores_upto_mono: "stores_upto e m \<Longrightarrow> m \<le> n \<Longrightarrow> stores_upto e n"
  unfolding stores_upto_def
  using rows.chain_ok_mono[of _ m n] secondaries.chain_ok_mono[of _ m n] by blast

lemma view_future:
  assumes "stores_upto e m" "m \<le> n"
  shows "view e n k = view e m k"
  unfolding view_def using assms by (intro rows.visible_future) (simp_all add: stores_upto_def)

lemma index_view_future:
  assumes "stores_upto e m" "m \<le> n"
  shows "index_view e n k = index_view e m k"
  unfolding index_view_def using assms by (intro secondaries.visible_future) (simp_all add: stores_upto_def)

lemma index_upto_mono:
  assumes "stores_upto e m" "index_upto e m" "m \<le> n"
  shows "index_upto e n"
proof -
  have "view e n = view e m" "index_view e n = index_view e m"
    using view_future[OF assms(1,3)] index_view_future[OF assms(1,3)] by (auto simp: fun_eq_iff)
  then show ?thesis using assms(2) by (simp add: index_upto_def index_exact_def)
qed

text \<open>Steps that leave stores and catalog alone: aborts, duplicates, rejections and no-ops.\<close>

lemma quiet_step_inv:
  assumes inv: "engine_inv e" and idx: "checked_add (last_applied e) 1 = Some index"
    and same: "eng_catalog d = eng_catalog e" "eng_primary d = eng_primary e"
      "eng_secondary d = eng_secondary e" "retained_floor d = retained_floor e"
      "next_txn_id d = next_txn_id e"
      "primary_versions (eng_stats d) = primary_versions (eng_stats e)"
      "secondary_versions (eng_stats d) = secondary_versions (eng_stats e)"
    and clients: "\<forall>c r. bt_get (eng_clients d) c = Some r \<longrightarrow> cr_sequence r \<noteq> 0"
  shows "engine_inv (advance_to index hash outcome d)"
proof -
  note lt = checked_add_one_less[OF idx]
  have le: "last_applied e \<le> index" using lt(1) by simp
  have views: "view d = view e" "index_view d = index_view e"
    using same by (simp_all add: fun_eq_iff view_def index_view_def)
  have "stores_upto e index" "index_upto e index"
    using inv le unfolding engine_inv_def by (blast intro: stores_upto_mono index_upto_mono)+
  then have "stores_upto d index" "index_upto d index"
    using same views by (simp_all add: stores_upto_def index_upto_def index_exact_def dense_stores_def)
  moreover have "stats_inv d" "rows_inv d" "catalog_ok (eng_catalog d)" "next_txn_id d \<noteq> 0"
    using inv same by (simp_all add: engine_inv_def stats_inv_def rows_inv_def meta_inv_def)
  moreover have "retained_floor d \<le> index" "index \<noteq> 0"
    using inv same le lt(3) by (auto simp: engine_inv_def meta_inv_def)
  ultimately show ?thesis using clients by (intro advance_to_inv)
qed

lemma stores_upto_commit:
  assumes eff: "commit_effect e index wr e'" and inv: "stores_inv e"
    and lt: "last_applied e < index" and ext: "catalog_extends (eng_catalog e) (eng_catalog e')"
  shows "stores_upto e' index"
  unfolding stores_upto_def
proof (intro conjI allI impI)
  have le: "last_applied e \<le> index" using lt by simp
  show "dense_stores e'" using eff inv by (simp add: commit_effect_def stores_upto_def)
  have rows: "rows.chain_ok (prim e k) (last_applied e)" for k using inv by (simp add: stores_upto_def)
  show "rows.chain_ok (prim e' k) index" for k
  proof (cases "wr k")
    case None
    then show ?thesis using eff rows.chain_ok_mono[OF rows le] by (simp add: commit_effect_def)
  next
    case (Some new)
    then show ?thesis using eff rows.chain_ok_push[OF rows _ lt] by (simp add: commit_effect_def)
  qed
  have secs: "secondaries.chain_ok (sec e k) (last_applied e)" for k using inv by (simp add: stores_upto_def)
  have sec': "sec e' k = pushed_secondary e e' index wr (sk_index_id k) (sk_secondary_value k) (sk_primary_key k)
      @ sec e k" for k
    using eff by (cases k) (simp add: commit_effect_def)
  show "secondaries.chain_ok (sec e' k) index" for k
    using secondaries.chain_ok_mono[OF secs le] secondaries.chain_ok_push[OF secs _ lt]
    by (cases rule: pushed_secondary_cases[of e e' index wr "sk_index_id k" "sk_secondary_value k" "sk_primary_key k"])
      (simp_all add: sec')
  show "catalog_index (eng_catalog e') (sk_index_id k) \<noteq> None" if "sec e' k \<noteq> []" for k
  proof (cases "sec e k = []")
    case True
    with that have "pushed_secondary e e' index wr (sk_index_id k) (sk_secondary_value k) (sk_primary_key k) \<noteq> []"
      by (simp add: sec')
    then show ?thesis using ext by (auto simp: pushed_secondary_def catalog_extends_def split: option.splits)
  next
    case False
    then show ?thesis using inv ext by (fastforce simp: stores_upto_def catalog_extends_def)
  qed
qed

lemma index_upto_commit:
  assumes eff: "commit_effect e index wr e'" and inv: "stores_inv e" "index_inv e"
    and lt: "last_applied e < index" and ext: "catalog_extends (eng_catalog e) (eng_catalog e')"
    and cat: "catalog_ok (eng_catalog e')"
  shows "index_upto e' index"
  unfolding index_upto_def
proof (intro allI impI)
  fix iid i
  assume i: "catalog_index (eng_catalog e') iid = Some i"
  then have iid: "im_id i = iid" using catalog_index_ok[OF cat] by blast
  show "index_exact e' i index"
  proof (cases "catalog_index (eng_catalog e) iid")
    case None
    then show ?thesis using i iid by (intro index_exact_created[OF eff inv(1)]) simp_all
  next
    case (Some j)
    then have "j = i" using ext i by (auto simp: catalog_extends_def)
    then show ?thesis using Some iid inv(2) lt
      by (intro index_exact_commit[OF eff inv(1)]) (auto simp: index_upto_def)
  qed
qed

lemma row_fits_extends: "row_fits c k r \<Longrightarrow> catalog_extends c c' \<Longrightarrow> row_fits c' k r"
  by (auto simp: row_fits_def catalog_extends_def)

lemma write_ok_fits:
  assumes "write_ok c w k" "mutation_row (tw_mutation w) = Some r"
  shows "row_fits c k r"
proof -
  have put: "tw_mutation w = Put r" using assms(2) by (cases "tw_mutation w") auto
  with assms(1) show ?thesis
    by (auto simp: write_ok_def row_fits_def write_logical_key_def logical_key_new_ok)
qed

lemma written_Some:
  assumes "written ws ks k = Some new" "list_all2 P ws ks"
  obtains w where "w \<in> set ws" "P w k" "new = mutation_row (tw_mutation w)"
proof -
  from assms(1) have "(k, new) \<in> set (zip ks (map (\<lambda>w. mutation_row (tw_mutation w)) ws))"
    unfolding written_def by (rule map_of_SomeD)
  then obtain n where n: "n < length ks" "n < length ws" "ks ! n = k"
    "new = mutation_row (tw_mutation (ws ! n))" by (auto simp: set_zip)
  then have "P (ws ! n) k" using assms(2) by (auto simp: list_all2_conv_all_nth)
  with n show ?thesis by (intro that[of "ws ! n"]) auto
qed

lemma attempt_valid_catalog:
  assumes "attempt_valid e a next ks" "catalog_ok (eng_catalog e)"
  shows "catalog_ok next" "catalog_extends (eng_catalog e) next"
  using assms apply_mutations_ok[of "eng_catalog e" "att_catalog_mutations a" "next"]
  by (auto simp: attempt_valid_def)

text \<open>Pushing the rows of a valid attempt leaves only rows that fit the new catalog.\<close>

lemma rows_fit_written:
  assumes inv: "rows_inv e" and cat: "catalog_ok (eng_catalog e)" and valid: "attempt_valid e a next ks"
    and v: "v \<in> set (case written (att_writes a) ks k of
      None \<Rightarrow> prim e k | Some new \<Rightarrow> \<lparr>rv_commit_index = index, rv_row = new\<rparr> # prim e k)" "rv_row v = Some r"
  shows "row_fits next k r"
proof (cases "v \<in> set (prim e k)")
  case True
  with inv v(2) have "row_fits (eng_catalog e) k r" by (auto simp: rows_inv_def)
  then show ?thesis using attempt_valid_catalog(2)[OF valid cat] by (rule row_fits_extends)
next
  case False
  with v(1) obtain new where new: "written (att_writes a) ks k = Some new"
    and "v = \<lparr>rv_commit_index = index, rv_row = new\<rparr>" by (auto split: option.splits)
  with v(2) have "new = Some r" by simp
  moreover have all: "list_all2 (\<lambda>w k. write_ok next w k
      \<and> unconflicted e (att_read_ts a) k) (att_writes a) ks" using valid by (simp add: attempt_valid_def)
  obtain w where "write_ok next w k \<and> unconflicted e (att_read_ts a) k"
    "new = mutation_row (tw_mutation w)"
    by (rule written_Some[OF new all])
  ultimately show ?thesis by (metis write_ok_fits)
qed

lemma rows_inv_commit:
  assumes inv: "rows_inv e" and cat: "catalog_ok (eng_catalog e)"
    and valid: "attempt_valid e a (eng_catalog e') ks"
    and eff: "commit_effect e index (written (att_writes a) ks) e'"
  shows "rows_inv e'"
  using rows_fit_written[OF inv cat valid] eff unfolding rows_inv_def commit_effect_def by metis

lemma commit_inv:
  assumes inv: "engine_inv e" and idx: "checked_add (last_applied e) 1 = Some index"
    and valid: "attempt_valid e a (eng_catalog e') ks"
    and eff: "commit_effect e index (written (att_writes a) ks) e'"
    and clients: "\<forall>c r. bt_get cl c = Some r \<longrightarrow> cr_sequence r \<noteq> 0"
  shows "engine_inv (advance_to index hash outcome (e'\<lparr>eng_clients := cl\<rparr>))"
proof -
  note lt = checked_add_one_less[OF idx]
  from inv have parts: "meta_inv e" "stores_inv e" "rows_inv e" "index_inv e" by (simp_all add: engine_inv_def)
  have cat: "catalog_ok (eng_catalog e)" using parts(1) by (simp add: meta_inv_def)
  note cat' = attempt_valid_catalog[OF valid cat]
  have "stores_upto e' index" by (rule stores_upto_commit[OF eff parts(2) lt(1) cat'(2)])
  moreover have "index_upto e' index"
    by (rule index_upto_commit[OF eff parts(2,4) lt(1) cat'(2,1)])
  moreover have "rows_inv e'" by (rule rows_inv_commit[OF parts(3) cat valid eff])
  moreover have "stats_inv e'" using eff by (simp add: commit_effect_def stats_inv_def)
  moreover have "retained_floor e' \<le> index" "index \<noteq> 0" "next_txn_id e' \<noteq> 0"
    using parts(1) eff lt(1,3) by (auto simp: meta_inv_def commit_effect_def)
  ultimately show ?thesis
    using cat' clients
    by (intro advance_to_inv)
      (simp_all add: stores_upto_def index_upto_def rows_inv_def stats_inv_def index_exact_def dense_stores_def)
qed

section \<open>Every step keeps the invariant\<close>

lemma begin_at_inv:
  assumes "engine_inv e" "begin_at e ts epoch = Inr (t, e')"
  shows "engine_inv e'"
proof -
  obtain n where n: "checked_add (next_txn_id e) 1 = Some n" and e': "e' = e\<lparr>next_txn_id := n\<rparr>"
    using assms(2) by (auto simp: begin_at_def result_simps split: if_splits)
  have "n \<noteq> 0" using checked_add_one_less(3)[OF n] by auto
  then show ?thesis
    using assms(1) by (simp add: e' engine_inv_defs dense_stores_def index_exact_def)
qed

text \<open>
  The cases of a replicated apply: a replay of the last entry, or the next index with a new
  request, a duplicate or a rejection.
\<close>

lemma apply_cases:
  assumes "apply_with_request_hash e index apply_hash request_hash a = Inr (outcome, e')"
  obtains (Replay) "index = last_applied e" "last_apply_hash e = Some apply_hash"
      "last_apply_outcome e = Some outcome" "e' = e"
  | (Fresh) result d where "checked_add (last_applied e) 1 = Some index"
      "admit_request e (att_request a) request_hash = New"
      "evaluate_and_apply e index a = Inr (result, d)" "outcome = Applied result"
      "e' = advance_to index apply_hash outcome (d\<lparr>eng_clients := bt_insert (client_id (att_request a))
         \<lparr>cr_sequence = sequence (att_request a), cr_request_hash = request_hash, cr_result = result\<rparr>
         (eng_clients d)\<rparr>)"
  | (Repeat) result where "checked_add (last_applied e) 1 = Some index"
      "admit_request e (att_request a) request_hash = DuplicateOf result" "outcome = Duplicate result"
      "e' = advance_to index apply_hash outcome (e\<lparr>eng_stats := (eng_stats e)\<lparr>duplicate_requests :=
         saturating_add (duplicate_requests (eng_stats e)) 1\<rparr>\<rparr>)"
  | (Reject) rejection where "checked_add (last_applied e) 1 = Some index"
      "admit_request e (att_request a) request_hash = RejectedWith rejection" "outcome = Rejected rejection"
      "e' = advance_to index apply_hash outcome (e\<lparr>eng_stats := (eng_stats e)\<lparr>rejected_requests :=
         saturating_add (rejected_requests (eng_stats e)) 1\<rparr>\<rparr>)"
proof (cases "index = last_applied e")
  case True
  with assms show ?thesis
    by (intro Replay) (auto simp: apply_with_request_hash_def result_simps split: if_splits)
next
  case False
  with assms have idx: "checked_add (last_applied e) 1 = Some index"
    by (auto simp: apply_with_request_hash_def result_simps split: if_splits)
  let ?step = "case admit_request e (att_request a) request_hash of
      New \<Rightarrow> admit_new e index request_hash a
    | DuplicateOf result \<Rightarrow> Inr (Duplicate result, e\<lparr>eng_stats := (eng_stats e)\<lparr>duplicate_requests :=
        saturating_add (duplicate_requests (eng_stats e)) 1\<rparr>\<rparr>)
    | RejectedWith rejection \<Rightarrow> Inr (Rejected rejection, e\<lparr>eng_stats := (eng_stats e)\<lparr>rejected_requests :=
        saturating_add (rejected_requests (eng_stats e)) 1\<rparr>\<rparr>)"
  from assms False idx obtain d where step: "?step = Inr (outcome, d)"
    and e': "e' = advance_to index apply_hash outcome d"
    by (auto simp: apply_with_request_hash_def rbind_eq_Inr advance_to_def)
  show ?thesis
  proof (cases "admit_request e (att_request a) request_hash")
    case New
    with step obtain result d0 where "evaluate_and_apply e index a = Inr (result, d0)"
      "outcome = Applied result"
      "d = d0\<lparr>eng_clients := bt_insert (client_id (att_request a))
         \<lparr>cr_sequence = sequence (att_request a), cr_request_hash = request_hash, cr_result = result\<rparr>
         (eng_clients d0)\<rparr>"
      by (auto simp: admit_new_def rbind_eq_Inr)
    with New idx e' show ?thesis by (intro Fresh) auto
  next
    case (DuplicateOf result)
    with step idx e' show ?thesis by (intro Repeat) auto
  next
    case (RejectedWith rejection)
    with step idx e' show ?thesis by (intro Reject) auto
  qed
qed

lemma admit_New_sequence:
  assumes "admit_request e request hash = New"
  shows "sequence request \<noteq> 0"
  using assms by (auto simp: admit_request_def word_gt_0 split: option.splits if_splits)

lemma apply_inv:
  assumes inv: "engine_inv e"
    and step: "apply_with_request_hash e index apply_hash request_hash a = Inr (outcome, e')"
  shows "engine_inv e'"
  using step
proof (cases rule: apply_cases)
  case (Fresh result d)
  let ?r = "\<lparr>cr_sequence = sequence (att_request a), cr_request_hash = request_hash, cr_result = result\<rparr>"
  have cat: "catalog_ok (eng_catalog e)" and old: "\<forall>c r. bt_get (eng_clients e) c = Some r \<longrightarrow> cr_sequence r \<noteq> 0"
    using inv by (simp_all add: engine_inv_def meta_inv_def)
  have clients: "\<forall>c r. bt_get (bt_insert (client_id (att_request a)) ?r (eng_clients e)) c = Some r
      \<longrightarrow> cr_sequence r \<noteq> 0"
    using old admit_New_sequence[OF Fresh(2)] by auto
  from cat Fresh(3) show ?thesis
  proof (cases rule: evaluate_and_apply_cases)
    case (Abort reason)
    then show ?thesis
      unfolding Fresh(5) using clients
      by (intro quiet_step_inv[OF inv Fresh(1)]) (simp_all add: count_aborted_def)
  next
    case (Commit ks)
    then have "eng_clients d = eng_clients e" by (simp add: commit_effect_def)
    with clients show ?thesis unfolding Fresh(5)
      by (intro commit_inv[OF inv Fresh(1) Commit(1,3)]) simp
  qed
next
  case (Repeat result)
  then show ?thesis using inv unfolding Repeat(4)
    by (intro quiet_step_inv[OF inv Repeat(1)]) (simp_all add: engine_inv_def meta_inv_def)
next
  case (Reject rejection)
  then show ?thesis using inv unfolding Reject(4)
    by (intro quiet_step_inv[OF inv Reject(1)]) (simp_all add: engine_inv_def meta_inv_def)
qed (use inv in simp)

lemma apply_noop_inv:
  assumes inv: "engine_inv e" and step: "apply_noop e index hash = Inr (outcome, e')"
  shows "engine_inv e'"
proof (cases "index = last_applied e")
  case True
  then show ?thesis using inv step by (auto simp: apply_noop_def split: if_splits)
next
  case False
  with step have idx: "checked_add (last_applied e) 1 = Some index"
    and e': "e' = advance_to index hash Noop e"
    by (auto simp: apply_noop_def result_simps advance_to_def split: if_splits)
  show ?thesis
    unfolding e' using inv by (intro quiet_step_inv[OF inv idx]) (simp_all add: engine_inv_def meta_inv_def)
qed

lemma chain_of_vacuumed:
  assumes "f [] = []"
  shows "chain_of (bt_retain (\<lambda>_ vs. vs \<noteq> []) (bt_map f m)) k = f (chain_of m k)"
  using assms by (auto simp: chain_of_def bt_get_retain split: option.split)

lemma dense_retain [simp]: "dense (bt_retain (\<lambda>_ vs. vs \<noteq> []) m)"
  by (auto simp: dense_def bt_get_retain split: option.splits)

lemma vacuum_effect:
  assumes "vacuum_offline e retain_from = Inr (report, e')"
  defines "floor \<equiv> max retain_from (retained_floor e)"
  shows "retain_from \<le> last_applied e" "retained_floor e' = floor"
    "prim e' k = vacuum_rows (prim e k) floor" "sec e' sk = vacuum_secondary (sec e sk) floor"
    "dense_stores e'" "stats_inv e'" "eng_catalog e' = eng_catalog e" "eng_clients e' = eng_clients e"
    "last_applied e' = last_applied e" "last_apply_hash e' = last_apply_hash e"
    "last_apply_outcome e' = last_apply_outcome e" "next_txn_id e' = next_txn_id e"
    "vr_retained_floor report = floor"
proof -
  have neg: "\<not> last_applied e < retain_from"
    using assms(1) by (auto simp: vacuum_offline_def)
  then show "retain_from \<le> last_applied e" by simp
  from assms(1) neg have
    store: "eng_primary e' = bt_retain (\<lambda>_ vs. vs \<noteq> []) (bt_map (\<lambda>vs. vacuum_rows vs floor) (eng_primary e))"
      "eng_secondary e' = bt_retain (\<lambda>_ vs. vs \<noteq> []) (bt_map (\<lambda>vs. vacuum_secondary vs floor) (eng_secondary e))"
    and rest: "retained_floor e' = floor" "stats_inv e'" "eng_catalog e' = eng_catalog e"
      "eng_clients e' = eng_clients e" "last_applied e' = last_applied e"
      "last_apply_hash e' = last_apply_hash e" "last_apply_outcome e' = last_apply_outcome e"
      "next_txn_id e' = next_txn_id e" "vr_retained_floor report = floor"
    unfolding floor_def stats_inv_def vacuum_offline_def Let_def refresh_version_stats_def by auto
  show "prim e' k = vacuum_rows (prim e k) floor" "sec e' sk = vacuum_secondary (sec e sk) floor"
    using chain_of_vacuumed[of "\<lambda>vs. vacuum_rows vs floor" "eng_primary e" k]
      chain_of_vacuumed[of "\<lambda>vs. vacuum_secondary vs floor" "eng_secondary e" sk]
    by (simp_all add: store rows.vacuum_Nil secondaries.vacuum_Nil)
  show "dense_stores e'" by (simp add: dense_stores_def store)
  show "retained_floor e' = floor" "stats_inv e'" "eng_catalog e' = eng_catalog e"
    "eng_clients e' = eng_clients e" "last_applied e' = last_applied e"
    "last_apply_hash e' = last_apply_hash e" "last_apply_outcome e' = last_apply_outcome e"
    "next_txn_id e' = next_txn_id e" "vr_retained_floor report = floor" by (fact rest)+
qed

lemma view_vacuum:
  assumes "vacuum_offline e retain_from = Inr (report, e')" "retained_floor e' \<le> ts"
  shows "view e' ts k = view e ts k" "index_view e' ts sk = index_view e ts sk"
  using assms(2) vacuum_effect(2-4)[OF assms(1)]
  by (simp_all add: view_def index_view_def rows.visible_vacuum secondaries.visible_vacuum)

lemma vacuum_inv:
  assumes inv: "engine_inv e" and step: "vacuum_offline e retain_from = Inr (report, e')"
  shows "engine_inv e'"
proof -
  note eff = vacuum_effect[OF step]
  from inv have parts: "meta_inv e" "stores_inv e" "rows_inv e" "index_inv e" by (simp_all add: engine_inv_def)
  have floor: "retained_floor e' \<le> last_applied e'"
    using parts(1) eff(1,2,9) by (simp add: meta_inv_def)
  then have views: "view e' (last_applied e) = view e (last_applied e)"
    "index_view e' (last_applied e) = index_view e (last_applied e)"
    using view_vacuum[OF step, of "last_applied e"] eff(9) by (auto simp: fun_eq_iff)
  have "meta_inv e'" using parts(1) floor eff(7-12) by (simp add: meta_inv_def)
  moreover have "stores_inv e'"
    using parts(2) eff(5) secondaries.vacuum_Nil unfolding stores_upto_def eff(3,4,7,9)
    by (metis rows.chain_ok_vacuum secondaries.chain_ok_vacuum)
  moreover have "rows_inv e'"
    unfolding rows_inv_def eff(3,7)
    using parts(3) rows.set_vacuum by (metis rows_inv_def subsetD)
  moreover have "index_inv e'"
    using parts(4) by (simp add: index_upto_def index_exact_def eff(7,9) views)
  ultimately show ?thesis using eff(6) by (simp add: engine_inv_def)
qed

end
