(* ===== verification/Engine_Example.thy ===== *)
theory Engine_Example
  imports Engine_Inv "HOL-Library.Code_Target_Nat"
begin

text \<open>
  A concrete run of the engine, evaluated by rewriting: a table with an index is created and a
  row written, two clients then write the same row from the same snapshot, and the loser
  retries.  It shows that the hypotheses of the run theorems can be met.
\<close>

definition ex_table :: table_meta where
  "ex_table = \<lparr>tm_id = 1, tm_name = ''acct'',
     tm_schema = \<lparr>columns = [
       \<lparr>col_name = ''id'', col_data_type = DText, col_nullable = False, col_primary_key = True\<rparr>,
       \<lparr>col_name = ''bal'', col_data_type = DText, col_nullable = True, col_primary_key = False\<rparr>]\<rparr>,
     tm_primary_key_column = 0\<rparr>"

definition ex_index :: index_meta where
  "ex_index = \<lparr>im_id = 1, im_name = ''bybal'', im_table_id = 1, im_column = 1\<rparr>"

definition ex_put :: "string \<Rightarrow> txn_write" where
  "ex_put bal = \<lparr>tw_table_id = 1, tw_primary_key = Text ''k'',
     tw_mutation = Put \<lparr>row_values = [Text ''k'', Text bal]\<rparr>\<rparr>"

definition ex_attempt :: "bytes \<Rightarrow> u64 \<Rightarrow> u64 \<Rightarrow> u64 \<Rightarrow> catalog_mutation list \<Rightarrow> string \<Rightarrow> txn_attempt" where
  "ex_attempt client seq read_ts epoch ms bal =
     \<lparr>att_request = \<lparr>client_id = client, sequence = seq\<rparr>, att_leader_term = 1, att_read_ts = read_ts,
      att_schema_epoch = epoch, att_writes = [ex_put bal], att_catalog_mutations = ms\<rparr>"

definition ex_create :: txn_attempt where
  "ex_create = ex_attempt [1] 1 0 0 [CreateTable ex_table, CreateIndex ex_index] ''100''"

definition ex_first :: txn_attempt where "ex_first = ex_attempt [2] 1 1 1 [] ''90''"
definition ex_second :: txn_attempt where "ex_second = ex_attempt [3] 1 1 1 [] ''80''"

text \<open>The next request of the first client.\<close>

definition ex_next :: txn_attempt where "ex_next = ex_attempt [1] 2 1 1 [] ''70''"

definition ex_run :: "engine \<Rightarrow> u64 \<Rightarrow> txn_attempt \<Rightarrow> engine_error + apply_outcome \<times> engine" where
  "ex_run e index a = apply_with_request_hash e index [0] [0] a"

definition ex1 :: engine where "ex1 = snd (projr (ex_run engine_new 1 ex_create))"
definition ex2 :: engine where "ex2 = snd (projr (ex_run ex1 2 ex_first))"
definition ex3 :: engine where "ex3 = snd (projr (ex_run ex2 3 ex_second))"
definition ex2' :: engine where "ex2' = snd (projr (ex_run ex1 2 ex_next))"

text \<open>The states written out, so that later evaluations need not repeat the run.\<close>

definition ex_catalog :: catalog where
  "ex_catalog = \<lparr>cat_schema_epoch = 1, cat_tables = bt_of_list [(1, ex_table)],
     cat_table_names = bt_of_list [(''acct'', 1)], cat_indexes = bt_of_list [(1, ex_index)],
     cat_index_names = bt_of_list [(''bybal'', 1)]\<rparr>"

definition ex_version :: "u64 \<Rightarrow> string \<Rightarrow> row_version" where
  "ex_version c bal = \<lparr>rv_commit_index = c, rv_row = Some \<lparr>row_values = [Text ''k'', Text bal]\<rparr>\<rparr>"

definition ex_client :: "commit_result \<Rightarrow> client_record" where
  "ex_client result = \<lparr>cr_sequence = 1, cr_request_hash = [0], cr_result = result\<rparr>"

definition ex_stats :: "u64 \<Rightarrow> u64 \<Rightarrow> engine_stats" where
  "ex_stats n m = engine_stats_default\<lparr>committed_transactions := n, primary_versions := n, secondary_versions := m\<rparr>"

lemma ex1_code [code]: "ex1 = \<lparr>eng_catalog = ex_catalog,
    eng_primary = bt_of_list [(LogicalKey 1 [4, 107, 0, 0], [ex_version 1 ''100''])],
    eng_secondary = bt_of_list [(SecondaryKey 1 [4, 49, 48, 48, 0, 0] [4, 107, 0, 0],
      [\<lparr>sv_commit_index = 1, sv_present = True\<rparr>])],
    eng_clients = bt_of_list [([1], ex_client (Committed 1 1 1))],
    last_applied = 1, last_apply_hash = Some [0], last_apply_outcome = Some (Applied (Committed 1 1 1)),
    retained_floor = 0, next_txn_id = 1, eng_stats = ex_stats 1 1\<rparr>"
  by code_simp

lemma ex2_code [code]: "ex2 = \<lparr>eng_catalog = ex_catalog,
    eng_primary = bt_of_list [(LogicalKey 1 [4, 107, 0, 0], [ex_version 2 ''90'', ex_version 1 ''100''])],
    eng_secondary = bt_of_list [
      (SecondaryKey 1 [4, 49, 48, 48, 0, 0] [4, 107, 0, 0],
        [\<lparr>sv_commit_index = 2, sv_present = False\<rparr>, \<lparr>sv_commit_index = 1, sv_present = True\<rparr>]),
      (SecondaryKey 1 [4, 57, 48, 0, 0] [4, 107, 0, 0], [\<lparr>sv_commit_index = 2, sv_present = True\<rparr>])],
    eng_clients = bt_of_list [([1], ex_client (Committed 1 1 1)), ([2], ex_client (Committed 2 1 1))],
    last_applied = 2, last_apply_hash = Some [0], last_apply_outcome = Some (Applied (Committed 2 1 1)),
    retained_floor = 0, next_txn_id = 1, eng_stats = ex_stats 2 3\<rparr>"
  by code_simp

lemma map_sum_fst_Inr: "map_sum f fst r = Inr x \<Longrightarrow> r = Inr (x, snd (projr r))"
  by (cases r) auto

lemma ex1_apply: "apply_with_request_hash engine_new 1 [0] [0] ex_create = Inr (Applied (Committed 1 1 1), ex1)"
proof -
  have "map_sum (\<lambda>_. ()) fst (ex_run engine_new 1 ex_create) = Inr (Applied (Committed 1 1 1))" by code_simp
  from map_sum_fst_Inr[OF this] show ?thesis by (simp add: ex1_def ex_run_def)
qed

lemma ex2_apply: "apply_with_request_hash ex1 2 [0] [0] ex_first = Inr (Applied (Committed 2 1 1), ex2)"
proof -
  have "map_sum (\<lambda>_. ()) fst (ex_run ex1 2 ex_first) = Inr (Applied (Committed 2 1 1))" by code_simp
  from map_sum_fst_Inr[OF this] show ?thesis by (simp add: ex2_def ex_run_def)
qed

lemma ex3_apply: "apply_with_request_hash ex2 3 [0] [0] ex_second
    = Inr (Applied (Aborted 3 (WriteConflict 1 (Text ''k'') 2)), ex3)"
proof -
  have "map_sum (\<lambda>_. ()) fst (ex_run ex2 3 ex_second)
    = Inr (Applied (Aborted 3 (WriteConflict 1 (Text ''k'') 2)))" by code_simp
  from map_sum_fst_Inr[OF this] show ?thesis by (simp add: ex3_def ex_run_def)
qed

lemma ex2'_apply: "apply_with_request_hash ex1 2 [0] [0] ex_next = Inr (Applied (Committed 2 1 1), ex2')"
proof -
  have "map_sum (\<lambda>_. ()) fst (ex_run ex1 2 ex_next) = Inr (Applied (Committed 2 1 1))" by code_simp
  from map_sum_fst_Inr[OF this] show ?thesis by (simp add: ex2'_def ex_run_def)
qed

lemma ex_inv: "engine_inv ex1" "engine_inv ex2" "engine_inv ex3"
proof -
  show ex1: "engine_inv ex1" by (rule apply_inv[OF engine_new_inv ex1_apply])
  show "engine_inv ex2" by (rule apply_inv[OF ex1 ex2_apply])
  then show "engine_inv ex3" by (rule apply_inv[OF _ ex3_apply])
qed

lemma apply_at:
  assumes "apply_with_request_hash e index h rh a = Inr (outcome, e')"
  shows "last_applied e' = index"
  using assms by (cases rule: apply_cases) (simp_all add: advance_to_def)

lemma last_applied_new [simp]: "last_applied engine_new = 0"
  by (simp add: engine_new_def)

lemmas ex_last = apply_at[OF ex1_apply] apply_at[OF ex2_apply] apply_at[OF ex3_apply]

end
