(* ===== verification/Engine_History.thy ===== *)
theory Engine_History
  imports Engine_Example
begin

text \<open>
  Runs of the engine: the step relation over all state-changing operations, absence of panics,
  growth of the catalog, stability of snapshots and first-committer-wins.
\<close>

section \<open>The step relation\<close>

inductive engine_step :: "engine \<Rightarrow> engine \<Rightarrow> bool" where
  Begin: "begin_at e read_ts epoch = Inr (t, e') \<Longrightarrow> engine_step e e'"
| Apply: "apply_with_request_hash e index apply_hash request_hash a = Inr (outcome, e') \<Longrightarrow> engine_step e e'"
| Apply_noop: "apply_noop e index hash = Inr (outcome, e') \<Longrightarrow> engine_step e e'"
| Vacuum: "vacuum_offline e retain_from = Inr (report, e') \<Longrightarrow> engine_step e e'"

abbreviation engine_steps :: "engine \<Rightarrow> engine \<Rightarrow> bool" where
  "engine_steps \<equiv> engine_step\<^sup>*\<^sup>*"

lemma step_inv: "engine_step e e' \<Longrightarrow> engine_inv e \<Longrightarrow> engine_inv e'"
  by (induction rule: engine_step.induct) (auto dest: begin_at_inv apply_inv apply_noop_inv vacuum_inv)

lemma steps_inv: "engine_steps e e' \<Longrightarrow> engine_inv e \<Longrightarrow> engine_inv e'"
  by (induction rule: rtranclp_induct) (auto dest: step_inv)

text \<open>Every step is a commit, a quiet step, a vacuum, or touches no stored data at all.\<close>

lemma step_cases:
  assumes inv: "engine_inv e" and step: "engine_step e e'"
  obtains (Idle) "view e' = view e" "index_view e' = index_view e" "last_applied e' = last_applied e"
      "retained_floor e' = retained_floor e" "eng_primary e' = eng_primary e" "eng_clients e' = eng_clients e"
      "eng_catalog e' = eng_catalog e"
  | (Quiet) index where "checked_add (last_applied e) 1 = Some index" "view e' = view e"
      "index_view e' = index_view e" "last_applied e' = index" "retained_floor e' = retained_floor e"
      "eng_primary e' = eng_primary e" "eng_catalog e' = eng_catalog e"
  | (Commit) index a ks d where "checked_add (last_applied e) 1 = Some index"
      "attempt_valid e a (eng_catalog e') ks" "commit_effect e index (written (att_writes a) ks) d"
      "view e' = view d" "index_view e' = index_view d" "last_applied e' = index"
      "retained_floor e' = retained_floor e" "eng_primary e' = eng_primary d"
      "eng_catalog e' = eng_catalog d"
  | (Vacuum) retain_from report where "vacuum_offline e retain_from = Inr (report, e')"
  using step
proof cases
  case (Begin read_ts epoch t)
  then show ?thesis
    by (intro Idle) (auto simp: begin_at_def result_simps split: if_splits)
next
  case (Apply index apply_hash request_hash a outcome)
  then show ?thesis
  proof (cases rule: apply_cases)
    case Replay
    then show ?thesis by (intro Idle) simp_all
  next
    case (Fresh result d)
    have "catalog_ok (eng_catalog e)" using inv by (simp add: engine_inv_def meta_inv_def)
    from this Fresh(3) show ?thesis
    proof (cases rule: evaluate_and_apply_cases)
      case (Abort reason)
      then show ?thesis using Fresh by (intro Quiet[of index]) (simp_all add: advance_to_def count_aborted_def)
    next
      case (Commit ks)
      then show ?thesis
        using Fresh by (intro that(3)[of index a ks d]) (simp_all add: advance_to_def commit_effect_def)
    qed
  next
    case (Repeat result)
    then show ?thesis by (intro Quiet[of index]) (simp_all add: advance_to_def)
  next
    case (Reject rejection)
    then show ?thesis by (intro Quiet[of index]) (simp_all add: advance_to_def)
  qed
next
  case (Apply_noop index hash outcome)
  show ?thesis
  proof (cases "index = last_applied e")
    case True
    then show ?thesis using Apply_noop by (intro Idle) (auto simp: apply_noop_def split: if_splits)
  next
    case False
    then show ?thesis using Apply_noop
      by (intro Quiet[of index]) (auto simp: apply_noop_def result_simps split: if_splits)
  qed
next
  case (Vacuum retain_from report)
  then show ?thesis by (rule that(4))
qed

lemma step_monotone:
  assumes inv: "engine_inv e" and step: "engine_step e e'"
  shows "last_applied e \<le> last_applied e'" "retained_floor e \<le> retained_floor e'"
proof -
  from inv step have "last_applied e \<le> last_applied e' \<and> retained_floor e \<le> retained_floor e'"
  proof (cases rule: step_cases)
    case (Vacuum retain_from report)
    then show ?thesis using vacuum_effect(2,9)[OF Vacuum] by simp
  qed (auto dest!: checked_add_one_less(1))
  then show "last_applied e \<le> last_applied e'" "retained_floor e \<le> retained_floor e'" by blast+
qed

lemma steps_monotone:
  assumes "engine_steps e e'" "engine_inv e"
  shows "last_applied e \<le> last_applied e'" "retained_floor e \<le> retained_floor e'"
proof -
  from assms have "last_applied e \<le> last_applied e' \<and> retained_floor e \<le> retained_floor e'"
  proof (induction rule: rtranclp_induct)
    case (step y z)
    then show ?case using step_monotone[OF steps_inv[OF step(1)] step(2)] by (meson order_trans)
  qed simp
  then show "last_applied e \<le> last_applied e'" "retained_floor e \<le> retained_floor e'" by blast+
qed

lemma steps_catalog:
  assumes "engine_steps e e'" "engine_inv e"
  shows "catalog_extends (eng_catalog e) (eng_catalog e')"
  using assms
proof (induction rule: rtranclp_induct)
  case (step y z)
  note inv = steps_inv[OF step(1,4)]
  then have ok: "catalog_ok (eng_catalog y)" by (simp add: engine_inv_def meta_inv_def)
  from inv step(2) have "catalog_extends (eng_catalog y) (eng_catalog z)"
  proof (cases rule: step_cases)
    case (Commit index a ks d)
    then show ?thesis using apply_mutations_ok[OF ok] by (auto simp: attempt_valid_def)
  next
    case (Vacuum retain_from report)
    then show ?thesis using vacuum_effect(7)[OF Vacuum] by simp
  qed simp_all
  with step show ?case by (meson catalog_extends_trans)
qed simp

section \<open>Reachable states satisfy the invariant\<close>

text \<open>
  C9: the engine invariant holds in every reachable state.  Starting from the empty engine, no
  sequence of transaction starts, applied attempts, no-ops and vacuums breaks it: the catalog
  stays consistent, version chains stay strictly ordered and bounded by the applied index,
  stored rows fit their schemas, and every secondary index agrees with its table.
\<close>

theorem reachable_invariant:
  assumes "engine_steps engine_new e"
  shows "engine_inv e"
  using assms engine_new_inv by (rule steps_inv)

theorem reachable_invariant_witness:
  "engine_inv (engine_new\<lparr>last_applied := 1, last_apply_hash := Some [7], last_apply_outcome := Some Noop\<rparr>)"
proof (rule reachable_invariant)
  have "apply_noop engine_new 1 [7] = Inr (Noop,
      engine_new\<lparr>last_applied := 1, last_apply_hash := Some [7], last_apply_outcome := Some Noop\<rparr>)"
    by (simp add: apply_noop_def engine_new_def checked_add_def)
  then show "engine_steps engine_new
      (engine_new\<lparr>last_applied := 1, last_apply_hash := Some [7], last_apply_outcome := Some Noop\<rparr>)"
    by (intro r_into_rtranclp engine_step.Apply_noop)
qed

section \<open>Snapshots are stable\<close>

lemma snapshot_step:
  assumes inv: "engine_inv e" and step: "engine_step e e'"
    and ts: "ts \<le> last_applied e" "retained_floor e' \<le> ts"
  shows "view e' ts k = view e ts k \<and> index_view e' ts sk = index_view e ts sk"
  using inv step
proof (cases rule: step_cases)
  case (Commit index a ks d)
  have "ts < index" using ts(1) checked_add_one_less(2)[OF Commit(1)] by blast
  then show ?thesis using Commit(4,5) view_commit_old[OF Commit(3)] index_view_commit_old[OF Commit(3)] by simp
next
  case (Vacuum retain_from report)
  then show ?thesis using view_vacuum[OF Vacuum ts(2)] by simp
qed simp_all

lemma snapshot_steps:
  assumes "engine_steps e e'" "engine_inv e" "ts \<le> last_applied e" "retained_floor e' \<le> ts"
  shows "view e' ts k = view e ts k \<and> index_view e' ts sk = index_view e ts sk"
  using assms
proof (induction rule: rtranclp_induct)
  case (step y z)
  note inv = steps_inv[OF step(1,4)]
  have "retained_floor y \<le> ts" using step_monotone(2)[OF inv step(2)] step.prems(3) by (rule order_trans)
  moreover have "ts \<le> last_applied y"
    using step.prems(2) steps_monotone(1)[OF step(1,4)] by (rule order_trans)
  ultimately show ?case using step snapshot_step[OF inv step(2)] by simp
qed simp

text \<open>
  C10: snapshot stability.  What a read timestamp at or below the applied index shows, under any
  key and in any index, never changes afterwards, whatever is applied, until vacuum moves the
  retained floor above it.
\<close>

theorem snapshot_stable:
  assumes "engine_steps e e'" "engine_inv e" "ts \<le> last_applied e" "retained_floor e' \<le> ts"
  shows "view e' ts k = view e ts k \<and> index_view e' ts sk = index_view e ts sk"
  using assms by (rule snapshot_steps)

lemma ex_steps: "engine_steps ex1 ex2" "engine_steps ex2 ex3"
  using engine_step.Apply[OF ex2_apply] engine_step.Apply[OF ex3_apply] by auto

lemma retained_floor_ex: "retained_floor ex1 = 0" "retained_floor ex2 = 0"
  by code_simp+

theorem snapshot_stable_witness:
  "view ex2 1 (LogicalKey 1 (encode_ordered (Text ''k'') []))
     = view ex1 1 (LogicalKey 1 (encode_ordered (Text ''k'') []))
   \<and> index_view ex2 1 (SecondaryKey 1 (encode_ordered (Text ''100'') []) (encode_ordered (Text ''k'') []))
     = index_view ex1 1 (SecondaryKey 1 (encode_ordered (Text ''100'') []) (encode_ordered (Text ''k'') []))"
  by (rule snapshot_stable[OF ex_steps(1) ex_inv(1)]) (simp_all add: ex_last retained_floor_ex)

section \<open>First committer wins\<close>

lemma newest_commit_prim:
  "newest_commit e k = (case prim e k of [] \<Rightarrow> None | v # _ \<Rightarrow> Some (rv_commit_index v))"
  by (simp add: newest_commit_def chain_of_def split: option.split)

text \<open>A commit of a key is remembered by its chain, or the floor has passed it.\<close>

definition commit_remembered :: "engine \<Rightarrow> logical_key \<Rightarrow> u64 \<Rightarrow> bool" where
  "commit_remembered e k c \<longleftrightarrow>
     c \<le> retained_floor e \<or> (\<exists>v vs. prim e k = v # vs \<and> c \<le> rv_commit_index v)"

lemma commit_remembered_step:
  assumes inv: "engine_inv e" and step: "engine_step e e'" and mem: "commit_remembered e k c"
  shows "commit_remembered e' k c"
  using inv step
proof (cases rule: step_cases)
  case (Commit index a ks d)
  have prim: "prim e' k = (case written (att_writes a) ks k of
      None \<Rightarrow> prim e k | Some new \<Rightarrow> \<lparr>rv_commit_index = index, rv_row = new\<rparr> # prim e k)"
    using Commit(3,8) by (simp add: commit_effect_def)
  have "c \<le> index" if "prim e k = v # vs" "c \<le> rv_commit_index v" for v vs
  proof -
    have "rows.chain_ok (prim e k) (last_applied e)" using inv by (simp add: engine_inv_def stores_upto_def)
    then have "rv_commit_index v \<le> last_applied e" using that(1) by (simp add: rows.chain_ok_def)
    then show ?thesis using that(2) checked_add_one_less(1)[OF Commit(1)] by simp
  qed
  then show ?thesis
    using mem Commit(7) by (auto simp: commit_remembered_def prim split: option.split)
next
  case (Vacuum retain_from report)
  note eff = vacuum_effect(2,3)[OF Vacuum]
  from mem show ?thesis
    unfolding commit_remembered_def
  proof
    assume "c \<le> retained_floor e"
    then show "c \<le> retained_floor e' \<or> (\<exists>v vs. prim e' k = v # vs \<and> c \<le> rv_commit_index v)"
      using step_monotone(2)[OF inv step] by (meson order_trans)
  next
    assume "\<exists>v vs. prim e k = v # vs \<and> c \<le> rv_commit_index v"
    then obtain v vs where v: "prim e k = v # vs" "c \<le> rv_commit_index v" by blast
    show "c \<le> retained_floor e' \<or> (\<exists>v vs. prim e' k = v # vs \<and> c \<le> rv_commit_index v)"
    proof (cases "rv_commit_index v \<le> retained_floor e'")
      case True
      then show ?thesis using v(2) by (meson order_trans)
    next
      case False
      then show ?thesis using v eff by (auto simp: rows.vacuum_Cons not_le)
    qed
  qed
qed (use mem in \<open>simp_all add: commit_remembered_def\<close>)

lemma commit_remembered_steps:
  assumes "engine_steps e e'" "engine_inv e" "commit_remembered e k c"
  shows "commit_remembered e' k c"
  using assms
proof (induction rule: rtranclp_induct)
  case (step y z)
  then show ?case using commit_remembered_step[OF steps_inv[OF step(1,4)] step(2)] by blast
qed

definition writes_key :: "txn_attempt \<Rightarrow> logical_key \<Rightarrow> bool" where
  "writes_key a k \<longleftrightarrow> (\<exists>w \<in> set (att_writes a). write_logical_key w = Inr k)"

lemma writes_key_keys: "write_keys (att_writes a) ks \<Longrightarrow> writes_key a k \<longleftrightarrow> k \<in> set ks"
  unfolding writes_key_def write_keys_def by (induction rule: list_all2_induct) auto

lemma written_key: "length ks = length ws \<Longrightarrow> written ws ks k = None \<longleftrightarrow> k \<notin> set ks"
  by (simp add: written_def map_of_eq_None_iff flip: set_map)

lemma applied_committed_cases:
  assumes inv: "engine_inv e" and fresh: "index \<noteq> last_applied e"
    and step: "apply_with_request_hash e index h rh a = Inr (Applied (Committed n m s), e')"
  obtains ks d where "checked_add (last_applied e) 1 = Some index"
    "attempt_valid e a (eng_catalog d) ks" "commit_effect e index (written (att_writes a) ks) d"
    "n = index" "view e' = view d" "eng_primary e' = eng_primary d" "eng_catalog e' = eng_catalog d"
    "index_view e' = index_view d" "m = length (att_writes a)" "s = cat_schema_epoch (eng_catalog d)"
    "last_applied e' = index" "retained_floor e' = retained_floor e"
  using step
proof (cases rule: apply_cases)
  case (Fresh result d)
  have "catalog_ok (eng_catalog e)" using inv by (simp add: engine_inv_def meta_inv_def)
  from this Fresh(3) show ?thesis
  proof (cases rule: evaluate_and_apply_cases)
    case (Commit ks)
    then show ?thesis using Fresh by (intro that[of d ks]) (simp_all add: advance_to_def commit_effect_def)
  qed (use Fresh in simp)
qed (use fresh in simp_all)

text \<open>
  C11: first committer wins.  Once an attempt that writes a key has committed at an index, no
  later attempt that writes the same key and read before that index ever commits, however many
  steps (vacuums included) lie between them.
\<close>

theorem first_committer_wins:
  assumes inv: "engine_inv e0"
    and first: "apply_with_request_hash e0 c h rh b = Inr (Applied (Committed c n s), e)" "c \<noteq> last_applied e0"
    and steps: "engine_steps e e'"
    and second: "apply_with_request_hash e' index h' rh' a = Inr (outcome, e'')" "index \<noteq> last_applied e'"
    and overlap: "writes_key b k" "writes_key a k" "att_read_ts a < c"
  shows "outcome \<noteq> Applied (Committed n' m' s')"
proof
  assume committed: "outcome = Applied (Committed n' m' s')"
  obtain ks d where d: "attempt_valid e0 b (eng_catalog d) ks" "commit_effect e0 c (written (att_writes b) ks) d"
    "eng_primary e = eng_primary d"
    using applied_committed_cases[OF inv first(2,1)] by metis
  have keys: "write_keys (att_writes b) ks" using d(1) by (simp add: attempt_valid_def)
  then have "written (att_writes b) ks k \<noteq> None"
    using overlap(1) by (simp add: written_key write_keys_length writes_key_keys)
  then have "commit_remembered e k c"
    using d(2,3) by (auto simp: commit_effect_def commit_remembered_def)
  have inv_e: "engine_inv e" by (rule apply_inv[OF inv first(1)])
  have inv': "engine_inv e'" by (rule steps_inv[OF steps inv_e])
  have mem: "commit_remembered e' k c"
    by (rule commit_remembered_steps[OF steps inv_e \<open>commit_remembered e k c\<close>])
  obtain ks' c' where valid: "attempt_valid e' a c' ks'"
    by (rule applied_committed_cases[OF inv' second(2) second(1)[unfolded committed]]) blast
  then have "write_keys (att_writes a) ks'" by (simp add: attempt_valid_def)
  then have "k \<in> set ks'" using overlap(2) by (simp add: writes_key_keys)
  then have "unconflicted e' (att_read_ts a) k" and "retained_floor e' \<le> att_read_ts a"
    using valid by (auto simp: attempt_valid_def list_all2_conv_all_nth in_set_conv_nth)
  then show False
    using mem overlap(3) by (auto simp: commit_remembered_def unconflicted_def newest_commit_prim)
qed

lemma ex_writes_key: "writes_key ex_first (LogicalKey 1 (encode_ordered (Text ''k'') []))"
  "writes_key ex_second (LogicalKey 1 (encode_ordered (Text ''k'') []))"
  by code_simp+

theorem first_committer_wins_witness:
  "Applied (Aborted 3 (WriteConflict 1 (Text ''k'') 2)) \<noteq> Applied (Committed 3 1 1)"
proof -
  have "att_read_ts ex_second < 2" by code_simp
  then show ?thesis
    by (intro first_committer_wins[OF ex_inv(1) ex2_apply _ _ ex3_apply _ ex_writes_key])
      (simp_all add: ex_last)
qed

end
