(* ===== verification/Engine_Spec.thy ===== *)
theory Engine_Spec
  imports Engine_History
begin

text \<open>
  The contract of \<open>apply\<close>: it is total on well-formed states and never panics, replays are
  idempotent, a client request takes effect at most once, and the whole engine refines an
  abstract store that keeps one database state per applied index and the last writer of every key,
  and commits under snapshot isolation.
\<close>

section \<open>Totality\<close>

lemma backfills_ok:
  assumes "\<forall>i \<in> set is. \<forall>k r. lk_table_id k = im_table_id i \<longrightarrow> view e index k = Some r \<longrightarrow>
    im_column i < length (row_values r)"
  shows "\<exists>d. try_fold (backfill_index index) e is = Inr d"
  using assms
proof (induction "is" arbitrary: e)
  case (Cons i "is")
  have "\<exists>es. backfill_entries i index
      (filter (\<lambda>(key, _). lk_table_id key = im_table_id i) (bt_entries (eng_primary e))) = Inr es"
  proof (rule backfill_entries_ok, clarsimp)
    fix k vs r
    assume "(k, vs) \<in> set (bt_entries (eng_primary e))" "lk_table_id k = im_table_id i"
      "visible_row vs index = Some r"
    moreover from this have "view e index k = Some r"
      by (simp add: bt_entries_get view_def chain_of_def)
    ultimately show "im_column i < length (row_values r)" using Cons.prems by simp
  qed
  then obtain e1 where e1: "backfill_index index e i = Inr e1" by (auto simp: backfill_index_def)
  have "\<exists>d. try_fold (backfill_index index) e1 is = Inr d"
    using Cons.prems by (intro Cons.IH) (simp add: view_backfill[OF e1])
  then show ?case using e1 by simp
qed simp

lemma view_SomeD: "view e ts k = Some r \<Longrightarrow> \<exists>v \<in> set (prim e k). rv_row v = Some r"
  by (rule rows.visible_mem[of "prim e k" ts]) (auto simp: view_def)

lemma evaluate_and_apply_total:
  assumes inv: "engine_inv e"
  shows "\<exists>res e'. evaluate_and_apply e index a = Inr (res, e')"
proof -
  have cat: "catalog_ok (eng_catalog e)" and rows: "rows_inv e"
    using inv by (simp_all add: engine_inv_def meta_inv_def)
  have "\<exists>v. validate_attempt_for_apply e a = Inr v"
  proof (cases "apply_mutations (eng_catalog e) (att_catalog_mutations a)")
    case (Inr x)
    then obtain "next" ids where m: "apply_mutations (eng_catalog e) (att_catalog_mutations a) = Inr (next, ids)"
      by (cases x) simp
    obtain bad where "validate_writes e next (att_read_ts a) (att_writes a) = Inr bad"
      using validate_writes_spec(1)[of "next"] apply_mutations_ok[OF cat m] by blast
    then show ?thesis
      by (cases bad) (auto simp: validate_attempt_for_apply_def m split: sum.split)
  qed (auto simp: validate_attempt_for_apply_def split: sum.split)
  then obtain v where v: "validate_attempt_for_apply e a = Inr v" ..
  show ?thesis
  proof (cases v)
    case (Inl reason)
    then show ?thesis by (simp add: evaluate_and_apply_def v)
  next
    case (Inr x)
    then obtain "next" "is" where x: "validate_attempt_for_apply e a = Inr (Inr (next, is))"
      using v by (cases x) simp
    obtain ids ks where valid: "attempt_valid e a next ks"
      and ids: "apply_mutations (eng_catalog e) (att_catalog_mutations a) = Inr (next, ids)"
        "created_indexes next ids = Inr is"
      by (rule validate_attempt_Inr[OF cat x])
    then have keys: "write_keys (att_writes a) ks" "distinct ks"
      by (auto simp: attempt_valid_def strict_sorted_iff)
    let ?before = "map (\<lambda>k. (k, view e (last_applied e) k)) ks"
    let ?start = "fold (apply_write (eng_catalog e) index) (zip (att_writes a) ?before) (e\<lparr>eng_catalog := next\<rparr>)"
    have len: "length ?before = length (att_writes a)" and dist: "distinct (map fst ?before)"
      using keys by (simp_all add: write_keys_length comp_def)
    have prim: "prim ?start k = (case written (att_writes a) ks k of
        None \<Rightarrow> prim e k | Some new \<Rightarrow> \<lparr>rv_commit_index = index, rv_row = new\<rparr> # prim e k)" for k
      using prim_apply_writes[OF len dist, of "eng_catalog e" index "e\<lparr>eng_catalog := next\<rparr>" k]
      by (simp add: changes_written write_keys_length[OF keys(1)] split: option.splits)
    have fits: "row_fits next k r" if "view ?start index k = Some r" for k r
    proof -
      obtain v where "v \<in> set (prim ?start k)" "rv_row v = Some r"
        using view_SomeD[of ?start index k r] \<open>view ?start index k = Some r\<close> by blast
      then show ?thesis unfolding prim by (rule rows_fit_written[OF rows cat valid])
    qed
    have "im_column i < length (row_values r)"
      if i: "i \<in> set is" "lk_table_id k = im_table_id i" "view ?start index k = Some r" for i k r
    proof -
      have "catalog_index next (im_id i) = Some i" using created_indexes_ok[OF cat ids(1)] ids(2) i(1) by auto
      from catalog_index_ok[OF attempt_valid_catalog(1)[OF valid cat] this]
      obtain t where "catalog_table next (im_table_id i) = Some t" "im_column i < length (columns (tm_schema t))" .
      with fits[OF i(3)] i(2) show ?thesis by (auto simp: row_fits_def row_ok_def list_all2_lengthD)
    qed
    then obtain d where "try_fold (backfill_index index) ?start is = Inr d"
      using backfills_ok[of "is" ?start index] by blast
    then show ?thesis by (simp add: evaluate_and_apply_def x before_rows[OF keys(1)])
  qed
qed

text \<open>
  C12: apply is total.  In a well-formed engine a canonical attempt offered at the next index
  always produces an outcome: no error, and in particular none of the slice indexings of
  validation, application and index backfill is ever out of range.
\<close>

theorem apply_total:
  assumes inv: "engine_inv e" and "validate_canonical a = Inr ()"
    and "checked_add (last_applied e) 1 = Some index"
  shows "\<exists>outcome e'. apply_with_request_hash e index apply_hash request_hash a = Inr (outcome, e')"
proof -
  obtain res d where "evaluate_and_apply e index a = Inr (res, d)"
    using evaluate_and_apply_total[OF inv] by blast
  moreover have "index \<noteq> last_applied e" using checked_add_one_less(1)[OF assms(3)] by auto
  ultimately show ?thesis
    using assms(2,3) by (auto simp: apply_with_request_hash_def admit_new_def split: admission.split)
qed

theorem apply_total_witness:
  "\<exists>outcome e'. apply_with_request_hash ex1 2 [0] [0] ex_first = Inr (outcome, e')"
proof -
  have "validate_canonical ex_first = Inr ()" "checked_add 1 1 = Some 2" by code_simp+
  then show ?thesis by (intro apply_total[OF ex_inv(1)]) (simp_all add: ex_last)
qed

section \<open>Replay\<close>

text \<open>
  C13: replay is idempotent.  Offering an index that has just been applied again returns the
  recorded outcome and leaves the engine as it is when the hash is the same, and fails with a
  hash mismatch when it is not.
\<close>

theorem apply_replay:
  assumes "apply_with_request_hash e index h rh a = Inr (outcome, e')"
  shows "apply_with_request_hash e' index h' rh' a
    = (if h' = h then Inr (outcome, e') else Inl (ApplyHashMismatch index))"
proof -
  have "validate_canonical a = Inr ()"
    using assms by (auto simp: apply_with_request_hash_def rbind_eq_Inr)
  moreover have "last_applied e' = index \<and> last_apply_hash e' = Some h \<and> last_apply_outcome e' = Some outcome"
    using assms by (cases rule: apply_cases) (auto simp: advance_to_def)
  ultimately show ?thesis by (simp add: apply_with_request_hash_def)
qed

theorem apply_replay_witness:
  "apply_with_request_hash ex1 1 [0] [9] ex_create = Inr (Applied (Committed 1 1 1), ex1)
   \<and> apply_with_request_hash ex1 1 [5] [9] ex_create = Inl (ApplyHashMismatch 1)"
  using apply_replay[OF ex1_apply, of "[0]" "[9]"] apply_replay[OF ex1_apply, of "[5]" "[9]"] by simp

section \<open>A request takes effect at most once\<close>

lemma admit_New_record:
  assumes "admit_request e request hash = New" "bt_get (eng_clients e) (client_id request) = Some r"
  shows "cr_sequence r < sequence request"
  using assms by (auto simp: admit_request_def not_less_iff_gr_or_eq split: if_splits)

lemma evaluate_clients:
  assumes "engine_inv e" "evaluate_and_apply e index a = Inr (res, e')"
  shows "eng_clients e' = eng_clients e"
proof -
  have "catalog_ok (eng_catalog e)" using assms(1) by (simp add: engine_inv_def meta_inv_def)
  from this assms(2) show ?thesis
    by (cases rule: evaluate_and_apply_cases) (simp_all add: commit_effect_def count_aborted_def)
qed

text \<open>A client's record is only ever replaced by one with a larger sequence.\<close>

lemma clients_apply:
  assumes inv: "engine_inv e" and step: "apply_with_request_hash e index h rh a = Inr (outcome, e')"
    and r: "bt_get (eng_clients e) c = Some r"
  shows "\<exists>r'. bt_get (eng_clients e') c = Some r' \<and> (r' = r \<or> cr_sequence r < cr_sequence r')"
  using step
proof (cases rule: apply_cases)
  case (Fresh result d)
  have "eng_clients d = eng_clients e" by (rule evaluate_clients[OF inv Fresh(3)])
  moreover have "cr_sequence r < sequence (att_request a)" if "c = client_id (att_request a)"
    using admit_New_record[OF Fresh(2)] r that by simp
  ultimately show ?thesis using r by (simp add: Fresh(5) advance_to_def)
qed (use r in \<open>simp_all add: advance_to_def\<close>)

lemma clients_step:
  assumes inv: "engine_inv e" and step: "engine_step e e'" and r: "bt_get (eng_clients e) c = Some r"
  shows "\<exists>r'. bt_get (eng_clients e') c = Some r' \<and> (r' = r \<or> cr_sequence r < cr_sequence r')"
  using step
proof cases
  case (Apply index apply_hash request_hash a outcome)
  then show ?thesis using clients_apply[OF inv _ r] by blast
next
  case (Vacuum retain_from report)
  then show ?thesis using r vacuum_effect(8)[OF Vacuum] by simp
qed (use r in \<open>auto simp: begin_at_def apply_noop_def result_simps split: if_splits\<close>)

lemma clients_steps:
  assumes "engine_steps e e'" "engine_inv e" "bt_get (eng_clients e) c = Some r"
  shows "\<exists>r'. bt_get (eng_clients e') c = Some r' \<and> (r' = r \<or> cr_sequence r < cr_sequence r')"
  using assms
proof (induction rule: rtranclp_induct)
  case (step y z)
  then obtain r1 where r1: "bt_get (eng_clients y) c = Some r1" "r1 = r \<or> cr_sequence r < cr_sequence r1" by blast
  from clients_step[OF steps_inv[OF step(1,4)] step(2) r1(1)]
  obtain r2 where "bt_get (eng_clients z) c = Some r2" "r2 = r1 \<or> cr_sequence r1 < cr_sequence r2" by blast
  with r1(2) show ?case by (auto intro: less_trans)
qed simp

lemma applied_record:
  assumes inv: "engine_inv e" and fresh: "index \<noteq> last_applied e"
    and step: "apply_with_request_hash e index h rh a = Inr (Applied result, e')"
  shows "admit_request e (att_request a) rh = New"
    "bt_get (eng_clients e') (client_id (att_request a))
      = Some \<lparr>cr_sequence = sequence (att_request a), cr_request_hash = rh, cr_result = result\<rparr>"
  using step by (cases rule: apply_cases; use fresh in \<open>simp add: advance_to_def\<close>)+

text \<open>
  C14: at most once.  Two attempts of the same client that are both really applied, in any two
  states of a run, have strictly increasing sequence numbers: a request that has been applied
  is never applied again, even when it is retried at a later index.
\<close>

theorem applied_sequences_increase:
  assumes inv: "engine_inv e"
    and first: "apply_with_request_hash e i h rh a = Inr (Applied res, e1)" "i \<noteq> last_applied e"
    and steps: "engine_steps e1 e2"
    and second: "apply_with_request_hash e2 j h' rh' b = Inr (Applied res', e3)" "j \<noteq> last_applied e2"
    and client: "client_id (att_request b) = client_id (att_request a)"
  shows "sequence (att_request a) < sequence (att_request b)"
proof -
  have inv1: "engine_inv e1" by (rule apply_inv[OF inv first(1)])
  have inv2: "engine_inv e2" by (rule steps_inv[OF steps inv1])
  obtain r where r: "bt_get (eng_clients e2) (client_id (att_request a)) = Some r"
    "sequence (att_request a) \<le> cr_sequence r"
    using clients_steps[OF steps inv1 applied_record(2)[OF inv first(2,1)]]
    by (metis client_record.select_convs(1) order_less_imp_le order_refl)
  have "cr_sequence r < sequence (att_request b)"
    using admit_New_record[OF applied_record(1)[OF inv2 second(2,1)]] r(1) client by simp
  with r(2) show ?thesis by (rule le_less_trans)
qed

theorem applied_sequences_increase_witness:
  "sequence (att_request ex_create) < sequence (att_request ex_next)"
  by (rule applied_sequences_increase[OF engine_new_inv ex1_apply _ rtranclp.rtrancl_refl ex2'_apply])
    (simp_all add: ex_last ex_create_def ex_next_def ex_attempt_def)

text \<open>
  C15: a retry returns the first result.  As long as the client has not had a later request
  applied, the same request offered at the next index returns the result of the first
  application as a duplicate, and changes no row, no index and no catalog entry.
\<close>

theorem retry_returns_result:
  assumes inv: "engine_inv e"
    and first: "apply_with_request_hash e i h rh a = Inr (Applied res, e1)" "i \<noteq> last_applied e"
    and steps: "engine_steps e1 e2"
    and latest: "bt_get (eng_clients e2) (client_id (att_request a)) = Some r"
      "cr_sequence r = sequence (att_request a)"
    and retry: "att_request b = att_request a" "validate_canonical b = Inr ()"
      "checked_add (last_applied e2) 1 = Some j"
  shows "\<exists>e3. apply_with_request_hash e2 j h' rh b = Inr (Duplicate res, e3)
    \<and> view e3 = view e2 \<and> index_view e3 = index_view e2 \<and> eng_catalog e3 = eng_catalog e2"
proof -
  have inv1: "engine_inv e1" by (rule apply_inv[OF inv first(1)])
  have "r = \<lparr>cr_sequence = sequence (att_request a), cr_request_hash = rh, cr_result = res\<rparr>"
    using clients_steps[OF steps inv1 applied_record(2)[OF inv first(2,1)]] latest by auto
  then have "admit_request e2 (att_request b) rh = DuplicateOf res"
    using latest by (simp add: admit_request_def retry(1))
  moreover have "j \<noteq> last_applied e2" using checked_add_one_less(1)[OF retry(3)] by auto
  ultimately show ?thesis using retry(2,3) by (simp add: apply_with_request_hash_def)
qed

theorem retry_returns_result_witness:
  "\<exists>e3. apply_with_request_hash ex1 2 [4] [0] ex_create = Inr (Duplicate (Committed 1 1 1), e3)
    \<and> view e3 = view ex1 \<and> index_view e3 = index_view ex1 \<and> eng_catalog e3 = eng_catalog ex1"
proof -
  have ok: "validate_canonical ex_create = Inr ()" "checked_add 1 1 = Some 2" by code_simp+
  have r: "bt_get (eng_clients ex1) (client_id (att_request ex_create)) =
      Some \<lparr>cr_sequence = sequence (att_request ex_create), cr_request_hash = [0], cr_result = Committed 1 1 1\<rparr>"
    by (rule applied_record(2)[OF engine_new_inv _ ex1_apply]) simp
  show ?thesis
    by (rule retry_returns_result[OF engine_new_inv ex1_apply _ rtranclp.rtrancl_refl r])
      (simp_all add: ex_last ok)
qed

section \<open>The effect of an outcome\<close>

definition attempt_row :: "txn_attempt \<Rightarrow> logical_key \<Rightarrow> row option option" where
  "attempt_row a k = map_option (\<lambda>w. mutation_row (tw_mutation w))
     (find (\<lambda>w. write_logical_key w = Inr k) (att_writes a))"

lemma written_attempt_row:
  assumes "write_keys (att_writes a) ks"
  shows "written (att_writes a) ks = attempt_row a"
proof -
  have "map_of (zip ks (map (\<lambda>w. mutation_row (tw_mutation w)) ws)) k =
    map_option (\<lambda>w. mutation_row (tw_mutation w)) (find (\<lambda>w. write_logical_key w = Inr k) ws)"
    if "write_keys ws ks" for ws k
    using that unfolding write_keys_def by (induction rule: list_all2_induct) auto
  then show ?thesis using assms by (auto simp: written_def attempt_row_def fun_eq_iff)
qed

fun is_commit :: "apply_outcome \<Rightarrow> bool" where
  "is_commit (Applied (Committed _ _ _)) = True"
| "is_commit _ = False"

text \<open>
  C16: atomicity.  After an attempt is applied at a new index, the rows visible at that index
  are those visible before, overlaid with all rows of the attempt when the outcome is a commit,
  and with none of them when it is an abort, a duplicate or a rejection.
\<close>

theorem apply_atomic:
  assumes inv: "engine_inv e" and fresh: "index \<noteq> last_applied e"
    and step: "apply_with_request_hash e index h rh a = Inr (outcome, e')"
  shows "view e' (last_applied e') k =
    (case (if is_commit outcome then attempt_row a k else None) of
       None \<Rightarrow> view e (last_applied e) k | Some new \<Rightarrow> new)"
proof -
  have stores: "stores_inv e" using inv by (simp add: engine_inv_def)
  show ?thesis
  proof (cases "is_commit outcome")
    case True
    then obtain n m s where outcome: "outcome = Applied (Committed n m s)"
      by (cases outcome rule: is_commit.cases) auto
    obtain ks d where d: "checked_add (last_applied e) 1 = Some index"
      "write_keys (att_writes a) ks" "commit_effect e index (written (att_writes a) ks) d"
      "view e' = view d" "last_applied e' = index"
      by (rule applied_committed_cases[OF inv fresh step[unfolded outcome]]) (auto simp: attempt_valid_def)
    have "last_applied e \<le> index" using checked_add_one_less(1)[OF d(1)] by simp
    with stores show ?thesis
      using view_commit_new[OF d(3), of k index]
      by (simp add: True d(4,5) written_attempt_row[OF d(2)] stores_upto_def)
  next
    case False
    have cat: "catalog_ok (eng_catalog e)" using inv by (simp add: engine_inv_def meta_inv_def)
    have "checked_add (last_applied e) 1 = Some index \<and> last_applied e' = index \<and> view e' = view e"
      using step
    proof (cases rule: apply_cases)
      case (Fresh result d)
      from cat Fresh(3) show ?thesis
        by (cases rule: evaluate_and_apply_cases)
          (use Fresh False in \<open>simp_all add: advance_to_def count_aborted_def\<close>)
    qed (use fresh in \<open>simp_all add: advance_to_def\<close>)
    moreover from this have "last_applied e \<le> index" using checked_add_one_less(1) by fastforce
    ultimately show ?thesis using False view_future[OF stores, of index k] by simp
  qed
qed

theorem apply_atomic_witness:
  "view ex2 2 (LogicalKey 1 (encode_ordered (Text ''k'') [])) = Some \<lparr>row_values = [Text ''k'', Text ''90'']\<rparr>
   \<and> view ex3 3 (LogicalKey 1 (encode_ordered (Text ''k'') []))
     = view ex2 2 (LogicalKey 1 (encode_ordered (Text ''k'') []))"
proof -
  have "attempt_row ex_first (LogicalKey 1 (encode_ordered (Text ''k'') []))
    = Some (Some \<lparr>row_values = [Text ''k'', Text ''90'']\<rparr>)" by code_simp
  then show ?thesis
    using apply_atomic[OF ex_inv(1) _ ex2_apply, of "LogicalKey 1 (encode_ordered (Text ''k'') [])"]
      apply_atomic[OF ex_inv(2) _ ex3_apply, of "LogicalKey 1 (encode_ordered (Text ''k'') [])"]
    by (simp add: ex_last)
qed

section \<open>Refinement of a multi-version snapshot store\<close>

text \<open>
  The specification keeps one state of the database for every index from the floor to the last
  applied one, and for every key the last index that wrote it, as far as it is above the floor.
  Its steps are labelled with what the outside observes: the snapshot and the writes of an attempt
  and whether it committed, lost against a later writer of one of its keys, or came too late for
  its snapshot.
\<close>

record store_spec =
  sp_floor :: u64
  sp_last :: u64
  sp_at :: "u64 \<Rightarrow> (logical_key \<Rightarrow> row option) option"
  sp_writer :: "logical_key \<Rightarrow> u64"

datatype store_event =
    Keeps
  | Skips
  | Commits u64 "logical_key \<Rightarrow> row option option"
  | Conflicts u64 "logical_key \<Rightarrow> row option option" logical_key u64
  | Expires u64
  | Forgets u64

definition spec_append :: "u64 \<Rightarrow> (logical_key \<Rightarrow> row option) \<Rightarrow> store_spec \<Rightarrow> store_spec" where
  "spec_append n db s = s\<lparr>sp_last := n, sp_at := (sp_at s)(n \<mapsto> db)\<rparr>"

inductive spec_step :: "store_spec \<Rightarrow> store_event \<Rightarrow> store_spec \<Rightarrow> bool" where
  Keep: "spec_step s Keeps s"
| Skip: "checked_add (sp_last s) 1 = Some n \<Longrightarrow> sp_at s (sp_last s) = Some db \<Longrightarrow>
    spec_step s Skips (spec_append n db s)"
| Commit: "checked_add (sp_last s) 1 = Some n \<Longrightarrow> sp_at s (sp_last s) = Some db \<Longrightarrow>
    sp_floor s \<le> read_ts \<Longrightarrow> read_ts \<le> sp_last s \<Longrightarrow>
    (\<And>k. writes k \<noteq> None \<Longrightarrow> sp_writer s k \<le> read_ts) \<Longrightarrow>
    spec_step s (Commits read_ts writes)
      (spec_append n (\<lambda>k. case writes k of None \<Rightarrow> db k | Some new \<Rightarrow> new) s
         \<lparr>sp_writer := (\<lambda>k. if writes k = None then sp_writer s k else n)\<rparr>)"
| Conflict: "checked_add (sp_last s) 1 = Some n \<Longrightarrow> sp_at s (sp_last s) = Some db \<Longrightarrow>
    writes k \<noteq> None \<Longrightarrow> sp_writer s k = writer \<Longrightarrow> read_ts < writer \<Longrightarrow>
    spec_step s (Conflicts read_ts writes k writer) (spec_append n db s)"
| Expire: "checked_add (sp_last s) 1 = Some n \<Longrightarrow> sp_at s (sp_last s) = Some db \<Longrightarrow> read_ts < sp_floor s \<Longrightarrow>
    spec_step s (Expires read_ts) (spec_append n db s)"
| Forget: "f \<le> sp_last s \<Longrightarrow> g = max f (sp_floor s) \<Longrightarrow>
    spec_step s (Forgets f) (s\<lparr>sp_floor := g, sp_at := (\<lambda>ts. if g \<le> ts then sp_at s ts else None),
      sp_writer := (\<lambda>k. max g (sp_writer s k))\<rparr>)"

text \<open>What the operations of the engine show of themselves.\<close>

fun apply_event :: "txn_attempt \<Rightarrow> apply_outcome \<Rightarrow> store_event" where
  "apply_event a (Applied (Committed _ _ _)) = Commits (att_read_ts a) (attempt_row a)"
| "apply_event a (Applied (Aborted _ (WriteConflict tid pk writer))) =
     Conflicts (att_read_ts a) (attempt_row a) (LogicalKey tid (encode_ordered pk [])) writer"
| "apply_event a (Applied (Aborted _ (SnapshotVacuumed _ _))) = Expires (att_read_ts a)"
| "apply_event a _ = Skips"

inductive engine_event :: "engine \<Rightarrow> store_event \<Rightarrow> engine \<Rightarrow> bool" where
  Begin: "begin_at e read_ts epoch = Inr (t, e') \<Longrightarrow> engine_event e Keeps e'"
| Replay: "apply_with_request_hash e (last_applied e) apply_hash request_hash a = Inr (outcome, e') \<Longrightarrow>
    engine_event e Keeps e'"
| Apply: "apply_with_request_hash e index apply_hash request_hash a = Inr (outcome, e') \<Longrightarrow>
    index \<noteq> last_applied e \<Longrightarrow> engine_event e (apply_event a outcome) e'"
| Replay_noop: "apply_noop e (last_applied e) hash = Inr (outcome, e') \<Longrightarrow> engine_event e Keeps e'"
| Apply_noop: "apply_noop e index hash = Inr (outcome, e') \<Longrightarrow> index \<noteq> last_applied e \<Longrightarrow> engine_event e Skips e'"
| Vacuum: "vacuum_offline e retain_from = Inr (report, e') \<Longrightarrow> engine_event e (Forgets retain_from) e'"

lemma engine_event_step: "engine_step e e' \<longleftrightarrow> (\<exists>ev. engine_event e ev e')"
proof
  assume "engine_step e e'"
  then show "\<exists>ev. engine_event e ev e'"
  proof cases
    case (Apply index apply_hash request_hash a outcome)
    then show ?thesis by (cases "index = last_applied e") (auto intro: engine_event.Replay engine_event.Apply)
  next
    case (Apply_noop index hash outcome)
    then show ?thesis by (cases "index = last_applied e") (auto intro: engine_event.Replay_noop engine_event.Apply_noop)
  qed (auto intro: engine_event.Begin engine_event.Vacuum)
qed (auto elim!: engine_event.cases intro: engine_step.intros)

definition last_writer :: "engine \<Rightarrow> logical_key \<Rightarrow> u64" where
  "last_writer e k = (case newest_commit e k of None \<Rightarrow> retained_floor e | Some c \<Rightarrow> max c (retained_floor e))"

definition abs_store :: "engine \<Rightarrow> store_spec" where
  "abs_store e = \<lparr>sp_floor = retained_floor e, sp_last = last_applied e,
     sp_at = (\<lambda>ts. if retained_floor e \<le> ts \<and> ts \<le> last_applied e then Some (view e ts) else None),
     sp_writer = last_writer e\<rparr>"

lemma abs_store_simps [simp]:
  "sp_floor (abs_store e) = retained_floor e" "sp_last (abs_store e) = last_applied e"
  "sp_writer (abs_store e) = last_writer e"
  by (simp_all add: abs_store_def)

lemma abs_store_at_last: "engine_inv e \<Longrightarrow> sp_at (abs_store e) (last_applied e) = Some (view e (last_applied e))"
  by (simp add: abs_store_def engine_inv_def meta_inv_def)

lemma last_writer_le:
  assumes "retained_floor e \<le> ts"
  shows "last_writer e k \<le> ts \<longleftrightarrow> unconflicted e ts k"
  using assms by (auto simp: last_writer_def unconflicted_def split: option.split)

lemma abs_store_extend:
  assumes "engine_inv e" "checked_add (last_applied e) 1 = Some index" "last_applied e' = index"
    "retained_floor e' = retained_floor e" "\<And>ts. ts \<le> last_applied e \<Longrightarrow> view e' ts = view e ts"
  shows "abs_store e' = spec_append index (view e' index) (abs_store e)\<lparr>sp_writer := last_writer e'\<rparr>"
proof -
  note idx = checked_add_one_less[OF assms(2)]
  have "retained_floor e \<le> last_applied e" using assms(1) by (simp add: engine_inv_def meta_inv_def)
  moreover have "last_applied e \<le> index" using idx(1) by simp
  ultimately have "retained_floor e \<le> index" by (rule order_trans)
  moreover have "ts \<le> index \<longleftrightarrow> ts = index \<or> ts \<le> last_applied e" for ts
    using idx(2)[of ts] by (auto simp: le_less)
  ultimately show ?thesis using assms(3-5) by (auto simp: abs_store_def spec_append_def fun_eq_iff)
qed

text \<open>An index at which no row changes.\<close>

lemma abs_store_skip:
  assumes inv: "engine_inv e" and "checked_add (last_applied e) 1 = Some index" "last_applied e' = index"
    "retained_floor e' = retained_floor e" "eng_primary e' = eng_primary e" "view e' = view e"
  shows "abs_store e' = spec_append index (view e (last_applied e)) (abs_store e)"
proof -
  have "last_applied e \<le> index" using checked_add_one_less(1)[OF assms(2)] by simp
  then have "view e index = view e (last_applied e)"
    using inv view_future[of e "last_applied e" index] by (simp add: engine_inv_def fun_eq_iff)
  moreover have "last_writer e' = last_writer e"
    by (simp add: last_writer_def newest_commit_def assms(4,5) fun_eq_iff split: option.split)
  ultimately show ?thesis
    using abs_store_extend[OF inv assms(2-4)] assms(6) by (simp add: spec_append_def)
qed

lemma validate_writes_conflict:
  assumes "validate_writes e c ts ws = Inr (Some (WriteConflict tid pk writer))"
  shows "\<exists>w k. w \<in> set ws \<and> write_logical_key w = Inr k \<and> k = LogicalKey tid (encode_ordered pk [])
    \<and> newest_commit e k = Some writer \<and> ts < writer"
  using assms
proof (induction ws)
  case (Cons w ws)
  show ?case
  proof (cases "validate_write e c ts w = Inr None")
    case True
    with Cons show ?thesis by auto
  next
    case False
    with Cons.prems have "validate_write e c ts w = Inr (Some (WriteConflict tid pk writer))"
      by (auto simp: rbind_eq_Inr split: option.splits)
    then have "validate_conflict e ts w = Some (WriteConflict tid pk writer)"
      by (auto simp: validate_write_def validate_put_def rbind_eq_Inr
          split: option.splits if_splits mutation.splits sum.splits)
    then show ?thesis
      by (auto simp: validate_conflict_def write_logical_key_def logical_key_new_ok
          split: sum.splits option.splits if_splits)
  qed
qed simp

lemma try_map_Inl: "try_map f xs = Inl err \<Longrightarrow> \<exists>x \<in> set xs. f x = Inl err"
  by (induction xs) (auto simp: rbind_eq_Inl)

lemma abort_reason:
  assumes "evaluate_and_apply e index a = Inr (Aborted n reason, e')" and "\<And>err. reason \<noteq> Validation err"
  shows "validate_attempt_for_apply e a = Inr (Inl reason)"
proof -
  obtain v where v: "validate_attempt_for_apply e a = Inr v"
    using assms(1) by (auto simp: evaluate_and_apply_def rbind_eq_Inr)
  show ?thesis
  proof (cases v)
    case (Inr x)
    with v assms show ?thesis
      by (cases x; cases "try_map (before_row e) (att_writes a)") (auto simp: evaluate_and_apply_def rbind_eq_Inr)
  qed (use v assms in \<open>auto simp: evaluate_and_apply_def\<close>)
qed

lemma created_indexes_Inl: "created_indexes c ids = Inl reason \<Longrightarrow> \<exists>err. reason = Validation err"
  by (auto simp: created_indexes_def ok_or_def dest!: try_map_Inl split: option.splits)

lemma conflict_reason:
  assumes "evaluate_and_apply e index a = Inr (Aborted n (WriteConflict tid pk writer), e')"
  shows "retained_floor e \<le> att_read_ts a \<and> att_read_ts a < writer
    \<and> newest_commit e (LogicalKey tid (encode_ordered pk [])) = Some writer
    \<and> attempt_row a (LogicalKey tid (encode_ordered pk [])) \<noteq> None"
proof -
  have v: "validate_attempt_for_apply e a = Inr (Inl (WriteConflict tid pk writer))"
    using assms by (rule abort_reason) simp
  then have floor: "retained_floor e \<le> att_read_ts a"
    by (auto simp: validate_attempt_for_apply_def not_less split: if_splits)
  from v obtain c where ws: "validate_writes e c (att_read_ts a) (att_writes a) = Inr (Some (WriteConflict tid pk writer))"
    by (auto simp: validate_attempt_for_apply_def rbind_eq_Inr
        split: if_splits sum.splits prod.splits option.splits dest!: created_indexes_Inl)
  from validate_writes_conflict[OF ws] obtain w where "w \<in> set (att_writes a)"
    "write_logical_key w = Inr (LogicalKey tid (encode_ordered pk []))"
    "newest_commit e (LogicalKey tid (encode_ordered pk [])) = Some writer" "att_read_ts a < writer" by auto
  then show ?thesis using floor by (auto simp: attempt_row_def find_None_iff)
qed

lemma validate_writes_not_vacuumed: "validate_writes e c ts ws \<noteq> Inr (Some (SnapshotVacuumed x f))"
proof (induction ws)
  case (Cons w ws)
  have "validate_conflict e ts w \<noteq> Some (SnapshotVacuumed x f)"
    by (auto simp: validate_conflict_def split: sum.splits option.splits)
  then have "validate_write e c ts w \<noteq> Inr (Some (SnapshotVacuumed x f))"
    by (auto simp: validate_write_def validate_put_def rbind_eq_Inr
        split: option.splits if_splits mutation.splits sum.splits)
  with Cons show ?case by (auto simp: rbind_eq_Inr split: option.splits)
qed simp

lemma expiry_reason:
  assumes "evaluate_and_apply e index a = Inr (Aborted n (SnapshotVacuumed ts f), e')"
  shows "att_read_ts a < retained_floor e"
proof -
  have "validate_attempt_for_apply e a = Inr (Inl (SnapshotVacuumed ts f))"
    using assms by (rule abort_reason) simp
  then show ?thesis
    by (auto simp: validate_attempt_for_apply_def rbind_eq_Inr validate_writes_not_vacuumed
        split: if_splits sum.splits prod.splits option.splits dest!: created_indexes_Inl)
qed

lemma apply_refines:
  assumes inv: "engine_inv e" and step: "apply_with_request_hash e index h rh a = Inr (outcome, e')"
    and fresh: "index \<noteq> last_applied e"
  shows "spec_step (abs_store e) (apply_event a outcome) (abs_store e')"
  using step
proof (cases rule: apply_cases)
  case (Fresh result d)
  have idx: "checked_add (sp_last (abs_store e)) 1 = Some index" using Fresh(1) by simp
  have at: "sp_at (abs_store e) (sp_last (abs_store e)) = Some (view e (last_applied e))"
    using abs_store_at_last[OF inv] by simp
  have "catalog_ok (eng_catalog e)" using inv by (simp add: engine_inv_def meta_inv_def)
  from this Fresh(3) show ?thesis
  proof (cases rule: evaluate_and_apply_cases)
    case (Abort reason)
    have skip: "abs_store e' = spec_append index (view e (last_applied e)) (abs_store e)"
      using Fresh Abort by (intro abs_store_skip[OF inv]) (simp_all add: advance_to_def count_aborted_def)
    have outcome: "outcome = Applied (Aborted index reason)" using Fresh(4) Abort by simp
    note failed = Fresh(3)[unfolded Abort]
    show ?thesis
    proof (cases reason)
      case (WriteConflict tid pk writer)
      have "last_writer e (LogicalKey tid (encode_ordered pk [])) = writer" "att_read_ts a < writer"
        "attempt_row a (LogicalKey tid (encode_ordered pk [])) \<noteq> None"
        using conflict_reason[OF failed[unfolded WriteConflict]] by (auto simp: last_writer_def max_def)
      then show ?thesis
        unfolding outcome WriteConflict skip apply_event.simps by (intro spec_step.Conflict[OF idx at]) simp_all
    next
      case (SnapshotVacuumed ts f)
      then show ?thesis
        unfolding outcome SnapshotVacuumed skip apply_event.simps
        using expiry_reason[OF failed[unfolded SnapshotVacuumed]] by (intro spec_step.Expire[OF idx at]) simp
    qed (simp_all add: outcome skip spec_step.Skip[OF idx at])
  next
    case (Commit ks)
    let ?w = "attempt_row a"
    have valid: "retained_floor e \<le> att_read_ts a" "att_read_ts a \<le> last_applied e" "write_keys (att_writes a) ks"
      "list_all2 (\<lambda>w k. write_ok (eng_catalog d) w k \<and> unconflicted e (att_read_ts a) k) (att_writes a) ks"
      using Commit(1) by (simp_all add: attempt_valid_def)
    have effect: "commit_effect e index ?w d" using Commit(3) by (simp add: written_attempt_row[OF valid(3)])
    have e': "view e' = view d" "eng_primary e' = eng_primary d" "last_applied e' = index"
      "retained_floor e' = retained_floor e"
      using Fresh(5) effect by (simp_all add: advance_to_def commit_effect_def)
    have le: "last_applied e \<le> index" using checked_add_one_less(1)[OF Fresh(1)] by simp
    have new: "view e' index = (\<lambda>k. case ?w k of None \<Rightarrow> view e (last_applied e) k | Some new \<Rightarrow> new)"
      using view_commit_new[OF effect _ le] inv by (simp add: e' engine_inv_def stores_upto_def fun_eq_iff)
    have old: "view e' ts = view e ts" if "ts \<le> last_applied e" for ts
      using view_commit_old[OF effect] that checked_add_one_less(2)[OF Fresh(1)] by (simp add: e' fun_eq_iff)
    have floor: "retained_floor e \<le> index" using valid(1,2) le by (meson order_trans)
    have writer: "last_writer e' = (\<lambda>k. if ?w k = None then last_writer e k else index)"
    proof
      fix k
      have "newest_commit e' k = newest_commit d k" by (simp add: newest_commit_def e'(2))
      then show "last_writer e' k = (if ?w k = None then last_writer e k else index)"
        using effect floor by (auto simp: last_writer_def newest_commit_prim commit_effect_def e'(4) max_def split: list.split)
    qed
    have guard: "last_writer e k \<le> att_read_ts a" if "?w k \<noteq> None" for k
    proof -
      from that obtain row where "written (att_writes a) ks k = Some row" by (auto simp: written_attempt_row[OF valid(3)])
      then have "unconflicted e (att_read_ts a) k" by (rule written_Some[OF _ valid(4)]) blast
      then show ?thesis by (simp add: last_writer_le[OF valid(1)])
    qed
    have extend: "abs_store e' = spec_append index (view e' index) (abs_store e)\<lparr>sp_writer := last_writer e'\<rparr>"
      by (rule abs_store_extend[OF inv Fresh(1) e'(3,4)]) (rule old)
    have "spec_step (abs_store e) (Commits (att_read_ts a) ?w) (abs_store e')"
      unfolding extend new writer
      by (rule spec_step.Commit[OF idx at, unfolded abs_store_simps]) (use valid(1,2) guard in auto)
    then show ?thesis using Fresh(4) Commit(2) by auto
  qed
next
  case (Repeat result)
  then have "abs_store e' = spec_append index (view e (last_applied e)) (abs_store e)"
    by (intro abs_store_skip[OF inv]) (simp_all add: advance_to_def)
  with Repeat abs_store_at_last[OF inv] show ?thesis by (auto intro!: spec_step.Skip)
next
  case (Reject rejection)
  then have "abs_store e' = spec_append index (view e (last_applied e)) (abs_store e)"
    by (intro abs_store_skip[OF inv]) (simp_all add: advance_to_def)
  with Reject abs_store_at_last[OF inv] show ?thesis by (auto intro!: spec_step.Skip)
qed (use fresh in simp)

lemma vacuum_refines:
  assumes inv: "engine_inv e" and step: "vacuum_offline e retain_from = Inr (report, e')"
  shows "spec_step (abs_store e) (Forgets retain_from) (abs_store e')"
proof -
  note eff = vacuum_effect(1,2,3,9)[OF step]
  have chain: "rows.chain_ok (prim e k) (last_applied e)" for k using inv by (simp add: engine_inv_def stores_upto_def)
  have "view e' ts = view e ts" if "retained_floor e' \<le> ts" for ts
    using view_vacuum(1)[OF step that] by (simp add: fun_eq_iff)
  moreover have "last_writer e' k = max (retained_floor e') (last_writer e k)" for k
  proof -
    have "newest_commit e' k = (case vacuum_rows (prim e k) (retained_floor e') of [] \<Rightarrow> None | v # _ \<Rightarrow> Some (rv_commit_index v))"
      using eff(2,3) by (simp add: newest_commit_prim)
    moreover have "retained_floor e \<le> retained_floor e'" by (simp add: eff(2))
    ultimately show ?thesis
      by (cases "prim e k")
        (auto simp: last_writer_def newest_commit_prim rows.vacuum_Nil rows.vacuum_Cons max_def not_less)
  qed
  ultimately have "abs_store e' = (abs_store e)\<lparr>sp_floor := retained_floor e',
      sp_at := (\<lambda>ts. if retained_floor e' \<le> ts then sp_at (abs_store e) ts else None),
      sp_writer := (\<lambda>k. max (retained_floor e') (sp_writer (abs_store e) k))\<rparr>"
    using eff(2,4) by (auto simp: abs_store_def fun_eq_iff)
  then show ?thesis using spec_step.Forget[of retain_from "abs_store e"] eff(1,2) by simp
qed

text \<open>
  C17: refinement of a snapshot-isolated store.  Every operation of the engine is a step of the
  specification with the same label.  An attempt commits only if its snapshot is retained and none
  of the keys it writes has a writer after that snapshot, and then the new state is the last one
  with exactly its writes; it is reported as a conflict only for a key it writes, and only with the
  index of a later writer of that key; it is reported as too old only below the floor.  Nothing else
  but vacuum changes the retained states, and vacuum only forgets those below the floor.
\<close>

theorem engine_refines_store:
  assumes inv: "engine_inv e" and step: "engine_event e event e'"
  shows "spec_step (abs_store e) event (abs_store e')"
  using step
proof cases
  case (Begin read_ts epoch t)
  then have "eng_primary e' = eng_primary e" "last_applied e' = last_applied e" "retained_floor e' = retained_floor e"
    by (auto simp: begin_at_def result_simps split: if_splits)
  then have "abs_store e' = abs_store e"
    by (simp add: abs_store_def last_writer_def newest_commit_def view_def visible_row_def fun_eq_iff split: option.split)
  then show ?thesis using Begin by (simp add: spec_step.Keep)
next
  case (Replay apply_hash request_hash a outcome)
  then have "e' = e" by (auto simp: apply_with_request_hash_def result_simps split: if_splits)
  then show ?thesis using Replay by (simp add: spec_step.Keep)
next
  case (Apply index apply_hash request_hash a outcome)
  then show ?thesis using apply_refines[OF inv] by simp
next
  case (Replay_noop hash outcome)
  then have "e' = e" by (auto simp: apply_noop_def split: if_splits)
  then show ?thesis using Replay_noop by (simp add: spec_step.Keep)
next
  case (Apply_noop index hash outcome)
  then have idx: "checked_add (last_applied e) 1 = Some index"
    and e': "last_applied e' = index" "retained_floor e' = retained_floor e" "eng_primary e' = eng_primary e" "view e' = view e"
    by (auto simp: apply_noop_def result_simps view_def split: if_splits)
  then show ?thesis using Apply_noop abs_store_skip[OF inv idx e'] abs_store_at_last[OF inv]
    by (auto intro!: spec_step.Skip)
next
  case (Vacuum retain_from report)
  then show ?thesis using vacuum_refines[OF inv] by simp
qed

theorem engine_refines_store_witness:
  "spec_step (abs_store ex1) (Commits 1 (attempt_row ex_first)) (abs_store ex2)"
proof -
  have "att_read_ts ex_first = 1" by code_simp
  moreover have "engine_event ex1 (apply_event ex_first (Applied (Committed 2 1 1))) ex2"
    by (rule engine_event.Apply[OF ex2_apply]) (simp add: ex_last)
  ultimately show ?thesis using engine_refines_store[OF ex_inv(1)] by simp
qed

end
