(* ===== verification/Engine_Ops.thy ===== *)
theory Engine_Ops
  imports Engine_Spec
begin

text \<open>
  The transaction operations of \<open>crates/aster-engine/src/engine.rs\<close>: staging tables and
  indexes, point reads and writes through the transaction overlay, table scans and
  secondary-index scans, at the current snapshot and at older ones.
\<close>

section \<open>Definitions\<close>

definition ensure_transaction_snapshot :: "engine \<Rightarrow> transaction \<Rightarrow> engine_error + unit" where
  "ensure_transaction_snapshot e t =
     (if txn_read_ts t < retained_floor e then Inl (SnapshotTooOld (txn_read_ts t) (retained_floor e))
      else if txn_read_ts t > last_applied e
      then Inl (Core (Invariant ''transaction reads a future snapshot''))
      else Inr ())"

definition table_for_transaction :: "engine \<Rightarrow> transaction \<Rightarrow> u64 \<Rightarrow> engine_error + table_meta" where
  "table_for_transaction e t table_id =
     ok_or (case staged_table t table_id of
              Some m \<Rightarrow> Some m | None \<Rightarrow> catalog_table (eng_catalog e) table_id)
       (UnknownTable table_id)"

definition validate_primary_key :: "engine \<Rightarrow> transaction \<Rightarrow> u64 \<Rightarrow> sql_value \<Rightarrow> engine_error + unit" where
  "validate_primary_key e t table_id primary_key =
     rbind (table_for_transaction e t table_id) (\<lambda>m.
       rbind (index_or_panic (columns (tm_schema m)) (tm_primary_key_column m)) (\<lambda>column.
         if is_null primary_key \<or> value_data_type primary_key \<noteq> Some (col_data_type column)
         then Inl (Core (TypeError ''primary key type''))
         else rbind (map_err Core (encode_value primary_key [])) (\<lambda>_. Inr ())))"

definition engine_validate_row :: "engine \<Rightarrow> transaction \<Rightarrow> u64 \<Rightarrow> row \<Rightarrow> engine_error + sql_value" where
  "engine_validate_row e t table_id r =
     rbind (ensure_transaction_snapshot e t) (\<lambda>_.
       rbind (table_for_transaction e t table_id) (\<lambda>m.
         rbind (map_err Core (validate_row (tm_schema m) r)) (\<lambda>_.
           rbind (index_or_panic (row_values r) (tm_primary_key_column m)) (\<lambda>primary_key.
             rbind (validate_primary_key e t table_id primary_key) (\<lambda>_. Inr primary_key)))))"

definition read_key :: "engine \<Rightarrow> transaction \<Rightarrow> logical_key \<Rightarrow> row option" where
  "read_key e t key =
     (case overlay t key of
        Some (Put r) \<Rightarrow> Some r
      | Some Delete \<Rightarrow> None
      | None \<Rightarrow> Option.bind (bt_get (eng_primary e) key) (\<lambda>vs. visible_row vs (txn_read_ts t)))"

text \<open>The loop that skips the identifiers already staged by the transaction.\<close>

function fresh_id :: "(u64 \<Rightarrow> bool) \<Rightarrow> engine_error \<Rightarrow> u64 \<Rightarrow> engine_error + u64" where
  "fresh_id taken err ident =
     (if taken ident then
        (case checked_add ident 1 of None \<Rightarrow> Inl err | Some following \<Rightarrow> fresh_id taken err following)
      else Inr ident)"
  by pat_completeness auto
termination
proof (relation "measure (\<lambda>(_, _, ident). 2 ^ 64 - unat ident)", simp)
  fix taken :: "u64 \<Rightarrow> bool" and err :: engine_error and ident following :: u64
  assume "checked_add ident 1 = Some following"
  then have "unat ident < unat following"
    by (simp add: checked_add_one_less(1) flip: word_less_nat_alt)
  moreover have "unat following < 2 ^ 64" by (rule unat_lt2p_u64)
  ultimately show "((taken, err, following), (taken, err, ident)) \<in> measure (\<lambda>(_, _, ident). 2 ^ 64 - unat ident)"
    by simp
qed

declare fresh_id.simps [simp del]

definition create_table :: "engine \<Rightarrow> transaction \<Rightarrow> string \<Rightarrow> schema \<Rightarrow> engine_error + u64 \<times> transaction" where
  "create_table e t name s =
     rbind (ensure_transaction_snapshot e t) (\<lambda>_.
       rbind (fresh_id (\<lambda>i. staged_table t i \<noteq> None) (Core (Invariant ''table id overflow''))
                (next_table_id (eng_catalog e))) (\<lambda>ident.
         rbind (table_meta_new ident name s) (\<lambda>m.
           if catalog_table_named (eng_catalog e) (tm_name m) \<noteq> None
              \<or> list_ex (\<lambda>mut. case mut of
                   CreateTable existing \<Rightarrow> eq_ignore_ascii_case (tm_name existing) (tm_name m)
                 | CreateIndex _ \<Rightarrow> False) (txn_catalog_mutations t)
           then Inl (Core (Constraint ''table already exists''))
           else Inr (ident, stage_catalog t (CreateTable m)))))"

definition create_index ::
  "engine \<Rightarrow> transaction \<Rightarrow> string \<Rightarrow> u64 \<Rightarrow> nat \<Rightarrow> engine_error + u64 \<times> transaction" where
  "create_index e t name table_id column =
     rbind (ensure_transaction_snapshot e t) (\<lambda>_.
       rbind (table_for_transaction e t table_id) (\<lambda>m.
         rbind (fresh_id (\<lambda>i. staged_index t i \<noteq> None) (Core (Invariant ''index id overflow''))
                  (next_index_id (eng_catalog e))) (\<lambda>ident.
           rbind (index_meta_new ident name m column) (\<lambda>i.
             if catalog_index_named (eng_catalog e) (im_name i) \<noteq> None
                \<or> list_ex (\<lambda>mut. case mut of
                     CreateTable _ \<Rightarrow> False
                   | CreateIndex existing \<Rightarrow> eq_ignore_ascii_case (im_name existing) (im_name i))
                   (txn_catalog_mutations t)
             then Inl (Core (Constraint ''index already exists''))
             else Inr (ident, stage_catalog t (CreateIndex i))))))"

definition engine_get :: "engine \<Rightarrow> transaction \<Rightarrow> u64 \<Rightarrow> sql_value \<Rightarrow> engine_error + row option" where
  "engine_get e t table_id primary_key =
     rbind (ensure_transaction_snapshot e t) (\<lambda>_.
       rbind (validate_primary_key e t table_id primary_key) (\<lambda>_.
         rbind (logical_key_new table_id primary_key) (\<lambda>key. Inr (read_key e t key))))"

definition engine_insert :: "engine \<Rightarrow> transaction \<Rightarrow> u64 \<Rightarrow> row \<Rightarrow> engine_error + transaction" where
  "engine_insert e t table_id r =
     rbind (engine_validate_row e t table_id r) (\<lambda>primary_key.
       rbind (engine_get e t table_id primary_key) (\<lambda>existing.
         if existing \<noteq> None then Inl (Core (Constraint ''duplicate primary key''))
         else stage_write t \<lparr>tw_table_id = table_id, tw_primary_key = primary_key, tw_mutation = Put r\<rparr>))"

definition engine_upsert :: "engine \<Rightarrow> transaction \<Rightarrow> u64 \<Rightarrow> row \<Rightarrow> engine_error + transaction" where
  "engine_upsert e t table_id r =
     rbind (engine_validate_row e t table_id r) (\<lambda>primary_key.
       stage_write t \<lparr>tw_table_id = table_id, tw_primary_key = primary_key, tw_mutation = Put r\<rparr>)"

definition engine_update ::
  "engine \<Rightarrow> transaction \<Rightarrow> u64 \<Rightarrow> sql_value \<Rightarrow> row \<Rightarrow> engine_error + bool \<times> transaction" where
  "engine_update e t table_id primary_key r =
     rbind (engine_get e t table_id primary_key) (\<lambda>existing.
       if existing = None then Inr (False, t)
       else rbind (engine_validate_row e t table_id r) (\<lambda>row_key.
         if row_key \<noteq> primary_key
         then Inl (Core (Constraint ''UPDATE cannot change the primary-key column''))
         else rbind (stage_write t
                \<lparr>tw_table_id = table_id, tw_primary_key = primary_key, tw_mutation = Put r\<rparr>)
              (\<lambda>t'. Inr (True, t'))))"

definition engine_delete ::
  "engine \<Rightarrow> transaction \<Rightarrow> u64 \<Rightarrow> sql_value \<Rightarrow> engine_error + bool \<times> transaction" where
  "engine_delete e t table_id primary_key =
     rbind (engine_get e t table_id primary_key) (\<lambda>existing.
       if existing = None then Inr (False, t)
       else rbind (stage_write t
              \<lparr>tw_table_id = table_id, tw_primary_key = primary_key, tw_mutation = Delete\<rparr>)
            (\<lambda>t'. Inr (True, t')))"

text \<open>A \<open>BTreeSet\<close> filled from a sequence, as the sequence it iterates over.\<close>

definition btree_set :: "'a :: linorder list \<Rightarrow> 'a list" where
  "btree_set xs = sort (remdups xs)"

definition txn_keys :: "transaction \<Rightarrow> u64 \<Rightarrow> logical_key list" where
  "txn_keys t table_id = filter (\<lambda>k. lk_table_id k = table_id) (bt_keys (txn_writes t))"

definition scan_table :: "engine \<Rightarrow> transaction \<Rightarrow> u64 \<Rightarrow> engine_error + row list" where
  "scan_table e t table_id =
     rbind (ensure_transaction_snapshot e t) (\<lambda>_.
       rbind (table_for_transaction e t table_id) (\<lambda>_.
         Inr (List.map_filter (read_key e t)
           (btree_set (filter (\<lambda>k. lk_table_id k = table_id) (bt_keys (eng_primary e))
              @ txn_keys t table_id)))))"

definition secondary_hits :: "engine \<Rightarrow> transaction \<Rightarrow> index_meta \<Rightarrow> u64 \<Rightarrow> bytes \<Rightarrow> logical_key list" where
  "secondary_hits e t i index_id encoded_value =
     map (\<lambda>(k, _). LogicalKey (im_table_id i) (sk_primary_key k))
       (filter (\<lambda>(k, vs). sk_index_id k = index_id \<and> sk_secondary_value k = encoded_value
            \<and> visible_secondary vs (txn_read_ts t)) (bt_entries (eng_secondary e)))"

definition scan_secondary :: "engine \<Rightarrow> transaction \<Rightarrow> u64 \<Rightarrow> sql_value \<Rightarrow> engine_error + row list" where
  "scan_secondary e t index_id v =
     rbind (ensure_transaction_snapshot e t) (\<lambda>_.
       rbind (ok_or (case catalog_index (eng_catalog e) index_id of
                       Some i \<Rightarrow> Some i | None \<Rightarrow> staged_index t index_id) (UnknownIndex index_id)) (\<lambda>i.
         if is_null v then Inr []
         else rbind (map_err Core (encode_value v [])) (\<lambda>_.
           Inr (filter (\<lambda>r. column_value (Some r) (im_column i) = Some v)
             (List.map_filter (read_key e t)
               (btree_set (secondary_hits e t i index_id (encode_ordered v [])
                  @ txn_keys t (im_table_id i))))))))"

section \<open>Identifiers\<close>

lemma fresh_id_Inr:
  "fresh_id taken err ident = Inr i \<Longrightarrow> \<not> taken i \<and> ident \<le> i \<and> (\<forall>j. ident \<le> j \<longrightarrow> j < i \<longrightarrow> taken j)"
proof (induction taken err ident rule: fresh_id.induct)
  case (1 taken err ident)
  show ?case
  proof (cases "taken ident")
    case True
    with "1.prems" obtain m where m: "checked_add ident 1 = Some m" "fresh_id taken err m = Inr i"
      by (subst (asm) fresh_id.simps) (auto split: option.splits)
    note IH = "1.IH"[OF True m]
    note lt = checked_add_one_less[OF m(1)]
    have "ident \<le> i" using lt(1) IH by (meson less_imp_le order_trans)
    moreover have "taken j" if "ident \<le> j" "j < i" for j
      using that IH True lt(2)[of j] by (metis not_le order_antisym)
    ultimately show ?thesis using IH by blast
  next
    case False
    with "1.prems" have "i = ident" by (subst (asm) fresh_id.simps) simp
    then show ?thesis using False by auto
  qed
qed

section \<open>Reads after staged writes\<close>

lemma ensure_transaction_snapshot_ok:
  "ensure_transaction_snapshot e t = Inr u \<longleftrightarrow> retained_floor e \<le> txn_read_ts t \<and> txn_read_ts t \<le> last_applied e"
  by (auto simp: ensure_transaction_snapshot_def not_less)

lemma stage_write_Inr:
  "stage_write t w = Inr t' \<longleftrightarrow>
     (\<exists>key. write_logical_key w = Inr key \<and> t' = t\<lparr>txn_writes := bt_insert key w (txn_writes t)\<rparr>)"
  by (auto simp: stage_write_def result_simps)

lemma staged_frame [simp]:
  fixes t :: transaction and ws :: "(logical_key, txn_write) btmap"
  defines "t' \<equiv> t\<lparr>txn_writes := ws\<rparr>"
  shows "ensure_transaction_snapshot e t' = ensure_transaction_snapshot e t"
    and "table_for_transaction e t' tid = table_for_transaction e t tid"
    and "validate_primary_key e t' tid pk = validate_primary_key e t tid pk"
    and "engine_validate_row e t' tid r = engine_validate_row e t tid r"
proof -
  show e: "ensure_transaction_snapshot e t' = ensure_transaction_snapshot e t"
    and tt: "table_for_transaction e t' tid = table_for_transaction e t tid" for tid
    by (simp_all add: t'_def ensure_transaction_snapshot_def table_for_transaction_def staged_table_def)
  show v: "validate_primary_key e t' tid pk = validate_primary_key e t tid pk" for pk
    by (simp add: validate_primary_key_def tt)
  show "engine_validate_row e t' tid r = engine_validate_row e t tid r"
    by (simp add: engine_validate_row_def e tt v)
qed

lemma read_key_staged:
  "read_key e (t\<lparr>txn_writes := bt_insert key w (txn_writes t)\<rparr>) k =
     (if k = key then mutation_row (tw_mutation w) else read_key e t k)"
  by (auto simp: read_key_def overlay_def split: option.split mutation.split)

lemma engine_get_Inr:
  "engine_get e t tid pk = Inr x \<longleftrightarrow>
     ensure_transaction_snapshot e t = Inr () \<and> validate_primary_key e t tid pk = Inr ()
     \<and> x = read_key e t (LogicalKey tid (encode_ordered pk []))"
proof -
  have "is_ok (encode_value pk [])" if "validate_primary_key e t tid pk = Inr ()"
    using that by (auto simp: validate_primary_key_def result_simps is_ok_iff split: if_splits)
  then show ?thesis by (auto simp: engine_get_def rbind_eq_Inr logical_key_new_ok)
qed

lemma engine_validate_row_Inr:
  assumes "engine_validate_row e t tid r = Inr pk"
  shows "engine_get e t tid pk = Inr (read_key e t (LogicalKey tid (encode_ordered pk [])))"
    "\<exists>m. table_for_transaction e t tid = Inr m \<and> validate_row (tm_schema m) r = Inr ()
      \<and> tm_primary_key_column m < length (row_values r) \<and> row_values r ! tm_primary_key_column m = pk"
  using assms by (auto simp: engine_validate_row_def rbind_eq_Inr engine_get_Inr index_or_panic_def
      map_err_eq_Inr split: if_splits)

text \<open>What a read returns after any staged write.\<close>

lemma engine_get_staged:
  assumes "stage_write t \<lparr>tw_table_id = tid, tw_primary_key = pk, tw_mutation = m\<rparr> = Inr t'"
    and ok: "engine_get e t tid pk = Inr x"
  shows "engine_get e t' tid' pk' =
    (if tid' = tid \<and> pk' = pk then Inr (mutation_row m) else engine_get e t tid' pk')"
proof -
  let ?key = "LogicalKey tid (encode_ordered pk [])" and ?key' = "LogicalKey tid' (encode_ordered pk' [])"
  have t': "t' = t\<lparr>txn_writes := bt_insert ?key \<lparr>tw_table_id = tid, tw_primary_key = pk, tw_mutation = m\<rparr> (txn_writes t)\<rparr>"
    using assms(1) by (auto simp: stage_write_Inr write_logical_key_def logical_key_new_ok)
  have frame: "ensure_transaction_snapshot e t' = ensure_transaction_snapshot e t"
    "validate_primary_key e t' tid' pk' = validate_primary_key e t tid' pk'" for tid' pk'
    unfolding t' by simp_all
  have read: "read_key e t' k = (if k = ?key then mutation_row m else read_key e t k)" for k
    unfolding t' by (simp add: read_key_staged)
  show ?thesis
  proof (cases "tid' = tid \<and> pk' = pk")
    case True
    then show ?thesis using ok by (simp add: engine_get_Inr frame read)
  next
    case False
    then have "?key' \<noteq> ?key" by (simp add: encode_ordered_inject del: encode_ordered.simps)
    then have "read_key e t' ?key' = read_key e t ?key'" by (simp only: read if_False)
    moreover have "k = ?key'" if "logical_key_new tid' pk' = Inr k" for k
      using that by (simp add: logical_key_new_ok)
    ultimately have "engine_get e t' tid' pk' = engine_get e t tid' pk'"
      by (cases "logical_key_new tid' pk'") (auto simp: engine_get_def frame)
    then show ?thesis using False by auto
  qed
qed

text \<open>
  C18: reads see the transaction's own insertions.  A successful insert requires that no row
  was visible under the key; afterwards a read of that key in the same transaction returns the
  inserted row, and every other read, whatever the table, returns what it returned before.
\<close>

theorem insert_then_get:
  assumes "engine_insert e t tid r = Inr t'"
  shows "\<exists>pk. engine_validate_row e t tid r = Inr pk \<and> engine_get e t tid pk = Inr None
    \<and> (\<forall>tid' pk'. engine_get e t' tid' pk' =
         (if tid' = tid \<and> pk' = pk then Inr (Some r) else engine_get e t tid' pk'))"
proof -
  obtain pk where pk: "engine_validate_row e t tid r = Inr pk" "engine_get e t tid pk = Inr None"
    "stage_write t \<lparr>tw_table_id = tid, tw_primary_key = pk, tw_mutation = Put r\<rparr> = Inr t'"
    using assms by (auto simp: engine_insert_def rbind_eq_Inr split: if_splits)
  from engine_get_staged[OF pk(3,2)] pk(1,2) show ?thesis by auto
qed

definition ex_txn :: transaction where "ex_txn = transaction_new 5 2 1"
definition ex_row :: row where "ex_row = \<lparr>row_values = [Text ''j'', Text ''90'']\<rparr>"
definition ex_txn' :: transaction where "ex_txn' = projr (engine_insert ex2 ex_txn 1 ex_row)"

lemma ex_insert: "engine_insert ex2 ex_txn 1 ex_row = Inr ex_txn'"
proof -
  have "isl (engine_insert ex2 ex_txn 1 ex_row) = False" by code_simp
  then show ?thesis by (simp add: ex_txn'_def)
qed

theorem insert_then_get_witness:
  "engine_get ex2 ex_txn' 1 (Text ''j'') = Inr (Some ex_row)
   \<and> engine_get ex2 ex_txn' 1 (Text ''k'') = engine_get ex2 ex_txn 1 (Text ''k'')"
proof -
  have "engine_validate_row ex2 ex_txn 1 ex_row = Inr (Text ''j'')" by code_simp
  with insert_then_get[OF ex_insert] show ?thesis by auto
qed

text \<open>
  C19: deletes and updates report what they did.  A delete returns true exactly when a row was
  visible under the key; afterwards no row is, and every other read is unchanged.
\<close>

theorem delete_then_get:
  assumes "engine_delete e t tid pk = Inr (found, t')"
  shows "(found \<longleftrightarrow> engine_get e t tid pk \<noteq> Inr None) \<and>
    engine_get e t' tid' pk' =
      (if tid' = tid \<and> pk' = pk then Inr None else engine_get e t tid' pk')"
proof (cases "engine_get e t tid pk")
  case (Inr x)
  show ?thesis
  proof (cases x)
    case None
    then show ?thesis using assms Inr by (auto simp: engine_delete_def)
  next
    case (Some r)
    then obtain "stage_write t \<lparr>tw_table_id = tid, tw_primary_key = pk, tw_mutation = Delete\<rparr> = Inr t'" found
      using assms Inr by (auto simp: engine_delete_def rbind_eq_Inr)
    then show ?thesis using engine_get_staged[OF _ Inr] Inr Some by simp
  qed
qed (use assms in \<open>simp add: engine_delete_def\<close>)

theorem delete_then_get_witness:
  "\<exists>t'. engine_delete ex2 ex_txn' 1 (Text ''j'') = Inr (True, t')
    \<and> engine_get ex2 t' 1 (Text ''j'') = Inr None \<and> engine_get ex2 t' 1 (Text ''k'') = engine_get ex2 ex_txn' 1 (Text ''k'')"
proof -
  have "map_sum (\<lambda>_. ()) fst (engine_delete ex2 ex_txn' 1 (Text ''j'')) = Inr True" by code_simp
  then obtain t' where t': "engine_delete ex2 ex_txn' 1 (Text ''j'') = Inr (True, t')"
    by (cases "engine_delete ex2 ex_txn' 1 (Text ''j'')") auto
  show ?thesis using delete_then_get[OF t', of 1 "Text ''j''"] delete_then_get[OF t', of 1 "Text ''k''"] t' by auto
qed

lemma upsert_then_get:
  assumes "engine_upsert e t tid r = Inr t'" "engine_validate_row e t tid r = Inr pk"
  shows "engine_get e t' tid' pk' =
    (if tid' = tid \<and> pk' = pk then Inr (Some r) else engine_get e t tid' pk')"
  using assms engine_get_staged[OF _ engine_validate_row_Inr(1)[OF assms(2)], of "Put r" t' tid' pk']
  by (simp add: engine_upsert_def)

lemma update_then_get:
  assumes "engine_update e t tid pk r = Inr (True, t')"
  shows "engine_get e t' tid' pk' =
    (if tid' = tid \<and> pk' = pk then Inr (Some r) else engine_get e t tid' pk')"
proof -
  obtain x where "engine_get e t tid pk = Inr x"
    "stage_write t \<lparr>tw_table_id = tid, tw_primary_key = pk, tw_mutation = Put r\<rparr> = Inr t'"
    using assms by (auto simp: engine_update_def rbind_eq_Inr split: if_splits)
  from engine_get_staged[OF this(2,1)] show ?thesis by simp
qed

section \<open>Scans\<close>

lemma set_btree_set [simp]: "set (btree_set xs) = set xs"
  by (simp add: btree_set_def)

lemma sorted_btree_set: "sorted_wrt (<) (btree_set xs)"
  by (simp add: btree_set_def strict_sorted_iff)

lemma btree_set_eqI: "set xs = set ys \<Longrightarrow> btree_set xs = btree_set ys"
  by (rule strict_sorted_equal) (simp_all add: sorted_btree_set)

lemma filter_btree_set: "filter P (btree_set xs) = btree_set (filter P xs)"
proof (rule strict_sorted_equal)
  show "sorted_wrt (<) (filter P (btree_set xs))" by (rule sorted_wrt_filter[OF sorted_btree_set])
qed (simp_all add: sorted_btree_set)

lemma map_filter_Nil [simp]: "List.map_filter f [] = []"
  by (simp add: List.map_filter_def)

lemma map_filter_Cons:
  "List.map_filter f (x # xs) = (case f x of None \<Rightarrow> List.map_filter f xs | Some y \<Rightarrow> y # List.map_filter f xs)"
  by (simp add: List.map_filter_def split: option.split)

lemma set_map_filter: "set (List.map_filter f xs) = {y. \<exists>x \<in> set xs. f x = Some y}"
  by (induction xs) (auto simp: map_filter_Cons split: option.splits)

lemma map_filter_skip:
  "(\<And>x. x \<in> set xs \<Longrightarrow> \<not> P x \<Longrightarrow> f x = None) \<Longrightarrow> List.map_filter f (filter P xs) = List.map_filter f xs"
  by (induction xs) (auto simp: map_filter_Cons split: option.splits)

lemma filter_map_filter:
  "filter Q (List.map_filter f xs) = List.map_filter f (filter (\<lambda>x. \<exists>y. f x = Some y \<and> Q y) xs)"
  by (induction xs) (auto simp: map_filter_Cons split: option.splits)

lemma read_key_view: "overlay t k = None \<Longrightarrow> read_key e t k = view e (txn_read_ts t) k"
  by (auto simp: read_key_def view_def chain_of_def visible_row_simps split: option.split)

lemma index_view_get:
  "index_view e ts k \<longleftrightarrow> (\<exists>vs. bt_get (eng_secondary e) k = Some vs \<and> visible_secondary vs ts)"
  by (auto simp: index_view_def chain_of_def visible_secondary_simps split: option.split)

lemma read_key_known: "read_key e t k = Some r \<Longrightarrow> k \<in> set (bt_keys (eng_primary e)) \<union> set (bt_keys (txn_writes t))"
  by (cases "bt_get (eng_primary e) k"; cases "bt_get (txn_writes t) k")
    (auto simp: read_key_def overlay_def set_bt_keys)

lemma txn_keys_overlay: "k \<in> set (txn_keys t tid) \<longleftrightarrow> lk_table_id k = tid \<and> overlay t k \<noteq> None"
  by (auto simp: txn_keys_def overlay_def set_bt_keys)

text \<open>All rows of a table the transaction can see, in the order of their keys.\<close>

lemma scan_table_Inr:
  assumes "scan_table e t tid = Inr rows"
  obtains ks where "sorted_wrt (<) ks" "rows = List.map_filter (read_key e t) ks"
    "\<forall>k r. lk_table_id k = tid \<longrightarrow> read_key e t k = Some r \<longrightarrow> k \<in> set ks" "\<forall>k \<in> set ks. lk_table_id k = tid"
    "ensure_transaction_snapshot e t = Inr ()"
proof -
  let ?ks = "btree_set (filter (\<lambda>k. lk_table_id k = tid) (bt_keys (eng_primary e)) @ txn_keys t tid)"
  from assms have "rows = List.map_filter (read_key e t) ?ks" "ensure_transaction_snapshot e t = Inr ()"
    by (auto simp: scan_table_def rbind_eq_Inr)
  then show ?thesis
    by (intro that[of ?ks]) (auto simp: sorted_btree_set txn_keys_def dest: read_key_known)
qed

lemma scan_secondary_at:
  assumes exact: "index_exact e i (txn_read_ts t)" and iid: "im_id i = iid"
    and i: "catalog_index (eng_catalog e) iid = Some i"
    and v: "v \<noteq> Null" "encode_value v [] = Inr bs"
    and scan: "scan_table e t (im_table_id i) = Inr rows"
  shows "scan_secondary e t iid v = Inr (filter (\<lambda>r. column_value (Some r) (im_column i) = Some v) rows)"
proof -
  let ?tid = "im_table_id i" and ?ev = "encode_ordered v []"
  let ?Q = "\<lambda>r. column_value (Some r) (im_column i) = Some v"
  let ?g = "\<lambda>k. \<exists>r. read_key e t k = Some r \<and> ?Q r"
  let ?hits = "secondary_hits e t i iid ?ev" and ?own = "txn_keys t ?tid"
  let ?all = "filter (\<lambda>k. lk_table_id k = ?tid) (bt_keys (eng_primary e))"
  have hit: "LogicalKey ?tid pk \<in> set ?hits \<longleftrightarrow>
      column_value (view e (txn_read_ts t) (LogicalKey ?tid pk)) (im_column i) = Some v" for pk
  proof -
    have "LogicalKey ?tid pk \<in> set ?hits \<longleftrightarrow> index_view e (txn_read_ts t) (SecondaryKey iid ?ev pk)"
    proof -
      have "LogicalKey ?tid pk \<in> set ?hits \<longleftrightarrow> (\<exists>k vs. bt_get (eng_secondary e) k = Some vs
          \<and> visible_secondary vs (txn_read_ts t) \<and> sk_index_id k = iid \<and> sk_secondary_value k = ?ev
          \<and> sk_primary_key k = pk)"
        by (auto simp: secondary_hits_def bt_entries_get image_iff)
      then show ?thesis unfolding index_view_get by (metis secondary_key.collapse secondary_key.sel)
    qed
    then show ?thesis using exact v(1) by (simp add: index_exact_def iid)
  qed
  have "k \<in> set ?hits \<union> set ?own \<longleftrightarrow> k \<in> set ?all \<union> set ?own" if g: "?g k" for k
  proof (cases "overlay t k")
    case None
    with g obtain r where r: "view e (txn_read_ts t) k = Some r" "?Q r" by (auto simp: read_key_view)
    then have known: "k \<in> set (bt_keys (eng_primary e))"
      using g read_key_known[of e t k] None by (auto simp: overlay_def set_bt_keys)
    have "lk_table_id k = ?tid" if "k \<in> set ?hits" using that by (auto simp: secondary_hits_def)
    then have "k \<in> set ?hits \<longleftrightarrow> lk_table_id k = ?tid"
      using hit[of "lk_primary_key k"] r by (cases k) auto
    then show ?thesis using known None by (simp add: txn_keys_overlay)
  next
    case (Some m)
    have "lk_table_id k = ?tid" if "k \<in> set ?hits" using that by (auto simp: secondary_hits_def)
    then show ?thesis using Some by (auto simp: txn_keys_overlay)
  qed
  then have "set (filter ?g (?hits @ ?own)) = set (filter ?g (?all @ ?own))" by auto
  from btree_set_eqI[OF this]
  have same: "filter ?g (btree_set (?hits @ ?own)) = filter ?g (btree_set (?all @ ?own))"
    by (simp only: filter_btree_set)
  have ensure: "ensure_transaction_snapshot e t = Inr ()"
    and rows: "rows = List.map_filter (read_key e t) (btree_set (?all @ ?own))"
    using scan by (auto simp: scan_table_def rbind_eq_Inr)
  show ?thesis
    using v by (simp add: scan_secondary_def ensure i rows filter_map_filter same)
qed

lemma scan_secondary_filter:
  assumes inv: "engine_inv e" and ts: "txn_read_ts t = last_applied e"
    and i: "catalog_index (eng_catalog e) iid = Some i"
    and v: "v \<noteq> Null" "encode_value v [] = Inr bs"
    and scan: "scan_table e t (im_table_id i) = Inr rows"
  shows "scan_secondary e t iid v = Inr (filter (\<lambda>r. column_value (Some r) (im_column i) = Some v) rows)"
proof (rule scan_secondary_at[OF _ _ i v scan])
  show "index_exact e i (txn_read_ts t)" using inv i by (auto simp: ts engine_inv_def index_upto_def)
  show "im_id i = iid" using inv catalog_index_ok[OF _ i] by (auto simp: engine_inv_def meta_inv_def)
qed

text \<open>
  C20: an index lookup is a filtered table scan.  At the current snapshot, looking a value up
  through a secondary index returns exactly the rows of the table scan whose column holds that
  value, in the same order, whatever the transaction has staged.
\<close>

theorem scan_secondary_exact:
  assumes inv: "engine_inv e" and ts: "txn_read_ts t = last_applied e"
    and i: "catalog_index (eng_catalog e) iid = Some i"
    and v: "v \<noteq> Null" "encode_value v [] = Inr bs"
    and scan: "scan_table e t (im_table_id i) = Inr rows"
  shows "scan_secondary e t iid v = Inr (filter (\<lambda>r. column_value (Some r) (im_column i) = Some v) rows)"
  using assms by (rule scan_secondary_filter)

theorem scan_secondary_exact_witness:
  "\<exists>rows. scan_table ex2 ex_txn' 1 = Inr rows \<and> scan_secondary ex2 ex_txn' 1 (Text ''90'')
    = Inr (filter (\<lambda>r. column_value (Some r) 1 = Some (Text ''90'')) rows)"
proof -
  have "isl (scan_table ex2 ex_txn' 1) = False" by code_simp
  then obtain rows where rows: "scan_table ex2 ex_txn' 1 = Inr rows"
    by (cases "scan_table ex2 ex_txn' 1") auto
  have "isl (encode_value (Text ''90'') []) = False" by code_simp
  then obtain bs where bs: "encode_value (Text ''90'') [] = Inr bs"
    by (cases "encode_value (Text ''90'') []") auto
  have idx: "catalog_index (eng_catalog ex2) 1 = Some ex_index" by code_simp
  have "txn_read_ts ex_txn' = 2" by code_simp
  then have ts: "txn_read_ts ex_txn' = last_applied ex2" by (simp add: ex_last)
  show ?thesis
    using scan_secondary_exact[OF ex_inv(2) ts idx _ bs] rows by (simp add: ex_index_def)
qed

definition ex_unindexed :: engine where
  "ex_unindexed = snd (projr (ex_run engine_new 1 (ex_attempt [1] 1 0 0 [CreateTable ex_table] ''100'')))"

definition ex_indexed :: engine where
  "ex_indexed = snd (projr (ex_run ex_unindexed 2
     ((ex_attempt [2] 1 1 1 [CreateIndex ex_index] [])\<lparr>att_writes := []\<rparr>)))"

lemma ex_unindexed_code [code]: "ex_unindexed = ex1\<lparr>
    eng_catalog := ex_catalog\<lparr>cat_indexes := bt_of_list [], cat_index_names := bt_of_list []\<rparr>,
    eng_secondary := bt_of_list [], eng_stats := ex_stats 1 0\<rparr>"
  by code_simp

lemma ex_run_steps:
  assumes "isl (ex_run e index a) = False"
  shows "engine_steps e (snd (projr (ex_run e index a)))"
proof -
  obtain outcome e' where "ex_run e index a = Inr (outcome, e')" using assms by (cases "ex_run e index a") auto
  then show ?thesis by (auto simp: ex_run_def intro: engine_step.Apply)
qed

text \<open>The rows a transaction has itself written to a table, in the order of their keys.\<close>

definition staged_rows :: "transaction \<Rightarrow> u64 \<Rightarrow> row list" where
  "staged_rows t tid =
     List.map_filter (\<lambda>k. case overlay t k of Some (Put r) \<Rightarrow> Some r | _ \<Rightarrow> None) (btree_set (txn_keys t tid))"

lemma scan_secondary_unbuilt:
  assumes empty: "\<And>ev pk. \<not> index_view e (txn_read_ts t) (SecondaryKey iid ev pk)"
    and i: "catalog_index (eng_catalog e) iid = Some i"
    and v: "v \<noteq> Null" "encode_value v [] = Inr bs"
    and ensure: "ensure_transaction_snapshot e t = Inr ()"
  shows "scan_secondary e t iid v
    = Inr (filter (\<lambda>r. column_value (Some r) (im_column i) = Some v) (staged_rows t (im_table_id i)))"
proof -
  let ?own = "btree_set (txn_keys t (im_table_id i))"
  have "\<not> visible_secondary vs (txn_read_ts t)"
    if "bt_get (eng_secondary e) k = Some vs" "sk_index_id k = iid" for k vs
    using empty that by (cases k) (auto simp: index_view_get)
  then have hits: "secondary_hits e t i iid ev = []" for ev
    by (auto simp: secondary_hits_def bt_entries_get filter_empty_conv)
  have "read_key e t k = (case overlay t k of Some (Put r) \<Rightarrow> Some r | _ \<Rightarrow> None)" if "k \<in> set ?own" for k
    using that by (auto simp: txn_keys_overlay read_key_def split: mutation.split)
  then have "List.map_filter (read_key e t) ?own = staged_rows t (im_table_id i)"
    by (auto simp: staged_rows_def List.map_filter_def intro!: map_cong filter_cong)
  then show ?thesis using v by (simp add: scan_secondary_def ensure i hits)
qed

text \<open>
  C25: index lookups at every retained snapshot.  A transaction reads at the applied index of some
  earlier state, and the engine has moved on since.  If the index existed in that state, a lookup
  still returns exactly the rows of the transaction's table scan that hold the value.  If the index
  was created later, the lookup finds it in the current catalog but none of its committed rows: it
  returns only the transaction's own writes that hold the value.
\<close>

theorem index_lookup_at_snapshot:
  assumes inv: "engine_inv e0" and ts: "txn_read_ts t = last_applied e0"
    and steps: "engine_steps e0 e" and floor: "retained_floor e \<le> txn_read_ts t"
    and i: "catalog_index (eng_catalog e) iid = Some i"
    and v: "v \<noteq> Null" "encode_value v [] = Inr bs"
    and scan: "scan_table e t (im_table_id i) = Inr rows"
  shows "scan_secondary e t iid v = Inr (filter (\<lambda>r. column_value (Some r) (im_column i) = Some v)
    (if catalog_index (eng_catalog e0) iid = None then staged_rows t (im_table_id i) else rows))"
proof -
  have same: "view e (txn_read_ts t) k = view e0 (txn_read_ts t) k"
    "index_view e (txn_read_ts t) sk = index_view e0 (txn_read_ts t) sk" for k sk
    using snapshot_steps[OF steps inv _ floor] by (simp_all add: ts)
  show ?thesis
  proof (cases "catalog_index (eng_catalog e0) iid")
    case None
    have "\<not> index_view e (txn_read_ts t) (SecondaryKey iid ev pk)" for ev pk
      using inv None unfolding same
      by (auto simp: engine_inv_def stores_upto_def index_view_def visible_secondary_simps
          dest!: spec[of "\<lambda>k. sec e0 k \<noteq> [] \<longrightarrow> _ k" "SecondaryKey iid ev pk"])
    moreover have "ensure_transaction_snapshot e t = Inr ()" using scan by (auto simp: scan_table_def rbind_eq_Inr)
    ultimately show ?thesis using scan_secondary_unbuilt[OF _ i v] None by simp
  next
    case (Some j)
    then have "j = i" using steps_catalog[OF steps inv] i by (simp add: catalog_extends_def)
    then have exact: "index_exact e0 i (last_applied e0)" "im_id i = iid"
      using inv Some catalog_index_ok[OF _ Some] by (auto simp: engine_inv_def meta_inv_def index_upto_def)
    then have "index_exact e i (txn_read_ts t)" by (simp add: index_exact_def same ts[symmetric])
    from scan_secondary_at[OF this exact(2) i v scan] Some show ?thesis by simp
  qed
qed

text \<open>A row that the table scan of an old snapshot returns is missing from the lookup.\<close>

lemma index_lookup_misses_old_snapshot:
  "map_sum (\<lambda>_. ()) fst (begin_at ex_unindexed 1 1) = Inr (transaction_new 1 1 1)
   \<and> scan_table ex_indexed (transaction_new 1 1 1) 1 = Inr [\<lparr>row_values = [Text ''k'', Text ''100'']\<rparr>]
   \<and> scan_secondary ex_indexed (transaction_new 1 1 1) 1 (Text ''100'') = Inr []"
  by code_simp

theorem index_lookup_at_snapshot_witness:
  "scan_secondary ex_indexed (transaction_new 1 1 1) 1 (Text ''100'')
     = Inr (filter (\<lambda>r. column_value (Some r) 1 = Some (Text ''100'')) (staged_rows (transaction_new 1 1 1) 1))"
proof -
  have "isl (ex_run engine_new 1 (ex_attempt [1] 1 0 0 [CreateTable ex_table] ''100'')) = False"
    "isl (ex_run ex_unindexed 2 ((ex_attempt [2] 1 1 1 [CreateIndex ex_index] [])\<lparr>att_writes := []\<rparr>)) = False" by code_simp+
  then have run1: "engine_steps engine_new ex_unindexed" and run2: "engine_steps ex_unindexed ex_indexed"
    unfolding ex_unindexed_def ex_indexed_def by (blast intro: ex_run_steps)+
  have "isl (encode_value (Text ''100'') []) = False" by code_simp
  then obtain bs where bs: "encode_value (Text ''100'') [] = Inr bs"
    by (cases "encode_value (Text ''100'') []") auto
  have idx: "catalog_index (eng_catalog ex_indexed) 1 = Some ex_index" "catalog_index (eng_catalog ex_unindexed) 1 = None"
    by code_simp+
  have ts: "txn_read_ts (transaction_new 1 1 1) = last_applied ex_unindexed"
    "retained_floor ex_indexed \<le> txn_read_ts (transaction_new 1 1 1)" by code_simp+
  show ?thesis
    using index_lookup_at_snapshot[OF steps_inv[OF run1 engine_new_inv] ts(1) run2 ts(2) idx(1) _ bs] index_lookup_misses_old_snapshot idx(2)
    by (simp add: ex_index_def)
qed

end
