(* ===== verification/Engine_Session.thy ===== *)
theory Engine_Session
  imports Engine_Ops "HOL-Library.Multiset"
begin

text \<open>
  Whole transactions: a transaction that is opened, filled by any sequence of operations and
  applied with nothing in between commits, and the database then holds exactly what the
  transaction last read.
\<close>

section \<open>Sessions\<close>

inductive txn_step :: "engine \<Rightarrow> transaction \<Rightarrow> transaction \<Rightarrow> bool" where
  Insert: "engine_insert e t tid r = Inr t' \<Longrightarrow> txn_step e t t'"
| Upsert: "engine_upsert e t tid r = Inr t' \<Longrightarrow> txn_step e t t'"
| Update: "engine_update e t tid pk r = Inr (found, t') \<Longrightarrow> txn_step e t t'"
| Remove: "engine_delete e t tid pk = Inr (found, t') \<Longrightarrow> txn_step e t t'"
| Create_table: "create_table e t name s = Inr (ident, t') \<Longrightarrow> txn_step e t t'"
| Create_index: "create_index e t name tid column = Inr (ident, t') \<Longrightarrow> txn_step e t t'"

text \<open>
  The catalog has room when the next identifiers and the schema epoch have not saturated: the
  source computes the next identifier with a saturating addition.
\<close>

definition catalog_has_room :: "catalog \<Rightarrow> bool" where
  "catalog_has_room c \<longleftrightarrow>
     (\<forall>ident. catalog_table c ident \<noteq> None \<longrightarrow> ident < next_table_id c)
     \<and> (\<forall>ident. catalog_index c ident \<noteq> None \<longrightarrow> ident < next_index_id c)
     \<and> cat_schema_epoch c \<noteq> - 1"

fun staged_tables :: "catalog_mutation list \<Rightarrow> table_meta list" where
  "staged_tables [] = []"
| "staged_tables (CreateTable t # ms) = t # staged_tables ms"
| "staged_tables (CreateIndex i # ms) = staged_tables ms"

fun staged_indexes :: "catalog_mutation list \<Rightarrow> index_meta list" where
  "staged_indexes [] = []"
| "staged_indexes (CreateTable t # ms) = staged_indexes ms"
| "staged_indexes (CreateIndex i # ms) = i # staged_indexes ms"

lemma staged_append [simp]:
  "staged_tables (xs @ ys) = staged_tables xs @ staged_tables ys"
  "staged_indexes (xs @ ys) = staged_indexes xs @ staged_indexes ys"
  by (induction xs rule: staged_tables.induct) simp_all

lemma mset_concat_map: "mset xs = mset ys \<Longrightarrow> mset (concat (map f xs)) = mset (concat (map f ys))"
proof -
  have "mset (concat (map f xs)) = (\<Sum>x\<in>#mset xs. mset (f x))" for xs by (induction xs) simp_all
  then show "mset xs = mset ys \<Longrightarrow> mset (concat (map f xs)) = mset (concat (map f ys))" by simp
qed

lemma staged_mset:
  assumes "mset xs = mset ys"
  shows "mset (staged_tables xs) = mset (staged_tables ys)" "mset (staged_indexes xs) = mset (staged_indexes ys)"
proof -
  have t: "staged_tables xs = concat (map (\<lambda>m. case m of CreateTable t \<Rightarrow> [t] | CreateIndex i \<Rightarrow> []) xs)" for xs
    by (induction xs rule: staged_tables.induct) simp_all
  have i: "staged_indexes xs = concat (map (\<lambda>m. case m of CreateTable t \<Rightarrow> [] | CreateIndex i \<Rightarrow> [i]) xs)" for xs
    by (induction xs rule: staged_indexes.induct) simp_all
  show "mset (staged_tables xs) = mset (staged_tables ys)" "mset (staged_indexes xs) = mset (staged_indexes ys)"
    unfolding t i using assms by (rule mset_concat_map)+
qed

lemma set_staged:
  "set (staged_tables ms) = {t. CreateTable t \<in> set ms}"
  "set (staged_indexes ms) = {i. CreateIndex i \<in> set ms}"
  by (induction ms rule: staged_tables.induct) auto

text \<open>Sorted by their keys, the tables come before the indexes.\<close>

lemma staged_split:
  assumes "sorted_wrt (<) (map mutation_sort_key ms)"
  shows "ms = map CreateTable (staged_tables ms) @ map CreateIndex (staged_indexes ms)"
  using assms
proof (induction ms rule: staged_tables.induct)
  case (3 i ms)
  have "\<forall>m \<in> set ms. (1, im_id i) < mutation_sort_key m" using "3.prems" by simp
  then have "\<forall>m \<in> set ms. \<exists>j. m = CreateIndex j"
    by (metis catalog_mutation.exhaust mutation_sort_key.simps(1) less_prod_simp less_numeral_extra(1) not_less_iff_gr_or_eq zero_neq_one)
  then have "staged_tables ms = []" by (induction ms rule: staged_tables.induct) auto
  then show ?case using 3 by simp
qed simp_all

section \<open>The invariant of a transaction\<close>

definition tables_staged :: "catalog \<Rightarrow> table_meta list \<Rightarrow> bool" where
  "tables_staged c ts \<longleftrightarrow>
     (\<forall>t \<in> set ts. table_meta_ok t \<and> bt_get (cat_tables c) (tm_id t) = None
        \<and> bt_get (cat_table_names c) (normalize (tm_name t)) = None)
     \<and> distinct (map tm_id ts) \<and> distinct (map (\<lambda>t. normalize (tm_name t)) ts)"

definition indexes_staged :: "catalog \<Rightarrow> index_meta list \<Rightarrow> bool" where
  "indexes_staged c is \<longleftrightarrow>
     (\<forall>i \<in> set is. identifier_ok (im_name i) \<and> im_id i \<noteq> 0 \<and> bt_get (cat_indexes c) (im_id i) = None
        \<and> bt_get (cat_index_names c) (normalize (im_name i)) = None)
     \<and> distinct (map im_id is) \<and> distinct (map (\<lambda>i. normalize (im_name i)) is)"

definition write_fits :: "engine \<Rightarrow> transaction \<Rightarrow> txn_write \<Rightarrow> bool" where
  "write_fits e t w \<longleftrightarrow>
     (\<exists>m. table_for_transaction e t (tw_table_id w) = Inr m
        \<and> value_data_type (tw_primary_key w) = Some (col_data_type (columns (tm_schema m) ! tm_primary_key_column m))
        \<and> (\<forall>r. tw_mutation w = Put r \<longrightarrow>
             row_ok (tm_schema m) r \<and> row_values r ! tm_primary_key_column m = tw_primary_key w))"

definition txn_ok :: "engine \<Rightarrow> transaction \<Rightarrow> bool" where
  "txn_ok e t \<longleftrightarrow>
     txn_wf t
     \<and> tables_staged (eng_catalog e) (staged_tables (txn_catalog_mutations t))
     \<and> indexes_staged (eng_catalog e) (staged_indexes (txn_catalog_mutations t))
     \<and> (\<forall>i \<in> set (staged_indexes (txn_catalog_mutations t)). \<exists>m.
          table_for_transaction e t (im_table_id i) = Inr m \<and> im_column i < length (columns (tm_schema m)))
     \<and> (\<forall>k w. bt_get (txn_writes t) k = Some w \<longrightarrow> write_fits e t w)"

lemma txn_ok_new: "txn_ok e (transaction_new ident ts epoch)"
  by (simp add: txn_ok_def tables_staged_def indexes_staged_def) (simp add: transaction_new_def)

lemma staged_table_iff:
  assumes "distinct (map tm_id (staged_tables (txn_catalog_mutations t)))"
  shows "staged_table t ident = Some m \<longleftrightarrow> CreateTable m \<in> set (txn_catalog_mutations t) \<and> tm_id m = ident"
proof -
  have "distinct (map tm_id (staged_tables ms)) \<Longrightarrow>
      find_staged_table ms ident = Some m \<longleftrightarrow> CreateTable m \<in> set ms \<and> tm_id m = ident" for ms
    by (induction ms rule: staged_tables.induct) (auto simp: set_staged)
  then show ?thesis using assms by (simp add: staged_table_def)
qed

lemma staged_table_None: "staged_table t ident = None \<longleftrightarrow> (\<forall>m. CreateTable m \<in> set (txn_catalog_mutations t) \<longrightarrow> tm_id m \<noteq> ident)"
proof -
  have "find_staged_table ms ident = None \<longleftrightarrow> (\<forall>m. CreateTable m \<in> set ms \<longrightarrow> tm_id m \<noteq> ident)" for ms
    by (induction ms rule: staged_tables.induct) auto
  then show ?thesis by (simp add: staged_table_def)
qed

lemma staged_index_None: "staged_index t ident = None \<longleftrightarrow> (\<forall>i. CreateIndex i \<in> set (txn_catalog_mutations t) \<longrightarrow> im_id i \<noteq> ident)"
proof -
  have "find_staged_index ms ident = None \<longleftrightarrow> (\<forall>i. CreateIndex i \<in> set ms \<longrightarrow> im_id i \<noteq> ident)" for ms
    by (induction ms rule: staged_indexes.induct) auto
  then show ?thesis by (simp add: staged_index_def)
qed

lemma table_for_transaction_Inr:
  "table_for_transaction e t tid = Inr m \<longleftrightarrow>
     staged_table t tid = Some m \<or> staged_table t tid = None \<and> catalog_table (eng_catalog e) tid = Some m"
  by (auto simp: table_for_transaction_def result_simps split: option.splits)

section \<open>Operations keep the invariant\<close>

lemma write_fits_frame [simp]: "write_fits e (t\<lparr>txn_writes := ws\<rparr>) w = write_fits e t w"
  by (simp add: write_fits_def)

lemma txn_ok_staged:
  assumes "txn_ok e t" "stage_write t w = Inr t'" "write_fits e t w"
  shows "txn_ok e t'"
proof -
  obtain key where t': "t' = t\<lparr>txn_writes := bt_insert key w (txn_writes t)\<rparr>"
    using assms(2) by (auto simp: stage_write_Inr)
  have "txn_wf t'" using stage_write_wf[OF _ assms(2)] assms(1) by (simp add: txn_ok_def)
  then show ?thesis using assms(1,3) by (auto simp: txn_ok_def t' split: if_splits)
qed

lemma engine_validate_row_fits:
  assumes "engine_validate_row e t tid r = Inr pk"
  shows "write_fits e t \<lparr>tw_table_id = tid, tw_primary_key = pk, tw_mutation = Put r\<rparr>"
  using assms
  by (auto simp: engine_validate_row_def write_fits_def rbind_eq_Inr map_err_eq_Inr validate_row_ok
      index_or_panic_def validate_primary_key_def split: if_splits)

lemma engine_get_fits:
  assumes "engine_get e t tid pk = Inr x"
  shows "write_fits e t \<lparr>tw_table_id = tid, tw_primary_key = pk, tw_mutation = Delete\<rparr>"
  using assms
  by (auto simp: engine_get_Inr write_fits_def rbind_eq_Inr index_or_panic_def validate_primary_key_def
      split: if_splits)

lemma distinct_map_mset: "mset xs = mset ys \<Longrightarrow> distinct (map f xs) \<longleftrightarrow> distinct (map f ys)"
  by (rule mset_eq_imp_distinct_iff) simp

lemma tables_staged_mset:
  assumes "mset ts = mset ts'"
  shows "tables_staged c ts \<longleftrightarrow> tables_staged c ts'"
proof -
  have "set ts = set ts'" using assms by (rule mset_eq_setD)
  then show ?thesis unfolding tables_staged_def by (simp add: distinct_map_mset[OF assms])
qed

lemma indexes_staged_mset:
  assumes "mset ts = mset ts'"
  shows "indexes_staged c ts \<longleftrightarrow> indexes_staged c ts'"
proof -
  have "set ts = set ts'" using assms by (rule mset_eq_setD)
  then show ?thesis unfolding indexes_staged_def by (simp add: distinct_map_mset[OF assms])
qed

lemma stage_catalog_simps [simp]:
  "txn_writes (stage_catalog t m) = txn_writes t" "txn_read_ts (stage_catalog t m) = txn_read_ts t"
  "txn_schema_epoch (stage_catalog t m) = txn_schema_epoch t"
  "set (txn_catalog_mutations (stage_catalog t m)) = insert m (set (txn_catalog_mutations t))"
  by (simp_all add: stage_catalog_def)

lemma staged_stage_catalog:
  "tables_staged c (staged_tables (txn_catalog_mutations (stage_catalog t m)))
     \<longleftrightarrow> tables_staged c (staged_tables (txn_catalog_mutations t) @ staged_tables [m])"
  "indexes_staged c (staged_indexes (txn_catalog_mutations (stage_catalog t m)))
     \<longleftrightarrow> indexes_staged c (staged_indexes (txn_catalog_mutations t) @ staged_indexes [m])"
proof -
  have "mset (txn_catalog_mutations (stage_catalog t m)) = mset (txn_catalog_mutations t @ [m])"
    by (simp add: stage_catalog_def)
  note staged_mset[OF this]
  then show "tables_staged c (staged_tables (txn_catalog_mutations (stage_catalog t m)))
      \<longleftrightarrow> tables_staged c (staged_tables (txn_catalog_mutations t) @ staged_tables [m])"
    "indexes_staged c (staged_indexes (txn_catalog_mutations (stage_catalog t m)))
      \<longleftrightarrow> indexes_staged c (staged_indexes (txn_catalog_mutations t) @ staged_indexes [m])"
    using tables_staged_mset indexes_staged_mset staged_append by metis+
qed

text \<open>Staging a mutation keeps the tables a transaction knows.\<close>

lemma txn_ok_stage_catalog:
  assumes ok: "txn_ok e t" and fresh: "mutation_sort_key m \<notin> mutation_sort_key ` set (txn_catalog_mutations t)"
    and tables: "tables_staged (eng_catalog e) (staged_tables (txn_catalog_mutations t) @ staged_tables [m])"
    and indexes: "indexes_staged (eng_catalog e) (staged_indexes (txn_catalog_mutations t) @ staged_indexes [m])"
    and new: "\<And>i. m = CreateIndex i \<Longrightarrow> \<exists>x. table_for_transaction e t (im_table_id i) = Inr x
      \<and> im_column i < length (columns (tm_schema x))"
  shows "txn_ok e (stage_catalog t m)"
proof -
  let ?t' = "stage_catalog t m"
  have wf: "txn_wf t" "tables_staged (eng_catalog e) (staged_tables (txn_catalog_mutations t))"
    using ok by (simp_all add: txn_ok_def)
  have tables': "tables_staged (eng_catalog e) (staged_tables (txn_catalog_mutations ?t'))"
    using tables by (simp add: staged_stage_catalog)
  have mono: "table_for_transaction e ?t' tid = Inr x" if known: "table_for_transaction e t tid = Inr x" for tid x
  proof (cases "staged_table t tid")
    case (Some y)
    then have "y = x" using known by (simp add: table_for_transaction_Inr)
    with Some have "CreateTable x \<in> set (txn_catalog_mutations t) \<and> tm_id x = tid"
      using wf(2) by (simp add: staged_table_iff tables_staged_def)
    then have "staged_table ?t' tid = Some x"
      using tables' by (simp add: staged_table_iff tables_staged_def)
    then show ?thesis by (simp add: table_for_transaction_Inr)
  next
    case None
    with known have cat: "catalog_table (eng_catalog e) tid = Some x" by (simp add: table_for_transaction_Inr)
    have "staged_table ?t' tid = None"
      using tables' cat by (force simp: staged_table_None tables_staged_def set_staged catalog_table_def)
    then show ?thesis using cat by (simp add: table_for_transaction_Inr)
  qed
  have "write_fits e ?t' w" if "write_fits e t w" for w
    using that mono unfolding write_fits_def by blast
  moreover have "\<exists>x. table_for_transaction e ?t' (im_table_id i) = Inr x \<and> im_column i < length (columns (tm_schema x))"
    if "CreateIndex i \<in> set (txn_catalog_mutations ?t')" for i
  proof -
    have "\<exists>x. table_for_transaction e t (im_table_id i) = Inr x \<and> im_column i < length (columns (tm_schema x))"
      using that ok new[of i] by (auto simp: txn_ok_def set_staged)
    then show ?thesis using mono by blast
  qed
  ultimately show ?thesis
    using ok stage_catalog_wf[OF wf(1) fresh] tables' indexes
    by (auto simp: txn_ok_def staged_stage_catalog set_staged)
qed

lemma create_table_ok:
  assumes ok: "txn_ok e t" and cat: "catalog_ok (eng_catalog e)" "catalog_has_room (eng_catalog e)"
    and step: "create_table e t name s = Inr (ident, t')"
  shows "txn_ok e t'"
proof -
  let ?c = "eng_catalog e" and ?ms = "txn_catalog_mutations t"
  obtain m where id: "fresh_id (\<lambda>i. staged_table t i \<noteq> None) (Core (Invariant ''table id overflow''))
      (next_table_id ?c) = Inr ident"
    and m: "table_meta_new ident name s = Inr m"
    and names: "catalog_table_named ?c (tm_name m) = None"
      "\<not> list_ex (\<lambda>mut. case mut of CreateTable x \<Rightarrow> eq_ignore_ascii_case (tm_name x) (tm_name m)
        | CreateIndex _ \<Rightarrow> False) ?ms"
    and t': "t' = stage_catalog t (CreateTable m)"
    using step by (auto simp: create_table_def rbind_eq_Inr split: if_splits)
  have m_ok: "table_meta_ok m" "tm_id m = ident" using table_meta_new_ok[OF m] by auto
  note fresh = fresh_id_Inr[OF id]
  have unused: "catalog_table ?c ident = None"
    using cat(2) fresh by (auto simp: catalog_has_room_def not_less[symmetric])
  have unstaged: "CreateTable x \<in> set ?ms \<Longrightarrow> tm_id x \<noteq> ident" for x
    using fresh by (simp add: staged_table_None)
  have "bt_get (cat_table_names ?c) (normalize (tm_name m)) = None"
    using cat(1) names(1) by (auto simp: catalog_table_named_def catalog_ok_def split: bind_splits)
  moreover have "normalize (tm_name x) \<noteq> normalize (tm_name m)" if "CreateTable x \<in> set ?ms" for x
    using names(2) that by (force simp: list_ex_iff eq_ignore_ascii_case_iff normalize_def)
  ultimately have "tables_staged ?c (staged_tables ?ms @ [m])"
    using ok m_ok unused unstaged
    by (force simp: txn_ok_def tables_staged_def set_staged catalog_table_def)
  moreover have "mutation_sort_key (CreateTable m) \<notin> mutation_sort_key ` set ?ms"
  proof
    assume "mutation_sort_key (CreateTable m) \<in> mutation_sort_key ` set ?ms"
    then obtain x where "x \<in> set ?ms" "mutation_sort_key x = (0, ident)" using m_ok(2) by auto
    then show False using unstaged by (cases x rule: catalog_mutation.exhaust) auto
  qed
  ultimately show ?thesis
    unfolding t' using ok by (intro txn_ok_stage_catalog) (simp_all add: txn_ok_def)
qed

lemma create_index_ok:
  assumes ok: "txn_ok e t" and cat: "catalog_ok (eng_catalog e)" "catalog_has_room (eng_catalog e)"
    and step: "create_index e t name tid column = Inr (ident, t')"
  shows "txn_ok e t'"
proof -
  let ?c = "eng_catalog e" and ?ms = "txn_catalog_mutations t"
  obtain x i where x: "table_for_transaction e t tid = Inr x"
    and id: "fresh_id (\<lambda>i. staged_index t i \<noteq> None) (Core (Invariant ''index id overflow''))
      (next_index_id ?c) = Inr ident"
    and i: "index_meta_new ident name x column = Inr i"
    and names: "catalog_index_named ?c (im_name i) = None"
      "\<not> list_ex (\<lambda>mut. case mut of CreateTable _ \<Rightarrow> False
        | CreateIndex y \<Rightarrow> eq_ignore_ascii_case (im_name y) (im_name i)) ?ms"
    and t': "t' = stage_catalog t (CreateIndex i)"
    using step by (auto simp: create_index_def rbind_eq_Inr split: if_splits)
  have i_ok: "identifier_ok (im_name i)" "im_id i \<noteq> 0" "im_id i = ident" "im_table_id i = tm_id x"
    "im_column i < length (columns (tm_schema x))"
    using i by (auto simp: index_meta_new_def result_simps not_le split: if_splits)
  have "tm_id x = tid"
    using x ok cat(1) by (auto simp: table_for_transaction_Inr txn_ok_def tables_staged_def staged_table_iff
        catalog_table_ok(1))
  note fresh = fresh_id_Inr[OF id]
  have unused: "catalog_index ?c ident = None"
    using cat(2) fresh by (auto simp: catalog_has_room_def not_less[symmetric])
  have unstaged: "CreateIndex y \<in> set ?ms \<Longrightarrow> im_id y \<noteq> ident" for y
    using fresh by (simp add: staged_index_None)
  have "bt_get (cat_index_names ?c) (normalize (im_name i)) = None"
    using cat(1) names(1) by (auto simp: catalog_index_named_def catalog_ok_def split: bind_splits)
  moreover have "normalize (im_name y) \<noteq> normalize (im_name i)" if "CreateIndex y \<in> set ?ms" for y
    using names(2) that by (force simp: list_ex_iff eq_ignore_ascii_case_iff normalize_def)
  ultimately have "indexes_staged ?c (staged_indexes ?ms @ [i])"
    using ok i_ok unused unstaged
    by (force simp: txn_ok_def indexes_staged_def set_staged catalog_index_def)
  moreover have "mutation_sort_key (CreateIndex i) \<notin> mutation_sort_key ` set ?ms"
  proof
    assume "mutation_sort_key (CreateIndex i) \<in> mutation_sort_key ` set ?ms"
    then obtain y where "y \<in> set ?ms" "mutation_sort_key y = (1, ident)" using i_ok(3) by auto
    then show False using unstaged by (cases y rule: catalog_mutation.exhaust) auto
  qed
  ultimately show ?thesis
    unfolding t' using ok x i_ok(4,5) \<open>tm_id x = tid\<close>
    by (intro txn_ok_stage_catalog) (simp_all add: txn_ok_def)
qed

lemma txn_step_ok:
  assumes "txn_step e t t'" "txn_ok e t" "catalog_ok (eng_catalog e)" "catalog_has_room (eng_catalog e)"
  shows "txn_ok e t' \<and> txn_read_ts t' = txn_read_ts t \<and> txn_schema_epoch t' = txn_schema_epoch t"
  using assms
proof (induction rule: txn_step.induct)
  case (Insert e t tid r t')
  then obtain pk where "engine_validate_row e t tid r = Inr pk"
    "stage_write t \<lparr>tw_table_id = tid, tw_primary_key = pk, tw_mutation = Put r\<rparr> = Inr t'"
    by (auto simp: engine_insert_def rbind_eq_Inr split: if_splits)
  with Insert show ?case
    using txn_ok_staged[OF _ _ engine_validate_row_fits] by (auto simp: stage_write_Inr)
next
  case (Upsert e t tid r t')
  then obtain pk where "engine_validate_row e t tid r = Inr pk"
    "stage_write t \<lparr>tw_table_id = tid, tw_primary_key = pk, tw_mutation = Put r\<rparr> = Inr t'"
    by (auto simp: engine_upsert_def rbind_eq_Inr)
  with Upsert show ?case
    using txn_ok_staged[OF _ _ engine_validate_row_fits] by (auto simp: stage_write_Inr)
next
  case (Update e t tid pk r found t')
  then consider "t' = t" | "engine_validate_row e t tid r = Inr pk"
    "stage_write t \<lparr>tw_table_id = tid, tw_primary_key = pk, tw_mutation = Put r\<rparr> = Inr t'"
    by (auto simp: engine_update_def rbind_eq_Inr split: if_splits)
  then show ?case
  proof cases
    case 2
    with Update show ?thesis
      using txn_ok_staged[OF _ _ engine_validate_row_fits] by (auto simp: stage_write_Inr)
  qed (use Update in simp)
next
  case (Remove e t tid pk found t')
  then consider "t' = t" | x where "engine_get e t tid pk = Inr x"
    "stage_write t \<lparr>tw_table_id = tid, tw_primary_key = pk, tw_mutation = Delete\<rparr> = Inr t'"
    by (auto simp: engine_delete_def rbind_eq_Inr split: if_splits)
  then show ?case
  proof cases
    case 2
    with Remove show ?thesis
      using txn_ok_staged[OF _ _ engine_get_fits] by (auto simp: stage_write_Inr)
  qed (use Remove in simp)
next
  case (Create_table e t name s ident t')
  moreover from this obtain m where "t' = stage_catalog t m"
    by (auto simp: create_table_def rbind_eq_Inr split: if_splits)
  ultimately show ?case using create_table_ok by simp
next
  case (Create_index e t name tid column ident t')
  moreover from this obtain m where "t' = stage_catalog t m"
    by (auto simp: create_index_def rbind_eq_Inr split: if_splits)
  ultimately show ?case using create_index_ok by simp
qed

lemma session_ok:
  assumes "(txn_step e)\<^sup>*\<^sup>* t t'" "txn_ok e t" "catalog_ok (eng_catalog e)" "catalog_has_room (eng_catalog e)"
  shows "txn_ok e t' \<and> txn_read_ts t' = txn_read_ts t \<and> txn_schema_epoch t' = txn_schema_epoch t"
  using assms by (induction rule: rtranclp_induct) (auto dest: txn_step_ok)

section \<open>Staged mutations apply\<close>

lemma create_tables_succeed:
  assumes "tables_staged c ts" "catalog_ok c"
  shows "\<exists>c'. apply_mutation_loop c new (map CreateTable ts @ rest) = apply_mutation_loop c' new rest
    \<and> catalog_ok c' \<and> catalog_extends c c' \<and> (\<forall>t \<in> set ts. catalog_table c' (tm_id t) = Some t)
    \<and> cat_indexes c' = cat_indexes c \<and> cat_index_names c' = cat_index_names c
    \<and> cat_schema_epoch c' = cat_schema_epoch c"
  using assms
proof (induction ts arbitrary: c)
  case (Cons t ts)
  let ?d = "c\<lparr>cat_table_names := bt_insert (normalize (tm_name t)) (tm_id t) (cat_table_names c),
    cat_tables := bt_insert (tm_id t) t (cat_tables c)\<rparr>"
  have d: "catalog_create_table c t = Inr ?d"
    using Cons.prems(1) table_meta_validate_ok[of t "()"]
    by (simp add: tables_staged_def catalog_create_table_def bt_contains_def Let_def)
  note step = catalog_create_table_ok[OF Cons.prems(2) d]
  have "\<forall>x \<in> set ts. tm_id x \<noteq> tm_id t \<and> normalize (tm_name x) \<noteq> normalize (tm_name t)"
    using Cons.prems(1) by (force simp: tables_staged_def image_iff)
  then have "tables_staged ?d ts" using Cons.prems(1) by (simp add: tables_staged_def)
  from Cons.IH[OF this] step obtain c' where
    c': "apply_mutation_loop ?d new (map CreateTable ts @ rest) = apply_mutation_loop c' new rest"
      "catalog_ok c'" "catalog_extends ?d c'" "\<forall>t \<in> set ts. catalog_table c' (tm_id t) = Some t"
      "cat_indexes c' = cat_indexes c" "cat_index_names c' = cat_index_names c"
      "cat_schema_epoch c' = cat_schema_epoch c" by auto
  have "mutation_installed c' (CreateTable t)"
    using mutation_installed_extends[OF _ c'(3)] step by blast
  moreover have "catalog_extends c c'" using catalog_extends_trans[OF _ c'(3)] step by blast
  ultimately show ?case using d c' by (intro exI[of _ c']) simp
next
  case Nil
  then show ?case by (intro exI[of _ c]) simp
qed

lemma create_indexes_succeed:
  assumes "indexes_staged c is"
    and "\<forall>i \<in> set is. \<exists>m. catalog_table c (im_table_id i) = Some m \<and> im_column i < length (columns (tm_schema m))"
  shows "\<exists>c' new'. apply_mutation_loop c new (map CreateIndex is) = Inr (c', new')
    \<and> cat_schema_epoch c' = cat_schema_epoch c"
  using assms
proof (induction "is" arbitrary: c new)
  case (Cons i "is")
  let ?d = "c\<lparr>cat_index_names := bt_insert (normalize (im_name i)) (im_id i) (cat_index_names c),
    cat_indexes := bt_insert (im_id i) i (cat_indexes c)\<rparr>"
  have "validate_identifier (im_name i) ''index'' = Inr ()"
    using Cons.prems(1) by (simp add: indexes_staged_def validate_identifier_ok)
  then have d: "catalog_create_index c i = Inr ?d"
    using Cons.prems
    by (auto simp: indexes_staged_def catalog_create_index_def bt_contains_def Let_def catalog_table_def)
  have "\<forall>x \<in> set is. im_id x \<noteq> im_id i \<and> normalize (im_name x) \<noteq> normalize (im_name i)"
    using Cons.prems(1) by (force simp: indexes_staged_def image_iff)
  then have "indexes_staged ?d is" using Cons.prems(1) by (simp add: indexes_staged_def)
  moreover have "catalog_table ?d = catalog_table c" by (simp add: fun_eq_iff catalog_table_def)
  ultimately obtain c' new' where "apply_mutation_loop ?d (new @ [im_id i]) (map CreateIndex is) = Inr (c', new')"
    "cat_schema_epoch c' = cat_schema_epoch ?d"
    using Cons.IH[of ?d "new @ [im_id i]"] Cons.prems(2) by auto
  then show ?case using d by simp
qed simp

lemma staged_mutations_apply:
  assumes ok: "txn_ok e t" and cat: "catalog_ok (eng_catalog e)" "catalog_has_room (eng_catalog e)"
  shows "\<exists>next ids. apply_mutations (eng_catalog e) (txn_catalog_mutations t) = Inr (next, ids)"
proof -
  let ?c = "eng_catalog e" and ?ms = "txn_catalog_mutations t"
  let ?ts = "staged_tables ?ms" and ?is = "staged_indexes ?ms"
  have parts: "tables_staged ?c ?ts" "indexes_staged ?c ?is" "sorted_wrt (<) (map mutation_sort_key ?ms)"
    "\<forall>i \<in> set ?is. \<exists>m. table_for_transaction e t (im_table_id i) = Inr m \<and> im_column i < length (columns (tm_schema m))"
    using ok by (simp_all add: txn_ok_def txn_wf_def)
  obtain c' where c': "apply_mutation_loop ?c [] (map CreateTable ?ts @ map CreateIndex ?is)
      = apply_mutation_loop c' [] (map CreateIndex ?is)"
    "catalog_extends ?c c'" "\<forall>t \<in> set ?ts. catalog_table c' (tm_id t) = Some t"
    "cat_indexes c' = cat_indexes ?c" "cat_index_names c' = cat_index_names ?c"
    "cat_schema_epoch c' = cat_schema_epoch ?c"
    using create_tables_succeed[OF parts(1) cat(1)] by blast
  have known: "catalog_table c' tid = Some m" if "table_for_transaction e t tid = Inr m" for tid m
    using that c'(2,3) parts(1)
    by (auto simp: table_for_transaction_Inr staged_table_iff tables_staged_def set_staged catalog_extends_def)
  have "indexes_staged c' ?is" using parts(2) by (simp add: indexes_staged_def c'(4,5))
  moreover have "\<forall>i \<in> set ?is. \<exists>m. catalog_table c' (im_table_id i) = Some m \<and> im_column i < length (columns (tm_schema m))"
    using parts(4) known by blast
  ultimately obtain d ids where "apply_mutation_loop ?c [] ?ms = Inr (d, ids)" "cat_schema_epoch d = cat_schema_epoch ?c"
    using create_indexes_succeed[of c' ?is "[]"] c'(1,6) staged_split[OF parts(3)] by auto
  then show ?thesis
    using cat(2) by (auto simp: apply_mutations_def catalog_has_room_def checked_add_one_None[symmetric])
qed

section \<open>A transaction that runs alone commits\<close>

lemma evaluate_commits:
  assumes inv: "engine_inv e" and v: "validate_attempt_for_apply e a = Inr (Inr (next, is))"
  shows "\<exists>s e'. evaluate_and_apply e index a = Inr (Committed index (length (att_writes a)) s, e')"
proof -
  have cat: "catalog_ok (eng_catalog e)" using inv by (simp add: engine_inv_def meta_inv_def)
  obtain ids ks where "attempt_valid e a next ks" by (rule validate_attempt_Inr[OF cat v])
  then have keys: "write_keys (att_writes a) ks" by (simp add: attempt_valid_def)
  obtain res e' where "evaluate_and_apply e index a = Inr (res, e')" using evaluate_and_apply_total[OF inv] by blast
  then show ?thesis by (auto simp: evaluate_and_apply_def v before_rows[OF keys] rbind_eq_Inr)
qed

lemma current_unconflicted: "engine_inv e \<Longrightarrow> unconflicted e (last_applied e) k"
proof -
  assume "engine_inv e"
  then have "rows.chain_ok (prim e k) (last_applied e)" by (simp add: engine_inv_def stores_upto_def)
  then show ?thesis by (auto simp: unconflicted_def newest_commit_prim rows.chain_ok_def split: list.splits)
qed

lemma session_validates:
  assumes inv: "engine_inv e" and room: "catalog_has_room (eng_catalog e)" and ok: "txn_ok e t"
    and current: "txn_read_ts t = last_applied e" "txn_schema_epoch t = cat_schema_epoch (eng_catalog e)"
  shows "\<exists>next is. validate_attempt_for_apply e (into_attempt t request leader_term) = Inr (Inr (next, is))"
proof -
  let ?a = "into_attempt t request leader_term" and ?ms = "txn_catalog_mutations t"
  have cat: "catalog_ok (eng_catalog e)" and floor: "retained_floor e \<le> last_applied e"
    using inv by (simp_all add: engine_inv_def meta_inv_def)
  have wf: "txn_wf t" "tables_staged (eng_catalog e) (staged_tables ?ms)" using ok by (simp_all add: txn_ok_def)
  obtain "next" ids where m: "apply_mutations (eng_catalog e) ?ms = Inr (next, ids)"
    using staged_mutations_apply[OF ok cat room] by blast
  note next_ok = apply_mutations_ok[OF cat m]
  obtain "is" where "is": "created_indexes next ids = Inr is" using created_indexes_ok[OF cat m] by blast
  have known: "catalog_table next tid = Some x" if "table_for_transaction e t tid = Inr x" for tid x
    using that wf(2) next_ok
    by (auto simp: table_for_transaction_Inr staged_table_iff tables_staged_def catalog_extends_def list_all_iff)
  have "\<exists>key. write_ok next w key \<and> unconflicted e (last_applied e) key" if "w \<in> set (bt_values (txn_writes t))" for w
  proof -
    from that obtain k where k: "bt_get (txn_writes t) k = Some w" by (auto simp: set_bt_values)
    then have "write_logical_key w = Inr k" "write_fits e t w" using wf(1) ok by (auto simp: txn_wf_def txn_ok_def)
    then have "write_ok next w k" using known unfolding write_ok_def write_fits_def by blast
    then show ?thesis using current_unconflicted[OF inv] by blast
  qed
  then have "validate_writes e next (last_applied e) (bt_values (txn_writes t)) = Inr None"
    using validate_writes_spec(2)[of "next" e "last_applied e"] next_ok by blast
  moreover have "validate_canonical ?a = Inr ()" by (rule into_attempt_canonical[OF wf(1)])
  ultimately show ?thesis
    using floor m "is" current
    by (simp add: validate_attempt_for_apply_def) (simp add: into_attempt_def not_less[symmetric])
qed

lemma attempt_row_into:
  assumes "txn_wf t"
  shows "attempt_row (into_attempt t request leader_term) k
    = map_option (\<lambda>w. mutation_row (tw_mutation w)) (bt_get (txn_writes t) k)"
proof -
  have "write_keys (bt_values (txn_writes t)) (bt_keys (txn_writes t))"
    using assms by (auto simp: write_keys_def bt_values_def bt_keys_def list_all2_map1 list_all2_map2
        txn_wf_def bt_entries_get intro!: list.rel_refl_strong)
  then have "attempt_row (into_attempt t request leader_term)
      = written (bt_values (txn_writes t)) (bt_keys (txn_writes t))"
    by (subst written_attempt_row[symmetric]) (auto simp: into_attempt_def)
  moreover have "map_of (zip (map fst es) (map f (map snd es))) k = map_option f (map_of es k)" for f and es :: "(logical_key \<times> txn_write) list"
    by (induction es) auto
  ultimately show ?thesis by (simp add: written_def bt_values_def bt_keys_def bt.get_entries)
qed

lemma read_key_overlay:
  "read_key e t k = (case map_option (\<lambda>w. mutation_row (tw_mutation w)) (bt_get (txn_writes t) k) of
     None \<Rightarrow> view e (txn_read_ts t) k | Some new \<Rightarrow> new)"
proof (cases "bt_get (txn_writes t) k")
  case None
  then show ?thesis by (simp add: read_key_view overlay_def)
next
  case (Some w)
  then show ?thesis by (cases "tw_mutation w") (simp_all add: read_key_def overlay_def)
qed

text \<open>
  C21: a transaction that runs alone commits and its effect is what it read.  Open a
  transaction, run any sequence of inserts, upserts, updates, deletes and table and index
  creations in it, and apply it as a new request at the next index before anything else: it
  commits, and for every key the database then shows the row the transaction itself would
  read.  The only condition is that identifiers and schema epoch are not exhausted.
\<close>

theorem solo_transaction_commits:
  assumes inv: "engine_inv e" and room: "catalog_has_room (eng_catalog e)"
    and begun: "engine_begin e = Inr (t0, e0)" and session: "(txn_step e0)\<^sup>*\<^sup>* t0 t"
    and admitted: "admit_request e0 request rh = New" and index: "checked_add (last_applied e) 1 = Some index"
  shows "\<exists>s e'. apply_with_request_hash e0 index h rh (into_attempt t request leader_term)
      = Inr (Applied (Committed index (bt_len (txn_writes t)) s), e')
    \<and> (\<forall>k. view e' index k = read_key e0 t k)"
proof -
  let ?a = "into_attempt t request leader_term"
  have e0: "eng_catalog e0 = eng_catalog e" "last_applied e0 = last_applied e"
    and t0: "txn_read_ts t0 = last_applied e0" "txn_schema_epoch t0 = cat_schema_epoch (eng_catalog e0)" "txn_ok e0 t0"
    using begun txn_ok_new
    by (auto simp: engine_begin_def begin_at_def rbind_eq_Inr transaction_new_def[symmetric] ok_or_eq_Inr split: if_splits)
      (simp_all add: transaction_new_def)
  have inv0: "engine_inv e0" using begin_at_inv[OF inv begun[unfolded engine_begin_def]] .
  have cat: "catalog_ok (eng_catalog e0)" using inv0 by (simp add: engine_inv_def meta_inv_def)
  have t: "txn_ok e0 t" "txn_read_ts t = last_applied e0" "txn_schema_epoch t = cat_schema_epoch (eng_catalog e0)"
    using session_ok[OF session t0(3) cat] room t0 e0 by simp_all
  then have wf: "txn_wf t" by (simp add: txn_ok_def)
  obtain "next" "is" where v: "validate_attempt_for_apply e0 ?a = Inr (Inr (next, is))"
    using session_validates[OF inv0 _ t] room e0(1) by metis
  obtain s d where "evaluate_and_apply e0 index ?a = Inr (Committed index (length (att_writes ?a)) s, d)"
    using evaluate_commits[OF inv0 v] by blast
  moreover have fresh: "index \<noteq> last_applied e0" using checked_add_one_less(1)[OF index] e0(2) by auto
  moreover have "length (att_writes ?a) = bt_len (txn_writes t)" by (simp add: into_attempt_def bt_values_def bt_len_def)
  moreover have "att_request ?a = request" by (simp add: into_attempt_def)
  ultimately obtain e' where e': "apply_with_request_hash e0 index h rh ?a
      = Inr (Applied (Committed index (bt_len (txn_writes t)) s), e')"
    using admitted index e0(2) into_attempt_canonical[OF wf, of request leader_term]
    by (simp add: apply_with_request_hash_def admit_new_def)
  have "view e' index k = read_key e0 t k" for k
    using apply_atomic[OF inv0 fresh e', of k] apply_at[OF e']
    by (simp add: attempt_row_into[OF wf] read_key_overlay t(2) split: option.splits)
  with e' show ?thesis by blast
qed

definition ex_begun :: "transaction \<times> engine" where "ex_begun = projr (engine_begin ex2)"
definition ex_filled :: transaction where
  "ex_filled = projr (engine_insert (snd ex_begun) (fst ex_begun) 1 ex_row)"
definition ex_filled' :: transaction where
  "ex_filled' = snd (projr (create_index (snd ex_begun) ex_filled ''byid'' 1 0))"

lemma ex_room: "catalog_has_room (eng_catalog ex2)"
proof -
  have ids: "next_table_id (eng_catalog ex2) = 2" "next_index_id (eng_catalog ex2) = 2"
    "cat_schema_epoch (eng_catalog ex2) = 1" "bt_keys (cat_tables (eng_catalog ex2)) = [1]"
    "bt_keys (cat_indexes (eng_catalog ex2)) = [1]" by code_simp+
  have "ident < 2" if "catalog_table (eng_catalog ex2) ident \<noteq> None \<or> catalog_index (eng_catalog ex2) ident \<noteq> None" for ident
  proof -
    have "ident \<in> set (bt_keys (cat_tables (eng_catalog ex2))) \<union> set (bt_keys (cat_indexes (eng_catalog ex2)))"
      using that by (auto simp: catalog_table_def catalog_index_def set_bt_keys)
    then show ?thesis by (simp add: ids)
  qed
  then show ?thesis unfolding catalog_has_room_def ids by auto
qed

theorem solo_transaction_commits_witness:
  "\<exists>s e'. apply_with_request_hash (snd ex_begun) 3 [0] [0]
      (into_attempt ex_filled' \<lparr>client_id = [9], sequence = 1\<rparr> 1)
      = Inr (Applied (Committed 3 (bt_len (txn_writes ex_filled')) s), e')
    \<and> (\<forall>k. view e' 3 k = read_key (snd ex_begun) ex_filled' k)"
proof -
  have "isl (engine_begin ex2) = False" by code_simp
  then have begun: "engine_begin ex2 = Inr (fst ex_begun, snd ex_begun)" by (simp add: ex_begun_def)
  have "isl (engine_insert (snd ex_begun) (fst ex_begun) 1 ex_row) = False" by code_simp
  then have insert: "engine_insert (snd ex_begun) (fst ex_begun) 1 ex_row = Inr ex_filled" by (simp add: ex_filled_def)
  have "map_sum (\<lambda>_. ()) fst (create_index (snd ex_begun) ex_filled ''byid'' 1 0) = Inr 2" by code_simp
  then have create: "create_index (snd ex_begun) ex_filled ''byid'' 1 0 = Inr (2, ex_filled')"
    by (cases "create_index (snd ex_begun) ex_filled ''byid'' 1 0") (auto simp: ex_filled'_def)
  have session: "(txn_step (snd ex_begun))\<^sup>*\<^sup>* (fst ex_begun) ex_filled'"
    using txn_step.Insert[OF insert] txn_step.Create_index[OF create] by (meson rtranclp.simps)
  have "admit_request (snd ex_begun) \<lparr>client_id = [9], sequence = 1\<rparr> [0] = New" "checked_add 2 1 = Some 3" by code_simp+
  then show ?thesis
    by (intro solo_transaction_commits[OF ex_inv(2) ex_room begun session]) (simp_all add: ex_last)
qed

end
