(* ===== verification/Engine_Expr.thy ===== *)
theory Engine_Expr
  imports Engine_Catalog "HOL-Library.Signed_Division"
begin

text \<open>
  Scalar expressions of \<open>crates/aster-engine/src/expression.rs\<close>: three-valued truth, checked
  64-bit arithmetic, and evaluation with short-circuiting AND and OR.  The lemmas show that
  evaluation computes a declarative semantics, that arithmetic is exact or an error, and that
  well-typed expressions never raise a type error.
\<close>

section \<open>Definitions\<close>

datatype truth = TTrue | TFalse | TUnknown

definition truth_is_true :: "truth \<Rightarrow> bool" where
  "truth_is_true t \<longleftrightarrow> t = TTrue"

fun truth_not :: "truth \<Rightarrow> truth" where
  "truth_not TTrue = TFalse"
| "truth_not TFalse = TTrue"
| "truth_not TUnknown = TUnknown"

fun truth_and :: "truth \<Rightarrow> truth \<Rightarrow> truth" where
  "truth_and TFalse _ = TFalse"
| "truth_and _ TFalse = TFalse"
| "truth_and TTrue TTrue = TTrue"
| "truth_and _ _ = TUnknown"

fun truth_or :: "truth \<Rightarrow> truth \<Rightarrow> truth" where
  "truth_or TTrue _ = TTrue"
| "truth_or _ TTrue = TTrue"
| "truth_or TFalse TFalse = TFalse"
| "truth_or _ _ = TUnknown"

fun truth_from_value :: "sql_value \<Rightarrow> engine_error + truth" where
  "truth_from_value (Bool True) = Inr TTrue"
| "truth_from_value (Bool False) = Inr TFalse"
| "truth_from_value Null = Inr TUnknown"
| "truth_from_value _ = Inl (Core (TypeError ''expected BOOL predicate''))"

fun truth_into_value :: "truth \<Rightarrow> sql_value" where
  "truth_into_value TTrue = Bool True"
| "truth_into_value TFalse = Bool False"
| "truth_into_value TUnknown = Null"

datatype unary_op = UNot | UNegate | UIsNull

datatype binary_op =
    Eq | NotEq | Less | LessEq | Greater | GreaterEq | And | Or | Add | Subtract | Multiply | Divide

datatype expr =
    Column nat
  | Literal sql_value
  | Unary unary_op expr
  | Binary expr binary_op expr

text \<open>An \<open>i64\<close> result exists when the mathematical one is in range.\<close>

definition fits_i64 :: "int \<Rightarrow> bool" where
  "fits_i64 i \<longleftrightarrow> - (2 ^ 63) \<le> i \<and> i < 2 ^ 63"

definition i64_of :: "int \<Rightarrow> u64 option" where
  "i64_of i = (if fits_i64 i then Some (word_of_int i) else None)"

definition i64_checked_neg :: "u64 \<Rightarrow> u64 option" where
  "i64_checked_neg a = i64_of (- sint a)"

definition i64_checked_add :: "u64 \<Rightarrow> u64 \<Rightarrow> u64 option" where
  "i64_checked_add a b = i64_of (sint a + sint b)"

definition i64_checked_sub :: "u64 \<Rightarrow> u64 \<Rightarrow> u64 option" where
  "i64_checked_sub a b = i64_of (sint a - sint b)"

definition i64_checked_mul :: "u64 \<Rightarrow> u64 \<Rightarrow> u64 option" where
  "i64_checked_mul a b = i64_of (sint a * sint b)"

definition i64_checked_div :: "u64 \<Rightarrow> u64 \<Rightarrow> u64 option" where
  "i64_checked_div a b = (if b = 0 then None else i64_of (sint a sdiv sint b))"

fun evaluate_unary :: "unary_op \<Rightarrow> sql_value \<Rightarrow> engine_error + sql_value" where
  "evaluate_unary UNot v = rbind (truth_from_value v) (\<lambda>t. Inr (truth_into_value (truth_not t)))"
| "evaluate_unary UIsNull v = Inr (Bool (is_null v))"
| "evaluate_unary UNegate Null = Inr Null"
| "evaluate_unary UNegate (Int64 i) =
     ok_or (map_option Int64 (i64_checked_neg i)) (Expression ''integer overflow during negation'')"
| "evaluate_unary UNegate _ = Inl (Core (TypeError ''cannot negate''))"

fun compare_op :: "binary_op \<Rightarrow> ordering \<Rightarrow> engine_error + bool" where
  "compare_op Eq r = Inr (r = OEqual)"
| "compare_op NotEq r = Inr (r \<noteq> OEqual)"
| "compare_op Less r = Inr (r = OLess)"
| "compare_op LessEq r = Inr (r \<noteq> OGreater)"
| "compare_op Greater r = Inr (r = OGreater)"
| "compare_op GreaterEq r = Inr (r \<noteq> OLess)"
| "compare_op _ r = Inl (Expression ''invalid comparison operator'')"

definition compare_values ::
  "sql_value \<Rightarrow> binary_op \<Rightarrow> sql_value \<Rightarrow> engine_error + sql_value" where
  "compare_values left opr right =
     rbind (map_err Core (checked_cmp left right)) (\<lambda>r.
       case r of None \<Rightarrow> Inr Null
       | Some r' \<Rightarrow> rbind (compare_op opr r') (\<lambda>b. Inr (Bool b)))"

text \<open>The caller restricts the operator, so the \<open>unreachable!\<close> arm is an empty result here.\<close>

fun arithmetic_op :: "binary_op \<Rightarrow> u64 \<Rightarrow> u64 \<Rightarrow> u64 option" where
  "arithmetic_op Add a b = i64_checked_add a b"
| "arithmetic_op Subtract a b = i64_checked_sub a b"
| "arithmetic_op Multiply a b = i64_checked_mul a b"
| "arithmetic_op Divide a b = i64_checked_div a b"
| "arithmetic_op _ a b = None"

fun arithmetic :: "sql_value \<Rightarrow> binary_op \<Rightarrow> sql_value \<Rightarrow> engine_error + sql_value" where
  "arithmetic Null _ _ = Inr Null"
| "arithmetic _ _ Null = Inr Null"
| "arithmetic (Int64 a) opr (Int64 b) =
     ok_or (map_option Int64 (arithmetic_op opr a b))
       (Expression ''integer overflow or division by zero'')"
| "arithmetic _ _ _ = Inl (Core (TypeError ''arithmetic requires INT64''))"

definition evaluate_binary ::
  "sql_value \<Rightarrow> binary_op \<Rightarrow> sql_value \<Rightarrow> engine_error + sql_value" where
  "evaluate_binary left opr right =
     (case opr of
        And \<Rightarrow> rbind (truth_from_value left) (\<lambda>a. rbind (truth_from_value right) (\<lambda>b.
                 Inr (truth_into_value (truth_and a b))))
      | Or \<Rightarrow> rbind (truth_from_value left) (\<lambda>a. rbind (truth_from_value right) (\<lambda>b.
                 Inr (truth_into_value (truth_or a b))))
      | Add \<Rightarrow> arithmetic left opr right
      | Subtract \<Rightarrow> arithmetic left opr right
      | Multiply \<Rightarrow> arithmetic left opr right
      | Divide \<Rightarrow> arithmetic left opr right
      | _ \<Rightarrow> compare_values left opr right)"

text \<open>The two guarded match arms of the binary case: does the left value decide the result?\<close>

fun short_circuit :: "binary_op \<Rightarrow> sql_value \<Rightarrow> engine_error + sql_value option" where
  "short_circuit And left = rbind (truth_from_value left) (\<lambda>t.
     Inr (if t = TFalse then Some (Bool False) else None))"
| "short_circuit Or left = rbind (truth_from_value left) (\<lambda>t.
     Inr (if t = TTrue then Some (Bool True) else None))"
| "short_circuit _ left = Inr None"

fun evaluate :: "expr \<Rightarrow> row \<Rightarrow> engine_error + sql_value" where
  "evaluate (Column i) r =
     (if i < length (row_values r) then Inr (row_values r ! i)
      else Inl (Expression ''column offset is outside row''))"
| "evaluate (Literal v) r = Inr v"
| "evaluate (Unary opr e) r = rbind (evaluate e r) (evaluate_unary opr)"
| "evaluate (Binary l opr e) r =
     rbind (evaluate l r) (\<lambda>left. rbind (short_circuit opr left) (\<lambda>decided.
       case decided of
         Some v \<Rightarrow> Inr v
       | None \<Rightarrow> rbind (evaluate e r) (evaluate_binary left opr)))"

definition evaluate_predicate :: "expr \<Rightarrow> row \<Rightarrow> engine_error + bool" where
  "evaluate_predicate e r =
     rbind (evaluate e r) (\<lambda>v. rbind (truth_from_value v) (\<lambda>t. Inr (truth_is_true t)))"

section \<open>Three-valued logic\<close>

text \<open>Kleene's logic is the lattice on \<open>False < Unknown < True\<close>.\<close>

fun truth_rank :: "truth \<Rightarrow> int" where
  "truth_rank TFalse = - 1"
| "truth_rank TUnknown = 0"
| "truth_rank TTrue = 1"

lemma truth_rank_inject: "truth_rank a = truth_rank b \<longleftrightarrow> a = b"
  by (cases a; cases b) simp_all

lemma truth_rank_ops:
  "truth_rank (truth_not a) = - truth_rank a"
  "truth_rank (truth_and a b) = min (truth_rank a) (truth_rank b)"
  "truth_rank (truth_or a b) = max (truth_rank a) (truth_rank b)"
  by (cases a; cases b; simp)+

lemma truth_into_from [simp]: "truth_from_value (truth_into_value t) = Inr t"
  by (cases t) simp_all

lemma truth_from_value_ok:
  "truth_from_value v = Inr t \<longleftrightarrow> v = truth_into_value t"
  by (cases v rule: truth_from_value.cases; cases t) simp_all

lemma truth_into_value_bool_or_null:
  "truth_into_value t = Null \<or> value_data_type (truth_into_value t) = Some DBool"
  by (cases t) simp_all

section \<open>Arithmetic is exact\<close>

lemma sint_fits: "fits_i64 (sint (a :: u64))"
  using sint_ge[of a] sint_lt[of a] by (simp add: fits_i64_def)

lemma i64_of_Some: "i64_of i = Some w \<longleftrightarrow> fits_i64 i \<and> sint w = i"
proof -
  have "fits_i64 i \<Longrightarrow> sint (word_of_int i :: u64) = i"
    by (simp add: fits_i64_def sint_sbintrunc' signed_take_bit_int_eq_self)
  then show ?thesis
    by (auto simp: i64_of_def word_of_int_eq_iff intro: signed_word_eqI)
qed

fun int_op :: "binary_op \<Rightarrow> int \<Rightarrow> int \<Rightarrow> int option" where
  "int_op Add a b = Some (a + b)"
| "int_op Subtract a b = Some (a - b)"
| "int_op Multiply a b = Some (a * b)"
| "int_op Divide a b = (if b = 0 then None else Some (a sdiv b))"
| "int_op _ a b = None"

lemma sint_0_iff: "sint (b :: u64) = 0 \<longleftrightarrow> b = 0"
  by (metis signed_word_eqI signed_0)

lemma arithmetic_op_exact:
  "arithmetic_op opr a b = Some w \<longleftrightarrow>
     (\<exists>i. int_op opr (sint a) (sint b) = Some i \<and> fits_i64 i \<and> sint w = i)"
  by (cases opr)
    (auto simp: i64_checked_add_def i64_checked_sub_def i64_checked_mul_def i64_checked_div_def
      i64_of_Some sint_0_iff)

section \<open>Declarative semantics\<close>

text \<open>
  The value of an expression as a relation.  Truth values are numbers, negative for false, zero for
  unknown and positive for true; conjunction is the minimum and disjunction the maximum.  A false
  left operand of AND and a true one of OR decide the result, whatever the right one does.
\<close>

definition kleene :: "int \<Rightarrow> sql_value" where
  "kleene x = (if x < 0 then Bool False else if x = 0 then Null else Bool True)"

fun relates :: "binary_op \<Rightarrow> sql_value \<Rightarrow> sql_value \<Rightarrow> bool option" where
  "relates Eq a b = Some (a = b)"
| "relates NotEq a b = Some (a \<noteq> b)"
| "relates Less a b = Some (value_less a b)"
| "relates LessEq a b = Some (value_less a b \<or> a = b)"
| "relates Greater a b = Some (value_less b a)"
| "relates GreaterEq a b = Some (value_less b a \<or> a = b)"
| "relates _ a b = None"

inductive evaluates :: "row \<Rightarrow> expr \<Rightarrow> sql_value \<Rightarrow> bool" for r where
  Column: "i < length (row_values r) \<Longrightarrow> evaluates r (Column i) (row_values r ! i)"
| Literal: "evaluates r (Literal v) v"
| Not: "evaluates r e (kleene x) \<Longrightarrow> evaluates r (Unary UNot e) (kleene (- x))"
| Is_null: "evaluates r e v \<Longrightarrow> evaluates r (Unary UIsNull e) (Bool (v = Null))"
| Negate_null: "evaluates r e Null \<Longrightarrow> evaluates r (Unary UNegate e) Null"
| Negate: "evaluates r e (Int64 a) \<Longrightarrow> sint w = - sint a \<Longrightarrow> evaluates r (Unary UNegate e) (Int64 w)"
| And_false: "evaluates r l (Bool False) \<Longrightarrow> evaluates r (Binary l And e) (Bool False)"
| And: "evaluates r l (kleene x) \<Longrightarrow> evaluates r e (kleene y) \<Longrightarrow> evaluates r (Binary l And e) (kleene (min x y))"
| Or_true: "evaluates r l (Bool True) \<Longrightarrow> evaluates r (Binary l Or e) (Bool True)"
| Or: "evaluates r l (kleene x) \<Longrightarrow> evaluates r e (kleene y) \<Longrightarrow> evaluates r (Binary l Or e) (kleene (max x y))"
| Compare_null: "evaluates r l a \<Longrightarrow> evaluates r e b \<Longrightarrow> relates opr a b \<noteq> None \<Longrightarrow> a = Null \<or> b = Null \<Longrightarrow>
    evaluates r (Binary l opr e) Null"
| Compare: "evaluates r l a \<Longrightarrow> evaluates r e b \<Longrightarrow> a \<noteq> Null \<Longrightarrow> value_data_type a = value_data_type b \<Longrightarrow>
    relates opr a b = Some c \<Longrightarrow> evaluates r (Binary l opr e) (Bool c)"
| Compute_null: "evaluates r l a \<Longrightarrow> evaluates r e b \<Longrightarrow> opr \<in> {Add, Subtract, Multiply, Divide} \<Longrightarrow>
    a = Null \<or> b = Null \<Longrightarrow> evaluates r (Binary l opr e) Null"
| Compute: "evaluates r l (Int64 a) \<Longrightarrow> evaluates r e (Int64 b) \<Longrightarrow>
    int_op opr (sint a) (sint b) = Some (sint w) \<Longrightarrow> evaluates r (Binary l opr e) (Int64 w)"

definition truth_of :: "int \<Rightarrow> truth" where
  "truth_of x = (if x < 0 then TFalse else if x = 0 then TUnknown else TTrue)"

lemma truth_of_kleene: "truth_into_value (truth_of x) = kleene x"
  by (simp add: truth_of_def kleene_def)

lemma truth_from_kleene [simp]: "truth_from_value (kleene x) = Inr (truth_of x)"
  by (simp add: truth_of_def kleene_def)

lemma truth_rank_kleene: "truth_into_value t = kleene (truth_rank t)"
  by (cases t) (simp_all add: kleene_def)

lemma kleene_ops:
  "truth_into_value (truth_not (truth_of x)) = kleene (- x)"
  "truth_into_value (truth_and (truth_of x) (truth_of y)) = kleene (min x y)"
  "truth_into_value (truth_or (truth_of x) (truth_of y)) = kleene (max x y)"
  by (auto simp: truth_of_def kleene_def)

lemma sint_inject: "sint (a :: u64) = sint b \<longleftrightarrow> a = b"
  by (auto intro: signed_word_eqI)

lemma compare_values_relates:
  assumes "relates opr a b \<noteq> None"
  shows "evaluate_binary a opr b = Inr v \<longleftrightarrow>
    (if a = Null \<or> b = Null then v = Null
     else value_data_type a = value_data_type b \<and> v = Bool (the (relates opr a b)))"
  using assms
  by (cases opr; cases a; cases b)
    (auto simp: evaluate_binary_def compare_values_def not_less order.order_iff_strict sint_inject)

lemma arithmetic_compute:
  "arithmetic a opr b = Inr v \<longleftrightarrow> (a = Null \<or> b = Null) \<and> v = Null
     \<or> (\<exists>i j w. a = Int64 i \<and> b = Int64 j \<and> v = Int64 w \<and> int_op opr (sint i) (sint j) = Some (sint w))"
  by (cases a; cases b) (auto simp: result_simps arithmetic_op_exact sint_fits)

lemma evaluates_evaluate: "evaluates r e v \<Longrightarrow> evaluate e r = Inr v"
proof (induction rule: evaluates.induct)
  case (Negate e a w)
  then have "i64_checked_neg a = Some w" using sint_fits[of w] by (simp add: i64_checked_neg_def i64_of_Some)
  with Negate show ?case by simp
next
  case (And l x e y)
  then show ?case by (auto simp: evaluate_binary_def kleene_ops) (auto simp: truth_of_def kleene_def split: if_splits)
next
  case (Or l x e y)
  then show ?case by (auto simp: evaluate_binary_def kleene_ops) (auto simp: truth_of_def kleene_def split: if_splits)
next
  case (Compare_null l a e b opr)
  then have "short_circuit opr a = Inr None" by (cases opr) auto
  with Compare_null show ?case by (simp add: compare_values_relates)
next
  case (Compare l a e b opr c)
  then have "short_circuit opr a = Inr None" "b \<noteq> Null" by (cases opr; auto)+
  with Compare show ?case by (simp add: compare_values_relates)
next
  case (Compute_null l a e b opr)
  then show ?case by (auto simp: evaluate_binary_def arithmetic_compute)
next
  case (Compute l a e b opr w)
  then show ?case by (cases opr) (auto simp: evaluate_binary_def arithmetic_compute simp del: arithmetic.simps)
qed (simp_all add: kleene_ops)

lemma unary_evaluates:
  assumes "evaluates r e a" and "evaluate_unary opr a = Inr v"
  shows "evaluates r (Unary opr e) v"
proof (cases opr)
  case UNot
  with assms(2) obtain t where t: "a = kleene (truth_rank t)" "v = kleene (- truth_rank t)"
    by (auto simp: result_simps truth_from_value_ok truth_rank_kleene truth_rank_ops)
  with assms(1) UNot show ?thesis using evaluates.Not by simp
next
  case UNegate
  show ?thesis
  proof (cases "a = Null")
    case True
    with assms UNegate show ?thesis using evaluates.Negate_null by simp
  next
    case False
    with assms(2) UNegate obtain i w where "a = Int64 i" "v = Int64 w" "sint w = - sint i"
      by (cases a) (auto simp: result_simps i64_checked_neg_def i64_of_Some)
    with assms(1) UNegate show ?thesis using evaluates.Negate by simp
  qed
next
  case UIsNull
  with assms(2) evaluates.Is_null[OF assms(1)] show ?thesis by auto
qed

lemma binary_evaluates:
  assumes "evaluates r l a" "evaluates r e b" and "evaluate_binary a opr b = Inr v"
  shows "evaluates r (Binary l opr e) v"
proof -
  consider "opr = And" | "opr = Or" | "opr \<in> {Add, Subtract, Multiply, Divide}" | "relates opr a b \<noteq> None"
    by (cases opr) auto
  then show ?thesis
  proof cases
    case 1
    with assms(3) obtain s t where "a = kleene (truth_rank s)" "b = kleene (truth_rank t)"
      "v = kleene (min (truth_rank s) (truth_rank t))"
      by (auto simp: evaluate_binary_def result_simps truth_from_value_ok truth_rank_kleene truth_rank_ops)
    with assms(1,2) 1 show ?thesis using evaluates.And by simp
  next
    case 2
    with assms(3) obtain s t where "a = kleene (truth_rank s)" "b = kleene (truth_rank t)"
      "v = kleene (max (truth_rank s) (truth_rank t))"
      by (auto simp: evaluate_binary_def result_simps truth_from_value_ok truth_rank_kleene truth_rank_ops)
    with assms(1,2) 2 show ?thesis using evaluates.Or by simp
  next
    case 3
    with assms(3) have "arithmetic a opr b = Inr v" by (auto simp: evaluate_binary_def)
    with 3 assms(1,2) show ?thesis
      by (auto simp: arithmetic_compute intro: evaluates.Compute_null evaluates.Compute)
  next
    case 4
    with assms show ?thesis
      by (auto simp: compare_values_relates split: if_splits intro: evaluates.Compare_null evaluates.Compare)
  qed
qed

text \<open>
  C5: \<open>evaluate\<close> computes exactly the declarative semantics: it returns a value if and only if the
  expression has that value.  AND and OR follow three-valued logic and do not look at their right
  operand once the left one decides, comparisons are those of the values, arithmetic is that of the
  integers.  In particular \<open>evaluate\<close> fails precisely on the expressions that have no value.
\<close>

theorem evaluate_exact: "evaluate e r = Inr v \<longleftrightarrow> evaluates r e v"
proof
  show "evaluates r e v" if "evaluate e r = Inr v"
    using that
  proof (induction e arbitrary: v)
    case (Unary opr e)
    then show ?case by (auto simp: result_simps intro: unary_evaluates)
  next
    case (Binary l opr e)
    then obtain a d where a: "evaluates r l a" and d: "short_circuit opr a = Inr d"
      and v: "(case d of Some v \<Rightarrow> Inr v | None \<Rightarrow> rbind (evaluate e r) (evaluate_binary a opr)) = Inr v"
      by (auto simp: result_simps)
    show ?case
    proof (cases d)
      case None
      with v Binary.IH(2) a show ?thesis by (auto simp: result_simps intro: binary_evaluates)
    next
      case (Some w)
      with d have "opr = And \<and> a = Bool False \<and> w = Bool False \<or> opr = Or \<and> a = Bool True \<and> w = Bool True"
        by (cases opr) (auto simp: result_simps truth_from_value_ok split: if_splits)
      with Some v a show ?thesis by (auto intro: evaluates.And_false evaluates.Or_true)
    qed
  qed (auto split: if_splits intro: evaluates.Column evaluates.Literal)
qed (rule evaluates_evaluate)

section \<open>Type soundness\<close>

definition value_conforms :: "sql_value \<Rightarrow> data_type option \<Rightarrow> bool" where
  "value_conforms v \<tau> \<longleftrightarrow> v = Null \<or> value_data_type v = \<tau>"

definition boolish :: "data_type option \<Rightarrow> bool" where
  "boolish \<tau> \<longleftrightarrow> \<tau> = None \<or> \<tau> = Some DBool"

definition intish :: "data_type option \<Rightarrow> bool" where
  "intish \<tau> \<longleftrightarrow> \<tau> = None \<or> \<tau> = Some DInt64"

definition comparable :: "data_type option \<Rightarrow> data_type option \<Rightarrow> bool" where
  "comparable \<sigma> \<tau> \<longleftrightarrow> \<sigma> = None \<or> \<tau> = None \<or> \<sigma> = \<tau>"

definition is_arithmetic :: "binary_op \<Rightarrow> bool" where
  "is_arithmetic opr \<longleftrightarrow> opr \<in> {Add, Subtract, Multiply, Divide}"

definition is_logical :: "binary_op \<Rightarrow> bool" where
  "is_logical opr \<longleftrightarrow> opr \<in> {And, Or}"

text \<open>
  The static type of an expression over columns of the given types; the inner option is empty
  for an expression that can only be NULL.
\<close>

fun expr_type :: "data_type list \<Rightarrow> expr \<Rightarrow> data_type option option" where
  "expr_type ts (Column i) = (if i < length ts then Some (Some (ts ! i)) else None)"
| "expr_type ts (Literal v) = Some (value_data_type v)"
| "expr_type ts (Unary opr e) = Option.bind (expr_type ts e) (\<lambda>\<tau>.
     case opr of
       UNot \<Rightarrow> if boolish \<tau> then Some (Some DBool) else None
     | UIsNull \<Rightarrow> Some (Some DBool)
     | UNegate \<Rightarrow> if intish \<tau> then Some (Some DInt64) else None)"
| "expr_type ts (Binary l opr e) = Option.bind (expr_type ts l) (\<lambda>\<sigma>.
     Option.bind (expr_type ts e) (\<lambda>\<tau>.
       if is_logical opr then if boolish \<sigma> \<and> boolish \<tau> then Some (Some DBool) else None
       else if is_arithmetic opr then if intish \<sigma> \<and> intish \<tau> then Some (Some DInt64) else None
       else if comparable \<sigma> \<tau> then Some (Some DBool) else None))"

definition is_arithmetic_error :: "engine_error \<Rightarrow> bool" where
  "is_arithmetic_error err \<longleftrightarrow>
     err = Expression ''integer overflow during negation''
     \<or> err = Expression ''integer overflow or division by zero''"

fun well_behaved :: "engine_error + sql_value \<Rightarrow> data_type option \<Rightarrow> bool" where
  "well_behaved (Inl err) \<tau> = is_arithmetic_error err"
| "well_behaved (Inr v) \<tau> = value_conforms v \<tau>"

lemma value_data_type_cases:
  "value_data_type v = Some DBool \<Longrightarrow> \<exists>b. v = Bool b"
  "value_data_type v = Some DInt64 \<Longrightarrow> \<exists>i. v = Int64 i"
  by (cases v; simp)+

lemma boolish_truth:
  assumes "value_conforms v \<tau>" "boolish \<tau>"
  obtains t where "v = truth_into_value t"
proof (cases "v = Null")
  case True
  then show ?thesis using that[of TUnknown] by simp
next
  case False
  then obtain b where "v = Bool b"
    using assms value_data_type_cases(1) by (auto simp: value_conforms_def boolish_def)
  then show ?thesis using that[of "if b then TTrue else TFalse"] by simp
qed

lemma intish_cases:
  assumes "value_conforms v \<tau>" "intish \<tau>"
  obtains "v = Null" | i where "v = Int64 i"
  using assms value_data_type_cases(2) by (auto simp: value_conforms_def intish_def)

lemma well_behaved_truth [simp]: "well_behaved (Inr (truth_into_value t)) (Some DBool)"
  using truth_into_value_bool_or_null[of t] by (simp add: value_conforms_def)

lemma unary_well_behaved:
  assumes "value_conforms v \<sigma>"
    and "(case opr of UNot \<Rightarrow> if boolish \<sigma> then Some (Some DBool) else None
          | UIsNull \<Rightarrow> Some (Some DBool)
          | UNegate \<Rightarrow> if intish \<sigma> then Some (Some DInt64) else None) = Some \<tau>"
  shows "well_behaved (evaluate_unary opr v) \<tau>"
proof (cases opr)
  case UNot
  then have "boolish \<sigma>" "\<tau> = Some DBool" using assms(2) by (auto split: if_splits)
  with UNot assms(1) show ?thesis by (auto elim!: boolish_truth simp del: well_behaved.simps)
next
  case UNegate
  then have "intish \<sigma>" "\<tau> = Some DInt64" using assms(2) by (auto split: if_splits)
  with assms(1) show ?thesis
    by (elim intish_cases)
      (auto simp: UNegate ok_or_def is_arithmetic_error_def value_conforms_def split: option.splits)
qed (use assms in \<open>simp add: value_conforms_def\<close>)

lemma arithmetic_well_behaved:
  assumes "value_conforms a \<sigma>" "value_conforms b \<tau>" "intish \<sigma>" "intish \<tau>"
  shows "well_behaved (arithmetic a opr b) (Some DInt64)"
  using assms(1,3) assms(2,4)
  by (elim intish_cases)
    (auto simp: ok_or_def is_arithmetic_error_def value_conforms_def split: option.splits)

lemma compare_well_behaved:
  assumes "value_conforms a \<sigma>" "value_conforms b \<tau>" "comparable \<sigma> \<tau>"
    and opr: "\<not> is_arithmetic opr" "\<not> is_logical opr"
  shows "well_behaved (compare_values a opr b) (Some DBool)"
proof -
  have "\<exists>r. checked_cmp a b = Inr r"
    unfolding checked_cmp_ok_iff using assms(1-3)
    by (auto simp: value_conforms_def comparable_def)
  moreover have opr_total: "\<exists>b. compare_op opr r = Inr b" for r
    using opr by (cases opr) (simp_all add: is_arithmetic_def is_logical_def)
  ultimately obtain r where r: "checked_cmp a b = Inr r" by blast
  show ?thesis
  proof (cases r)
    case (Some r')
    with opr_total[of r'] r show ?thesis by (auto simp: compare_values_def value_conforms_def)
  qed (simp add: r compare_values_def value_conforms_def)
qed

lemma binary_well_behaved:
  assumes a: "value_conforms a \<sigma>" and b: "value_conforms b \<tau>"
    and ty: "(if is_logical opr then if boolish \<sigma> \<and> boolish \<tau> then Some (Some DBool) else None
       else if is_arithmetic opr then if intish \<sigma> \<and> intish \<tau> then Some (Some DInt64) else None
       else if comparable \<sigma> \<tau> then Some (Some DBool) else None) = Some \<rho>"
  shows "well_behaved (evaluate_binary a opr b) \<rho>"
proof -
  consider "is_logical opr" | "is_arithmetic opr" | "\<not> is_logical opr" "\<not> is_arithmetic opr" by blast
  then show ?thesis
  proof cases
    case 1
    with ty have "boolish \<sigma>" "boolish \<tau>" and \<rho>: "\<rho> = Some DBool" by (auto split: if_splits)
    then obtain s t where "a = truth_into_value s" "b = truth_into_value t"
      using a b boolish_truth by metis
    with 1 \<rho> show ?thesis
      by (auto simp: is_logical_def evaluate_binary_def simp del: well_behaved.simps)
  next
    case 2
    with ty have "intish \<sigma>" "intish \<tau>" "\<rho> = Some DInt64"
      by (auto simp: is_logical_def is_arithmetic_def split: if_splits)
    with 2 arithmetic_well_behaved[OF a b, of opr] show ?thesis
      by (auto simp: is_arithmetic_def evaluate_binary_def)
  next
    case 3
    with ty have "comparable \<sigma> \<tau>" "\<rho> = Some DBool" by (auto split: if_splits)
    with 3 compare_well_behaved[OF a b, of opr] show ?thesis
      by (cases opr) (auto simp: is_arithmetic_def is_logical_def evaluate_binary_def)
  qed
qed

lemma short_circuit_well_behaved:
  assumes "value_conforms a \<sigma>" "is_logical opr \<longrightarrow> boolish \<sigma>"
  obtains "short_circuit opr a = Inr None"
    | b where "short_circuit opr a = Inr (Some (Bool b))" "is_logical opr"
proof (cases "is_logical opr")
  case True
  with assms obtain t where "a = truth_into_value t" by (auto elim: boolish_truth)
  with True that(1) that(2)[of True] that(2)[of False] show ?thesis
    by (cases t) (auto simp: is_logical_def)
next
  case False
  then have "short_circuit opr a = Inr None" by (cases opr) (simp_all add: is_logical_def)
  with that show ?thesis by blast
qed

definition row_conforms :: "data_type list \<Rightarrow> row \<Rightarrow> bool" where
  "row_conforms ts r \<longleftrightarrow> list_all2 (\<lambda>t v. value_conforms v (Some t)) ts (row_values r)"

text \<open>
  C6: type soundness.  Over a row whose cells have the declared column types or are NULL, a
  well-typed expression evaluates to NULL or a value of its static type; the only errors left
  are the two arithmetic ones (overflow and division by zero).
\<close>

theorem expr_type_sound:
  assumes "row_conforms ts r" "expr_type ts e = Some \<tau>"
  shows "well_behaved (evaluate e r) \<tau>"
  using assms(2)
proof (induction e arbitrary: \<tau>)
  case (Column i)
  with assms(1) show ?case
    by (auto simp: row_conforms_def list_all2_conv_all_nth split: if_splits)
next
  case (Literal v)
  then show ?case by (simp add: value_conforms_def)
next
  case (Unary opr e)
  then obtain \<sigma> where \<sigma>: "expr_type ts e = Some \<sigma>" by (auto simp: bind_eq_Some_conv)
  show ?case
  proof (cases "evaluate e r")
    case (Inl err)
    with Unary.IH[OF \<sigma>] show ?thesis by simp
  next
    case (Inr v)
    with Unary.IH[OF \<sigma>] Unary.prems \<sigma> unary_well_behaved[of v \<sigma> opr \<tau>] show ?thesis by simp
  qed
next
  case (Binary l opr e)
  then obtain \<sigma> \<rho> where ty: "expr_type ts l = Some \<sigma>" "expr_type ts e = Some \<rho>"
    by (auto simp: bind_eq_Some_conv)
  note IH = Binary.IH(1)[OF ty(1)] Binary.IH(2)[OF ty(2)]
  show ?case
  proof (cases "evaluate l r")
    case (Inl err)
    with IH show ?thesis by simp
  next
    case (Inr a)
    then have a: "value_conforms a \<sigma>" using IH(1) by simp
    have "is_logical opr \<longrightarrow> boolish \<sigma>" using Binary.prems ty by (auto split: if_splits)
    from a this show ?thesis
    proof (cases rule: short_circuit_well_behaved)
      case 1
      then show ?thesis
        using Inr IH(2) Binary.prems ty binary_well_behaved[OF a, of _ \<rho> opr \<tau>]
        by (cases "evaluate e r") auto
    next
      case (2 b)
      then show ?thesis using Inr Binary.prems ty by (auto simp: value_conforms_def split: if_splits)
    qed
  qed
qed

theorem expr_type_sound_witness:
  "well_behaved (evaluate (Binary (Column 0) Less (Literal (Int64 7))) \<lparr>row_values = [Int64 3]\<rparr>)
     (Some DBool)"
  by (rule expr_type_sound[of "[DInt64]"])
    (simp_all add: row_conforms_def value_conforms_def is_logical_def is_arithmetic_def comparable_def)

text \<open>
  C7: integer arithmetic is exact.  An arithmetic operator on two integers returns a value
  exactly when the mathematical result exists and fits a signed 64-bit integer, and then it
  returns that result; nothing ever wraps.
\<close>

theorem arithmetic_exact:
  "arithmetic (Int64 a) opr (Int64 b) = Inr v \<longleftrightarrow>
     (\<exists>i w. int_op opr (sint a) (sint b) = Some i \<and> fits_i64 i \<and> sint w = i \<and> v = Int64 w)"
  using arithmetic_op_exact[of opr a b] by (auto simp: result_simps)

end
