(* ===== verification/Engine_Query.thy ===== *)
theory Engine_Query
  imports Engine_Session Engine_Expr
begin

text \<open>
  Queries: \<open>crates/aster-engine/src/query.rs\<close> and \<open>Engine::execute_query\<close> with its sort keys.
  \<open>slice::sort_by\<close> of the standard library is the stable insertion sort \<open>sort_by\<close>; a stable
  sort by a total preorder has only one possible result.
\<close>

section \<open>Definitions\<close>

datatype scan_source = ScanTable u64 | SecondaryEq u64 sql_value

record order_by =
  ob_expression :: expr
  ob_descending :: bool
  ob_nulls_first :: bool

record query =
  q_source :: scan_source
  q_filter :: "expr option"
  q_projection :: "expr list"
  q_order_by :: "order_by list"
  q_offset :: nat
  q_limit :: "nat option"

definition query_table :: "u64 \<Rightarrow> query" where
  "query_table table_id = \<lparr>q_source = ScanTable table_id, q_filter = None, q_projection = [],
     q_order_by = [], q_offset = 0, q_limit = None\<rparr>"

datatype row_sort_key = NullKey | EncodedKey bytes

definition query_sort_key :: "sql_value \<Rightarrow> engine_error + row_sort_key" where
  "query_sort_key v =
     (if is_null v then Inr NullKey
      else rbind (map_err Core (encode_value v [])) (\<lambda>_. Inr (EncodedKey (encode_ordered v []))))"

fun compare_sort_key :: "row_sort_key \<Rightarrow> row_sort_key \<Rightarrow> order_by \<Rightarrow> ordering" where
  "compare_sort_key NullKey NullKey ob = OEqual"
| "compare_sort_key NullKey (EncodedKey _) ob = (if ob_nulls_first ob then OLess else OGreater)"
| "compare_sort_key (EncodedKey _) NullKey ob = (if ob_nulls_first ob then OGreater else OLess)"
| "compare_sort_key (EncodedKey l) (EncodedKey r) ob =
     (if ob_descending ob then ordering_reverse (ord_cmp l r) else ord_cmp l r)"

fun compare_sort_keys :: "row_sort_key list \<Rightarrow> row_sort_key list \<Rightarrow> order_by list \<Rightarrow> ordering" where
  "compare_sort_keys (l # ls) (r # rs) (ob # obs) =
     (if compare_sort_key l r ob \<noteq> OEqual then compare_sort_key l r ob else compare_sort_keys ls rs obs)"
| "compare_sort_keys _ _ _ = OEqual"

fun insert_by :: "('a \<Rightarrow> 'a \<Rightarrow> ordering) \<Rightarrow> 'a \<Rightarrow> 'a list \<Rightarrow> 'a list" where
  "insert_by cmp x [] = [x]"
| "insert_by cmp x (y # ys) = (if cmp x y = OGreater then y # insert_by cmp x ys else x # y # ys)"

definition sort_by :: "('a \<Rightarrow> 'a \<Rightarrow> ordering) \<Rightarrow> 'a list \<Rightarrow> 'a list" where
  "sort_by cmp xs = foldr (insert_by cmp) xs []"

definition query_scan :: "engine \<Rightarrow> transaction \<Rightarrow> query \<Rightarrow> engine_error + row list" where
  "query_scan e t q =
     (case q_source q of
        ScanTable table_id \<Rightarrow> scan_table e t table_id
      | SecondaryEq index_id v \<Rightarrow> scan_secondary e t index_id v)"

text \<open>A failing predicate counts as false first and is then evaluated again to report its error.\<close>

definition query_keeps :: "query \<Rightarrow> row \<Rightarrow> engine_error + bool" where
  "query_keeps q r =
     (case q_filter q of
        None \<Rightarrow> Inr True
      | Some f \<Rightarrow>
          if \<not> (case evaluate_predicate f r of Inl _ \<Rightarrow> False | Inr b \<Rightarrow> b)
          then rbind (evaluate_predicate f r) (\<lambda>_. Inr False)
          else Inr True)"

definition query_sort_keys :: "query \<Rightarrow> row \<Rightarrow> engine_error + row_sort_key list" where
  "query_sort_keys q r =
     try_map (\<lambda>ob. rbind (evaluate (ob_expression ob) r) query_sort_key) (q_order_by q)"

fun query_evaluate :: "query \<Rightarrow> row list \<Rightarrow> engine_error + (row \<times> row_sort_key list) list" where
  "query_evaluate q [] = Inr []"
| "query_evaluate q (r # rs) =
     rbind (query_keeps q r) (\<lambda>keep.
       if \<not> keep then query_evaluate q rs
       else rbind (query_sort_keys q r) (\<lambda>keys.
         rbind (query_evaluate q rs) (\<lambda>rest. Inr ((r, keys) # rest))))"

definition query_project :: "query \<Rightarrow> row \<times> row_sort_key list \<Rightarrow> engine_error + row" where
  "query_project q x =
     (if q_projection q = [] then Inr (fst x)
      else rbind (try_map (\<lambda>ex. evaluate ex (fst x)) (q_projection q)) (\<lambda>vs. Inr \<lparr>row_values = vs\<rparr>))"

definition execute_query :: "engine \<Rightarrow> transaction \<Rightarrow> query \<Rightarrow> engine_error + row list" where
  "execute_query e t q =
     rbind (query_scan e t q) (\<lambda>rows.
       rbind (query_evaluate q rows) (\<lambda>evaluated.
         let ordered = (if q_order_by q \<noteq> [] then
               sort_by (\<lambda>l r. compare_sort_keys (snd l) (snd r) (q_order_by q)) evaluated else evaluated);
             available = length ordered - q_offset q;
             n = min (case q_limit q of None \<Rightarrow> available | Some limit \<Rightarrow> limit) available
         in try_map (query_project q) (take n (drop (q_offset q) ordered))))"

section \<open>Stable sorting by a total preorder\<close>

locale comparator =
  fixes carrier :: "'a \<Rightarrow> bool"
    and cmp :: "'a \<Rightarrow> 'a \<Rightarrow> ordering"
  assumes cmp_reverse: "cmp y x = ordering_reverse (cmp x y)"
    and cmp_trans: "carrier x \<Longrightarrow> carrier y \<Longrightarrow> carrier z \<Longrightarrow>
      cmp x y \<noteq> OGreater \<Longrightarrow> cmp y z \<noteq> OGreater \<Longrightarrow> cmp x z \<noteq> OGreater"
begin

lemma cmp_flip: "cmp x y = OGreater \<longleftrightarrow> cmp y x = OLess"
  using cmp_reverse[of x y] by (cases "cmp y x") auto

lemma cmp_equal_sym: "cmp x y = OEqual \<longleftrightarrow> cmp y x = OEqual"
  using cmp_reverse[of x y] by (cases "cmp y x") auto

lemma cmp_equal_trans:
  assumes "carrier x" "carrier y" "carrier z" "cmp x y = OEqual" "cmp y z = OEqual"
  shows "cmp x z = OEqual"
  using assms cmp_trans[of x y z] cmp_trans[of z y x] cmp_flip[of z x] cmp_equal_sym[of x y] cmp_equal_sym[of y z]
  by (cases "cmp x z") auto

lemma set_insert_by: "set (insert_by cmp x xs) = insert x (set xs)"
  by (induction xs) auto

lemma mset_insert_by: "mset (insert_by cmp x xs) = add_mset x (mset xs)"
  by (induction xs) auto

lemma sorted_insert_by:
  assumes "sorted_wrt (\<lambda>a b. cmp a b \<noteq> OGreater) xs" "carrier x" "\<forall>y \<in> set xs. carrier y"
  shows "sorted_wrt (\<lambda>a b. cmp a b \<noteq> OGreater) (insert_by cmp x xs)"
  using assms
proof (induction xs)
  case (Cons y ys)
  show ?case
  proof (cases "cmp x y = OGreater")
    case True
    then have "cmp y x \<noteq> OGreater" by (simp add: cmp_flip)
    with True Cons show ?thesis by (auto simp: set_insert_by)
  next
    case False
    have "cmp x z \<noteq> OGreater" if "z \<in> set ys" for z
      using False that Cons.prems by (intro cmp_trans[of x y z]) auto
    with False Cons.prems show ?thesis by auto
  qed
qed simp

lemma filter_insert_by:
  assumes "carrier a" "carrier x" "\<forall>y \<in> set xs. carrier y"
  shows "filter (\<lambda>b. cmp a b = OEqual) (insert_by cmp x xs)
     = (if cmp a x = OEqual then x # filter (\<lambda>b. cmp a b = OEqual) xs else filter (\<lambda>b. cmp a b = OEqual) xs)"
  using assms
proof (induction xs)
  case (Cons y ys)
  have "\<not> (cmp a x = OEqual \<and> cmp a y = OEqual)" if "cmp x y = OGreater"
    using that Cons.prems cmp_equal_trans[of x a y] cmp_equal_sym[of a x] by auto
  then show ?case using Cons by auto
qed simp

lemma mset_sort_by: "mset (sort_by cmp xs) = mset xs"
  by (induction xs) (simp_all add: sort_by_def mset_insert_by)

lemma set_sort_by: "set (sort_by cmp xs) = set xs"
  using mset_sort_by by (rule mset_eq_setD)

lemma sorted_sort_by:
  assumes "\<forall>x \<in> set xs. carrier x"
  shows "sorted_wrt (\<lambda>a b. cmp a b \<noteq> OGreater) (sort_by cmp xs)"
  using assms
proof (induction xs)
  case (Cons x xs)
  have "sort_by cmp (x # xs) = insert_by cmp x (sort_by cmp xs)" by (simp add: sort_by_def)
  then show ?case using Cons by (simp add: sorted_insert_by set_sort_by)
qed (simp add: sort_by_def)

lemma stable_sort_by:
  assumes "carrier a" "\<forall>x \<in> set xs. carrier x"
  shows "filter (\<lambda>b. cmp a b = OEqual) (sort_by cmp xs) = filter (\<lambda>b. cmp a b = OEqual) xs"
  using assms(2)
proof (induction xs)
  case (Cons x xs)
  have "sort_by cmp (x # xs) = insert_by cmp x (sort_by cmp xs)" by (simp add: sort_by_def)
  then show ?case using Cons assms(1) by (simp add: filter_insert_by set_sort_by)
qed (simp add: sort_by_def)

end

lemma ordering_reverse_reverse [simp]: "ordering_reverse (ordering_reverse x) = x"
  by (cases x) simp_all

lemma ordering_reverse_eq [simp]:
  "ordering_reverse x = OLess \<longleftrightarrow> x = OGreater" "ordering_reverse x = OGreater \<longleftrightarrow> x = OLess"
  "ordering_reverse x = OEqual \<longleftrightarrow> x = OEqual"
  by (cases x; simp)+

lemma compare_sort_key_reverse: "compare_sort_key r l ob = ordering_reverse (compare_sort_key l r ob)"
  by (cases l; cases r) (auto simp: ord_cmp_reverse)

lemma compare_sort_key_equal: "compare_sort_key l r ob = OEqual \<longleftrightarrow> l = r"
  by (cases l; cases r) auto

lemma compare_sort_key_trans:
  assumes "compare_sort_key x y ob \<noteq> OGreater" "compare_sort_key y z ob \<noteq> OGreater"
  shows "compare_sort_key x z ob \<noteq> OGreater"
  using assms by (cases x; cases y; cases z) (auto split: if_splits)

lemma compare_sort_keys_Nil [simp]:
  "compare_sort_keys [] rs obs = OEqual" "compare_sort_keys ls [] obs = OEqual" "compare_sort_keys ls rs [] = OEqual"
  by (cases ls; cases rs; simp)+

lemma compare_sort_keys_reverse: "compare_sort_keys rs ls obs = ordering_reverse (compare_sort_keys ls rs obs)"
proof (induction ls rs obs rule: compare_sort_keys.induct)
  case (1 l ls r rs ob obs)
  then show ?case by (simp add: compare_sort_key_reverse[of r l ob])
qed simp_all

text \<open>Sort keys are compared only between lists of the same length, one key per order.\<close>

lemma compare_sort_keys_trans:
  assumes "compare_sort_keys xs ys obs \<noteq> OGreater" "compare_sort_keys ys zs obs \<noteq> OGreater"
    and "length xs = length obs" "length ys = length obs" "length zs = length obs"
  shows "compare_sort_keys xs zs obs \<noteq> OGreater"
  using assms
proof (induction obs arbitrary: xs ys zs)
  case (Cons ob obs)
  obtain x xs' y ys' z zs' where lists: "xs = x # xs'" "ys = y # ys'" "zs = z # zs'"
    using Cons.prems(3-5) by (auto simp: length_Suc_conv)
  have le: "compare_sort_key x y ob \<noteq> OGreater" "compare_sort_key y z ob \<noteq> OGreater"
    using Cons.prems(1,2) by (auto simp: lists split: if_splits)
  show ?case
  proof (cases "compare_sort_key x z ob = OEqual")
    case True
    then have "x = z" by (simp add: compare_sort_key_equal)
    with le have "x = y" using compare_sort_key_reverse[of y x ob] compare_sort_key_equal[of x y ob]
      by (cases "compare_sort_key x y ob") auto
    then show ?thesis using Cons.IH[of xs' ys' zs'] Cons.prems lists \<open>x = z\<close>
      by (auto simp: compare_sort_key_equal)
  next
    case False
    then show ?thesis using compare_sort_key_trans[OF le] by (simp add: lists)
  qed
qed simp

interpretation by_keys: comparator "\<lambda>x :: 'a \<times> row_sort_key list. length (snd x) = length obs"
  "\<lambda>x y. compare_sort_keys (snd x) (snd y) obs" for obs
proof
  show "compare_sort_keys (snd y) (snd x) obs = ordering_reverse (compare_sort_keys (snd x) (snd y) obs)"
    for x y :: "'a \<times> row_sort_key list" by (rule compare_sort_keys_reverse)
  show "compare_sort_keys (snd x) (snd z) obs \<noteq> OGreater"
    if "length (snd x) = length obs" "length (snd y) = length obs" "length (snd z) = length obs"
      "compare_sort_keys (snd x) (snd y) obs \<noteq> OGreater" "compare_sort_keys (snd y) (snd z) obs \<noteq> OGreater"
    for x y z :: "'a \<times> row_sort_key list" by (rule compare_sort_keys_trans[OF that(4,5,1,2,3)])
qed

section \<open>What a query returns\<close>

definition query_passes :: "query \<Rightarrow> row \<Rightarrow> bool" where
  "query_passes q r \<longleftrightarrow> (case q_filter q of None \<Rightarrow> True | Some f \<Rightarrow> evaluate f r = Inr (Bool True))"

text \<open>
  The order a query asks for, on the values of its order expressions: the first expression on which
  two rows differ decides.  Where NULL stands depends on \<open>ob_nulls_first\<close> alone; other values stand
  in the order of values, or in its reverse for \<open>ob_descending\<close>.
\<close>

definition order_value :: "order_by \<Rightarrow> row \<Rightarrow> sql_value" where
  "order_value ob r = projr (evaluate (ob_expression ob) r)"

definition value_before :: "order_by \<Rightarrow> sql_value \<Rightarrow> sql_value \<Rightarrow> bool" where
  "value_before ob v w \<longleftrightarrow>
     (if v = Null \<or> w = Null then v \<noteq> w \<and> (v = Null \<longleftrightarrow> ob_nulls_first ob)
      else if ob_descending ob then value_less w v else value_less v w)"

fun row_before :: "order_by list \<Rightarrow> row \<Rightarrow> row \<Rightarrow> bool" where
  "row_before [] a b \<longleftrightarrow> False"
| "row_before (ob # obs) a b \<longleftrightarrow> value_before ob (order_value ob a) (order_value ob b)
     \<or> order_value ob a = order_value ob b \<and> row_before obs a b"

definition row_tied :: "order_by list \<Rightarrow> row \<Rightarrow> row \<Rightarrow> bool" where
  "row_tied obs a b \<longleftrightarrow> (\<forall>ob \<in> set obs. order_value ob a = order_value ob b)"

definition row_projected :: "query \<Rightarrow> row \<Rightarrow> row \<Rightarrow> bool" where
  "row_projected q r s \<longleftrightarrow> (if q_projection q = [] then s = r
     else list_all2 (\<lambda>ex v. evaluate ex r = Inr v) (q_projection q) (row_values s))"

lemma query_sort_key_Inr:
  "query_sort_key v = Inr k \<Longrightarrow> k = (if v = Null then NullKey else EncodedKey (encode_ordered v []))"
  by (cases v) (auto simp: query_sort_key_def result_simps simp del: encode_ordered.simps)

lemma compare_sort_key_values:
  assumes "query_sort_key v = Inr k" "query_sort_key w = Inr l"
  shows "compare_sort_key k l ob = OLess \<longleftrightarrow> value_before ob v w" "k = l \<longleftrightarrow> v = w"
  using query_sort_key_Inr[OF assms(1)] query_sort_key_Inr[OF assms(2)]
  by (simp_all add: value_before_def encode_ordered_less_iff encode_ordered_inject del: encode_ordered.simps)

lemma compare_sort_keys_rows:
  assumes "try_map (\<lambda>ob. rbind (evaluate (ob_expression ob) a) query_sort_key) obs = Inr ks"
    and "try_map (\<lambda>ob. rbind (evaluate (ob_expression ob) b) query_sort_key) obs = Inr ls"
  shows "compare_sort_keys ks ls obs = OLess \<longleftrightarrow> row_before obs a b"
    "compare_sort_keys ks ls obs = OEqual \<longleftrightarrow> row_tied obs a b"
proof -
  have "(compare_sort_keys ks ls obs = OLess \<longleftrightarrow> row_before obs a b)
    \<and> (compare_sort_keys ks ls obs = OEqual \<longleftrightarrow> row_tied obs a b)"
    using assms
  proof (induction obs arbitrary: ks ls)
    case (Cons ob obs)
    from Cons.prems obtain v w k l ks' ls' where
      v: "evaluate (ob_expression ob) a = Inr v" "query_sort_key v = Inr k" and
      w: "evaluate (ob_expression ob) b = Inr w" "query_sort_key w = Inr l" and
      rest: "try_map (\<lambda>ob. rbind (evaluate (ob_expression ob) a) query_sort_key) obs = Inr ks'"
        "try_map (\<lambda>ob. rbind (evaluate (ob_expression ob) b) query_sort_key) obs = Inr ls'"
        "ks = k # ks'" "ls = l # ls'"
      by (auto simp: rbind_eq_Inr)
    have "order_value ob a = v" "order_value ob b = w" using v(1) w(1) by (simp_all add: order_value_def)
    then show ?case
      using Cons.IH[OF rest(1,2)] compare_sort_key_values[OF v(2) w(2)] compare_sort_key_equal[of k l ob]
      by (auto simp: rest(3,4) row_tied_def value_before_def)
  qed (simp add: row_tied_def)
  then show "compare_sort_keys ks ls obs = OLess \<longleftrightarrow> row_before obs a b"
    "compare_sort_keys ks ls obs = OEqual \<longleftrightarrow> row_tied obs a b" by blast+
qed

lemma query_project_Inr: "query_project q x = Inr s \<Longrightarrow> row_projected q (fst x) s"
  by (auto simp: query_project_def row_projected_def rbind_eq_Inr try_map_eq_Inr split: if_splits)

lemma evaluate_predicate_True: "evaluate_predicate f r = Inr True \<longleftrightarrow> evaluate f r = Inr (Bool True)"
proof (cases "evaluate f r")
  case (Inr v)
  then show ?thesis by (cases v rule: truth_from_value.cases) (auto simp: evaluate_predicate_def truth_is_true_def)
qed (simp add: evaluate_predicate_def)

lemma query_keeps_Inr: "query_keeps q r = Inr b \<Longrightarrow> b \<longleftrightarrow> query_passes q r"
  by (auto simp: query_keeps_def query_passes_def evaluate_predicate_True[symmetric] result_simps split: option.splits if_splits sum.splits)

lemma query_evaluate_Inr:
  assumes "query_evaluate q rows = Inr ev"
  shows "map fst ev = filter (query_passes q) rows" "\<forall>x \<in> set ev. query_sort_keys q (fst x) = Inr (snd x)"
proof -
  have "map fst ev = filter (query_passes q) rows \<and> (\<forall>x \<in> set ev. query_sort_keys q (fst x) = Inr (snd x))"
    using assms
  proof (induction rows arbitrary: ev)
    case (Cons r rows)
    then obtain keep where keep: "query_keeps q r = Inr keep" by (auto simp: rbind_eq_Inr)
    with Cons show ?case
      using query_keeps_Inr[OF keep] by (cases keep) (fastforce simp: rbind_eq_Inr)+
  qed simp
  then show "map fst ev = filter (query_passes q) rows" "\<forall>x \<in> set ev. query_sort_keys q (fst x) = Inr (snd x)"
    by blast+
qed

lemma query_sort_keys_length: "query_sort_keys q r = Inr ks \<Longrightarrow> length ks = length (q_order_by q)"
  by (auto simp: query_sort_keys_def try_map_eq_Inr dest: list_all2_lengthD)

definition query_ordered :: "query \<Rightarrow> (row \<times> row_sort_key list) list \<Rightarrow> (row \<times> row_sort_key list) list" where
  "query_ordered q ev = (if q_order_by q \<noteq> [] then
     sort_by (\<lambda>l r. compare_sort_keys (snd l) (snd r) (q_order_by q)) ev else ev)"

definition query_page :: "query \<Rightarrow> 'a list \<Rightarrow> 'a list" where
  "query_page q xs = (case q_limit q of None \<Rightarrow> drop (q_offset q) xs | Some n \<Rightarrow> take n (drop (q_offset q) xs))"

lemma query_page_take:
  "take (min (case q_limit q of None \<Rightarrow> length xs - q_offset q | Some n \<Rightarrow> n) (length xs - q_offset q))
     (drop (q_offset q) xs) = query_page q xs"
  by (auto simp: query_page_def min_def split: option.split)

lemma execute_query_Inr:
  "execute_query e t q = Inr out \<longleftrightarrow> (\<exists>rows ev. query_scan e t q = Inr rows \<and> query_evaluate q rows = Inr ev
     \<and> list_all2 (\<lambda>x r. query_project q x = Inr r) (query_page q (query_ordered q ev)) out)"
  unfolding execute_query_def Let_def query_ordered_def[symmetric] query_page_take rbind_eq_Inr try_map_eq_Inr
  by blast

lemma query_ordered_spec:
  assumes "query_evaluate q rows = Inr ev"
  shows "mset (query_ordered q ev) = mset ev"
    and "sorted_wrt (\<lambda>x y. compare_sort_keys (snd x) (snd y) (q_order_by q) \<noteq> OGreater) (query_ordered q ev)"
    and "x \<in> set ev \<Longrightarrow> filter (\<lambda>y. compare_sort_keys (snd x) (snd y) (q_order_by q) = OEqual) (query_ordered q ev)
      = filter (\<lambda>y. compare_sort_keys (snd x) (snd y) (q_order_by q) = OEqual) ev"
proof -
  have len: "\<forall>x \<in> set ev. length (snd x) = length (q_order_by q)"
    using query_evaluate_Inr(2)[OF assms] query_sort_keys_length by fastforce
  show "mset (query_ordered q ev) = mset ev" by (simp add: query_ordered_def by_keys.mset_sort_by)
  show "sorted_wrt (\<lambda>x y. compare_sort_keys (snd x) (snd y) (q_order_by q) \<noteq> OGreater) (query_ordered q ev)"
    using by_keys.sorted_sort_by[OF len] by (simp add: query_ordered_def sorted_wrt_true)
  show "filter (\<lambda>y. compare_sort_keys (snd x) (snd y) (q_order_by q) = OEqual) (query_ordered q ev)
      = filter (\<lambda>y. compare_sort_keys (snd x) (snd y) (q_order_by q) = OEqual) ev" if "x \<in> set ev"
    using by_keys.stable_sort_by[OF _ len] len that by (simp add: query_ordered_def)
qed

text \<open>
  C24: queries.  A query returns the projection of a page of one list.  The list has the rows of the
  scan whose filter evaluates to TRUE, each as often as the scan has it.  No row stands before one
  that the ORDER BY puts in front of it: the first order expression with different values decides,
  ascending or descending as asked, NULLs first or last as asked.  Rows with equal values of all
  order expressions keep the order of the scan.  The page starts at the offset and has at most the
  limit, and each of its rows is replaced by the values of the projection, if there is one.
\<close>

theorem query_result:
  assumes "execute_query e t q = Inr out" "query_scan e t q = Inr rows"
  shows "\<exists>ord. mset ord = mset (filter (query_passes q) rows)
    \<and> sorted_wrt (\<lambda>a b. \<not> row_before (q_order_by q) b a) ord
    \<and> (\<forall>a \<in> set ord. filter (row_tied (q_order_by q) a) ord
         = filter (row_tied (q_order_by q) a) (filter (query_passes q) rows))
    \<and> list_all2 (row_projected q) (query_page q ord) out"
proof -
  let ?obs = "q_order_by q"
  obtain ev where ev: "query_evaluate q rows = Inr ev"
    and out: "list_all2 (\<lambda>x r. query_project q x = Inr r) (query_page q (query_ordered q ev)) out"
    using assms by (auto simp: execute_query_Inr)
  let ?o = "query_ordered q ev" and ?cmp = "\<lambda>x y. compare_sort_keys (snd x) (snd y) ?obs"
  note rows = query_evaluate_Inr[OF ev] and ord = query_ordered_spec[OF ev]
  have sets: "set ?o = set ev" using ord(1) by (rule mset_eq_setD)
  have cmp: "?cmp x y = OLess \<longleftrightarrow> row_before ?obs (fst x) (fst y)" "?cmp x y = OEqual \<longleftrightarrow> row_tied ?obs (fst x) (fst y)"
    if "x \<in> set ev" "y \<in> set ev" for x y
    using rows(2) that by (intro compare_sort_keys_rows; simp add: query_sort_keys_def)+
  have fil: "filter (row_tied ?obs (fst x)) (map fst ys) = map fst (filter (\<lambda>y. ?cmp x y = OEqual) ys)"
    if "x \<in> set ev" "set ys \<subseteq> set ev" for x ys
    using that cmp by (induction ys) auto
  have "list_all2 (\<lambda>x. row_projected q (fst x)) (query_page q ?o) out"
    using out by (rule list_all2_mono) (rule query_project_Inr)
  then have "list_all2 (row_projected q) (query_page q (map fst ?o)) out"
    by (simp add: query_page_def drop_map take_map list.rel_map split: option.splits)
  moreover have "mset (map fst ?o) = mset (filter (query_passes q) rows)"
    using arg_cong[OF ord(1), of "image_mset fst"] rows(1) by (metis mset_map)
  moreover have "sorted_wrt (\<lambda>a b. \<not> row_before ?obs b a) (map fst ?o)"
    unfolding sorted_wrt_map using ord(2)
  proof (rule sorted_wrt_mono_rel[rotated])
    show "\<not> row_before ?obs (fst y) (fst x)" if "x \<in> set ?o" "y \<in> set ?o" "?cmp x y \<noteq> OGreater" for x y
      using cmp(1)[of y x] that compare_sort_keys_reverse[of "snd y" "snd x" ?obs] by (simp add: sets)
  qed
  moreover have "filter (row_tied ?obs a) (map fst ?o) = filter (row_tied ?obs a) (filter (query_passes q) rows)"
    if "a \<in> set (map fst ?o)" for a
  proof -
    from that obtain x where x: "x \<in> set ev" "a = fst x" using sets by auto
    show ?thesis
      using fil[OF x(1), of ?o] fil[OF x(1), of ev] ord(3)[OF x(1)] sets by (simp add: x(2) rows(1)[symmetric])
  qed
  ultimately show ?thesis by blast
qed

definition ex_query :: query where
  "ex_query = (query_table 1)\<lparr>q_order_by := [\<lparr>ob_expression = Column 0, ob_descending = True, ob_nulls_first = False\<rparr>]\<rparr>"

theorem query_result_witness:
  "\<exists>out rows ord. execute_query ex2 ex_txn' ex_query = Inr out \<and> query_scan ex2 ex_txn' ex_query = Inr rows
    \<and> mset ord = mset (filter (query_passes ex_query) rows)
    \<and> sorted_wrt (\<lambda>a b. \<not> row_before (q_order_by ex_query) b a) ord
    \<and> list_all2 (row_projected ex_query) (query_page ex_query ord) out"
proof -
  have "isl (execute_query ex2 ex_txn' ex_query) = False" by code_simp
  then obtain out where out: "execute_query ex2 ex_txn' ex_query = Inr out" using sum.exhaust_sel isl_def by metis
  then obtain rows where rows: "query_scan ex2 ex_txn' ex_query = Inr rows" by (auto simp: execute_query_Inr)
  from query_result[OF out rows] out rows show ?thesis by blast
qed

end
