(* ===== verification/Engine_Snapshot.thy ===== *)
theory Engine_Snapshot
  imports Engine_Session
begin

text \<open>
  Snapshots of \<open>crates/aster-engine/src/engine.rs\<close>: \<open>Engine::snapshot\<close>, \<open>Engine::from_snapshot\<close>
  and the decomposition into independently stored records.  The serialisation of one value by
  \<open>serde_json\<close> is a parameter, \<open>snapshot_serde\<close>; what is relied on is that decoding inverts
  encoding.
\<close>

section \<open>Definitions\<close>

definition SNAPSHOT_FORMAT :: u32 where "SNAPSHOT_FORMAT = 2"
definition MAX_SNAPSHOT_RECORD_BYTES :: nat where "MAX_SNAPSHOT_RECORD_BYTES = 64 * 1024 * 1024"
definition RECORD_META :: u8 where "RECORD_META = 0"
definition RECORD_CATALOG :: u8 where "RECORD_CATALOG = 1"
definition RECORD_PRIMARY :: u8 where "RECORD_PRIMARY = 2"
definition RECORD_SECONDARY :: u8 where "RECORD_SECONDARY = 3"
definition RECORD_CLIENT :: u8 where "RECORD_CLIENT = 4"

lemmas record_kinds = RECORD_META_def RECORD_CATALOG_def RECORD_PRIMARY_def RECORD_SECONDARY_def RECORD_CLIENT_def

record primary_entry =
  pe_table_id :: u64
  pe_primary_key :: bytes
  pe_versions :: "row_version list"

record secondary_entry =
  se_key :: secondary_key
  se_versions :: "secondary_version list"

record client_entry =
  ce_client_id :: bytes
  ce_record :: client_record

record engine_snapshot =
  sn_format :: u32
  sn_catalog :: catalog
  sn_primary :: "primary_entry list"
  sn_secondary :: "secondary_entry list"
  sn_clients :: "client_entry list"
  sn_last_applied :: u64
  sn_last_apply_hash :: "bytes option"
  sn_last_apply_outcome :: "apply_outcome option"
  sn_retained_floor :: u64
  sn_next_txn_id :: u64
  sn_stats :: engine_stats

record snapshot_record =
  sr_kind :: u8
  sr_key :: bytes
  sr_value :: bytes

record snapshot_meta =
  me_format :: u32
  me_last_applied :: u64
  me_last_apply_hash :: "bytes option"
  me_last_apply_outcome :: "apply_outcome option"
  me_retained_floor :: u64
  me_next_txn_id :: u64
  me_stats :: engine_stats

text \<open>\<open>serde_json::to_vec\<close> and \<open>from_slice\<close> at the five record types.\<close>

record snapshot_serde =
  enc_meta :: "snapshot_meta \<Rightarrow> bytes option"
  dec_meta :: "bytes \<Rightarrow> snapshot_meta option"
  enc_catalog :: "catalog \<Rightarrow> bytes option"
  dec_catalog :: "bytes \<Rightarrow> catalog option"
  enc_primary :: "primary_entry \<Rightarrow> bytes option"
  dec_primary :: "bytes \<Rightarrow> primary_entry option"
  enc_secondary :: "secondary_entry \<Rightarrow> bytes option"
  dec_secondary :: "bytes \<Rightarrow> secondary_entry option"
  enc_client :: "client_entry \<Rightarrow> bytes option"
  dec_client :: "bytes \<Rightarrow> client_entry option"

definition serde_ok :: "snapshot_serde \<Rightarrow> bool" where
  "serde_ok sd \<longleftrightarrow>
     (\<forall>x b. enc_meta sd x = Some b \<longrightarrow> dec_meta sd b = Some x)
     \<and> (\<forall>x b. enc_catalog sd x = Some b \<longrightarrow> dec_catalog sd b = Some x)
     \<and> (\<forall>x b. enc_primary sd x = Some b \<longrightarrow> dec_primary sd b = Some x)
     \<and> (\<forall>x b. enc_secondary sd x = Some b \<longrightarrow> dec_secondary sd b = Some x)
     \<and> (\<forall>x b. enc_client sd x = Some b \<longrightarrow> dec_client sd b = Some x)"

definition engine_snapshot_of :: "engine \<Rightarrow> engine_snapshot" where
  "engine_snapshot_of e =
     \<lparr>sn_format = SNAPSHOT_FORMAT, sn_catalog = eng_catalog e,
      sn_primary = map (\<lambda>(key, versions). \<lparr>pe_table_id = lk_table_id key,
        pe_primary_key = lk_primary_key key, pe_versions = versions\<rparr>) (bt_entries (eng_primary e)),
      sn_secondary = map (\<lambda>(key, versions). \<lparr>se_key = key, se_versions = versions\<rparr>)
        (bt_entries (eng_secondary e)),
      sn_clients = map (\<lambda>(client_id, r). \<lparr>ce_client_id = client_id, ce_record = r\<rparr>)
        (bt_entries (eng_clients e)),
      sn_last_applied = last_applied e, sn_last_apply_hash = last_apply_hash e,
      sn_last_apply_outcome = last_apply_outcome e, sn_retained_floor = retained_floor e,
      sn_next_txn_id = next_txn_id e, sn_stats = eng_stats e\<rparr>"

definition load_primary ::
  "u64 \<Rightarrow> (logical_key, row_version list) btmap \<Rightarrow> primary_entry
     \<Rightarrow> engine_error + (logical_key, row_version list) btmap" where
  "load_primary bnd m entry =
     rbind (validate_row_versions (pe_versions entry) bnd) (\<lambda>_.
       let key = LogicalKey (pe_table_id entry) (pe_primary_key entry) in
       if bt_contains m key then Inl (InvalidSnapshot ''duplicate primary version chain'')
       else Inr (bt_insert key (pe_versions entry) m))"

definition load_secondary ::
  "catalog \<Rightarrow> u64 \<Rightarrow> (secondary_key, secondary_version list) btmap \<Rightarrow> secondary_entry
     \<Rightarrow> engine_error + (secondary_key, secondary_version list) btmap" where
  "load_secondary c bnd m entry =
     rbind (validate_secondary_versions (se_versions entry) bnd) (\<lambda>_.
       if catalog_index c (sk_index_id (se_key entry)) = None
       then Inl (InvalidSnapshot ''secondary chain references missing index'')
       else if bt_contains m (se_key entry)
       then Inl (InvalidSnapshot ''duplicate secondary version chain'')
       else Inr (bt_insert (se_key entry) (se_versions entry) m))"

definition load_client ::
  "(bytes, client_record) btmap \<Rightarrow> client_entry \<Rightarrow> engine_error + (bytes, client_record) btmap" where
  "load_client m entry =
     (if cr_sequence (ce_record entry) = 0
      then Inl (InvalidSnapshot ''client sequence zero cannot be durable'')
      else if bt_contains m (ce_client_id entry) then Inl (InvalidSnapshot ''duplicate client record'')
      else Inr (bt_insert (ce_client_id entry) (ce_record entry) m))"

definition from_snapshot :: "engine_snapshot \<Rightarrow> engine_error + engine" where
  "from_snapshot s =
     (if sn_format s \<noteq> SNAPSHOT_FORMAT then Inl (InvalidSnapshot ''unsupported engine snapshot format'')
      else rbind (catalog_validate (sn_catalog s)) (\<lambda>_.
        if sn_retained_floor s > sn_last_applied s
        then Inl (InvalidSnapshot ''retained floor exceeds last applied index'')
        else if (sn_last_applied s = 0) \<noteq> (sn_last_apply_hash s = None \<and> sn_last_apply_outcome s = None)
        then Inl (InvalidSnapshot ''last apply metadata is inconsistent'')
        else if sn_last_applied s > 0 \<and> (sn_last_apply_hash s = None \<or> sn_last_apply_outcome s = None)
        then Inl (InvalidSnapshot ''last apply metadata is incomplete'')
        else
          rbind (try_fold (load_primary (sn_last_applied s)) bt_empty (sn_primary s)) (\<lambda>primary.
          rbind (try_fold (load_secondary (sn_catalog s) (sn_last_applied s)) bt_empty (sn_secondary s)) (\<lambda>secondary.
          rbind (try_fold load_client bt_empty (sn_clients s)) (\<lambda>clients.
            Inr (refresh_version_stats
              \<lparr>eng_catalog = sn_catalog s, eng_primary = primary, eng_secondary = secondary,
               eng_clients = clients, last_applied = sn_last_applied s,
               last_apply_hash = sn_last_apply_hash s, last_apply_outcome = sn_last_apply_outcome s,
               retained_floor = sn_retained_floor s, next_txn_id = max (sn_next_txn_id s) 1,
               eng_stats = sn_stats s\<rparr>))))))"

section \<open>Records\<close>

definition validate_record_size :: "snapshot_record \<Rightarrow> engine_error + unit" where
  "validate_record_size r =
     (if length (sr_key r) > MAX_SNAPSHOT_RECORD_BYTES \<or> length (sr_value r) > MAX_SNAPSHOT_RECORD_BYTES
      then Inl (InvalidSnapshot ''logical snapshot record exceeds byte limit'')
      else Inr ())"

definition snapshot_record_new :: "u8 \<Rightarrow> bytes \<Rightarrow> bytes option \<Rightarrow> engine_error + snapshot_record" where
  "snapshot_record_new kind key encoded =
     rbind (ok_or encoded (InvalidSnapshot ''record encode failed'')) (\<lambda>v.
       let r = \<lparr>sr_kind = kind, sr_key = key, sr_value = v\<rparr> in
       rbind (validate_record_size r) (\<lambda>_. Inr r))"

definition decode_snapshot_record :: "(bytes \<Rightarrow> 'a option) \<Rightarrow> snapshot_record \<Rightarrow> engine_error + 'a" where
  "decode_snapshot_record dec r = ok_or (dec (sr_value r)) (InvalidSnapshot ''record decode failed'')"

definition primary_record_key :: "primary_entry \<Rightarrow> engine_error + bytes" where
  "primary_record_key entry =
     (if length (pe_primary_key entry) < 2 ^ 32
      then Inr (u64_to_be (pe_table_id entry) @ u32_to_be (of_nat (length (pe_primary_key entry)))
                @ pe_primary_key entry)
      else Inl (InvalidSnapshot ''primary snapshot key is too large''))"

definition secondary_record_key :: "secondary_key \<Rightarrow> engine_error + bytes" where
  "secondary_record_key k =
     (if length (sk_secondary_value k) < 2 ^ 32
      then if length (sk_primary_key k) < 2 ^ 32
        then Inr (u64_to_be (sk_index_id k) @ u32_to_be (of_nat (length (sk_secondary_value k)))
                  @ sk_secondary_value k @ u32_to_be (of_nat (length (sk_primary_key k))) @ sk_primary_key k)
        else Inl (InvalidSnapshot ''primary snapshot key is too large'')
      else Inl (InvalidSnapshot ''secondary snapshot key is too large''))"

definition snapshot_meta_of :: "engine_snapshot \<Rightarrow> snapshot_meta" where
  "snapshot_meta_of s =
     \<lparr>me_format = sn_format s, me_last_applied = sn_last_applied s,
      me_last_apply_hash = sn_last_apply_hash s, me_last_apply_outcome = sn_last_apply_outcome s,
      me_retained_floor = sn_retained_floor s, me_next_txn_id = sn_next_txn_id s, me_stats = sn_stats s\<rparr>"

definition record_order :: "snapshot_record \<Rightarrow> u8 \<times> bytes" where
  "record_order r = (sr_kind r, sr_key r)"

definition to_records :: "snapshot_serde \<Rightarrow> engine_snapshot \<Rightarrow> engine_error + snapshot_record list" where
  "to_records sd s =
     rbind (snapshot_record_new RECORD_META [] (enc_meta sd (snapshot_meta_of s))) (\<lambda>meta.
     rbind (snapshot_record_new RECORD_CATALOG [] (enc_catalog sd (sn_catalog s))) (\<lambda>cat.
     rbind (try_map (\<lambda>entry. rbind (primary_record_key entry) (\<lambda>key.
              snapshot_record_new RECORD_PRIMARY key (enc_primary sd entry))) (sn_primary s)) (\<lambda>ps.
     rbind (try_map (\<lambda>entry. rbind (secondary_record_key (se_key entry)) (\<lambda>key.
              snapshot_record_new RECORD_SECONDARY key (enc_secondary sd entry))) (sn_secondary s)) (\<lambda>ss.
     rbind (try_map (\<lambda>entry. snapshot_record_new RECORD_CLIENT (ce_client_id entry) (enc_client sd entry))
              (sn_clients s)) (\<lambda>cs.
       Inr (sort_key record_order ([meta, cat] @ ps @ ss @ cs)))))))"

record loaded_records =
  ld_meta :: "snapshot_meta option"
  ld_catalog :: "catalog option"
  ld_primary :: "primary_entry list"
  ld_secondary :: "secondary_entry list"
  ld_clients :: "client_entry list"

definition load_record ::
  "snapshot_serde \<Rightarrow> loaded_records \<Rightarrow> snapshot_record \<Rightarrow> engine_error + loaded_records" where
  "load_record sd st r =
     (if sr_kind r = RECORD_META then
        if sr_key r \<noteq> [] then Inl (InvalidSnapshot ''metadata record key must be empty'')
        else rbind (decode_snapshot_record (dec_meta sd) r) (\<lambda>m. Inr (st\<lparr>ld_meta := Some m\<rparr>))
      else if sr_kind r = RECORD_CATALOG then
        if sr_key r \<noteq> [] then Inl (InvalidSnapshot ''catalog record key must be empty'')
        else rbind (decode_snapshot_record (dec_catalog sd) r) (\<lambda>c. Inr (st\<lparr>ld_catalog := Some c\<rparr>))
      else if sr_kind r = RECORD_PRIMARY then
        rbind (decode_snapshot_record (dec_primary sd) r) (\<lambda>entry.
          rbind (primary_record_key entry) (\<lambda>key.
            if key \<noteq> sr_key r then Inl (InvalidSnapshot ''primary record key disagrees with value'')
            else Inr (st\<lparr>ld_primary := ld_primary st @ [entry]\<rparr>)))
      else if sr_kind r = RECORD_SECONDARY then
        rbind (decode_snapshot_record (dec_secondary sd) r) (\<lambda>entry.
          rbind (secondary_record_key (se_key entry)) (\<lambda>key.
            if key \<noteq> sr_key r then Inl (InvalidSnapshot ''secondary record key disagrees with value'')
            else Inr (st\<lparr>ld_secondary := ld_secondary st @ [entry]\<rparr>)))
      else if sr_kind r = RECORD_CLIENT then
        rbind (decode_snapshot_record (dec_client sd) r) (\<lambda>entry.
          if ce_client_id entry \<noteq> sr_key r then Inl (InvalidSnapshot ''client record key disagrees with value'')
          else Inr (st\<lparr>ld_clients := ld_clients st @ [entry]\<rparr>))
      else Inl (InvalidSnapshot ''unknown logical snapshot record kind''))"

definition from_records :: "snapshot_serde \<Rightarrow> snapshot_record list \<Rightarrow> engine_error + engine_snapshot" where
  "from_records sd records =
     (let ordered = sort_key record_order records in
      rbind (try_each validate_record_size ordered) (\<lambda>_.
        if list_ex (\<lambda>(a, b). sr_kind a = sr_kind b \<and> sr_key a = sr_key b) (windows2 ordered)
        then Inl (InvalidSnapshot ''duplicate logical snapshot record'')
        else rbind (try_fold (load_record sd)
                 \<lparr>ld_meta = None, ld_catalog = None, ld_primary = [], ld_secondary = [], ld_clients = []\<rparr> ordered) (\<lambda>st.
          rbind (ok_or (ld_meta st) (InvalidSnapshot ''missing metadata record'')) (\<lambda>m.
            rbind (ok_or (ld_catalog st) (InvalidSnapshot ''missing catalog record'')) (\<lambda>c.
              let s = \<lparr>sn_format = me_format m, sn_catalog = c, sn_primary = ld_primary st,
                sn_secondary = ld_secondary st, sn_clients = ld_clients st,
                sn_last_applied = me_last_applied m, sn_last_apply_hash = me_last_apply_hash m,
                sn_last_apply_outcome = me_last_apply_outcome m, sn_retained_floor = me_retained_floor m,
                sn_next_txn_id = me_next_txn_id m, sn_stats = me_stats m\<rparr>
              in rbind (from_snapshot s) (\<lambda>_. Inr s))))))"

section \<open>Restoring a snapshot\<close>

text \<open>Loading entries with distinct keys, each of them acceptable, gives the map of the entries.\<close>

lemma load_all:
  assumes step: "\<And>m x. x \<in> set xs \<Longrightarrow> bt_get m (key x) = None \<Longrightarrow> load m x = Inr (bt_insert (key x) (val x) m)"
    and "distinct (map key xs)" "\<forall>x \<in> set xs. bt_get m (key x) = None"
  shows "\<exists>m'. try_fold load m xs = Inr m' \<and>
    (\<forall>k. bt_get m' k = (case map_of (map (\<lambda>x. (key x, val x)) xs) k of None \<Rightarrow> bt_get m k | Some v \<Rightarrow> Some v))"
  using assms
proof (induction xs arbitrary: m)
  case (Cons x xs)
  let ?m = "bt_insert (key x) (val x) m"
  have "load m x = Inr ?m" using Cons.prems by simp
  moreover have "\<exists>m'. try_fold load ?m xs = Inr m' \<and>
    (\<forall>k. bt_get m' k = (case map_of (map (\<lambda>x. (key x, val x)) xs) k of None \<Rightarrow> bt_get ?m k | Some v \<Rightarrow> Some v))"
    using Cons.prems by (intro Cons.IH) (auto simp: image_iff)
  moreover have "map_of (map (\<lambda>x. (key x, val x)) xs) (key x) = None"
    using Cons.prems(2) by (auto simp: map_of_eq_None_iff image_iff)
  ultimately show ?case by (fastforce split: option.splits if_splits)
qed simp

lemma load_permuted:
  fixes load :: "('k :: linorder, 'v) btmap \<Rightarrow> 'x \<Rightarrow> engine_error + ('k, 'v) btmap"
  assumes step: "\<And>m x. x \<in> set xs \<Longrightarrow> bt_get m (key x) = None \<Longrightarrow> load m x = Inr (bt_insert (key x) (val x) m)"
    and same: "mset (map (\<lambda>x. (key x, val x)) xs) = mset (bt_entries m)"
  shows "try_fold load bt_empty xs = Inr m"
proof -
  have pairs: "set (map (\<lambda>x. (key x, val x)) xs) = set (bt_entries m)" using same by (rule mset_eq_setD)
  have "mset (map fst (map (\<lambda>x. (key x, val x)) xs)) = mset (map fst (bt_entries m))"
    using same by (metis mset_map)
  then have dist: "distinct (map fst (map (\<lambda>x. (key x, val x)) xs))"
    using bt.distinct_keys[of m] mset_eq_imp_distinct_iff by blast
  then have keys: "distinct (map key xs)" by (simp add: comp_def)
  have "\<exists>m'. try_fold load bt_empty xs = Inr m' \<and> (\<forall>k. bt_get m' k =
      (case map_of (map (\<lambda>x. (key x, val x)) xs) k of None \<Rightarrow> bt_get bt_empty k | Some v \<Rightarrow> Some v))"
    by (rule load_all[where m = bt_empty, OF step keys]) simp_all
  then obtain m' where load: "try_fold load bt_empty xs = Inr m'"
    "\<forall>k. bt_get m' k = (case map_of (map (\<lambda>x. (key x, val x)) xs) k of
      None \<Rightarrow> bt_get bt_empty k | Some v \<Rightarrow> Some v)" by blast
  have get: "bt_get m' k = map_of (map (\<lambda>x. (key x, val x)) xs) k" for k
    using load(2)[rule_format, of k] by (cases "map_of (map (\<lambda>x. (key x, val x)) xs) k") simp_all
  have "map_of (map (\<lambda>x. (key x, val x)) xs) = map_of (bt_entries m)"
    using map_of_inject_set[OF dist bt.distinct_keys] pairs by blast
  then have "bt_get m' k = bt_get m k" for k by (simp add: get bt.get_entries[of m])
  then have "m' = m" by (rule btmap_eqI)
  with load(1) show ?thesis by simp
qed

text \<open>Two snapshots that hold the same entries, in whatever order.\<close>

definition same_entries :: "engine_snapshot \<Rightarrow> engine_snapshot \<Rightarrow> bool" where
  "same_entries s s' \<longleftrightarrow>
     snapshot_meta_of s = snapshot_meta_of s' \<and> sn_catalog s = sn_catalog s'
     \<and> mset (sn_primary s) = mset (sn_primary s') \<and> mset (sn_secondary s) = mset (sn_secondary s')
     \<and> mset (sn_clients s) = mset (sn_clients s')"

lemma refresh_version_stats_id: "stats_inv e \<Longrightarrow> refresh_version_stats e = e"
  by (simp add: refresh_version_stats_def stats_inv_def)

lemma load_primary_snapshot:
  assumes "stores_inv e" "mset ps = mset (sn_primary (engine_snapshot_of e))"
  shows "try_fold (load_primary (last_applied e)) bt_empty ps = Inr (eng_primary e)"
proof (rule load_permuted)
  let ?key = "\<lambda>x. LogicalKey (pe_table_id x) (pe_primary_key x)"
  let ?entry = "\<lambda>(k, vs). \<lparr>pe_table_id = lk_table_id k, pe_primary_key = lk_primary_key k, pe_versions = vs\<rparr>"
  have ps: "mset ps = image_mset ?entry (mset (bt_entries (eng_primary e)))"
    using assms(2) by (simp add: engine_snapshot_of_def)
  have "(\<lambda>x. (?key x, pe_versions x)) \<circ> ?entry = id" by (auto simp: fun_eq_iff)
  then show "mset (map (\<lambda>x. (?key x, pe_versions x)) ps) = mset (bt_entries (eng_primary e))"
    by (simp add: ps multiset.map_comp)
  fix m :: "(logical_key, row_version list) btmap" and x
  assume x: "x \<in> set ps" "bt_get m (?key x) = None"
  have "set ps = ?entry ` set (bt_entries (eng_primary e))" using arg_cong[OF ps, of set_mset] by simp
  with x(1) have "x \<in> ?entry ` set (bt_entries (eng_primary e))" by blast
  then obtain k vs where "bt_get (eng_primary e) k = Some vs" and pe: "pe_versions x = vs"
    by (auto simp: bt_entries_get)
  then have "vs = prim e k" "vs \<noteq> []" using assms(1)
    by (auto simp: stores_upto_def dense_stores_def dense_def chain_of_def)
  then have "validate_row_versions vs (last_applied e) = Inr ()"
    using assms(1) by (simp add: rows.validate_chain_ok stores_upto_def)
  then show "load_primary (last_applied e) m x = Inr (bt_insert (?key x) (pe_versions x) m)"
    using x(2) pe by (simp add: load_primary_def bt_contains_def Let_def)
qed

lemma load_secondary_snapshot:
  assumes "stores_inv e" "mset ps = mset (sn_secondary (engine_snapshot_of e))"
  shows "try_fold (load_secondary (eng_catalog e) (last_applied e)) bt_empty ps = Inr (eng_secondary e)"
proof (rule load_permuted)
  let ?entry = "\<lambda>(k, vs). \<lparr>se_key = k, se_versions = vs\<rparr>"
  have ps: "mset ps = image_mset ?entry (mset (bt_entries (eng_secondary e)))"
    using assms(2) by (simp add: engine_snapshot_of_def)
  have "(\<lambda>x. (se_key x, se_versions x)) \<circ> ?entry = id" by (auto simp: fun_eq_iff)
  then show "mset (map (\<lambda>x. (se_key x, se_versions x)) ps) = mset (bt_entries (eng_secondary e))"
    by (simp add: ps multiset.map_comp)
  fix m :: "(secondary_key, secondary_version list) btmap" and x
  assume x: "x \<in> set ps" "bt_get m (se_key x) = None"
  have "set ps = ?entry ` set (bt_entries (eng_secondary e))" using arg_cong[OF ps, of set_mset] by simp
  with x(1) have "x \<in> ?entry ` set (bt_entries (eng_secondary e))" by blast
  then obtain k vs where "bt_get (eng_secondary e) k = Some vs" and pe: "se_versions x = vs" "se_key x = k"
    by (auto simp: bt_entries_get)
  then have vs: "vs = sec e k" "vs \<noteq> []" using assms(1)
    by (auto simp: stores_upto_def dense_stores_def dense_def chain_of_def)
  then have "validate_secondary_versions vs (last_applied e) = Inr ()"
    using assms(1) by (simp add: secondaries.validate_chain_ok stores_upto_def)
  moreover have "catalog_index (eng_catalog e) (sk_index_id k) \<noteq> None"
    using assms(1) vs by (simp add: stores_upto_def)
  ultimately show "load_secondary (eng_catalog e) (last_applied e) m x = Inr (bt_insert (se_key x) (se_versions x) m)"
    using x(2) pe by (simp add: load_secondary_def bt_contains_def)
qed

lemma load_client_snapshot:
  assumes "meta_inv e" "mset ps = mset (sn_clients (engine_snapshot_of e))"
  shows "try_fold load_client bt_empty ps = Inr (eng_clients e)"
proof (rule load_permuted)
  let ?entry = "\<lambda>(k, r). \<lparr>ce_client_id = k, ce_record = r\<rparr>"
  have ps: "mset ps = image_mset ?entry (mset (bt_entries (eng_clients e)))"
    using assms(2) by (simp add: engine_snapshot_of_def)
  have "(\<lambda>x. (ce_client_id x, ce_record x)) \<circ> ?entry = id" by (auto simp: fun_eq_iff)
  then show "mset (map (\<lambda>x. (ce_client_id x, ce_record x)) ps) = mset (bt_entries (eng_clients e))"
    by (simp add: ps multiset.map_comp)
  fix m :: "(bytes, client_record) btmap" and x
  assume x: "x \<in> set ps" "bt_get m (ce_client_id x) = None"
  have "set ps = ?entry ` set (bt_entries (eng_clients e))" using arg_cong[OF ps, of set_mset] by simp
  with x(1) have "x \<in> ?entry ` set (bt_entries (eng_clients e))" by blast
  then have "cr_sequence (ce_record x) \<noteq> 0" using assms(1) by (auto simp: bt_entries_get meta_inv_def)
  then show "load_client m x = Inr (bt_insert (ce_client_id x) (ce_record x) m)"
    using x(2) by (simp add: load_client_def bt_contains_def)
qed

lemma from_snapshot_same:
  assumes inv: "engine_inv e" and same: "same_entries s (engine_snapshot_of e)"
  shows "from_snapshot s = Inr e"
proof -
  have meta: "sn_format s = SNAPSHOT_FORMAT" "sn_catalog s = eng_catalog e" "sn_last_applied s = last_applied e"
    "sn_last_apply_hash s = last_apply_hash e" "sn_last_apply_outcome s = last_apply_outcome e"
    "sn_retained_floor s = retained_floor e" "sn_next_txn_id s = next_txn_id e" "sn_stats s = eng_stats e"
    using same by (auto simp: same_entries_def snapshot_meta_of_def engine_snapshot_of_def)
  have parts: "meta_inv e" "stores_inv e" "stats_inv e" using inv by (simp_all add: engine_inv_def)
  have loads: "try_fold (load_primary (last_applied e)) bt_empty (sn_primary s) = Inr (eng_primary e)"
    "try_fold (load_secondary (eng_catalog e) (last_applied e)) bt_empty (sn_secondary s) = Inr (eng_secondary e)"
    "try_fold load_client bt_empty (sn_clients s) = Inr (eng_clients e)"
    using load_primary_snapshot[OF parts(2)] load_secondary_snapshot[OF parts(2)] load_client_snapshot[OF parts(1)] same
    by (simp_all add: same_entries_def)
  have "max (next_txn_id e) 1 = next_txn_id e"
    using parts(1) by (intro max_absorb1) (simp add: meta_inv_def word_le_nat_alt Suc_le_eq unat_gt_0)
  moreover have "catalog_validate (eng_catalog e) = Inr ()"
    using parts(1) by (simp add: catalog_validate_ok meta_inv_def)
  moreover have "(retained_floor e > last_applied e) = False" using parts(1) by (auto simp: meta_inv_def not_less)
  moreover have "((last_applied e = 0) \<noteq> (last_apply_hash e = None \<and> last_apply_outcome e = None)) = False"
    "(last_applied e > 0 \<and> (last_apply_hash e = None \<or> last_apply_outcome e = None)) = False"
    using parts(1) by (auto simp: meta_inv_def word_gt_0)
  moreover have "refresh_version_stats \<lparr>eng_catalog = eng_catalog e, eng_primary = eng_primary e,
      eng_secondary = eng_secondary e, eng_clients = eng_clients e, last_applied = last_applied e,
      last_apply_hash = last_apply_hash e, last_apply_outcome = last_apply_outcome e,
      retained_floor = retained_floor e, next_txn_id = next_txn_id e, eng_stats = eng_stats e\<rparr> = e"
    using refresh_version_stats_id[OF parts(3)] by (cases e) simp
  moreover have "(SNAPSHOT_FORMAT \<noteq> SNAPSHOT_FORMAT) = False" by simp
  ultimately show ?thesis
    by (simp only: from_snapshot_def meta loads if_False rbind.simps)
qed

text \<open>
  C22: a snapshot restores the engine.  Taking a snapshot of a well-formed engine and restoring
  it succeeds, passes every check of the restore, and gives the same engine back, statistics
  included.
\<close>

theorem snapshot_roundtrip:
  assumes "engine_inv e"
  shows "from_snapshot (engine_snapshot_of e) = Inr e"
  using assms by (rule from_snapshot_same) (simp add: same_entries_def)

theorem snapshot_roundtrip_witness: "from_snapshot (engine_snapshot_of ex2) = Inr ex2"
  by (rule snapshot_roundtrip[OF ex_inv(2)])

section \<open>Restoring from records\<close>

definition meta_of :: "snapshot_serde \<Rightarrow> snapshot_record \<Rightarrow> snapshot_meta list" where
  "meta_of sd r = (if sr_kind r = RECORD_META then [the (dec_meta sd (sr_value r))] else [])"

definition catalog_of :: "snapshot_serde \<Rightarrow> snapshot_record \<Rightarrow> catalog list" where
  "catalog_of sd r = (if sr_kind r = RECORD_CATALOG then [the (dec_catalog sd (sr_value r))] else [])"

definition primary_of :: "snapshot_serde \<Rightarrow> snapshot_record \<Rightarrow> primary_entry list" where
  "primary_of sd r = (if sr_kind r = RECORD_PRIMARY then [the (dec_primary sd (sr_value r))] else [])"

definition secondary_of :: "snapshot_serde \<Rightarrow> snapshot_record \<Rightarrow> secondary_entry list" where
  "secondary_of sd r = (if sr_kind r = RECORD_SECONDARY then [the (dec_secondary sd (sr_value r))] else [])"

definition client_of :: "snapshot_serde \<Rightarrow> snapshot_record \<Rightarrow> client_entry list" where
  "client_of sd r = (if sr_kind r = RECORD_CLIENT then [the (dec_client sd (sr_value r))] else [])"

lemmas item_of_defs = meta_of_def catalog_of_def primary_of_def secondary_of_def client_of_def

definition last_or :: "'a option \<Rightarrow> 'a list \<Rightarrow> 'a option" where
  "last_or d xs = (if xs = [] then d else Some (last xs))"

lemma last_or_simps [simp]: "last_or d [] = d" "last_or d (x # xs) = last_or (Some x) xs"
  by (simp_all add: last_or_def)

text \<open>Loading a run of records that all load.\<close>

lemma load_records_ok:
  assumes "\<forall>r \<in> set rs. \<forall>st. \<exists>st'. load_record sd st r = Inr st'"
  shows "try_fold (load_record sd) st rs = Inr
    \<lparr>ld_meta = last_or (ld_meta st) (concat (map (meta_of sd) rs)),
     ld_catalog = last_or (ld_catalog st) (concat (map (catalog_of sd) rs)),
     ld_primary = ld_primary st @ concat (map (primary_of sd) rs),
     ld_secondary = ld_secondary st @ concat (map (secondary_of sd) rs),
     ld_clients = ld_clients st @ concat (map (client_of sd) rs)\<rparr>"
  using assms
proof (induction rs arbitrary: st)
  case (Cons r rs)
  then obtain st' where st': "load_record sd st r = Inr st'" by fastforce
  then have "st' = \<lparr>ld_meta = last_or (ld_meta st) (meta_of sd r),
      ld_catalog = last_or (ld_catalog st) (catalog_of sd r), ld_primary = ld_primary st @ primary_of sd r,
      ld_secondary = ld_secondary st @ secondary_of sd r, ld_clients = ld_clients st @ client_of sd r\<rparr>"
    by (auto simp: load_record_def item_of_defs record_kinds decode_snapshot_record_def result_simps
        last_or_def split: if_splits)
  then show ?case using Cons st' by (auto simp: last_or_def)
qed (simp add: last_or_def)

lemma snapshot_record_new_Inr:
  "snapshot_record_new kind key enc = Inr r \<longleftrightarrow>
     (\<exists>v. enc = Some v \<and> r = \<lparr>sr_kind = kind, sr_key = key, sr_value = v\<rparr> \<and> validate_record_size r = Inr ())"
  by (auto simp: snapshot_record_new_def result_simps Let_def)

lemma list_all2_concat_map:
  "list_all2 R xs ys \<Longrightarrow> (\<And>x y. R x y \<Longrightarrow> f y = [x]) \<Longrightarrow> concat (map f ys) = xs"
  by (induction rule: list_all2_induct) auto

lemma list_all2_concat_map_Nil:
  "list_all2 R xs ys \<Longrightarrow> (\<And>x y. R x y \<Longrightarrow> f y = []) \<Longrightarrow> concat (map f ys) = []"
  by (induction rule: list_all2_induct) auto

lemma list_all2_ball2: "list_all2 R xs ys \<Longrightarrow> (\<And>x y. R x y \<Longrightarrow> P y) \<Longrightarrow> \<forall>y \<in> set ys. P y"
  by (induction rule: list_all2_induct) auto

lemma list_all2_preimage: "list_all2 R xs ys \<Longrightarrow> y \<in> set ys \<Longrightarrow> \<exists>x \<in> set xs. R x y"
  by (induction rule: list_all2_induct) auto

lemma list_all2_distinct:
  assumes "list_all2 R xs ys" "distinct (map f xs)"
    and "\<And>x y x' y'. R x y \<Longrightarrow> R x' y' \<Longrightarrow> g y = g y' \<Longrightarrow> f x = f x'"
  shows "distinct (map g ys)"
  using assms(1,2)
proof (induction rule: list_all2_induct)
  case (Cons x xs y ys)
  have "\<forall>y' \<in> set ys. g y' \<noteq> g y"
  proof
    fix y' assume "y' \<in> set ys"
    then obtain x' where x': "x' \<in> set xs" "R x' y'" using list_all2_preimage[OF Cons(2)] by blast
    show "g y' \<noteq> g y"
    proof
      assume "g y' = g y"
      from assms(3)[OF x'(2) Cons(1) this] have "f x' = f x" .
      then show False using x'(1) Cons(4) by (metis distinct.simps(2) image_eqI list.simps(9) list.set_map)
    qed
  qed
  then show ?case using Cons by force
qed simp

lemma windows2_distinct:
  assumes "distinct (map record_order rs)"
  shows "\<not> list_ex (\<lambda>(a, b). sr_kind a = sr_kind b \<and> sr_key a = sr_key b) (windows2 rs)"
  using assms by (induction rs rule: windows2.induct) (auto simp: record_order_def)

lemma primary_record_key_inject:
  assumes "primary_record_key a = Inr k" "primary_record_key b = Inr k"
  shows "LogicalKey (pe_table_id a) (pe_primary_key a) = LogicalKey (pe_table_id b) (pe_primary_key b)"
  using assms by (auto simp: primary_record_key_def split: if_splits)

lemma secondary_record_key_inject:
  assumes "secondary_record_key a = Inr k" "secondary_record_key b = Inr k"
  shows "a = b"
proof -
  have *: "u64_to_be (sk_index_id a) @ u32_to_be (of_nat (length (sk_secondary_value a))) @ sk_secondary_value a
      @ u32_to_be (of_nat (length (sk_primary_key a))) @ sk_primary_key a
    = u64_to_be (sk_index_id b) @ u32_to_be (of_nat (length (sk_secondary_value b))) @ sk_secondary_value b
      @ u32_to_be (of_nat (length (sk_primary_key b))) @ sk_primary_key b"
    and len: "length (sk_secondary_value a) < 2 ^ 32" "length (sk_secondary_value b) < 2 ^ 32"
    using assms by (auto simp: secondary_record_key_def split: if_splits)
  from * have "sk_index_id a = sk_index_id b"
    and rest: "u32_to_be (of_nat (length (sk_secondary_value a))) @ sk_secondary_value a
      @ u32_to_be (of_nat (length (sk_primary_key a))) @ sk_primary_key a
    = u32_to_be (of_nat (length (sk_secondary_value b))) @ sk_secondary_value b
      @ u32_to_be (of_nat (length (sk_primary_key b))) @ sk_primary_key b"
    by simp_all
  from rest have "(of_nat (length (sk_secondary_value a)) :: u32) = of_nat (length (sk_secondary_value b))"
    and rest': "sk_secondary_value a @ u32_to_be (of_nat (length (sk_primary_key a))) @ sk_primary_key a
    = sk_secondary_value b @ u32_to_be (of_nat (length (sk_primary_key b))) @ sk_primary_key b"
    by (auto simp: append_eq_append_conv)
  then have "length (sk_secondary_value a) = length (sk_secondary_value b)" using len by (intro of_nat_u32_inject)
  with rest' have "sk_secondary_value a = sk_secondary_value b" "sk_primary_key a = sk_primary_key b"
    by (auto simp: append_eq_append_conv)
  then show ?thesis using \<open>sk_index_id a = sk_index_id b\<close> by (metis secondary_key.expand)
qed

text \<open>The records of a snapshot, before they are sorted.\<close>

lemma to_records_Inr:
  assumes "to_records sd s = Inr rs"
  obtains meta cat ps ss cs where
    "rs = sort_key record_order ([meta, cat] @ ps @ ss @ cs)"
    "snapshot_record_new RECORD_META [] (enc_meta sd (snapshot_meta_of s)) = Inr meta"
    "snapshot_record_new RECORD_CATALOG [] (enc_catalog sd (sn_catalog s)) = Inr cat"
    "list_all2 (\<lambda>entry r. \<exists>key. primary_record_key entry = Inr key \<and>
       snapshot_record_new RECORD_PRIMARY key (enc_primary sd entry) = Inr r) (sn_primary s) ps"
    "list_all2 (\<lambda>entry r. \<exists>key. secondary_record_key (se_key entry) = Inr key \<and>
       snapshot_record_new RECORD_SECONDARY key (enc_secondary sd entry) = Inr r) (sn_secondary s) ss"
    "list_all2 (\<lambda>entry r. snapshot_record_new RECORD_CLIENT (ce_client_id entry) (enc_client sd entry) = Inr r)
       (sn_clients s) cs"
  using assms by (auto simp: to_records_def rbind_eq_Inr try_map_eq_Inr)

lemma snapshot_keys_distinct:
  fixes e :: engine
  defines "s \<equiv> engine_snapshot_of e"
  shows "distinct (map (\<lambda>x. LogicalKey (pe_table_id x) (pe_primary_key x)) (sn_primary s))"
    "distinct (map se_key (sn_secondary s))" "distinct (map ce_client_id (sn_clients s))"
  using bt.distinct_keys[of "eng_primary e"] bt.distinct_keys[of "eng_secondary e"] bt.distinct_keys[of "eng_clients e"]
  by (simp_all add: s_def engine_snapshot_of_def comp_def split_beta)

definition record_ok :: "snapshot_serde \<Rightarrow> snapshot_record \<Rightarrow> bool" where
  "record_ok sd r \<longleftrightarrow> validate_record_size r = Inr () \<and> (\<forall>st. \<exists>st'. load_record sd st r = Inr st')"

text \<open>What each kind of record contributes when it is loaded.\<close>

lemma meta_record:
  assumes "serde_ok sd" "snapshot_record_new RECORD_META [] (enc_meta sd m) = Inr r"
  shows "record_ok sd r \<and> record_order r = (RECORD_META, []) \<and> meta_of sd r = [m] \<and> catalog_of sd r = []
    \<and> primary_of sd r = [] \<and> secondary_of sd r = [] \<and> client_of sd r = []"
  using assms by (auto simp: snapshot_record_new_Inr record_ok_def load_record_def item_of_defs record_order_def
      record_kinds decode_snapshot_record_def serde_ok_def ok_or_def)

lemma catalog_record:
  assumes "serde_ok sd" "snapshot_record_new RECORD_CATALOG [] (enc_catalog sd c) = Inr r"
  shows "record_ok sd r \<and> record_order r = (RECORD_CATALOG, []) \<and> meta_of sd r = [] \<and> catalog_of sd r = [c]
    \<and> primary_of sd r = [] \<and> secondary_of sd r = [] \<and> client_of sd r = []"
  using assms by (auto simp: snapshot_record_new_Inr record_ok_def load_record_def item_of_defs record_order_def
      record_kinds decode_snapshot_record_def serde_ok_def ok_or_def)

lemma primary_record:
  assumes "serde_ok sd" "primary_record_key x = Inr key"
    "snapshot_record_new RECORD_PRIMARY key (enc_primary sd x) = Inr r"
  shows "record_ok sd r \<and> record_order r = (RECORD_PRIMARY, key) \<and> meta_of sd r = [] \<and> catalog_of sd r = []
    \<and> primary_of sd r = [x] \<and> secondary_of sd r = [] \<and> client_of sd r = []"
  using assms by (auto simp: snapshot_record_new_Inr record_ok_def load_record_def item_of_defs record_order_def
      record_kinds decode_snapshot_record_def serde_ok_def ok_or_def)

lemma secondary_record:
  assumes "serde_ok sd" "secondary_record_key (se_key x) = Inr key"
    "snapshot_record_new RECORD_SECONDARY key (enc_secondary sd x) = Inr r"
  shows "record_ok sd r \<and> record_order r = (RECORD_SECONDARY, key) \<and> meta_of sd r = [] \<and> catalog_of sd r = []
    \<and> primary_of sd r = [] \<and> secondary_of sd r = [x] \<and> client_of sd r = []"
  using assms by (auto simp: snapshot_record_new_Inr record_ok_def load_record_def item_of_defs record_order_def
      record_kinds decode_snapshot_record_def serde_ok_def ok_or_def)

lemma client_record:
  assumes "serde_ok sd" "snapshot_record_new RECORD_CLIENT (ce_client_id x) (enc_client sd x) = Inr r"
  shows "record_ok sd r \<and> record_order r = (RECORD_CLIENT, ce_client_id x) \<and> meta_of sd r = [] \<and> catalog_of sd r = []
    \<and> primary_of sd r = [] \<and> secondary_of sd r = [] \<and> client_of sd r = [x]"
  using assms by (auto simp: snapshot_record_new_Inr record_ok_def load_record_def item_of_defs record_order_def
      record_kinds decode_snapshot_record_def serde_ok_def ok_or_def)

text \<open>All records of a snapshot load, have distinct keys, and hold what the snapshot holds.\<close>

lemma to_records_spec:
  assumes sd: "serde_ok sd" and rs: "to_records sd (engine_snapshot_of e) = Inr rs"
  defines "s \<equiv> engine_snapshot_of e"
  shows "\<exists>rs0. mset rs = mset rs0 \<and> (\<forall>r \<in> set rs0. record_ok sd r) \<and> distinct (map record_order rs0)
    \<and> concat (map (meta_of sd) rs0) = [snapshot_meta_of s] \<and> concat (map (catalog_of sd) rs0) = [sn_catalog s]
    \<and> concat (map (primary_of sd) rs0) = sn_primary s \<and> concat (map (secondary_of sd) rs0) = sn_secondary s
    \<and> concat (map (client_of sd) rs0) = sn_clients s"
proof -
  obtain meta cat ps ss cs where r: "rs = sort_key record_order ([meta, cat] @ ps @ ss @ cs)"
    and meta: "snapshot_record_new RECORD_META [] (enc_meta sd (snapshot_meta_of s)) = Inr meta"
    and cat: "snapshot_record_new RECORD_CATALOG [] (enc_catalog sd (sn_catalog s)) = Inr cat"
    and ps: "list_all2 (\<lambda>x r. \<exists>key. primary_record_key x = Inr key \<and>
       snapshot_record_new RECORD_PRIMARY key (enc_primary sd x) = Inr r) (sn_primary s) ps"
    and ss: "list_all2 (\<lambda>x r. \<exists>key. secondary_record_key (se_key x) = Inr key \<and>
       snapshot_record_new RECORD_SECONDARY key (enc_secondary sd x) = Inr r) (sn_secondary s) ss"
    and cs: "list_all2 (\<lambda>x r. snapshot_record_new RECORD_CLIENT (ce_client_id x) (enc_client sd x) = Inr r)
       (sn_clients s) cs"
    using to_records_Inr[OF rs] unfolding s_def by blast
  let ?P = "\<lambda>k f x r. record_ok sd r \<and> fst (record_order r) = k \<and> f x = Inr (snd (record_order r))
    \<and> meta_of sd r = [] \<and> catalog_of sd r = []"
  have ps': "list_all2 (\<lambda>x r. ?P RECORD_PRIMARY primary_record_key x r \<and> primary_of sd r = [x]
      \<and> secondary_of sd r = [] \<and> client_of sd r = []) (sn_primary s) ps"
    using ps by (rule list_all2_mono) (use primary_record[OF sd] in fastforce)
  have ss': "list_all2 (\<lambda>x r. ?P RECORD_SECONDARY (\<lambda>x. secondary_record_key (se_key x)) x r \<and> primary_of sd r = []
      \<and> secondary_of sd r = [x] \<and> client_of sd r = []) (sn_secondary s) ss"
    using ss by (rule list_all2_mono) (use secondary_record[OF sd] in fastforce)
  have cs': "list_all2 (\<lambda>x r. ?P RECORD_CLIENT (\<lambda>x. Inr (ce_client_id x) :: engine_error + bytes) x r
      \<and> primary_of sd r = [] \<and> secondary_of sd r = [] \<and> client_of sd r = [x]) (sn_clients s) cs"
    using cs by (rule list_all2_mono) (use client_record[OF sd] in fastforce)
  note m = meta_record[OF sd meta] and c = catalog_record[OF sd cat]
  let ?all = "[meta, cat] @ ps @ ss @ cs"
  have oks: "\<forall>r \<in> set ps. record_ok sd r \<and> fst (record_order r) = RECORD_PRIMARY"
    "\<forall>r \<in> set ss. record_ok sd r \<and> fst (record_order r) = RECORD_SECONDARY"
    "\<forall>r \<in> set cs. record_ok sd r \<and> fst (record_order r) = RECORD_CLIENT"
    by (rule list_all2_ball2[OF ps'], blast) (rule list_all2_ball2[OF ss'], blast, rule list_all2_ball2[OF cs'], blast)
  have contents: "concat (map (meta_of sd) ps) = []" "concat (map (meta_of sd) ss) = []" "concat (map (meta_of sd) cs) = []"
    "concat (map (catalog_of sd) ps) = []" "concat (map (catalog_of sd) ss) = []" "concat (map (catalog_of sd) cs) = []"
    "concat (map (primary_of sd) ps) = sn_primary s" "concat (map (primary_of sd) ss) = []" "concat (map (primary_of sd) cs) = []"
    "concat (map (secondary_of sd) ps) = []" "concat (map (secondary_of sd) ss) = sn_secondary s" "concat (map (secondary_of sd) cs) = []"
    "concat (map (client_of sd) ps) = []" "concat (map (client_of sd) ss) = []" "concat (map (client_of sd) cs) = sn_clients s"
    by (rule list_all2_concat_map_Nil[OF ps'] list_all2_concat_map_Nil[OF ss'] list_all2_concat_map_Nil[OF cs']
        list_all2_concat_map[OF ps'] list_all2_concat_map[OF ss'] list_all2_concat_map[OF cs'], blast)+
  have "distinct (map record_order ps)"
    by (rule list_all2_distinct[OF ps' snapshot_keys_distinct(1)[of e, folded s_def]])
      (metis primary_record_key_inject)
  moreover have "distinct (map record_order ss)"
    by (rule list_all2_distinct[OF ss' snapshot_keys_distinct(2)[of e, folded s_def]])
      (metis secondary_record_key_inject)
  moreover have "distinct (map record_order cs)"
    by (rule list_all2_distinct[OF cs' snapshot_keys_distinct(3)[of e, folded s_def]])
      (metis sum.inject(2))
  moreover have "a \<notin> record_order ` set xs" if "\<forall>r \<in> set xs. record_ok sd r \<and> fst (record_order r) = k" "fst a \<noteq> k" for a k xs
    using that by auto
  note this[OF oks(1)] this[OF oks(2)] this[OF oks(3)]
  ultimately have "distinct (map record_order ?all)"
    using m c oks by (auto simp: record_kinds)
  moreover have "mset rs = mset ?all" using r by simp
  moreover have "\<forall>r \<in> set ?all. record_ok sd r" using m c oks by auto
  ultimately show ?thesis
    by (intro exI[of _ ?all])
      (simp only: map_append concat_append contents list.map concat.simps m c append_Nil append_Nil2 append_Cons simp_thms)
qed

lemma mset_single: "mset xs = mset [x] \<Longrightarrow> xs = [x]"
  by simp

text \<open>
  C23: records restore the engine.  The records of a well-formed engine's snapshot, read back
  in any order, pass the checks on sizes, duplicates and keys and restore the same engine,
  provided that decoding one value inverts encoding it.
\<close>

theorem records_roundtrip:
  assumes sd: "serde_ok sd" and inv: "engine_inv e"
    and rs: "to_records sd (engine_snapshot_of e) = Inr rs" and perm: "mset rs' = mset rs"
  shows "\<exists>s. from_records sd rs' = Inr s \<and> from_snapshot s = Inr e"
proof -
  let ?s = "engine_snapshot_of e" and ?ord = "sort_key record_order rs'"
  obtain rs0 where rs0: "mset rs = mset rs0" "\<forall>r \<in> set rs0. record_ok sd r" "distinct (map record_order rs0)"
    and items: "concat (map (meta_of sd) rs0) = [snapshot_meta_of ?s]" "concat (map (catalog_of sd) rs0) = [sn_catalog ?s]"
      "concat (map (primary_of sd) rs0) = sn_primary ?s" "concat (map (secondary_of sd) rs0) = sn_secondary ?s"
      "concat (map (client_of sd) rs0) = sn_clients ?s"
    using to_records_spec[OF sd rs] by blast
  have same: "mset ?ord = mset rs0" using perm rs0(1) by simp
  then have sets: "set ?ord = set rs0" by (rule mset_eq_setD)
  have "distinct (map record_order ?ord)" using rs0(3) distinct_map_mset[OF same] by blast
  note nodup = windows2_distinct[OF this]
  have sizes: "try_each validate_record_size ?ord = Inr ()"
    using rs0(2) by (simp only: try_each_eq_Inr sets) (simp add: record_ok_def)
  let ?load = "\<lambda>f. concat (map f ?ord)"
  have one: "?load (meta_of sd) = [snapshot_meta_of ?s]" "?load (catalog_of sd) = [sn_catalog ?s]"
    by (rule mset_single[OF mset_concat_map[OF same, of "meta_of sd", unfolded items]],
        rule mset_single[OF mset_concat_map[OF same, of "catalog_of sd", unfolded items]])
  let ?st = "\<lparr>ld_meta = Some (snapshot_meta_of ?s), ld_catalog = Some (sn_catalog ?s),
     ld_primary = ?load (primary_of sd), ld_secondary = ?load (secondary_of sd), ld_clients = ?load (client_of sd)\<rparr>"
  have load: "try_fold (load_record sd) \<lparr>ld_meta = None, ld_catalog = None, ld_primary = [],
      ld_secondary = [], ld_clients = []\<rparr> ?ord = Inr ?st"
    by (subst load_records_ok) (use rs0(2) sets one in \<open>auto simp: record_ok_def\<close>)
  let ?s' = "?s\<lparr>sn_primary := ?load (primary_of sd), sn_secondary := ?load (secondary_of sd),
     sn_clients := ?load (client_of sd)\<rparr>"
  have "same_entries ?s' ?s"
    using mset_concat_map[OF same, of "primary_of sd"] mset_concat_map[OF same, of "secondary_of sd"]
      mset_concat_map[OF same, of "client_of sd"]
    unfolding same_entries_def items by (simp add: snapshot_meta_of_def)
  from from_snapshot_same[OF inv this] have restored: "from_snapshot ?s' = Inr e" .
  have "?s' = \<lparr>sn_format = me_format (snapshot_meta_of ?s), sn_catalog = sn_catalog ?s,
      sn_primary = ?load (primary_of sd), sn_secondary = ?load (secondary_of sd), sn_clients = ?load (client_of sd),
      sn_last_applied = me_last_applied (snapshot_meta_of ?s), sn_last_apply_hash = me_last_apply_hash (snapshot_meta_of ?s),
      sn_last_apply_outcome = me_last_apply_outcome (snapshot_meta_of ?s), sn_retained_floor = me_retained_floor (snapshot_meta_of ?s),
      sn_next_txn_id = me_next_txn_id (snapshot_meta_of ?s), sn_stats = me_stats (snapshot_meta_of ?s)\<rparr>"
    by (simp add: snapshot_meta_of_def engine_snapshot_of_def)
  then have "from_records sd rs' = Inr ?s'"
    using restored by (simp add: from_records_def Let_def sizes nodup load ok_or_def)
  with restored show ?thesis by blast
qed

definition ex_serde :: snapshot_serde where
  "ex_serde = \<lparr>enc_meta = \<lambda>x. if x = snapshot_meta_of (engine_snapshot_of ex2) then Some [1] else None,
     dec_meta = \<lambda>_. Some (snapshot_meta_of (engine_snapshot_of ex2)),
     enc_catalog = \<lambda>x. if x = eng_catalog ex2 then Some [2] else None, dec_catalog = \<lambda>_. Some (eng_catalog ex2),
     enc_primary = \<lambda>x. if x \<in> set (sn_primary (engine_snapshot_of ex2)) then Some [3] else None,
     dec_primary = \<lambda>_. Some (hd (sn_primary (engine_snapshot_of ex2))),
     enc_secondary = \<lambda>x. if x = sn_secondary (engine_snapshot_of ex2) ! 0 then Some [4]
       else if x = sn_secondary (engine_snapshot_of ex2) ! 1 then Some [5] else None,
     dec_secondary = \<lambda>b. Some (sn_secondary (engine_snapshot_of ex2) ! (if b = [4] then 0 else 1)),
     enc_client = \<lambda>x. if x = sn_clients (engine_snapshot_of ex2) ! 0 then Some [6]
       else if x = sn_clients (engine_snapshot_of ex2) ! 1 then Some [7] else None,
     dec_client = \<lambda>b. Some (sn_clients (engine_snapshot_of ex2) ! (if b = [6] then 0 else 1))\<rparr>"

lemma ex_serde_ok: "serde_ok ex_serde"
proof -
  have "length (sn_primary (engine_snapshot_of ex2)) = 1" by code_simp
  then obtain p where "sn_primary (engine_snapshot_of ex2) = [p]" by (auto simp: length_Suc_conv)
  then show ?thesis by (auto simp: serde_ok_def ex_serde_def split: if_splits)
qed

theorem records_roundtrip_witness:
  "\<exists>rs s. to_records ex_serde (engine_snapshot_of ex2) = Inr rs \<and> from_records ex_serde (rev rs) = Inr s
    \<and> from_snapshot s = Inr ex2"
proof -
  have "isl (to_records ex_serde (engine_snapshot_of ex2)) = False" by code_simp
  then obtain rs where rs: "to_records ex_serde (engine_snapshot_of ex2) = Inr rs"
    by (cases "to_records ex_serde (engine_snapshot_of ex2)") auto
  from records_roundtrip[OF ex_serde_ok ex_inv(2) rs, of "rev rs"] rs show ?thesis by auto
qed

lemma u32_to_be_less_iff: "u32_to_be a < u32_to_be b \<longleftrightarrow> a < b"
proof -
  have "unat a < 256 ^ 4" "unat b < 256 ^ 4" using unsigned_less[of a] unsigned_less[of b] by simp_all
  then show ?thesis by (simp add: u32_to_be_def be_bytes_less_iff word_less_nat_alt)
qed

text \<open>
  C26: the order of primary records.  The key of a primary record sorts by table, then by the
  length of the primary key, and only then by its bytes.  The engine sorts the same entries by
  table and bytes alone, so a snapshot rebuilt from its records may list them in another order.
\<close>

theorem record_key_order:
  assumes "primary_record_key a = Inr ka" "primary_record_key b = Inr kb"
  shows "ka < kb \<longleftrightarrow> pe_table_id a < pe_table_id b
    \<or> pe_table_id a = pe_table_id b \<and> (length (pe_primary_key a) < length (pe_primary_key b)
        \<or> length (pe_primary_key a) = length (pe_primary_key b) \<and> pe_primary_key a < pe_primary_key b)"
proof -
  let ?l = "\<lambda>x. of_nat (length (pe_primary_key x)) :: u32"
  have len: "length (pe_primary_key a) < 2 ^ 32" "length (pe_primary_key b) < 2 ^ 32"
    and keys: "ka = u64_to_be (pe_table_id a) @ u32_to_be (?l a) @ pe_primary_key a"
      "kb = u64_to_be (pe_table_id b) @ u32_to_be (?l b) @ pe_primary_key b"
    using assms by (auto simp: primary_record_key_def split: if_splits)
  have "?l a < ?l b \<longleftrightarrow> length (pe_primary_key a) < length (pe_primary_key b)"
    "?l a = ?l b \<longleftrightarrow> length (pe_primary_key a) = length (pe_primary_key b)"
    using len by (simp_all add: word_less_nat_alt word_unat_eq_iff unat_of_nat take_bit_nat_eq_self)
  then show ?thesis
    unfolding keys by (simp add: append_less_append_iff u64_to_be_less_iff u32_to_be_less_iff)
qed

text \<open>Two keys of one table that the engine and the records order differently.\<close>

theorem record_key_order_witness:
  "LogicalKey 1 [4, 97, 97] < LogicalKey 1 [4, 98]
   \<and> (\<exists>ka kb. primary_record_key \<lparr>pe_table_id = 1, pe_primary_key = [4, 97, 97], pe_versions = []\<rparr> = Inr ka
      \<and> primary_record_key \<lparr>pe_table_id = 1, pe_primary_key = [4, 98], pe_versions = []\<rparr> = Inr kb \<and> kb < ka)"
proof -
  let ?a = "\<lparr>pe_table_id = 1, pe_primary_key = [4, 97, 97], pe_versions = []\<rparr>"
  let ?b = "\<lparr>pe_table_id = 1, pe_primary_key = [4, 98], pe_versions = []\<rparr>"
  obtain ka kb where keys: "primary_record_key ?a = Inr ka" "primary_record_key ?b = Inr kb"
    by (simp add: primary_record_key_def)
  then have "kb < ka" using record_key_order[OF keys(2,1)] by simp
  moreover have "LogicalKey 1 [4, 97, 97] < LogicalKey 1 [4, 98]" by code_simp
  ultimately show ?thesis using keys by blast
qed

end
