(* ===== verification/Raft_Types.thy ===== *)
theory Raft_Types
  imports Aster_Prelude
begin

text \<open>
  The data of the consensus core: \<open>aster-raft/src/types.rs\<close>, with the membership configuration
  and its quorum rules.

  Terms, log indexes, node and command identifiers are natural numbers.  Where the source adds
  with \<open>checked_add\<close> or \<open>saturating_add\<close> the bound of \<open>u64\<close> is written out; its plain
  additions of one are exact below that bound.  A \<open>BTreeSet\<close> is a \<open>btmap\<close> to the unit type, as
  it is in the standard library.
\<close>

section \<open>Integers and sets\<close>

definition u64_max :: nat where "u64_max = 2 ^ 64 - 1"

definition nat_checked_add :: "nat \<Rightarrow> nat \<Rightarrow> nat option" where
  "nat_checked_add a b = (if a + b \<le> u64_max then Some (a + b) else None)"

definition nat_saturating_add :: "nat \<Rightarrow> nat \<Rightarrow> nat" where
  "nat_saturating_add a b = min (a + b) u64_max"

definition digit_char :: "nat \<Rightarrow> char" where
  "digit_char d = char_of (48 + d)"

fun show_nat :: "nat \<Rightarrow> string" where
  "show_nat n = (if n < 10 then [digit_char n] else show_nat (n div 10) @ [digit_char (n mod 10)])"

declare show_nat.simps [simp del]

type_synonym 'k btset = "('k, unit) btmap"

definition bts_insert :: "'k :: linorder \<Rightarrow> 'k btset \<Rightarrow> 'k btset" where
  "bts_insert k s = bt_insert k () s"

definition bts_of_list :: "'k :: linorder list \<Rightarrow> 'k btset" where
  "bts_of_list xs = fold bts_insert xs bt_empty"

definition bts_set :: "'k :: linorder btset \<Rightarrow> 'k set" where
  "bts_set s = set (bt_keys s)"

lemma bts_set_iff: "k \<in> bts_set s \<longleftrightarrow> bt_contains s k"
  by (auto simp: bts_set_def bt_contains_def set_bt_keys)

lemma bts_set_empty [simp]: "bts_set bt_empty = {}"
  by (auto simp: bts_set_iff bt_contains_def bt.get_empty)

lemma bts_set_insert [simp]: "bts_set (bts_insert k s) = insert k (bts_set s)"
  by (auto simp: bts_set_iff bts_insert_def bt_contains_def bt.get_insert split: if_splits)

lemma bts_set_fold: "bts_set (fold bts_insert xs s) = set xs \<union> bts_set s"
  by (induction xs arbitrary: s) auto

lemma bts_set_of_list [simp]: "bts_set (bts_of_list xs) = set xs"
  by (simp add: bts_of_list_def bts_set_fold)

lemma finite_bts_set [simp]: "finite (bts_set s)"
  by (simp add: bts_set_def)

lemma distinct_bt_keys: "distinct (bt_keys s)"
  using bt.distinct_keys[of s] by (simp add: bt_keys_def)

lemma card_bts_set: "card (bts_set s) = bt_len s"
  using distinct_card[OF distinct_bt_keys[of s]] by (simp add: bts_set_def bt_len_def bt_keys_def)

section \<open>Configuration\<close>

type_synonym node_id = nat
type_synonym command_id = nat

record configuration =
  cfg_participants :: "node_id btset"
  cfg_incoming :: "node_id btset"
  cfg_outgoing :: "node_id btset option"

datatype config_error = Empty | EmptyJointSide

definition config_new :: "node_id list \<Rightarrow> config_error + configuration" where
  "config_new voters =
     (let voters = bts_of_list voters in
      rbind (require (voters \<noteq> bt_empty) Empty) (\<lambda>_.
      Inr \<lparr>cfg_participants = voters, cfg_incoming = voters, cfg_outgoing = None\<rparr>))"

definition config_joint :: "node_id list \<Rightarrow> node_id list \<Rightarrow> config_error + configuration" where
  "config_joint outgoing incoming =
     (let outgoing = bts_of_list outgoing; incoming = bts_of_list incoming in
      rbind (require (\<not> (outgoing = bt_empty \<or> incoming = bt_empty)) EmptyJointSide) (\<lambda>_.
      Inr \<lparr>cfg_participants = bts_of_list (bt_keys outgoing @ bt_keys incoming),
           cfg_incoming = incoming, cfg_outgoing = Some outgoing\<rparr>))"

definition cfg_contains :: "configuration \<Rightarrow> node_id \<Rightarrow> bool" where
  "cfg_contains cfg i = bt_contains (cfg_participants cfg) i"

definition has_majority :: "node_id btset \<Rightarrow> node_id btset \<Rightarrow> bool" where
  "has_majority members votes = (length (filter (bt_contains votes) (bt_keys members)) > bt_len members div 2)"

definition quorum :: "configuration \<Rightarrow> node_id btset \<Rightarrow> bool" where
  "quorum cfg votes =
     (has_majority (cfg_incoming cfg) votes
      \<and> (case cfg_outgoing cfg of None \<Rightarrow> True | Some outgoing \<Rightarrow> has_majority outgoing votes))"

definition quorum_index :: "configuration \<Rightarrow> (node_id \<Rightarrow> nat) \<Rightarrow> nat" where
  "quorum_index cfg matched =
     (let matched = map (\<lambda>voter. (voter, matched voter)) (bt_keys (cfg_participants cfg));
          indexes = remdups_adj (sort (map snd matched))
      in case List.find (\<lambda>index.
                quorum cfg (bts_of_list (map fst (filter (\<lambda>(voter, m). m \<ge> index) matched))))
              (rev indexes) of
           None \<Rightarrow> 0
         | Some index \<Rightarrow> index)"

subsection \<open>Quorums intersect\<close>

text \<open>What elections and commitment rely on of the configuration.\<close>

locale quorum_system =
  fixes is_quorum :: "'n set \<Rightarrow> bool"
  assumes mono: "is_quorum A \<Longrightarrow> A \<subseteq> B \<Longrightarrow> is_quorum B"
    and intersect: "is_quorum A \<Longrightarrow> is_quorum B \<Longrightarrow> A \<inter> B \<noteq> {}"
begin

lemma not_empty: "is_quorum A \<Longrightarrow> A \<noteq> {}"
  using intersect by fastforce

lemma common_member:
  assumes "is_quorum A" and "is_quorum B"
  obtains v where "v \<in> A" and "v \<in> B"
  using intersect[OF assms] by blast

lemma single_choice:
  assumes "is_quorum {v. choice v a}" and "is_quorum {v. choice v b}"
    and "\<And>v x y. choice v x \<Longrightarrow> choice v y \<Longrightarrow> x = y"
  shows "a = b"
  using common_member[OF assms(1,2)] assms(3) by blast

end

text \<open>The quorum rule on sets of voters.\<close>

definition set_majority :: "node_id btset \<Rightarrow> node_id set \<Rightarrow> bool" where
  "set_majority members votes = (card (bts_set members \<inter> votes) > card (bts_set members) div 2)"

definition is_quorum :: "configuration \<Rightarrow> node_id set \<Rightarrow> bool" where
  "is_quorum cfg votes =
     (set_majority (cfg_incoming cfg) votes
      \<and> (case cfg_outgoing cfg of None \<Rightarrow> True | Some outgoing \<Rightarrow> set_majority outgoing votes))"

lemma has_majority_iff: "has_majority members votes \<longleftrightarrow> set_majority members (bts_set votes)"
proof -
  have "length (filter (bt_contains votes) (bt_keys members))
      = card (set (filter (bt_contains votes) (bt_keys members)))"
    using distinct_bt_keys[of members] by (metis distinct_card distinct_filter)
  also have "set (filter (bt_contains votes) (bt_keys members)) = bts_set members \<inter> bts_set votes"
    by (auto simp: bts_set_iff) (simp_all add: bts_set_def flip: bts_set_iff)
  finally show ?thesis by (simp add: has_majority_def set_majority_def card_bts_set)
qed

lemma quorum_iff: "quorum cfg votes \<longleftrightarrow> is_quorum cfg (bts_set votes)"
  by (simp add: quorum_def is_quorum_def has_majority_iff cong: option.case_cong)

lemma set_majority_mono: "set_majority m A \<Longrightarrow> A \<subseteq> B \<Longrightarrow> set_majority m B"
  unfolding set_majority_def
  by (meson Int_mono card_mono finite_Int finite_bts_set less_le_trans order_refl)

lemma set_majority_intersect:
  assumes "set_majority m A" and "set_majority m B"
  shows "A \<inter> B \<noteq> {}"
proof
  assume "A \<inter> B = {}"
  then have "card (bts_set m \<inter> A) + card (bts_set m \<inter> B) = card ((bts_set m \<inter> A) \<union> (bts_set m \<inter> B))"
    by (intro card_Un_disjoint[symmetric]) auto
  also have "\<dots> \<le> card (bts_set m)" by (intro card_mono) auto
  finally show False using assms by (simp add: set_majority_def)
qed

interpretation quorums: quorum_system "is_quorum cfg" for cfg
proof
  show "is_quorum cfg B" if "is_quorum cfg A" and "A \<subseteq> B" for A B
    using that by (auto simp: is_quorum_def intro: set_majority_mono split: option.splits)
  show "A \<inter> B \<noteq> {}" if "is_quorum cfg A" and "is_quorum cfg B" for A B
    using that set_majority_intersect by (auto simp: is_quorum_def)
qed

section \<open>Durable state\<close>

record hard_state =
  hs_current_term :: nat
  hs_voted_for :: "node_id option"
  hs_commit_index :: nat

datatype entry_payload = Noop | Command command_id bytes

record log_entry =
  le_index :: nat
  le_term :: nat
  le_payload :: entry_payload

record snapshot_metadata =
  sm_last_included_index :: nat
  sm_last_included_term :: nat
  sm_byte_len :: nat
  sm_sha256 :: bytes
  sm_configuration :: configuration

record persistent_snapshot =
  ps_metadata :: snapshot_metadata
  ps_data :: bytes

definition persistent_snapshot_new ::
    "(bytes \<Rightarrow> bytes) \<Rightarrow> nat \<Rightarrow> nat \<Rightarrow> configuration \<Rightarrow> bytes \<Rightarrow> persistent_snapshot" where
  "persistent_snapshot_new sha index tm cfg data =
     \<lparr>ps_metadata = \<lparr>sm_last_included_index = index, sm_last_included_term = tm,
                     sm_byte_len = length data, sm_sha256 = sha data, sm_configuration = cfg\<rparr>,
      ps_data = data\<rparr>"

definition snapshot_validate :: "(bytes \<Rightarrow> bytes) \<Rightarrow> persistent_snapshot \<Rightarrow> bool" where
  "snapshot_validate sha s =
     (sm_byte_len (ps_metadata s) = length (ps_data s) \<and> sm_sha256 (ps_metadata s) = sha (ps_data s))"

record stable_state =
  ss_hard_state :: hard_state
  ss_snapshot :: "persistent_snapshot option"
  ss_entries :: "log_entry list"
  ss_applied_index :: nat

datatype recovery_error =
    NotVoter node_id
  | InvalidSnapshot string
  | InvalidLog string
  | InvalidIndexes string

section \<open>Messages, inputs and actions\<close>

datatype role = Follower | PreCandidate | Candidate | Leader

datatype tick = Election | Heartbeat | CheckQuorum

text \<open>The arguments of each message are the fields of the source, in its order.\<close>

datatype message =
    PreVoteRequest nat node_id nat nat
  | PreVoteResponse nat nat bool
  | RequestVote nat node_id nat nat
  | RequestVoteResponse nat bool
  | AppendEntries nat node_id nat nat "log_entry list" nat "bytes option"
  | AppendEntriesResponse nat bool nat nat "nat option" "bytes option"
  | InstallSnapshot nat node_id snapshot_metadata nat bytes bool
  | InstallSnapshotResponse nat bool nat bool nat

datatype input =
    Tick tick
  | Message node_id message
  | Propose command_id bytes
  | ReadIndex bytes
  | SnapshotBuilt persistent_snapshot

datatype storage_mutation =
    MHardState hard_state
  | MAppend "log_entry list"
  | MTruncateAndAppend nat "log_entry list"
  | MCompactSnapshot persistent_snapshot "log_entry list"
  | MInstallSnapshot persistent_snapshot "log_entry list" hard_state

datatype read_error = NotLeader | LeaderNotReady | InvalidContext | LeadershipLost

datatype action =
    Persist storage_mutation
  | Send node_id message
  | ResetElectionTimer
  | ResetHeartbeatTimer
  | RoleChanged role nat
  | ApplyEntry log_entry
  | ProposalCommitted command_id nat
  | ProposalRejected command_id "node_id option"
  | ReadReady bytes nat
  | ReadRejected bytes read_error
  | SnapshotRejected string
  | Fatal string

end
