(* ===== verification/Raft_Log.thy ===== *)
theory Raft_Log
  imports Raft_Types
begin

text \<open>
  The replicated log above its compaction boundary (\<open>aster-raft/src/log.rs\<close>), its
  well-formedness, and the effect of its operations on the terms it holds.
\<close>

section \<open>Definitions\<close>

record raft_log =
  rl_base_index :: nat
  rl_base_term :: nat
  rl_entries :: "log_entry list"

definition raft_log_new :: "persistent_snapshot option \<Rightarrow> log_entry list \<Rightarrow> raft_log" where
  "raft_log_new snapshot entries =
     (let (base_index, base_term) =
        (case snapshot of
           None \<Rightarrow> (0, 0)
         | Some s \<Rightarrow> (sm_last_included_index (ps_metadata s), sm_last_included_term (ps_metadata s)))
      in \<lparr>rl_base_index = base_index, rl_base_term = base_term, rl_entries = entries\<rparr>)"

definition log_last_index :: "raft_log \<Rightarrow> nat" where
  "log_last_index l = (if rl_entries l = [] then rl_base_index l else le_index (last (rl_entries l)))"

definition log_last_term :: "raft_log \<Rightarrow> nat" where
  "log_last_term l = (if rl_entries l = [] then rl_base_term l else le_term (last (rl_entries l)))"

definition log_entry_at :: "raft_log \<Rightarrow> nat \<Rightarrow> log_entry option" where
  "log_entry_at l index =
     (if index \<le> rl_base_index l then None
      else let offset = index - rl_base_index l - 1 in
        if offset < length (rl_entries l) then Some (rl_entries l ! offset) else None)"

definition log_term :: "raft_log \<Rightarrow> nat \<Rightarrow> nat option" where
  "log_term l index =
     (if index = rl_base_index l then Some (rl_base_term l)
      else if index < rl_base_index l then None
      else let offset = index - rl_base_index l - 1 in
        if offset < length (rl_entries l) then Some (le_term (rl_entries l ! offset)) else None)"

text \<open>No limit stands for \<open>usize::MAX\<close>.\<close>

definition entries_from :: "raft_log \<Rightarrow> nat \<Rightarrow> nat option \<Rightarrow> log_entry list" where
  "entries_from l index limit =
     (if index \<le> rl_base_index l then []
      else let rest = drop (index - rl_base_index l - 1) (rl_entries l)
        in case limit of None \<Rightarrow> rest | Some limit \<Rightarrow> take limit rest)"

definition log_append :: "log_entry list \<Rightarrow> raft_log \<Rightarrow> raft_log" where
  "log_append entries l = l\<lparr>rl_entries := rl_entries l @ entries\<rparr>"

definition truncate_and_append :: "nat \<Rightarrow> log_entry list \<Rightarrow> raft_log \<Rightarrow> raft_log" where
  "truncate_and_append from entries l =
     (let keep = from - (rl_base_index l + 1)
      in l\<lparr>rl_entries := take keep (rl_entries l) @ entries\<rparr>)"

function first_index_of_term :: "raft_log \<Rightarrow> nat \<Rightarrow> nat \<Rightarrow> nat" where
  "first_index_of_term l cursor tm =
     (if cursor > rl_base_index l \<and> log_term l (cursor - 1) = Some tm
      then first_index_of_term l (cursor - 1) tm
      else cursor)"
  by auto
termination by (relation "measure (\<lambda>(l, cursor, tm). cursor)") auto

declare first_index_of_term.simps [simp del]

definition last_index_of_term :: "raft_log \<Rightarrow> nat \<Rightarrow> nat option" where
  "last_index_of_term l tm =
     (case List.find (\<lambda>entry. le_term entry = tm) (rev (rl_entries l)) of
        Some entry \<Rightarrow> Some (le_index entry)
      | None \<Rightarrow> if rl_base_term l = tm then Some (rl_base_index l) else None)"

definition log_compact :: "nat \<Rightarrow> nat \<Rightarrow> bool \<Rightarrow> raft_log \<Rightarrow> raft_log" where
  "log_compact index tm retain_suffix l =
     (let entries = (if retain_suffix then entries_from l (index + 1) None else [])
      in l\<lparr>rl_base_index := index, rl_base_term := tm, rl_entries := entries\<rparr>)"

section \<open>Well-formed logs\<close>

text \<open>Indexes are consecutive from the boundary on, and terms never decrease.\<close>

definition log_wf :: "raft_log \<Rightarrow> bool" where
  "log_wf l =
     ((\<forall>k < length (rl_entries l). le_index (rl_entries l ! k) = rl_base_index l + 1 + k)
      \<and> sorted (rl_base_term l # map le_term (rl_entries l)))"

lemma sorted_terms: "log_wf l \<Longrightarrow> sorted (rl_base_term l # map le_term (rl_entries l))"
  unfolding log_wf_def by blast

lemma last_terms: "log_last_term l = last (rl_base_term l # map le_term (rl_entries l))"
  by (simp add: log_last_term_def last_map)

lemma log_last_index_eq: "log_wf l \<Longrightarrow> log_last_index l = rl_base_index l + length (rl_entries l)"
  by (auto simp: log_wf_def log_last_index_def last_conv_nth)

lemma log_term_base [simp]: "log_term l (rl_base_index l) = Some (rl_base_term l)"
  by (simp add: log_term_def)

lemma log_term_last: "log_wf l \<Longrightarrow> log_term l (log_last_index l) = Some (log_last_term l)"
  by (auto simp: log_last_index_eq log_term_def log_last_term_def last_conv_nth Let_def)

lemma log_term_Some_iff:
  "log_wf l \<Longrightarrow> (\<exists>t. log_term l i = Some t) \<longleftrightarrow> rl_base_index l \<le> i \<and> i \<le> log_last_index l"
  by (auto simp: log_term_def log_last_index_eq Let_def)

lemma log_term_SomeD:
  assumes "log_wf l" and "log_term l i = Some t"
  shows "rl_base_index l \<le> i" and "i \<le> log_last_index l"
  using assms log_term_Some_iff by blast+

lemma log_term_offset:
  "log_term l (rl_base_index l + k) =
     (if k = 0 then Some (rl_base_term l)
      else if k \<le> length (rl_entries l) then Some (le_term (rl_entries l ! (k - 1))) else None)"
  by (auto simp: log_term_def Let_def)

lemma log_term_nth:
  assumes "rl_base_index l \<le> i" and "i \<le> rl_base_index l + length (rl_entries l)"
  shows "log_term l i = Some ((rl_base_term l # map le_term (rl_entries l)) ! (i - rl_base_index l))"
proof -
  from assms obtain k where k: "i = rl_base_index l + k" "k \<le> length (rl_entries l)"
    by (metis add_le_cancel_left le_iff_add)
  then show ?thesis by (auto simp: log_term_offset nth_Cons split: nat.splits)
qed

lemma log_term_mono:
  assumes "log_wf l" and "log_term l i = Some t" and "log_term l j = Some u" and "i \<le> j"
  shows "t \<le> u"
proof -
  let ?ts = "rl_base_term l # map le_term (rl_entries l)"
  have ij: "rl_base_index l \<le> i" "j \<le> rl_base_index l + length (rl_entries l)"
    using log_term_SomeD[OF assms(1,2)] log_term_SomeD[OF assms(1,3)] log_last_index_eq[OF assms(1)]
    by simp_all
  then have "t = ?ts ! (i - rl_base_index l)" "u = ?ts ! (j - rl_base_index l)"
    using assms(2-4) by (simp_all add: log_term_nth)
  moreover have "sorted ?ts" using assms(1) unfolding log_wf_def by blast
  ultimately show ?thesis
    using ij assms(4) by (auto intro!: sorted_nth_mono diff_le_mono)
qed

lemma log_term_le_last: "log_wf l \<Longrightarrow> log_term l i = Some t \<Longrightarrow> t \<le> log_last_term l"
  using log_term_mono[OF _ _ log_term_last] log_term_SomeD(2) by blast

lemma log_entry_at_Some_iff:
  "log_wf l \<Longrightarrow> (\<exists>e. log_entry_at l i = Some e) \<longleftrightarrow> rl_base_index l < i \<and> i \<le> log_last_index l"
  by (auto simp: log_entry_at_def log_last_index_eq Let_def)

lemma log_entry_at_SomeD:
  assumes "log_wf l" and "log_entry_at l i = Some e"
  shows "le_index e = i" and "log_term l i = Some (le_term e)" and "e \<in> set (rl_entries l)"
  using assms by (auto simp: log_wf_def log_entry_at_def log_term_def Let_def split: if_splits)

lemma sorted_snoc:
  fixes x :: "'a :: linorder"
  assumes "sorted xs" and "xs \<noteq> [] \<Longrightarrow> last xs \<le> x"
  shows "sorted (xs @ [x])"
proof -
  have "y \<le> x" if "y \<in> set xs" for y
  proof -
    from that have "xs \<noteq> []" by auto
    moreover from that obtain i where "i < length xs" "xs ! i = y" by (auto simp: in_set_conv_nth)
    moreover from this have "y \<le> last xs"
      using assms(1) sorted_nth_mono[of xs i "length xs - 1"] by (cases xs) (auto simp: last_conv_nth)
    ultimately show ?thesis using assms(2) by auto
  qed
  with assms(1) show ?thesis by (simp add: sorted_append)
qed

lemma log_wf_append:
  assumes "log_wf l" and "le_index e = log_last_index l + 1" and "log_last_term l \<le> le_term e"
  shows "log_wf (log_append [e] l)"
proof -
  let ?ts = "rl_base_term l # map le_term (rl_entries l)"
  have "sorted ?ts" using assms(1) unfolding log_wf_def by blast
  moreover have "last ?ts = log_last_term l" by (simp add: log_last_term_def last_map)
  ultimately have "sorted (?ts @ [le_term e])" using assms(3) by (intro sorted_snoc) auto
  with assms(1,2) show ?thesis
    by (auto simp: log_wf_def log_append_def log_last_index_eq nth_append less_Suc_eq)
qed

lemma log_append_Cons: "log_append (e # es) l = log_append es (log_append [e] l)"
  by (simp add: log_append_def)

lemma log_append_base [simp]:
  "rl_base_index (log_append es l) = rl_base_index l"
  "rl_base_term (log_append es l) = rl_base_term l"
  "rl_entries (log_append es l) = rl_entries l @ es"
  by (simp_all add: log_append_def)

lemma log_wf_append_list:
  assumes "log_wf l" and "\<forall>k < length es. le_index (es ! k) = log_last_index l + 1 + k"
    and "sorted (log_last_term l # map le_term es)"
  shows "log_wf (log_append es l)"
  using assms
proof (induction es arbitrary: l)
  case Nil
  then show ?case by (simp add: log_append_def)
next
  case (Cons e es)
  have e: "le_index e = log_last_index l + 1" "log_last_term l \<le> le_term e"
    using Cons.prems(2,3) by force+
  have wf: "log_wf (log_append [e] l)" by (rule log_wf_append[OF Cons.prems(1) e])
  have last: "log_last_index (log_append [e] l) = log_last_index l + 1"
    "log_last_term (log_append [e] l) = le_term e"
    by (simp_all add: log_last_index_def log_last_term_def e)
  have "\<forall>k < length es. le_index (es ! k) = log_last_index (log_append [e] l) + 1 + k"
    using Cons.prems(2) last(1)
    by (metis (no_types, lifting) Suc_less_eq add.assoc add.commute length_Cons nth_Cons_Suc plus_1_eq_Suc)
  then show ?case
    using Cons.IH[OF wf] Cons.prems(3) last(2) by (simp add: log_append_Cons[of e es])
qed

definition log_cut :: "nat \<Rightarrow> raft_log \<Rightarrow> raft_log" where
  "log_cut index l = l\<lparr>rl_entries := take (index - (rl_base_index l + 1)) (rl_entries l)\<rparr>"

lemma truncate_and_append_cut: "truncate_and_append index es l = log_append es (log_cut index l)"
  by (simp add: truncate_and_append_def log_append_def log_cut_def Let_def)

lemma log_cut_wf:
  assumes "log_wf l"
  shows "log_wf (log_cut index l)"
proof -
  let ?k = "index - (rl_base_index l + 1)"
  have "sorted (take (Suc ?k) (rl_base_term l # map le_term (rl_entries l)))"
    using assms unfolding log_wf_def by (blast intro: sorted_wrt_take)
  then show ?thesis using assms by (auto simp: log_wf_def log_cut_def take_map)
qed

lemma log_cut_last:
  assumes "log_wf l" and "rl_base_index l < index" and "index \<le> log_last_index l + 1"
  shows "log_last_index (log_cut index l) = index - 1"
    and "log_term l (index - 1) = Some (log_last_term (log_cut index l))"
proof -
  let ?k = "index - (rl_base_index l + 1)"
  have k: "?k \<le> length (rl_entries l)" "index - 1 = rl_base_index l + ?k"
    using assms log_last_index_eq[OF assms(1)] by auto
  show "log_last_index (log_cut index l) = index - 1"
    using log_last_index_eq[OF log_cut_wf[OF assms(1), of index]] k by (simp add: log_cut_def)
  show "log_term l (index - 1) = Some (log_last_term (log_cut index l))"
  proof (cases ?k)
    case 0
    then show ?thesis using k(2) by (simp add: log_cut_def log_last_term_def)
  next
    case (Suc j)
    then have "take ?k (rl_entries l) \<noteq> []" "last (take ?k (rl_entries l)) = rl_entries l ! j"
      using k by (auto simp: take_Suc_conv_app_nth)
    moreover have "log_term l (index - 1) = Some (le_term (rl_entries l ! j))"
    proof -
      have "index - 1 = rl_base_index l + Suc j" by (metis k(2) Suc)
      then show ?thesis using k(1) Suc log_term_offset[of l "Suc j"] by (simp only:) simp
    qed
    ultimately show ?thesis by (simp add: log_cut_def log_last_term_def)
  qed
qed

lemma log_compact_retain:
  assumes "log_wf l" and "log_term l index = Some tm"
  shows "rl_entries (log_compact index tm True l) = drop (index - rl_base_index l) (rl_entries l)"
    and "log_wf (log_compact index tm True l)"
    and "log_last_index (log_compact index tm True l) = log_last_index l"
    and "log_last_term (log_compact index tm True l) = log_last_term l"
proof -
  let ?l = "log_compact index tm True l" and ?d = "index - rl_base_index l"
  have bound: "rl_base_index l \<le> index" "?d \<le> length (rl_entries l)" "index = rl_base_index l + ?d"
    using log_term_SomeD[OF assms] log_last_index_eq[OF assms(1)] by auto
  show entries: "rl_entries ?l = drop ?d (rl_entries l)"
    using bound(1) by (auto simp: log_compact_def entries_from_def Let_def)
  have base: "rl_base_index ?l = index" "rl_base_term ?l = tm"
    by (simp_all add: log_compact_def Let_def)
  have terms: "tm # map le_term (drop ?d (rl_entries l)) = drop ?d (rl_base_term l # map le_term (rl_entries l))"
  proof -
    have "tm = (rl_base_term l # map le_term (rl_entries l)) ! ?d"
      using assms(2) bound log_term_nth[of l index] by simp
    then show ?thesis
      using bound(2) by (metis Cons_nth_drop_Suc drop_Suc_Cons drop_map le_imp_less_Suc length_Cons length_map)
  qed
  have "sorted (tm # map le_term (drop ?d (rl_entries l)))"
    unfolding terms using assms(1) unfolding log_wf_def by (blast intro: sorted_wrt_drop)
  then show wf: "log_wf ?l"
    using assms(1) bound unfolding log_wf_def base entries by auto
  show "log_last_index ?l = log_last_index l"
    using bound by (simp add: log_last_index_eq[OF wf] log_last_index_eq[OF assms(1)] base entries)
  have "last (tm # map le_term (drop ?d (rl_entries l))) = last (rl_base_term l # map le_term (rl_entries l))"
    unfolding terms using bound(2) by (intro last_drop) simp
  then show "log_last_term ?l = log_last_term l"
    by (simp only: last_terms base entries)
qed

lemma log_compact_discard:
  "log_wf (log_compact index tm False l)"
  "log_last_index (log_compact index tm False l) = index"
  "log_last_term (log_compact index tm False l) = tm"
  by (simp_all add: log_compact_def log_wf_def log_last_index_def log_last_term_def Let_def)

lemma log_compact_base [simp]:
  "rl_base_index (log_compact index tm retain l) = index"
  "rl_base_term (log_compact index tm retain l) = tm"
  by (simp_all add: log_compact_def Let_def)

end
