(* ===== verification/Raft_Node.thy ===== *)
theory Raft_Node
  imports Raft_Log
begin

text \<open>
  The deterministic Raft state machine of \<open>aster-raft/src/node.rs\<close>.

  A handler of the source mutates the node and pushes onto a list of actions.  Here it maps a node
  to the node after the handler and the actions it pushed; \<open>andThen\<close> runs one after another.
  Functions that only push actions return the list alone.  SHA-256 is the parameter \<open>sha\<close>.
\<close>

section \<open>State\<close>

definition MAX_APPEND_ENTRIES :: nat where "MAX_APPEND_ENTRIES = 64"
definition SNAPSHOT_CHUNK_BYTES :: nat where "SNAPSHOT_CHUNK_BYTES = 16 * 1024"
definition MAX_SNAPSHOT_BYTES :: nat where "MAX_SNAPSHOT_BYTES = 512 * 1024 * 1024"

record progress =
  pr_match_index :: nat
  pr_next_index :: nat
  pr_snapshot_offset :: "nat option"

record pending_read =
  pd_index :: nat
  pd_acknowledgements :: "node_id btset"

record incoming_snapshot =
  is_metadata :: snapshot_metadata
  is_data :: bytes

record raft =
  r_id :: node_id
  r_configuration :: configuration
  r_hard_state :: hard_state
  r_log :: raft_log
  r_snapshot :: "persistent_snapshot option"
  r_applied_index :: nat
  r_role :: role
  r_leader_id :: "node_id option"
  r_campaign_term :: "nat option"
  r_votes :: "node_id btset"
  r_progress :: "(node_id, progress) btmap"
  r_recent_active :: "node_id btset"
  r_pending_reads :: "(bytes, pending_read) btmap"
  r_incoming_snapshot :: "incoming_snapshot option"

abbreviation r_term :: "raft \<Rightarrow> nat" where
  "r_term n \<equiv> hs_current_term (r_hard_state n)"

abbreviation r_voted_for :: "raft \<Rightarrow> node_id option" where
  "r_voted_for n \<equiv> hs_voted_for (r_hard_state n)"

abbreviation r_commit_index :: "raft \<Rightarrow> nat" where
  "r_commit_index n \<equiv> hs_commit_index (r_hard_state n)"

type_synonym outcome = "raft \<times> action list"

fun andThen :: "outcome \<Rightarrow> (raft \<Rightarrow> outcome) \<Rightarrow> outcome" where
  "andThen (n, actions) f = (let (n', more) = f n in (n', actions @ more))"

lemma andThen_cong [fundef_cong]:
  "x = x' \<Longrightarrow> (\<And>n. n = fst x' \<Longrightarrow> f n = f' n) \<Longrightarrow> andThen x f = andThen x' f'"
  by (cases x') simp

definition push :: "action list \<Rightarrow> raft \<Rightarrow> outcome" where
  "push actions n = (n, actions)"

section \<open>Recovery\<close>

fun recover_entries :: "nat \<Rightarrow> nat \<Rightarrow> nat \<Rightarrow> log_entry list \<Rightarrow> recovery_error + unit" where
  "recover_entries current expected previous_term [] = Inr ()"
| "recover_entries current expected previous_term (entry # entries) =
     (if le_index entry \<noteq> expected then
        Inl (InvalidLog (''expected index '' @ show_nat expected @ '', found '' @ show_nat (le_index entry)))
      else if le_term entry < previous_term then
        Inl (InvalidLog (''term regressed from '' @ show_nat previous_term @ '' to ''
          @ show_nat (le_term entry) @ '' at index '' @ show_nat (le_index entry)))
      else if le_term entry > current then
        Inl (InvalidLog (''entry '' @ show_nat (le_index entry) @ '' has future term ''
          @ show_nat (le_term entry) @ '' beyond hard-state term '' @ show_nat current))
      else recover_entries current (nat_saturating_add expected 1) (le_term entry) entries)"

definition recover ::
    "(bytes \<Rightarrow> bytes) \<Rightarrow> node_id \<Rightarrow> configuration \<Rightarrow> stable_state \<Rightarrow> recovery_error + raft" where
  "recover sha i cfg st =
     rbind (require (cfg_contains cfg i) (NotVoter i)) (\<lambda>_.
     rbind (case ss_snapshot st of
              None \<Rightarrow> Inr ()
            | Some snapshot \<Rightarrow>
                if \<not> snapshot_validate sha snapshot then
                  Inl (InvalidSnapshot ''length or SHA-256 mismatch'')
                else if sm_configuration (ps_metadata snapshot) \<noteq> cfg then
                  Inl (InvalidSnapshot ''snapshot voter set differs from local configuration'')
                else Inr ()) (\<lambda>_.
     let (base_index, base_term) =
       (case ss_snapshot st of
          None \<Rightarrow> (0, 0)
        | Some s \<Rightarrow> (sm_last_included_index (ps_metadata s), sm_last_included_term (ps_metadata s)));
       hs = ss_hard_state st
     in
     rbind (recover_entries (hs_current_term hs) (nat_saturating_add base_index 1) base_term
              (ss_entries st)) (\<lambda>_.
     let last_index = (if ss_entries st = [] then base_index else le_index (last (ss_entries st))) in
     rbind (require (\<not> (hs_commit_index hs < base_index \<or> hs_commit_index hs > last_index))
              (InvalidIndexes (''commit '' @ show_nat (hs_commit_index hs) @ '' is outside [''
                 @ show_nat base_index @ '', '' @ show_nat last_index @ '']''))) (\<lambda>_.
     rbind (require (\<not> (ss_applied_index st < base_index \<or> ss_applied_index st > hs_commit_index hs))
              (InvalidIndexes (''applied '' @ show_nat (ss_applied_index st) @ '' is outside [''
                 @ show_nat base_index @ '', '' @ show_nat (hs_commit_index hs) @ '']''))) (\<lambda>_.
     Inr \<lparr>r_id = i, r_configuration = cfg, r_hard_state = hs,
          r_log = raft_log_new (ss_snapshot st) (ss_entries st),
          r_snapshot = ss_snapshot st, r_applied_index = ss_applied_index st,
          r_role = Follower, r_leader_id = None, r_campaign_term = None, r_votes = bt_empty,
          r_progress = bt_empty, r_recent_active = bt_empty, r_pending_reads = bt_empty,
          r_incoming_snapshot = None\<rparr>)))))"

definition stable_state_of :: "raft \<Rightarrow> stable_state" where
  "stable_state_of n =
     \<lparr>ss_hard_state = r_hard_state n, ss_snapshot = r_snapshot n,
      ss_entries = rl_entries (r_log n), ss_applied_index = r_applied_index n\<rparr>"

section \<open>Commitment and application\<close>

function apply_committed :: "raft \<Rightarrow> outcome" where
  "apply_committed n =
     (if r_applied_index n < r_commit_index n then
        let next = r_applied_index n + 1 in
        case log_entry_at (r_log n) next of
          None \<Rightarrow>
            (n, [Fatal (''committed entry '' @ show_nat next @ '' is unavailable for apply'')])
        | Some entry \<Rightarrow>
            andThen (n\<lparr>r_applied_index := next\<rparr>,
                     ApplyEntry entry #
                     (if r_role n = Leader then
                        case le_payload entry of
                          Command i _ \<Rightarrow> [ProposalCommitted i (le_index entry)]
                        | Noop \<Rightarrow> []
                      else []))
              apply_committed
      else (n, []))"
  by auto
termination by (relation "measure (\<lambda>n. r_commit_index n - r_applied_index n)") auto

declare apply_committed.simps [simp del]

definition set_commit :: "nat \<Rightarrow> raft \<Rightarrow> outcome" where
  "set_commit new_commit n =
     (if new_commit \<le> r_commit_index n then (n, [])
      else if new_commit > log_last_index (r_log n) then
        (n, [Fatal (''attempted to commit '' @ show_nat new_commit @ '' beyond log end ''
               @ show_nat (log_last_index (r_log n)))])
      else
        let n = n\<lparr>r_hard_state := (r_hard_state n)\<lparr>hs_commit_index := new_commit\<rparr>\<rparr>
        in andThen (n, [Persist (MHardState (r_hard_state n))]) apply_committed)"

definition match_index_of :: "raft \<Rightarrow> node_id \<Rightarrow> nat" where
  "match_index_of n voter =
     (case bt_get (r_progress n) voter of None \<Rightarrow> 0 | Some progress \<Rightarrow> pr_match_index progress)"

definition advance_leader_commit :: "raft \<Rightarrow> outcome" where
  "advance_leader_commit n =
     (if r_role n \<noteq> Leader then (n, [])
      else
        let index = quorum_index (r_configuration n) (match_index_of n) in
        if index > r_commit_index n \<and> log_term (r_log n) index = Some (r_term n)
        then set_commit index n
        else (n, []))"

section \<open>Replication by the leader\<close>

definition peers :: "raft \<Rightarrow> node_id list" where
  "peers n = filter (\<lambda>i. i \<noteq> r_id n) (bt_keys (cfg_participants (r_configuration n)))"

definition send_snapshot_chunk :: "raft \<Rightarrow> node_id \<Rightarrow> nat \<Rightarrow> action list" where
  "send_snapshot_chunk n peer offset =
     (case r_snapshot n of
        None \<Rightarrow>
          [Fatal (''peer '' @ show_nat peer
             @ '' requires index at/before compacted boundary, but no snapshot exists'')]
      | Some snapshot \<Rightarrow>
          let start = min offset (length (ps_data snapshot));
              stop = min (start + SNAPSHOT_CHUNK_BYTES) (length (ps_data snapshot))
          in [Send peer (InstallSnapshot (r_term n) (r_id n) (ps_metadata snapshot) start
                (take (stop - start) (drop start (ps_data snapshot)))
                (stop = length (ps_data snapshot)))])"

definition send_append :: "raft \<Rightarrow> node_id \<Rightarrow> bytes option \<Rightarrow> action list" where
  "send_append n peer read_context =
     (case bt_get (r_progress n) peer of
        None \<Rightarrow> []
      | Some progress \<Rightarrow>
          if pr_next_index progress \<le> rl_base_index (r_log n) then
            send_snapshot_chunk n peer
              (case pr_snapshot_offset progress of None \<Rightarrow> 0 | Some offset \<Rightarrow> offset)
          else
            let next_index = min (pr_next_index progress) (log_last_index (r_log n) + 1);
                prev_log_index = next_index - 1
            in case log_term (r_log n) prev_log_index of
                 None \<Rightarrow> [Fatal (''missing previous log term at '' @ show_nat prev_log_index)]
               | Some prev_log_term \<Rightarrow>
                   [Send peer (AppendEntries (r_term n) (r_id n) prev_log_index prev_log_term
                      (entries_from (r_log n) next_index (Some MAX_APPEND_ENTRIES))
                      (r_commit_index n) read_context)])"

definition broadcast_append :: "raft \<Rightarrow> bytes option \<Rightarrow> action list" where
  "broadcast_append n read_context = concat (map (\<lambda>peer. send_append n peer read_context) (peers n))"

section \<open>Roles and elections\<close>

definition become_follower :: "nat \<Rightarrow> node_id option \<Rightarrow> raft \<Rightarrow> outcome" where
  "become_follower tm leader_id n =
     (let was_role = r_role n in
      andThen
        (if tm > r_term n then
           let n = n\<lparr>r_hard_state := (r_hard_state n)\<lparr>hs_current_term := tm, hs_voted_for := None\<rparr>\<rparr>
           in (n, [Persist (MHardState (r_hard_state n))])
         else (n, []))
        (\<lambda>n.
      andThen
        (if was_role = Leader \<or> r_pending_reads n \<noteq> bt_empty then
           (n\<lparr>r_pending_reads := bt_empty\<rparr>,
            map (\<lambda>context. ReadRejected context LeadershipLost) (bt_keys (r_pending_reads n)))
         else (n, []))
        (\<lambda>n.
           let n = n\<lparr>r_role := Follower, r_leader_id := leader_id, r_campaign_term := None,
                     r_votes := bt_empty, r_progress := bt_empty, r_recent_active := bt_empty\<rparr>
           in (n, if was_role \<noteq> Follower then [RoleChanged (r_role n) (r_term n)] else []))))"

definition leader_progress :: "raft \<Rightarrow> nat \<Rightarrow> (node_id, progress) btmap" where
  "leader_progress n index =
     fold (\<lambda>voter. bt_insert voter
             \<lparr>pr_match_index = (if voter = r_id n then index else 0), pr_next_index = index + 1,
              pr_snapshot_offset = None\<rparr>)
       (bt_keys (cfg_participants (r_configuration n))) bt_empty"

definition become_leader :: "raft \<Rightarrow> outcome" where
  "become_leader n =
     (let entry = \<lparr>le_index = log_last_index (r_log n) + 1, le_term = r_term n, le_payload = Noop\<rparr>;
          n = n\<lparr>r_role := Leader, r_leader_id := Some (r_id n), r_votes := bt_empty,
                r_pending_reads := bt_empty, r_log := log_append [entry] (r_log n),
                r_progress := leader_progress n (le_index entry),
                r_recent_active := cfg_participants (r_configuration n)\<rparr>
      in andThen (n, [Persist (MAppend [entry]), RoleChanged (r_role n) (r_term n), ResetHeartbeatTimer])
           (\<lambda>n. andThen (advance_leader_commit n) (\<lambda>n. (n, broadcast_append n None))))"

definition start_election :: "nat \<Rightarrow> raft \<Rightarrow> outcome" where
  "start_election tm n =
     (let n = n\<lparr>r_hard_state := (r_hard_state n)\<lparr>hs_current_term := tm, hs_voted_for := Some (r_id n)\<rparr>,
                r_role := Candidate, r_campaign_term := None, r_votes := bts_insert (r_id n) bt_empty\<rparr>
      in andThen (n, [Persist (MHardState (r_hard_state n)), RoleChanged (r_role n) tm, ResetElectionTimer])
           (\<lambda>n. if quorum (r_configuration n) (r_votes n) then become_leader n
                else (n, map (\<lambda>peer. Send peer (RequestVote tm (r_id n)
                                (log_last_index (r_log n)) (log_last_term (r_log n)))) (peers n))))"

definition start_pre_vote :: "raft \<Rightarrow> outcome" where
  "start_pre_vote n =
     (case nat_checked_add (r_term n) 1 of
        None \<Rightarrow> (n, [Fatal ''term counter exhausted''])
      | Some prospective_term \<Rightarrow>
          let n = n\<lparr>r_role := PreCandidate, r_leader_id := None,
                    r_campaign_term := Some prospective_term, r_votes := bts_insert (r_id n) bt_empty\<rparr>
          in andThen (n, [RoleChanged (r_role n) (r_term n), ResetElectionTimer])
               (\<lambda>n. if quorum (r_configuration n) (r_votes n) then start_election prospective_term n
                    else (n, map (\<lambda>peer. Send peer (PreVoteRequest prospective_term (r_id n)
                                    (log_last_index (r_log n)) (log_last_term (r_log n)))) (peers n))))"

definition candidate_log_is_up_to_date :: "raft_log \<Rightarrow> nat \<Rightarrow> nat \<Rightarrow> bool" where
  "candidate_log_is_up_to_date l index tm =
     (tm > log_last_term l \<or> (tm = log_last_term l \<and> index \<ge> log_last_index l))"

definition on_pre_vote_request ::
    "node_id \<Rightarrow> nat \<Rightarrow> node_id \<Rightarrow> nat \<Rightarrow> nat \<Rightarrow> raft \<Rightarrow> outcome" where
  "on_pre_vote_request from prospective_term candidate_id last_log_index last_log_term n =
     (if candidate_id \<noteq> from then (n, [])
      else
        let granted = (prospective_term > r_term n
                       \<and> candidate_log_is_up_to_date (r_log n) last_log_index last_log_term)
        in (n, [Send from (PreVoteResponse (r_term n) prospective_term granted)]))"

definition on_pre_vote_response :: "node_id \<Rightarrow> nat \<Rightarrow> nat \<Rightarrow> bool \<Rightarrow> raft \<Rightarrow> outcome" where
  "on_pre_vote_response from responder_term prospective_term granted n =
     (if responder_term > r_term n then
        andThen (become_follower responder_term None n) (push [ResetElectionTimer])
      else if r_role n \<noteq> PreCandidate \<or> r_campaign_term n \<noteq> Some prospective_term \<or> \<not> granted
      then (n, [])
      else
        let n = n\<lparr>r_votes := bts_insert from (r_votes n)\<rparr>
        in if quorum (r_configuration n) (r_votes n) then start_election prospective_term n else (n, []))"

definition on_vote_request :: "node_id \<Rightarrow> nat \<Rightarrow> node_id \<Rightarrow> nat \<Rightarrow> nat \<Rightarrow> raft \<Rightarrow> outcome" where
  "on_vote_request from tm candidate_id last_log_index last_log_term n =
     (if candidate_id \<noteq> from then (n, [])
      else
        andThen (if tm > r_term n then become_follower tm None n else (n, [])) (\<lambda>n.
        let granted = (tm = r_term n
                       \<and> (r_voted_for n = None \<or> r_voted_for n = Some candidate_id)
                       \<and> candidate_log_is_up_to_date (r_log n) last_log_index last_log_term)
        in
        andThen
          (if granted then
             andThen
               (if r_voted_for n \<noteq> Some candidate_id then
                  let n = n\<lparr>r_hard_state := (r_hard_state n)\<lparr>hs_voted_for := Some candidate_id\<rparr>\<rparr>
                  in (n, [Persist (MHardState (r_hard_state n))])
                else (n, []))
               (\<lambda>n. (n\<lparr>r_leader_id := None\<rparr>, [ResetElectionTimer]))
           else (n, []))
          (\<lambda>n. (n, [Send from (RequestVoteResponse (r_term n) granted)]))))"

definition on_vote_response :: "node_id \<Rightarrow> nat \<Rightarrow> bool \<Rightarrow> raft \<Rightarrow> outcome" where
  "on_vote_response from tm granted n =
     (if tm > r_term n then
        andThen (become_follower tm None n) (push [ResetElectionTimer])
      else if r_role n \<noteq> Candidate \<or> tm \<noteq> r_term n \<or> \<not> granted then (n, [])
      else
        let n = n\<lparr>r_votes := bts_insert from (r_votes n)\<rparr>
        in if quorum (r_configuration n) (r_votes n) then become_leader n else (n, []))"

section \<open>Replication to a follower\<close>

definition reject_append ::
    "raft \<Rightarrow> node_id \<Rightarrow> bytes option \<Rightarrow> nat \<Rightarrow> nat option \<Rightarrow> action list" where
  "reject_append n to read_context conflict_index conflict_term =
     [Send to (AppendEntriesResponse (r_term n) False 0 conflict_index conflict_term read_context)]"

fun valid_entry_sequence :: "nat \<Rightarrow> nat \<Rightarrow> nat \<Rightarrow> log_entry list \<Rightarrow> bool" where
  "valid_entry_sequence prev_log_index previous_term leader_term [] = True"
| "valid_entry_sequence prev_log_index previous_term leader_term (entry # entries) =
     (if le_index entry \<noteq> prev_log_index + 1 \<or> le_term entry > leader_term \<or> le_term entry < previous_term
      then False
      else valid_entry_sequence (prev_log_index + 1) (le_term entry) leader_term entries)"

text \<open>
  The loop that compares the received entries with the log: it ends with the first difference
  (the index and the position in the message), with a fatal conflict below the commit index, with
  a gap, or with no difference.
\<close>

datatype entry_scan = Same | ChangedFrom nat nat | ReplacesCommitted nat | Gap

fun scan_entries :: "raft_log \<Rightarrow> nat \<Rightarrow> nat \<Rightarrow> log_entry list \<Rightarrow> entry_scan" where
  "scan_entries l commit position [] = Same"
| "scan_entries l commit position (entry # entries) =
     (case log_term l (le_index entry) of
        Some local_term \<Rightarrow>
          if local_term = le_term entry then scan_entries l commit (position + 1) entries
          else if le_index entry \<le> commit then ReplacesCommitted (le_index entry)
          else ChangedFrom (le_index entry) position
      | None \<Rightarrow>
          if le_index entry \<noteq> log_last_index l + 1 then Gap
          else ChangedFrom (le_index entry) position)"

definition store_entries :: "nat \<Rightarrow> log_entry list \<Rightarrow> raft \<Rightarrow> outcome" where
  "store_entries from_index suffix n =
     (let replacing = from_index \<le> log_last_index (r_log n)
      in (n\<lparr>r_log := truncate_and_append from_index suffix (r_log n)\<rparr>,
          [Persist (if replacing then MTruncateAndAppend from_index suffix else MAppend suffix)]))"

text \<open>The part of \<open>on_append_entries\<close> after the node has become a follower of the sender.\<close>

definition accept_append ::
    "node_id \<Rightarrow> nat \<Rightarrow> nat \<Rightarrow> nat \<Rightarrow> log_entry list \<Rightarrow> nat \<Rightarrow> bytes option \<Rightarrow> raft \<Rightarrow> outcome" where
  "accept_append from tm prev_log_index prev_log_term entries leader_commit read_context n =
     (if prev_log_index < rl_base_index (r_log n) then
        (n, reject_append n from read_context (rl_base_index (r_log n) + 1) (Some (rl_base_term (r_log n))))
      else case log_term (r_log n) prev_log_index of
        None \<Rightarrow> (n, reject_append n from read_context (log_last_index (r_log n) + 1) None)
      | Some local_prev_term \<Rightarrow>
          if local_prev_term \<noteq> prev_log_term then
            (n, reject_append n from read_context
                  (first_index_of_term (r_log n) prev_log_index local_prev_term) (Some local_prev_term))
          else if \<not> valid_entry_sequence prev_log_index prev_log_term tm entries then
            (n, reject_append n from read_context (prev_log_index + 1) None)
          else
            let matched = prev_log_index + length entries;
                finish = (\<lambda>n.
                  andThen (set_commit (min leader_commit (log_last_index (r_log n))) n) (\<lambda>n.
                  (n, [Send from (AppendEntriesResponse (r_term n) True matched 0 None read_context)])))
            in case scan_entries (r_log n) (r_commit_index n) 0 entries of
                 ReplacesCommitted index \<Rightarrow>
                   (n, [Fatal (''leader attempted to replace committed index '' @ show_nat index)])
               | Gap \<Rightarrow> (n, reject_append n from read_context (log_last_index (r_log n) + 1) None)
               | Same \<Rightarrow> finish n
               | ChangedFrom from_index position \<Rightarrow>
                   andThen (store_entries from_index (drop position entries) n) finish)"

definition on_append_entries ::
    "node_id \<Rightarrow> nat \<Rightarrow> node_id \<Rightarrow> nat \<Rightarrow> nat \<Rightarrow> log_entry list \<Rightarrow> nat \<Rightarrow> bytes option \<Rightarrow> raft \<Rightarrow> outcome" where
  "on_append_entries from tm leader_id prev_log_index prev_log_term entries leader_commit read_context n =
     (if leader_id \<noteq> from then (n, [])
      else if tm < r_term n then
        (n, reject_append n from read_context (log_last_index (r_log n) + 1) None)
      else
        andThen (become_follower tm (Some from) n) (\<lambda>n.
        andThen (n, [ResetElectionTimer])
          (accept_append from tm prev_log_index prev_log_term entries leader_commit read_context)))"

section \<open>Reads\<close>

definition complete_read :: "bytes \<Rightarrow> raft \<Rightarrow> outcome" where
  "complete_read context n =
     (case bt_get (r_pending_reads n) context of
        None \<Rightarrow> (n, [])
      | Some pending \<Rightarrow>
          (n\<lparr>r_pending_reads := bt_remove context (r_pending_reads n)\<rparr>,
           [ReadReady context (pd_index pending)]))"

definition acknowledge_read :: "node_id \<Rightarrow> bytes \<Rightarrow> raft \<Rightarrow> outcome" where
  "acknowledge_read from context n =
     (case bt_get (r_pending_reads n) context of
        None \<Rightarrow> (n, [])
      | Some pending \<Rightarrow>
          let pending = pending\<lparr>pd_acknowledgements := bts_insert from (pd_acknowledgements pending)\<rparr>;
              n = n\<lparr>r_pending_reads := bt_insert context pending (r_pending_reads n)\<rparr>
          in if quorum (r_configuration n) (pd_acknowledgements pending) then complete_read context n
             else (n, []))"

definition read_index :: "bytes \<Rightarrow> raft \<Rightarrow> outcome" where
  "read_index context n =
     (if r_role n \<noteq> Leader then (n, [ReadRejected context NotLeader])
      else if context = [] \<or> bt_contains (r_pending_reads n) context then
        (n, [ReadRejected context InvalidContext])
      else if log_term (r_log n) (r_commit_index n) \<noteq> Some (r_term n) then
        (n, [ReadRejected context LeaderNotReady])
      else
        let acknowledgements = bts_insert (r_id n) bt_empty;
            n = n\<lparr>r_pending_reads := bt_insert context
                    \<lparr>pd_index = r_commit_index n, pd_acknowledgements = acknowledgements\<rparr> (r_pending_reads n)\<rparr>
        in if quorum (r_configuration n) acknowledgements then complete_read context n
           else (n, broadcast_append n (Some context)))"

section \<open>Responses to the leader\<close>

definition update_progress :: "node_id \<Rightarrow> (progress \<Rightarrow> progress) \<Rightarrow> raft \<Rightarrow> raft" where
  "update_progress peer f n =
     (case bt_get (r_progress n) peer of
        None \<Rightarrow> n
      | Some progress \<Rightarrow> n\<lparr>r_progress := bt_insert peer (f progress) (r_progress n)\<rparr>)"

definition on_append_response ::
    "node_id \<Rightarrow> nat \<Rightarrow> bool \<Rightarrow> nat \<Rightarrow> nat \<Rightarrow> nat option \<Rightarrow> bytes option \<Rightarrow> raft \<Rightarrow> outcome" where
  "on_append_response from tm success match_index conflict_index conflict_term read_context n =
     (if tm > r_term n then
        andThen (become_follower tm None n) (push [ResetElectionTimer])
      else if r_role n \<noteq> Leader \<or> tm \<noteq> r_term n then (n, [])
      else
        andThen
          (let n = n\<lparr>r_recent_active := bts_insert from (r_recent_active n)\<rparr>
           in case read_context of None \<Rightarrow> (n, []) | Some context \<Rightarrow> acknowledge_read from context n)
          (\<lambda>n.
        if success then
          let n = update_progress from (\<lambda>progress.
                progress\<lparr>pr_match_index := max (pr_match_index progress) match_index,
                         pr_next_index := max (pr_next_index progress) (nat_saturating_add match_index 1),
                         pr_snapshot_offset := None\<rparr>) n
          in andThen (advance_leader_commit n)
               (\<lambda>n. (n, if match_index < log_last_index (r_log n) then send_append n from None else []))
        else
          let next_index = max (case Option.bind conflict_term (last_index_of_term (r_log n)) of
                                  None \<Rightarrow> conflict_index
                                | Some index \<Rightarrow> index + 1) 1;
              n = update_progress from (\<lambda>progress.
                progress\<lparr>pr_next_index := min next_index (max (pr_next_index progress - 1) 1),
                         pr_snapshot_offset := None\<rparr>) n
          in (n, send_append n from None)))"

definition on_snapshot_response ::
    "node_id \<Rightarrow> nat \<Rightarrow> bool \<Rightarrow> nat \<Rightarrow> bool \<Rightarrow> nat \<Rightarrow> raft \<Rightarrow> outcome" where
  "on_snapshot_response from tm accepted next_offset finished match_index n =
     (if tm > r_term n then
        andThen (become_follower tm None n) (push [ResetElectionTimer])
      else if r_role n \<noteq> Leader \<or> tm \<noteq> r_term n then (n, [])
      else
        let n = n\<lparr>r_recent_active := bts_insert from (r_recent_active n)\<rparr>
        in case bt_get (r_progress n) from of
             None \<Rightarrow> (n, [])
           | Some _ \<Rightarrow>
               andThen
                 (if finished \<and> accepted then
                    advance_leader_commit (update_progress from (\<lambda>progress.
                      progress\<lparr>pr_match_index := max (pr_match_index progress) match_index,
                               pr_next_index := max (pr_next_index progress) (match_index + 1),
                               pr_snapshot_offset := None\<rparr>) n)
                  else
                    (update_progress from (\<lambda>progress.
                       progress\<lparr>pr_snapshot_offset := Some (if accepted then next_offset else 0)\<rparr>) n, []))
                 (\<lambda>n. (n, send_append n from None)))"

section \<open>Proposals\<close>

definition propose :: "command_id \<Rightarrow> bytes \<Rightarrow> raft \<Rightarrow> outcome" where
  "propose i command n =
     (if r_role n \<noteq> Leader then (n, [ProposalRejected i (r_leader_id n)])
      else
        let entry = \<lparr>le_index = log_last_index (r_log n) + 1, le_term = r_term n,
                     le_payload = Command i command\<rparr>;
            n = update_progress (r_id n) (\<lambda>progress.
                  progress\<lparr>pr_match_index := le_index entry, pr_next_index := le_index entry + 1\<rparr>)
                (n\<lparr>r_log := log_append [entry] (r_log n)\<rparr>)
        in andThen (n, [Persist (MAppend [entry])]) (\<lambda>n.
           andThen (advance_leader_commit n) (\<lambda>n. (n, broadcast_append n None))))"

section \<open>Snapshots\<close>

definition snapshot_built :: "(bytes \<Rightarrow> bytes) \<Rightarrow> persistent_snapshot \<Rightarrow> raft \<Rightarrow> outcome" where
  "snapshot_built sha snapshot n =
     (let metadata = ps_metadata snapshot;
          valid = (snapshot_validate sha snapshot
                   \<and> sm_configuration metadata = r_configuration n
                   \<and> sm_last_included_index metadata \<ge> rl_base_index (r_log n)
                   \<and> sm_last_included_index metadata \<le> r_applied_index n
                   \<and> log_term (r_log n) (sm_last_included_index metadata)
                       = Some (sm_last_included_term metadata))
      in if \<not> valid then
           (n, [SnapshotRejected ''snapshot hash, membership, or applied log boundary is invalid''])
         else
           let n = n\<lparr>r_log := log_compact (sm_last_included_index metadata)
                               (sm_last_included_term metadata) True (r_log n),
                     r_snapshot := Some snapshot\<rparr>
           in (n, [Persist (MCompactSnapshot snapshot (rl_entries (r_log n)))]))"

definition snapshot_reply :: "raft \<Rightarrow> node_id \<Rightarrow> bool \<Rightarrow> nat \<Rightarrow> bool \<Rightarrow> nat \<Rightarrow> action list" where
  "snapshot_reply n to accepted next_offset finished match_index =
     [Send to (InstallSnapshotResponse (r_term n) accepted next_offset finished match_index)]"

text \<open>The last part of \<open>on_install_snapshot\<close>: all chunks have arrived and the hash is right.\<close>

definition install_snapshot :: "node_id \<Rightarrow> incoming_snapshot \<Rightarrow> raft \<Rightarrow> outcome" where
  "install_snapshot from incoming n =
     (let metadata = is_metadata incoming;
          snapshot = \<lparr>ps_metadata = is_metadata incoming, ps_data = is_data incoming\<rparr>;
          retain_suffix = (log_term (r_log n) (sm_last_included_index metadata)
                             = Some (sm_last_included_term metadata));
          n = n\<lparr>r_log := log_compact (sm_last_included_index metadata)
                           (sm_last_included_term metadata) retain_suffix (r_log n),
                r_snapshot := Some snapshot,
                r_hard_state := (r_hard_state n)\<lparr>hs_commit_index :=
                  max (r_commit_index n) (sm_last_included_index metadata)\<rparr>,
                r_applied_index := sm_last_included_index metadata,
                r_incoming_snapshot := None\<rparr>
      in (n, Persist (MInstallSnapshot snapshot (rl_entries (r_log n)) (r_hard_state n))
             # snapshot_reply n from True (sm_byte_len metadata) True (sm_last_included_index metadata)))"

definition receive_chunk ::
    "(bytes \<Rightarrow> bytes) \<Rightarrow> node_id \<Rightarrow> snapshot_metadata \<Rightarrow> nat \<Rightarrow> bytes \<Rightarrow> bool \<Rightarrow> incoming_snapshot \<Rightarrow> raft \<Rightarrow> outcome" where
  "receive_chunk sha from metadata offset data finished incoming n =
     (let expected = length (is_data incoming) in
      if offset < expected then
        let duplicate_matches = (offset + length data \<le> expected
              \<and> take (length data) (drop offset (is_data incoming)) = data)
        in (n, snapshot_reply n from duplicate_matches expected False 0)
      else if offset \<noteq> expected \<or> nat_saturating_add expected (length data) > sm_byte_len metadata then
        (n, snapshot_reply n from False expected False 0)
      else
        let incoming = incoming\<lparr>is_data := is_data incoming @ data\<rparr>;
            next_offset = length (is_data incoming);
            n = n\<lparr>r_incoming_snapshot := Some incoming\<rparr>
        in if \<not> finished then (n, snapshot_reply n from True next_offset False 0)
           else if next_offset \<noteq> sm_byte_len metadata \<or> sha (is_data incoming) \<noteq> sm_sha256 metadata then
             (n\<lparr>r_incoming_snapshot := None\<rparr>, snapshot_reply n from False 0 False 0)
           else install_snapshot from incoming n)"

text \<open>The part of \<open>on_install_snapshot\<close> after the node has become a follower of the sender.\<close>

definition accept_snapshot ::
    "(bytes \<Rightarrow> bytes) \<Rightarrow> node_id \<Rightarrow> snapshot_metadata \<Rightarrow> nat \<Rightarrow> bytes \<Rightarrow> bool \<Rightarrow> raft \<Rightarrow> outcome" where
  "accept_snapshot sha from metadata offset data finished n =
     (if sm_configuration metadata \<noteq> r_configuration n
         \<or> sm_byte_len metadata > MAX_SNAPSHOT_BYTES
         \<or> sm_last_included_index metadata = 0 then
        (n\<lparr>r_incoming_snapshot := None\<rparr>, snapshot_reply n from False 0 False 0)
      else if sm_last_included_index metadata \<le> r_applied_index n then
        (n, snapshot_reply n from True (sm_byte_len metadata) True (sm_last_included_index metadata))
      else
        let same_transfer = (case r_incoming_snapshot n of
                               None \<Rightarrow> False
                             | Some incoming \<Rightarrow> is_metadata incoming = metadata);
            n = (if offset = 0 \<and> \<not> same_transfer
                 then n\<lparr>r_incoming_snapshot := Some \<lparr>is_metadata = metadata, is_data = []\<rparr>\<rparr> else n)
        in case r_incoming_snapshot n of
             None \<Rightarrow> (n, snapshot_reply n from False 0 False 0)
           | Some incoming \<Rightarrow>
               if is_metadata incoming \<noteq> metadata then (n, snapshot_reply n from False 0 False 0)
               else receive_chunk sha from metadata offset data finished incoming n)"

definition on_install_snapshot ::
    "(bytes \<Rightarrow> bytes) \<Rightarrow> node_id \<Rightarrow> nat \<Rightarrow> node_id \<Rightarrow> snapshot_metadata \<Rightarrow> nat \<Rightarrow> bytes \<Rightarrow> bool \<Rightarrow> raft \<Rightarrow> outcome" where
  "on_install_snapshot sha from tm leader_id metadata offset data finished n =
     (if leader_id \<noteq> from then (n, [])
      else if tm < r_term n then (n, snapshot_reply n from False 0 False 0)
      else
        andThen (become_follower tm (Some from) n) (\<lambda>n.
        andThen (n, [ResetElectionTimer])
          (accept_snapshot sha from metadata offset data finished)))"

section \<open>Steps\<close>

fun on_tick :: "tick \<Rightarrow> raft \<Rightarrow> outcome" where
  "on_tick Election n = (if r_role n \<noteq> Leader then start_pre_vote n else (n, []))"
| "on_tick Heartbeat n =
     (if r_role n = Leader then (n, broadcast_append n None @ [ResetHeartbeatTimer]) else (n, []))"
| "on_tick CheckQuorum n =
     (if r_role n = Leader then
        if quorum (r_configuration n) (r_recent_active n) then
          let n = n\<lparr>r_recent_active := bts_insert (r_id n) bt_empty\<rparr>
          in (n, broadcast_append n None)
        else andThen (become_follower (r_term n) None n) (push [ResetElectionTimer])
      else (n, []))"

fun dispatch :: "(bytes \<Rightarrow> bytes) \<Rightarrow> node_id \<Rightarrow> message \<Rightarrow> raft \<Rightarrow> outcome" where
  "dispatch sha from (PreVoteRequest prospective_term candidate_id last_log_index last_log_term) n =
     on_pre_vote_request from prospective_term candidate_id last_log_index last_log_term n"
| "dispatch sha from (PreVoteResponse responder_term prospective_term granted) n =
     on_pre_vote_response from responder_term prospective_term granted n"
| "dispatch sha from (RequestVote tm candidate_id last_log_index last_log_term) n =
     on_vote_request from tm candidate_id last_log_index last_log_term n"
| "dispatch sha from (RequestVoteResponse tm granted) n = on_vote_response from tm granted n"
| "dispatch sha from (AppendEntries tm leader_id prev_log_index prev_log_term entries leader_commit
      read_context) n =
     on_append_entries from tm leader_id prev_log_index prev_log_term entries leader_commit read_context n"
| "dispatch sha from (AppendEntriesResponse tm success match_index conflict_index conflict_term
      read_context) n =
     on_append_response from tm success match_index conflict_index conflict_term read_context n"
| "dispatch sha from (InstallSnapshot tm leader_id metadata offset data finished) n =
     on_install_snapshot sha from tm leader_id metadata offset data finished n"
| "dispatch sha from (InstallSnapshotResponse tm accepted next_offset finished match_index) n =
     on_snapshot_response from tm accepted next_offset finished match_index n"

definition on_message :: "(bytes \<Rightarrow> bytes) \<Rightarrow> node_id \<Rightarrow> message \<Rightarrow> raft \<Rightarrow> outcome" where
  "on_message sha from m n =
     (if \<not> cfg_contains (r_configuration n) from \<or> from = r_id n then (n, [])
      else dispatch sha from m n)"

fun on_input :: "(bytes \<Rightarrow> bytes) \<Rightarrow> input \<Rightarrow> raft \<Rightarrow> outcome" where
  "on_input sha (Tick t) n = on_tick t n"
| "on_input sha (Message from m) n = on_message sha from m n"
| "on_input sha (Propose i command) n = propose i command n"
| "on_input sha (ReadIndex context) n = read_index context n"
| "on_input sha (SnapshotBuilt snapshot) n = snapshot_built sha snapshot n"

definition raft_step :: "(bytes \<Rightarrow> bytes) \<Rightarrow> input \<Rightarrow> raft \<Rightarrow> outcome" where
  "raft_step sha i n = andThen (apply_committed n) (on_input sha i)"

end
