(* ===== verification/Raft_Store.thy ===== *)
theory Raft_Store
  imports Raft_Node
begin

text \<open>
  The durable side of a node: the checks and state changes of \<open>StableStore\<close>
  (\<open>aster-runtime/src/stable.rs\<close>) and the execution of an action list against it
  (\<open>execute_actions\<close> in \<open>aster-runtime/src/lib.rs\<close>).  This theory is about the stable state
  itself, not about the files that hold it: I/O errors and the size limit of a frame are left out.  So
  are the failures of sending a message and of answering a proposal or a read, and the installation of a
  snapshot, in the source an intent, the change of the database and a completion, is one action.
\<close>

datatype runtime_error = Corruption string | Limit string | Fenced string

section \<open>Reading the stable state\<close>

definition ss_base_index :: "stable_state \<Rightarrow> nat" where
  "ss_base_index st =
     (case ss_snapshot st of None \<Rightarrow> 0 | Some s \<Rightarrow> sm_last_included_index (ps_metadata s))"

definition ss_base_term :: "stable_state \<Rightarrow> nat" where
  "ss_base_term st =
     (case ss_snapshot st of None \<Rightarrow> 0 | Some s \<Rightarrow> sm_last_included_term (ps_metadata s))"

definition ss_last_index :: "stable_state \<Rightarrow> nat" where
  "ss_last_index st = (if ss_entries st = [] then ss_base_index st else le_index (last (ss_entries st)))"

definition ss_term_at :: "stable_state \<Rightarrow> nat \<Rightarrow> nat option" where
  "ss_term_at st index =
     (if index = ss_base_index st \<and> index \<noteq> 0 then Some (ss_base_term st)
      else if index \<le> ss_base_index st then None
      else let offset = index - ss_base_index st - 1 in
        if offset < length (ss_entries st) then Some (le_term (ss_entries st ! offset)) else None)"

definition suffix_after :: "stable_state \<Rightarrow> nat \<Rightarrow> log_entry list option" where
  "suffix_after st index =
     (if index < ss_base_index st \<or> index > ss_last_index st then None
      else let offset = index - ss_base_index st in
        if offset \<le> length (ss_entries st) then Some (drop offset (ss_entries st)) else None)"

section \<open>Validation\<close>

definition STORE_MAX_SNAPSHOT_BYTES :: nat where "STORE_MAX_SNAPSHOT_BYTES = 512 * 1024 * 1024"

definition validate_hard_state_monotonic :: "hard_state \<Rightarrow> hard_state \<Rightarrow> runtime_error + unit" where
  "validate_hard_state_monotonic current nxt =
     (if hs_current_term nxt < hs_current_term current \<or> hs_commit_index nxt < hs_commit_index current then
        Inl (Corruption ''Raft hard state term or commit index regressed'')
      else if hs_current_term nxt = hs_current_term current \<and> hs_voted_for current \<noteq> None
              \<and> hs_voted_for nxt \<noteq> hs_voted_for current then
        Inl (Corruption ''persisted vote changed within one term'')
      else Inr ())"

definition validate_hard_state :: "stable_state \<Rightarrow> hard_state \<Rightarrow> runtime_error + unit" where
  "validate_hard_state st nxt =
     rbind (validate_hard_state_monotonic (ss_hard_state st) nxt) (\<lambda>_.
     if hs_commit_index nxt > ss_last_index st then
       Inl (Corruption (''commit '' @ show_nat (hs_commit_index nxt) @ '' is beyond durable log ''
         @ show_nat (ss_last_index st)))
     else Inr ())"

fun entry_sequence :: "nat \<Rightarrow> nat \<Rightarrow> log_entry list \<Rightarrow> runtime_error + unit" where
  "entry_sequence expected previous_term [] = Inr ()"
| "entry_sequence expected previous_term (entry # entries) =
     (if le_index entry \<noteq> expected \<or> le_term entry < previous_term then
        Inl (Corruption (''invalid Raft entry sequence at index '' @ show_nat (le_index entry)
          @ '' term '' @ show_nat (le_term entry)))
      else case nat_checked_add expected 1 of
        None \<Rightarrow> Inl (Corruption ''Raft log index overflow'')
      | Some expected \<Rightarrow> entry_sequence expected (le_term entry) entries)"

definition store_entry_sequence :: "stable_state \<Rightarrow> log_entry list \<Rightarrow> runtime_error + unit" where
  "store_entry_sequence st entries =
     rbind (ok_or (nat_checked_add (ss_last_index st) 1) (Corruption ''Raft log index overflow'')) (\<lambda>expected.
     entry_sequence expected
       (if ss_entries st = [] then ss_base_term st else le_term (last (ss_entries st))) entries)"

definition validate_snapshot :: "(bytes \<Rightarrow> bytes) \<Rightarrow> persistent_snapshot \<Rightarrow> runtime_error + unit" where
  "validate_snapshot sha s =
     (if \<not> snapshot_validate sha s \<or> ps_data s = [] \<or> length (ps_data s) > STORE_MAX_SNAPSHOT_BYTES
         \<or> sm_last_included_index (ps_metadata s) = 0 then
        Inl (Corruption ''snapshot length, checksum, or boundary is invalid'')
      else Inr ())"

definition default_hard_state :: hard_state where
  "default_hard_state = \<lparr>hs_current_term = 0, hs_voted_for = None, hs_commit_index = 0\<rparr>"

definition validate_stable_indexes :: "(bytes \<Rightarrow> bytes) \<Rightarrow> stable_state \<Rightarrow> runtime_error + unit" where
  "validate_stable_indexes sha st =
     rbind (case ss_snapshot st of None \<Rightarrow> Inr () | Some s \<Rightarrow> validate_snapshot sha s) (\<lambda>_.
     let base = ss_base_index st; last_index = ss_last_index st; hs = ss_hard_state st in
     if hs_commit_index hs < base \<or> hs_commit_index hs > last_index
        \<or> ss_applied_index st < base \<or> ss_applied_index st > hs_commit_index hs then
       Inl (Corruption (''invalid Raft indexes base='' @ show_nat base @ '' applied=''
         @ show_nat (ss_applied_index st) @ '' commit='' @ show_nat (hs_commit_index hs)
         @ '' last='' @ show_nat last_index))
     else if ss_entries st \<noteq> [] \<and> le_index (hd (ss_entries st)) \<noteq> nat_saturating_add base 1 then
       Inl (Corruption (''retained Raft log begins at '' @ show_nat (le_index (hd (ss_entries st)))
         @ '', expected '' @ show_nat (nat_saturating_add base 1)))
     else store_entry_sequence
       \<lparr>ss_hard_state = default_hard_state, ss_snapshot = ss_snapshot st, ss_entries = [],
        ss_applied_index = base\<rparr> (ss_entries st))"

section \<open>Mutations\<close>

fun persist_state ::
    "(bytes \<Rightarrow> bytes) \<Rightarrow> storage_mutation \<Rightarrow> stable_state \<Rightarrow> runtime_error + stable_state" where
  "persist_state sha (MHardState hs) st =
     rbind (validate_hard_state st hs) (\<lambda>_. Inr (st\<lparr>ss_hard_state := hs\<rparr>))"
| "persist_state sha (MAppend entries) st =
     rbind (ok_or (nat_checked_add (ss_last_index st) 1) (Corruption ''Raft log index overflow'')) (\<lambda>expected.
     rbind (require (entries = [] \<or> le_index (hd entries) = expected)
       (Corruption (''Raft append starts at '' @ show_nat (le_index (hd entries)) @ '', expected ''
          @ show_nat expected))) (\<lambda>_.
     rbind (store_entry_sequence st entries) (\<lambda>_.
     Inr (st\<lparr>ss_entries := ss_entries st @ entries\<rparr>))))"
| "persist_state sha (MTruncateAndAppend from entries) st =
     rbind (require (from > hs_commit_index (ss_hard_state st))
       (Corruption (''attempted to truncate committed Raft index '' @ show_nat from))) (\<lambda>_.
     let base = ss_base_index st in
     rbind (require (from > base) (Corruption ''attempted to truncate before compacted Raft base'')) (\<lambda>_.
     let keep = from - base - 1 in
     rbind (require (keep \<le> length (ss_entries st)) (Corruption ''Raft truncate starts beyond log end'')) (\<lambda>_.
     let st = st\<lparr>ss_entries := take keep (ss_entries st)\<rparr> in
     rbind (require (entries = [] \<or> le_index (hd entries) = from)
       (Corruption ''replacement Raft suffix starts at the wrong index'')) (\<lambda>_.
     rbind (store_entry_sequence st entries) (\<lambda>_.
     Inr (st\<lparr>ss_entries := ss_entries st @ entries\<rparr>))))))"
| "persist_state sha (MCompactSnapshot snapshot retained) st =
     rbind (validate_snapshot sha snapshot) (\<lambda>_.
     rbind (require (sm_last_included_index (ps_metadata snapshot) \<le> ss_applied_index st)
       (Corruption ''cannot compact beyond the durable applied index'')) (\<lambda>_.
     rbind (require (ss_term_at st (sm_last_included_index (ps_metadata snapshot))
                       = Some (sm_last_included_term (ps_metadata snapshot))
                     \<and> suffix_after st (sm_last_included_index (ps_metadata snapshot)) = Some retained)
       (Corruption ''compacted snapshot boundary or retained suffix disagrees with the durable log'')) (\<lambda>_.
     Inr (st\<lparr>ss_snapshot := Some snapshot, ss_entries := retained\<rparr>))))"
| "persist_state sha (MInstallSnapshot snapshot retained hs) st =
     Inl (Corruption ''snapshot install must use the durable cross-file intent path'')"

definition store_persist ::
    "(bytes \<Rightarrow> bytes) \<Rightarrow> storage_mutation \<Rightarrow> stable_state \<Rightarrow> runtime_error + stable_state" where
  "store_persist sha mutation st =
     rbind (persist_state sha mutation st) (\<lambda>nxt.
     rbind (validate_stable_indexes sha nxt) (\<lambda>_. Inr nxt))"

definition store_mark_applied :: "nat \<Rightarrow> stable_state \<Rightarrow> runtime_error + stable_state" where
  "store_mark_applied index st =
     (if index = ss_applied_index st then Inr st
      else
        rbind (ok_or (nat_checked_add (ss_applied_index st) 1) (Corruption ''Raft applied index overflow''))
          (\<lambda>expected.
        if index \<noteq> expected \<or> index > hs_commit_index (ss_hard_state st) then
          Inl (Corruption (''cannot mark applied index '' @ show_nat index @ ''; expected ''
            @ show_nat expected @ '', commit is '' @ show_nat (hs_commit_index (ss_hard_state st))))
        else Inr (st\<lparr>ss_applied_index := index\<rparr>)))"

section \<open>Snapshot installation\<close>

record pending_install =
  pi_snapshot :: persistent_snapshot
  pi_retained_entries :: "log_entry list"
  pi_hard_state :: hard_state

definition pending_stable_state :: "pending_install \<Rightarrow> stable_state" where
  "pending_stable_state p =
     \<lparr>ss_hard_state = pi_hard_state p, ss_snapshot = Some (pi_snapshot p),
      ss_entries = pi_retained_entries p,
      ss_applied_index = sm_last_included_index (ps_metadata (pi_snapshot p))\<rparr>"

record stable_store =
  sto_state :: stable_state
  sto_pending :: "pending_install option"

definition begin_snapshot_install ::
    "(bytes \<Rightarrow> bytes) \<Rightarrow> persistent_snapshot \<Rightarrow> log_entry list \<Rightarrow> hard_state \<Rightarrow> stable_store
      \<Rightarrow> runtime_error + stable_store" where
  "begin_snapshot_install sha snapshot retained hs store =
     rbind (validate_snapshot sha snapshot) (\<lambda>_.
     let intent = \<lparr>pi_snapshot = snapshot, pi_retained_entries = retained, pi_hard_state = hs\<rparr>;
         desired = pending_stable_state intent;
         st = sto_state store;
         index = sm_last_included_index (ps_metadata snapshot) in
     rbind (validate_hard_state_monotonic (ss_hard_state st) hs) (\<lambda>_.
     rbind (validate_stable_indexes sha desired) (\<lambda>_.
     let matching_boundary = (ss_term_at st index = Some (sm_last_included_term (ps_metadata snapshot)));
         expected_suffix = (if matching_boundary
                            then (case suffix_after st index of None \<Rightarrow> [] | Some suffix \<Rightarrow> suffix)
                            else []) in
     rbind (require (retained = expected_suffix)
       (Corruption ''snapshot install retained a suffix that does not match the durable log'')) (\<lambda>_.
     rbind (require (index > ss_applied_index st)
       (Corruption (''snapshot install index '' @ show_nat index @ '' is not newer than applied index ''
          @ show_nat (ss_applied_index st)))) (\<lambda>_.
     case sto_pending store of
       Some existing \<Rightarrow>
         if existing = intent then Inr store
         else Inl (Corruption ''a different snapshot install intent is already durable'')
     | None \<Rightarrow> Inr (store\<lparr>sto_pending := Some intent\<rparr>))))))"

definition complete_snapshot_install ::
    "(bytes \<Rightarrow> bytes) \<Rightarrow> stable_store \<Rightarrow> runtime_error + stable_store" where
  "complete_snapshot_install sha store =
     rbind (ok_or (sto_pending store) (Corruption ''no durable snapshot install intent exists'')) (\<lambda>pending.
     let desired = pending_stable_state pending in
     rbind (validate_stable_indexes sha desired) (\<lambda>_.
     Inr \<lparr>sto_state = desired, sto_pending = None\<rparr>))"

section \<open>Executing actions\<close>

text \<open>
  The state machine behind \<open>Apply\<close> records the applied index in the store; installing a received
  snapshot writes the intent, installs the database and completes the intent.  Actions that only
  reach the network, the timers or waiting clients leave the store alone; \<open>SnapshotRejected\<close> and
  \<open>Fatal\<close> fence the node.
\<close>

fun execute_action :: "(bytes \<Rightarrow> bytes) \<Rightarrow> stable_store \<Rightarrow> action \<Rightarrow> runtime_error + stable_store" where
  "execute_action sha store (Persist (MInstallSnapshot snapshot retained hs)) =
     rbind (begin_snapshot_install sha snapshot retained hs store) (complete_snapshot_install sha)"
| "execute_action sha store (Persist mutation) =
     rbind (store_persist sha mutation (sto_state store)) (\<lambda>st. Inr (store\<lparr>sto_state := st\<rparr>))"
| "execute_action sha store (ApplyEntry entry) =
     rbind (store_mark_applied (le_index entry) (sto_state store)) (\<lambda>st. Inr (store\<lparr>sto_state := st\<rparr>))"
| "execute_action sha store (SnapshotRejected reason) =
     Inl (Fenced (''locally built snapshot was rejected: '' @ reason))"
| "execute_action sha store (Fatal reason) = Inl (Fenced reason)"
| "execute_action sha store _ = Inr store"

definition execute_actions ::
    "(bytes \<Rightarrow> bytes) \<Rightarrow> action list \<Rightarrow> stable_store \<Rightarrow> runtime_error + stable_store" where
  "execute_actions sha actions store = try_fold (execute_action sha) store actions"

end
