(* ===== verification/Raft_Quorum.thy ===== *)
theory Raft_Quorum
  imports Raft_Types
begin

text \<open>
  Correctness of the quorum rules of \<open>Configuration\<close>: quorums overlap, also across a membership
  change, and \<open>quorum_index\<close> finds the highest index that a quorum has reached.
\<close>

definition config_ok :: "configuration \<Rightarrow> bool" where
  "config_ok cfg =
     (bts_set (cfg_incoming cfg) \<noteq> {} \<and> bts_set (cfg_incoming cfg) \<subseteq> bts_set (cfg_participants cfg)
      \<and> (case cfg_outgoing cfg of
           None \<Rightarrow> True
         | Some outgoing \<Rightarrow> bts_set outgoing \<noteq> {} \<and> bts_set outgoing \<subseteq> bts_set (cfg_participants cfg)))"

lemma bts_set_eq_empty: "bts_set s = {} \<longleftrightarrow> s = bt_empty"
proof
  assume "bts_set s = {}"
  then have "bt_entries s = bt_entries bt_empty"
    by (simp add: bts_set_def bt_keys_def bt_empty.rep_eq)
  then show "s = bt_empty" by (simp only: bt_entries_inject)
qed simp

lemma set_bts_keys: "set (bt_keys s) = bts_set s"
  by (simp add: bts_set_def)

lemma config_new_ok: "config_new voters = Inr cfg \<Longrightarrow> config_ok cfg"
  by (auto simp: config_new_def config_ok_def Let_def result_simps simp flip: bts_set_eq_empty)

lemma config_joint_ok: "config_joint outgoing incoming = Inr cfg \<Longrightarrow> config_ok cfg"
  by (auto simp: config_joint_def config_ok_def Let_def result_simps set_bts_keys
       simp flip: bts_set_eq_empty)

lemma config_ok_participants: "config_ok cfg \<Longrightarrow> is_quorum cfg (bts_set (cfg_participants cfg))"
proof -
  assume ok: "config_ok cfg"
  have "set_majority m (bts_set (cfg_participants cfg))"
    if "bts_set m \<noteq> {}" and "bts_set m \<subseteq> bts_set (cfg_participants cfg)" for m
  proof -
    from that(2) have "bts_set m \<inter> bts_set (cfg_participants cfg) = bts_set m" by auto
    moreover have "card (bts_set m) > 0" using that(1) by (simp add: card_gt_0_iff)
    ultimately show ?thesis by (simp add: set_majority_def)
  qed
  with ok show ?thesis by (auto simp: config_ok_def is_quorum_def split: option.splits)
qed

section \<open>The highest index of a quorum\<close>

definition reached :: "configuration \<Rightarrow> (node_id \<Rightarrow> nat) \<Rightarrow> nat \<Rightarrow> node_id set" where
  "reached cfg matched index = {v \<in> bts_set (cfg_participants cfg). matched v \<ge> index}"

lemma acknowledgements_reached:
  "bts_set (bts_of_list (map fst (filter (\<lambda>(voter, m). m \<ge> index)
      (map (\<lambda>voter. (voter, matched voter)) (bt_keys (cfg_participants cfg))))))
   = reached cfg matched index"
  by (force simp: reached_def set_bts_keys)

lemma quorum_index_find:
  "quorum_index cfg matched =
     (case List.find (\<lambda>index. is_quorum cfg (reached cfg matched index))
        (rev (remdups_adj (sort (map matched (bt_keys (cfg_participants cfg)))))) of
        None \<Rightarrow> 0 | Some index \<Rightarrow> index)"
proof -
  have "map snd (map (\<lambda>voter. (voter, matched voter)) ks) = map matched ks" for ks by simp
  then show ?thesis
    unfolding quorum_index_def Let_def quorum_iff acknowledgements_reached by (simp only:)
qed

lemma find_rev_sorted:
  fixes xs :: "nat list"
  assumes "sorted xs" and "List.find P (rev xs) = Some x"
  shows "P x" and "x \<in> set xs" and "\<And>y. y \<in> set xs \<Longrightarrow> P y \<Longrightarrow> y \<le> x"
proof -
  from assms(2) obtain i where i: "i < length xs" "rev xs ! i = x" "P x" and
    before: "\<And>j. j < i \<Longrightarrow> \<not> P (rev xs ! j)"
    by (auto simp: find_Some_iff)
  show "P x" by (rule i(3))
  show "x \<in> set xs" using i by (metis length_rev nth_mem set_rev)
  show "y \<le> x" if y: "y \<in> set xs" "P y" for y
  proof -
    from y obtain j where j: "j < length xs" "rev xs ! j = y"
      by (metis in_set_conv_nth length_rev set_rev)
    with before y(2) have "i \<le> j" by (meson not_less)
    moreover have "sorted_wrt (\<ge>) (rev xs)" using assms(1) by (simp add: sorted_wrt_rev)
    ultimately show ?thesis using i j by (metis le_eq_less_or_eq length_rev sorted_wrt_nth_less)
  qed
qed

lemma reached_mono: "i \<le> j \<Longrightarrow> reached cfg matched j \<subseteq> reached cfg matched i"
  by (auto simp: reached_def)

lemma quorum_index_greatest:
  assumes ok: "config_ok cfg"
  shows "is_quorum cfg (reached cfg matched (quorum_index cfg matched))"
    and "is_quorum cfg (reached cfg matched i) \<Longrightarrow> i \<le> quorum_index cfg matched"
proof -
  let ?ms = "remdups_adj (sort (map matched (bt_keys (cfg_participants cfg))))"
  let ?P = "\<lambda>index. is_quorum cfg (reached cfg matched index)"
  have set_ms: "set ?ms = matched ` bts_set (cfg_participants cfg)"
    by (simp add: set_bts_keys)
  have nonempty: "set ?ms \<noteq> {}"
    using quorums.not_empty[OF config_ok_participants[OF ok]] unfolding set_ms by simp
  have "?P (Min (set ?ms))"
  proof -
    have "reached cfg matched (Min (set ?ms)) = bts_set (cfg_participants cfg)"
      unfolding set_ms by (auto simp: reached_def)
    with config_ok_participants[OF ok] show ?thesis by simp
  qed
  moreover have "Min (set ?ms) \<in> set (rev ?ms)" using nonempty by (simp only: set_rev) simp
  ultimately obtain q where find: "List.find ?P (rev ?ms) = Some q"
    by (metis (no_types, lifting) find_None_iff option.exhaust)
  then have q: "quorum_index cfg matched = q" by (simp add: quorum_index_find)
  have sorted: "sorted ?ms" by (intro sorted_remdups_adj) simp
  note greatest = find_rev_sorted[OF sorted find]
  show "?P (quorum_index cfg matched)" using greatest(1) by (simp add: q)
  show "i \<le> quorum_index cfg matched" if i: "?P i"
  proof (rule ccontr)
    assume "\<not> ?thesis"
    then have "q < i" by (simp add: q)
    let ?m = "Min (matched ` reached cfg matched i)"
    have fin: "finite (matched ` reached cfg matched i)" by (simp add: reached_def)
    have ne: "matched ` reached cfg matched i \<noteq> {}" using quorums.not_empty[OF i] by simp
    from Min_in[OF fin ne] obtain v where v: "v \<in> reached cfg matched i" "?m = matched v" by auto
    have "reached cfg matched i \<subseteq> reached cfg matched ?m"
      using fin by (auto simp: reached_def intro: Min_le)
    then have "?P ?m" using i quorums.mono by blast
    moreover have "?m \<in> set ?ms" using v unfolding set_ms by (auto simp: reached_def)
    ultimately have "?m \<le> q" using greatest(3) by blast
    moreover have "i \<le> ?m" using v by (auto simp: reached_def)
    ultimately show False using \<open>q < i\<close> by simp
  qed
qed

text \<open>
  C27: The commit candidate of a leader is the highest index that a quorum of the voters has
  stored.  For every configuration that can be built, fixed or joint, and every assignment of match
  indexes, the voters at or above \<open>quorum_index\<close> satisfy the quorum rule, and no higher index is
  held by a quorum.
\<close>

theorem quorum_index_correct:
  assumes "config_new outgoing = Inr cfg \<or> config_joint outgoing incoming = Inr cfg"
  shows "(\<exists>voters. quorum cfg voters
            \<and> bts_set voters = {v \<in> bts_set (cfg_participants cfg). matched v \<ge> quorum_index cfg matched})
         \<and> (\<forall>voters i. quorum cfg voters
            \<and> bts_set voters \<subseteq> {v \<in> bts_set (cfg_participants cfg). matched v \<ge> i}
            \<longrightarrow> i \<le> quorum_index cfg matched)"
proof -
  have ok: "config_ok cfg" using assms config_new_ok config_joint_ok by blast
  let ?q = "quorum_index cfg matched"
  let ?voters = "bts_of_list (filter (\<lambda>v. matched v \<ge> ?q) (bt_keys (cfg_participants cfg)))"
  have "bts_set ?voters = reached cfg matched ?q" by (auto simp: reached_def set_bts_keys)
  with quorum_index_greatest(1)[OF ok]
  have "quorum cfg ?voters \<and> bts_set ?voters = reached cfg matched ?q" by (simp add: quorum_iff)
  moreover have "i \<le> ?q" if "quorum cfg voters" "bts_set voters \<subseteq> reached cfg matched i" for voters i
    using that quorum_index_greatest(2)[OF ok] quorums.mono by (auto simp: quorum_iff)
  ultimately show ?thesis unfolding reached_def by blast
qed

theorem quorum_index_correct_witness:
  "quorum_index (projr (config_joint [1, 2, 3] [3, 4, 5])) (\<lambda>v. if v = 1 then 9 else v) = 3
   \<and> (\<exists>voters. quorum (projr (config_joint [1, 2, 3] [3, 4, 5])) voters)"
proof -
  have cfg: "config_joint [1, 2, 3] [3, 4, 5] = Inr (projr (config_joint [1, 2, 3] [3, 4, 5]))"
    by (simp add: config_joint_def Let_def bts_set_eq_empty[symmetric])
  have "quorum_index (projr (config_joint [1, 2, 3] [3, 4, 5])) (\<lambda>v. if v = 1 then 9 else v) = 3"
    by code_simp
  moreover have "\<exists>voters. quorum (projr (config_joint [1, 2, 3] [3, 4, 5])) voters"
    using quorum_index_correct[OF disjI2, OF cfg, of "\<lambda>v. if v = 1 then 9 else v"] by blast
  ultimately show ?thesis by blast
qed

section \<open>Membership changes\<close>

lemma is_quorum_joint:
  assumes "config_joint outgoing incoming = Inr j"
  shows "is_quorum j A \<longleftrightarrow>
     set_majority (bts_of_list incoming) A \<and> set_majority (bts_of_list outgoing) A"
  using assms by (auto simp: config_joint_def Let_def result_simps is_quorum_def)

lemma is_quorum_new:
  assumes "config_new voters = Inr c"
  shows "is_quorum c A \<longleftrightarrow> set_majority (bts_of_list voters) A"
  using assms by (auto simp: config_new_def Let_def result_simps is_quorum_def)

text \<open>
  C28: Two decisions of one configuration share a voter, and while the membership changes through
  the joint configuration, a decision of the joint phase shares a voter with every decision of the
  old and of the new configuration.  A majority of the union alone is not enough: the joint quorum
  asks for both majorities.
\<close>

theorem joint_quorums_overlap:
  assumes "config_new outgoing = Inr old" and "config_new incoming = Inr final"
    and "config_joint outgoing incoming = Inr joint"
    and "quorum joint votes"
    and "quorum old votes' \<or> quorum joint votes' \<or> quorum final votes'"
  shows "\<exists>v. v \<in> bts_set votes \<and> v \<in> bts_set votes'"
proof -
  have "bts_set votes \<inter> bts_set votes' \<noteq> {}"
    using assms(4,5) set_majority_intersect
    unfolding quorum_iff is_quorum_joint[OF assms(3)] is_quorum_new[OF assms(1)] is_quorum_new[OF assms(2)]
    by blast
  then show ?thesis by blast
qed

theorem joint_quorums_overlap_witness:
  "\<exists>v. v \<in> bts_set (bts_of_list [1, 2, 4, 5 :: nat]) \<and> v \<in> bts_set (bts_of_list [3, 5])"
proof (rule joint_quorums_overlap)
  show "config_new [1, 2, 3] = Inr (projr (config_new [1, 2, 3]))"
    and "config_new [3, 4, 5] = Inr (projr (config_new [3, 4, 5]))"
    and "config_joint [1, 2, 3] [3, 4, 5] = Inr (projr (config_joint [1, 2, 3] [3, 4, 5]))"
    by (simp_all add: config_new_def config_joint_def Let_def bts_set_eq_empty[symmetric])
  show "quorum (projr (config_joint [1, 2, 3] [3, 4, 5])) (bts_of_list [1, 2, 4, 5])" by code_simp
  show "quorum (projr (config_new [1, 2, 3])) (bts_of_list [3, 5])
    \<or> quorum (projr (config_joint [1, 2, 3] [3, 4, 5])) (bts_of_list [3, 5])
    \<or> quorum (projr (config_new [3, 4, 5])) (bts_of_list [3, 5])" by code_simp
qed

end
