(* ===== verification/Raft_Micro.thy ===== *)
theory Raft_Micro
  imports Raft_Store Raft_Quorum
begin

text \<open>
  The protocol as a relation between elementary moves.

  Each rule of \<open>move\<close> is one thing a node may do, with the guard that makes it safe and the
  actions it hands out: adopting a higher term, voting, becoming leader, storing entries,
  committing, applying, compacting, sending.  The messages that the node may act on are the
  parameter \<open>M\<close>.  The handlers of the code are shown to be sequences of such moves in
  \<open>Raft_Refine\<close>; here it is shown that every move keeps the node well formed and that the stable
  store accepts its actions and stays equal to the node's durable state.
\<close>

section \<open>Well-formed nodes\<close>

definition snapshot_link ::
    "(bytes \<Rightarrow> bytes) \<Rightarrow> configuration \<Rightarrow> persistent_snapshot option \<Rightarrow> nat \<Rightarrow> nat \<Rightarrow> bool" where
  "snapshot_link sha cfg snapshot base_index base_term =
     (case snapshot of
        None \<Rightarrow> base_index = 0 \<and> base_term = 0
      | Some s \<Rightarrow> base_index = sm_last_included_index (ps_metadata s)
                 \<and> base_term = sm_last_included_term (ps_metadata s)
                 \<and> validate_snapshot sha s = Inr () \<and> sm_configuration (ps_metadata s) = cfg)"

definition volatile_ok :: "raft \<Rightarrow> bool" where
  "volatile_ok n =
     ((r_role n = PreCandidate \<longrightarrow> r_campaign_term n = Some (r_term n + 1) \<and> r_term n + 1 \<le> u64_max)
      \<and> (r_role n = Leader \<longrightarrow>
           (\<forall>peer progress. bt_get (r_progress n) peer = Some progress \<longrightarrow> 0 < pr_next_index progress)))"

definition raft_wf :: "(bytes \<Rightarrow> bytes) \<Rightarrow> raft \<Rightarrow> bool" where
  "raft_wf sha n =
     (cfg_contains (r_configuration n) (r_id n) \<and> config_ok (r_configuration n)
      \<and> log_wf (r_log n)
      \<and> snapshot_link sha (r_configuration n) (r_snapshot n) (rl_base_index (r_log n)) (rl_base_term (r_log n))
      \<and> rl_base_index (r_log n) \<le> r_applied_index n \<and> r_applied_index n \<le> r_commit_index n
      \<and> r_commit_index n \<le> log_last_index (r_log n)
      \<and> log_last_term (r_log n) \<le> r_term n \<and> volatile_ok n)"

text \<open>
  What the messages of well-formed nodes satisfy.  The receiver does not check it:
  \<open>on_install_snapshot\<close> would take over a snapshot whose last term is above the term of the message.
  That only such messages are sent is shown for clusters in \<open>Raft_Cluster\<close>.
\<close>

fun message_ok :: "message \<Rightarrow> bool" where
  "message_ok (InstallSnapshot tm leader_id metadata offset data finished) =
     (sm_last_included_term metadata \<le> tm \<and> 0 < sm_byte_len metadata)"
| "message_ok _ = True"

text \<open>Checkpoints handed to the node: not empty, not too large and not at index zero.\<close>

fun input_ok :: "input \<Rightarrow> bool" where
  "input_ok (Message from m) = message_ok m"
| "input_ok (SnapshotBuilt s) =
     (ps_data s \<noteq> [] \<and> length (ps_data s) \<le> STORE_MAX_SNAPSHOT_BYTES
      \<and> 0 < sm_last_included_index (ps_metadata s))"
| "input_ok _ = True"

section \<open>Moves\<close>

fun harmless :: "message \<Rightarrow> bool" where
  "harmless (PreVoteRequest _ _ _ _) = True"
| "harmless (PreVoteResponse _ _ _) = True"
| "harmless (RequestVoteResponse _ granted) = (\<not> granted)"
| "harmless (AppendEntriesResponse _ success _ _ _ _) = (\<not> success)"
| "harmless (InstallSnapshotResponse _ accepted _ finished _) = (\<not> (accepted \<and> finished))"
| "harmless _ = False"

fun silent :: "action \<Rightarrow> bool" where
  "silent (Persist _) = False"
| "silent (ApplyEntry _) = False"
| "silent (Send _ m) = harmless m"
| "silent (SnapshotRejected _) = False"
| "silent (Fatal _) = False"
| "silent _ = True"

definition same_durable :: "raft \<Rightarrow> raft \<Rightarrow> bool" where
  "same_durable n n' =
     (r_id n' = r_id n \<and> r_configuration n' = r_configuration n \<and> r_hard_state n' = r_hard_state n
      \<and> r_log n' = r_log n \<and> r_snapshot n' = r_snapshot n \<and> r_applied_index n' = r_applied_index n)"

definition quiet :: "raft \<Rightarrow> raft \<Rightarrow> bool" where
  "quiet n n' =
     (same_durable n n' \<and> volatile_ok n'
      \<and> (r_role n' = Candidate \<longrightarrow> r_role n = Candidate \<and> r_votes n' = r_votes n)
      \<and> (r_role n' = Leader \<longrightarrow> r_role n = Leader \<and> match_index_of n' = match_index_of n))"

text \<open>A received \<open>AppendEntries\<close> of the node's own term, and the part of it the log agrees with.\<close>

definition append_received ::
    "(node_id \<times> message) set \<Rightarrow> raft \<Rightarrow> node_id \<Rightarrow> nat \<Rightarrow> nat \<Rightarrow> log_entry list \<Rightarrow> nat \<Rightarrow> bool" where
  "append_received M n from prev prev_term entries leader_commit =
     (\<exists>read_context. (from, AppendEntries (r_term n) from prev prev_term entries leader_commit read_context) \<in> M
        \<and> r_role n = Follower \<and> rl_base_index (r_log n) \<le> prev \<and> log_term (r_log n) prev = Some prev_term
        \<and> valid_entry_sequence prev prev_term (r_term n) entries)"

definition append_stored :: "raft_log \<Rightarrow> log_entry list \<Rightarrow> bool" where
  "append_stored l entries = (\<forall>e \<in> set entries. log_term l (le_index e) = Some (le_term e))"

inductive move ::
    "(bytes \<Rightarrow> bytes) \<Rightarrow> bool \<Rightarrow> (node_id \<times> message) set \<Rightarrow> raft \<Rightarrow> action list \<Rightarrow> raft \<Rightarrow> bool"
  for sha strict M where
  Quiet: "quiet n n' \<Longrightarrow> list_all silent acts \<Longrightarrow> move sha strict M n acts n'"
| Exhausted: "u64_max \<le> r_term n \<Longrightarrow> move sha strict M n [Fatal reason] n"
| Conflict: "append_received M n from prev prev_term entries leader_commit
    \<Longrightarrow> scan_entries (r_log n) (r_commit_index n) 0 entries = ReplacesCommitted index
    \<Longrightarrow> move sha strict M n [Fatal reason] n"
| Refuse: "move sha strict M n [SnapshotRejected reason] n"
| Observe: "r_term n < tm \<Longrightarrow> hs = (r_hard_state n)\<lparr>hs_current_term := tm, hs_voted_for := None\<rparr>
    \<Longrightarrow> move sha strict M n [Persist (MHardState hs)] (n\<lparr>r_hard_state := hs, r_role := Follower\<rparr>)"
| Campaign: "tm = r_term n + 1 \<Longrightarrow> tm \<le> u64_max
    \<Longrightarrow> hs = (r_hard_state n)\<lparr>hs_current_term := tm, hs_voted_for := Some (r_id n)\<rparr>
    \<Longrightarrow> move sha strict M n [Persist (MHardState hs)]
          (n\<lparr>r_hard_state := hs, r_role := Candidate, r_votes := bts_insert (r_id n) bt_empty\<rparr>)"
| Ask: "r_role n = Candidate
    \<Longrightarrow> m = RequestVote (r_term n) (r_id n) (log_last_index (r_log n)) (log_last_term (r_log n))
    \<Longrightarrow> r_voted_for n = Some (r_id n)
    \<Longrightarrow> move sha strict M n [Send peer m] n"
| Grant: "(from, RequestVote (r_term n) from last_index last_term) \<in> M \<Longrightarrow> r_voted_for n = None
    \<Longrightarrow> candidate_log_is_up_to_date (r_log n) last_index last_term
    \<Longrightarrow> hs = (r_hard_state n)\<lparr>hs_voted_for := Some from\<rparr>
    \<Longrightarrow> move sha strict M n [Persist (MHardState hs)] (n\<lparr>r_hard_state := hs\<rparr>)"
| Confirm: "r_voted_for n = Some peer
    \<Longrightarrow> move sha strict M n [Send peer (RequestVoteResponse (r_term n) True)] n"
| Count: "(from, RequestVoteResponse (r_term n) True) \<in> M \<Longrightarrow> r_role n = Candidate
    \<Longrightarrow> move sha strict M n [] (n\<lparr>r_votes := bts_insert from (r_votes n)\<rparr>)"
| Lead: "r_role n = Candidate \<Longrightarrow> quorum (r_configuration n) (r_votes n)
    \<Longrightarrow> entry = \<lparr>le_index = log_last_index (r_log n) + 1, le_term = r_term n, le_payload = Noop\<rparr>
    \<Longrightarrow> move sha strict M n [Persist (MAppend [entry])]
          (n\<lparr>r_role := Leader, r_log := log_append [entry] (r_log n),
             r_progress := leader_progress n (le_index entry)\<rparr>)"
| Extend: "r_role n = Leader
    \<Longrightarrow> entry = \<lparr>le_index = log_last_index (r_log n) + 1, le_term = r_term n, le_payload = payload\<rparr>
    \<Longrightarrow> move sha strict M n [Persist (MAppend [entry])]
          (update_progress (r_id n) (\<lambda>progress.
             progress\<lparr>pr_match_index := le_index entry, pr_next_index := le_index entry + 1\<rparr>)
           (n\<lparr>r_log := log_append [entry] (r_log n)\<rparr>))"
| Replicate: "r_role n = Leader \<Longrightarrow> log_term (r_log n) prev = Some prev_term
    \<Longrightarrow> entries = take k (drop (prev - rl_base_index (r_log n)) (rl_entries (r_log n)))
    \<Longrightarrow> move sha strict M n
          [Send peer (AppendEntries (r_term n) (r_id n) prev prev_term entries (r_commit_index n) read_context)] n"
| Ship: "r_role n = Leader \<Longrightarrow> r_snapshot n = Some s
    \<Longrightarrow> move sha strict M n [Send peer (InstallSnapshot (r_term n) (r_id n) (ps_metadata s) offset data finished)] n"
| Store: "append_received M n from prev prev_term entries leader_commit
    \<Longrightarrow> scan_entries (r_log n) (r_commit_index n) 0 entries = ChangedFrom index position
    \<Longrightarrow> suffix = drop position entries
    \<Longrightarrow> mutation = (if index \<le> log_last_index (r_log n) then MTruncateAndAppend index suffix else MAppend suffix)
    \<Longrightarrow> move sha strict M n [Persist mutation] (n\<lparr>r_log := truncate_and_append index suffix (r_log n)\<rparr>)"
| Acknowledge: "append_received M n from prev prev_term entries leader_commit
    \<Longrightarrow> append_stored (r_log n) entries
    \<Longrightarrow> move sha strict M n
          [Send from (AppendEntriesResponse (r_term n) True (prev + length entries) 0 None read_context)] n"
| Match: "(from, AppendEntriesResponse (r_term n) True index c d read_context) \<in> M
      \<or> (from, InstallSnapshotResponse (r_term n) True offset True index) \<in> M
    \<Longrightarrow> r_role n = Leader \<Longrightarrow> (\<And>progress. 0 < pr_next_index progress \<Longrightarrow> 0 < pr_next_index (f progress))
    \<Longrightarrow> (\<And>progress. pr_match_index (f progress) = max (pr_match_index progress) index)
    \<Longrightarrow> move sha strict M n [] (update_progress from f n)"
| CommitLeader: "r_role n = Leader \<Longrightarrow> index = quorum_index (r_configuration n) (match_index_of n)
    \<Longrightarrow> r_commit_index n < index \<Longrightarrow> log_term (r_log n) index = Some (r_term n)
    \<Longrightarrow> hs = (r_hard_state n)\<lparr>hs_commit_index := index\<rparr>
    \<Longrightarrow> move sha strict M n [Persist (MHardState hs)] (n\<lparr>r_hard_state := hs\<rparr>)"
| CommitFollower: "append_received M n from prev prev_term entries leader_commit
    \<Longrightarrow> append_stored (r_log n) entries
    \<Longrightarrow> index = min leader_commit (log_last_index (r_log n)) \<Longrightarrow> r_commit_index n < index
    \<Longrightarrow> (strict \<Longrightarrow> index \<le> prev + length entries)
    \<Longrightarrow> hs = (r_hard_state n)\<lparr>hs_commit_index := index\<rparr>
    \<Longrightarrow> move sha strict M n [Persist (MHardState hs)] (n\<lparr>r_hard_state := hs\<rparr>)"
| Execute: "r_applied_index n < r_commit_index n
    \<Longrightarrow> log_entry_at (r_log n) (r_applied_index n + 1) = Some entry
    \<Longrightarrow> move sha strict M n [ApplyEntry entry] (n\<lparr>r_applied_index := r_applied_index n + 1\<rparr>)"
| Compact: "validate_snapshot sha s = Inr () \<Longrightarrow> sm_configuration (ps_metadata s) = r_configuration n
    \<Longrightarrow> index = sm_last_included_index (ps_metadata s) \<Longrightarrow> rl_base_index (r_log n) \<le> index
    \<Longrightarrow> index \<le> r_applied_index n
    \<Longrightarrow> log_term (r_log n) index = Some (sm_last_included_term (ps_metadata s))
    \<Longrightarrow> l = log_compact index (sm_last_included_term (ps_metadata s)) True (r_log n)
    \<Longrightarrow> move sha strict M n [Persist (MCompactSnapshot s (rl_entries l))] (n\<lparr>r_log := l, r_snapshot := Some s\<rparr>)"
| Install: "(from, InstallSnapshot (r_term n) from (ps_metadata s) offset data True) \<in> M
    \<Longrightarrow> r_role n = Follower \<Longrightarrow> validate_snapshot sha s = Inr ()
    \<Longrightarrow> sm_configuration (ps_metadata s) = r_configuration n
    \<Longrightarrow> index = sm_last_included_index (ps_metadata s) \<Longrightarrow> tm = sm_last_included_term (ps_metadata s)
    \<Longrightarrow> r_commit_index n < index \<Longrightarrow> tm \<le> r_term n
    \<Longrightarrow> l = log_compact index tm (log_term (r_log n) index = Some tm) (r_log n)
    \<Longrightarrow> hs = (r_hard_state n)\<lparr>hs_commit_index := index\<rparr>
    \<Longrightarrow> move sha strict M n [Persist (MInstallSnapshot s (rl_entries l) hs)]
          (n\<lparr>r_log := l, r_snapshot := Some s, r_hard_state := hs, r_applied_index := index\<rparr>)"
| AcknowledgeSnapshot: "(from, InstallSnapshot (r_term n) from metadata offset data finished) \<in> M
    \<Longrightarrow> r_role n = Follower \<Longrightarrow> sm_last_included_index metadata \<le> r_applied_index n
    \<Longrightarrow> move sha strict M n
          [Send from (InstallSnapshotResponse (r_term n) True next_offset True (sm_last_included_index metadata))] n"

inductive_cases moveE: "move sha strict M n acts n'"

inductive moves ::
    "(bytes \<Rightarrow> bytes) \<Rightarrow> bool \<Rightarrow> (node_id \<times> message) set \<Rightarrow> raft \<Rightarrow> action list \<Rightarrow> raft \<Rightarrow> bool"
  for sha strict M where
  Done: "moves sha strict M n [] n"
| Step: "move sha strict M n a n1 \<Longrightarrow> moves sha strict M n1 b n2 \<Longrightarrow> moves sha strict M n (a @ b) n2"

lemma moves_one: "move sha strict M n a n' \<Longrightarrow> moves sha strict M n a n'"
  using moves.Step[OF _ moves.Done, of sha strict M n a n'] by simp

lemma moves_trans:
  "moves sha strict M n a n1 \<Longrightarrow> moves sha strict M n1 b n2 \<Longrightarrow> moves sha strict M n (a @ b) n2"
proof (induction rule: moves.induct)
  case (Done n)
  then show ?case by simp
next
  case (Step n a n1 b n2')
  then show ?case using moves.Step[OF Step.hyps(1)] by simp
qed

section \<open>Moves keep the node well formed\<close>

lemma valid_entry_sequence_iff:
  "valid_entry_sequence prev prev_term leader_term entries \<longleftrightarrow>
     (\<forall>k < length entries. le_index (entries ! k) = prev + 1 + k)
     \<and> sorted (prev_term # map le_term entries) \<and> (\<forall>e \<in> set entries. le_term e \<le> leader_term)"
proof (induction prev prev_term leader_term entries rule: valid_entry_sequence.induct)
  case (2 prev prev_term leader_term e entries)
  have "(\<forall>k < length (e # entries). le_index ((e # entries) ! k) = prev + 1 + k)
    \<longleftrightarrow> le_index e = prev + 1 \<and> (\<forall>k < length entries. le_index (entries ! k) = prev + 1 + 1 + k)"
    by (auto simp: nth_Cons less_Suc_eq_0_disj split: nat.splits)
  with 2 show ?case by auto
qed simp

text \<open>The outcome of the comparison, in terms of positions of the message.\<close>

lemma scan_entries_result:
  assumes "\<forall>k < length entries. le_index (entries ! k) = prev + 1 + p0 + k"
  shows "scan_entries l commit p0 entries = Same \<Longrightarrow> append_stored l entries"
    and "scan_entries l commit p0 entries = ChangedFrom index position \<Longrightarrow>
      p0 \<le> position \<and> position - p0 < length entries \<and> index = prev + 1 + position
      \<and> append_stored l (take (position - p0) entries)
      \<and> (log_term l index = None \<and> index = log_last_index l + 1
         \<or> commit < index \<and> log_term l index \<noteq> None
           \<and> log_term l index \<noteq> Some (le_term (entries ! (position - p0))))"
    and "scan_entries l commit p0 entries = ReplacesCommitted index \<Longrightarrow>
      \<exists>k < length entries. index = prev + 1 + p0 + k \<and> index \<le> commit
        \<and> log_term l index \<noteq> Some (le_term (entries ! k)) \<and> log_term l index \<noteq> None"
  using assms
proof (induction l commit p0 entries rule: scan_entries.induct)
  case (1 l commit p)
  {
    case 1
    then show ?case by (simp add: append_stored_def)
  next
    case 2
    then show ?case by simp
  next
    case 3
    then show ?case by simp
  }
next
  case (2 l commit p e entries)
  {
    case prems: 1
    have rest: "\<forall>k < length entries. le_index (entries ! k) = prev + 1 + (p + 1) + k"
      using prems(2) by (metis Suc_less_eq length_Cons nth_Cons_Suc add.assoc add.commute add_Suc_right plus_1_eq_Suc)
    show ?case using prems "2.IH"(1)[OF _ _ _ rest]
      by (auto simp: append_stored_def split: option.splits if_splits)
  next
    case prems: 2
    have rest: "\<forall>k < length entries. le_index (entries ! k) = prev + 1 + (p + 1) + k"
      using prems(2) by (metis Suc_less_eq length_Cons nth_Cons_Suc add.assoc add.commute add_Suc_right plus_1_eq_Suc)
    have e: "le_index e = prev + 1 + p" using prems(2) by force
    show ?case
    proof (cases "log_term l (le_index e) = Some (le_term e)")
      case True
      with prems(1) have "scan_entries l commit (p + 1) entries = ChangedFrom index position" by simp
      from "2.IH"(2)[OF True refl this rest] obtain d where d: "position = p + 1 + d"
        by (meson le_iff_add)
      from "2.IH"(2)[OF True refl \<open>scan_entries l commit (p + 1) entries = _\<close> rest] True show ?thesis
        by (auto simp: append_stored_def d)
    next
      case False
      with prems(1) e show ?thesis
        by (auto simp: append_stored_def split: option.splits if_splits)
    qed
  next
    case prems: 3
    have rest: "\<forall>k < length entries. le_index (entries ! k) = prev + 1 + (p + 1) + k"
      using prems(2) by (metis Suc_less_eq length_Cons nth_Cons_Suc add.assoc add.commute add_Suc_right plus_1_eq_Suc)
    have e: "le_index e = prev + 1 + p" using prems(2) by force
    show ?case
    proof (cases "log_term l (le_index e) = Some (le_term e)")
      case True
      with prems(1) have "scan_entries l commit (p + 1) entries = ReplacesCommitted index" by simp
      from "2.IH"(3)[OF True refl this rest] show ?thesis
        by (metis Suc_less_eq add.assoc add.commute length_Cons nth_Cons_Suc plus_1_eq_Suc)
    next
      case False
      with prems(1) e show ?thesis by (force split: option.splits if_splits)
    qed
  }
qed

text \<open>Storing received entries: where the log is cut and what it holds afterwards.\<close>

lemma store_facts:
  assumes "raft_wf sha n" and "append_received M n from prev prev_term entries leader_commit"
    and "scan_entries (r_log n) (r_commit_index n) 0 entries = ChangedFrom index position"
  shows "index = prev + 1 + position" and "position < length entries"
    and "rl_base_index (r_log n) < index" and "index \<le> log_last_index (r_log n) + 1"
    and "r_commit_index n < index"
    and "append_stored (r_log n) (take position entries)"
    and "\<forall>k < length (drop position entries). le_index (drop position entries ! k) = index + k"
    and "sorted (log_last_term (log_cut index (r_log n)) # map le_term (drop position entries))"
    and "log_term (r_log n) index \<noteq> Some (le_term (entries ! position))"
proof -
  from assms(2) have prev: "rl_base_index (r_log n) \<le> prev" "log_term (r_log n) prev = Some prev_term"
    and valid: "valid_entry_sequence prev prev_term (r_term n) entries"
    by (auto simp: append_received_def)
  have idx: "\<forall>k < length entries. le_index (entries ! k) = prev + 1 + 0 + k"
    and sorted: "sorted (prev_term # map le_term entries)"
    using valid unfolding valid_entry_sequence_iff by auto
  note scan = scan_entries_result(2)[OF idx assms(3)]
  have wf: "log_wf (r_log n)" and commit: "r_commit_index n \<le> log_last_index (r_log n)"
    using assms(1) by (auto simp: raft_wf_def)
  show index: "index = prev + 1 + position" and pos: "position < length entries"
    and stored: "append_stored (r_log n) (take position entries)"
    using scan by auto
  show base: "rl_base_index (r_log n) < index" using index prev by simp
  show last: "index \<le> log_last_index (r_log n) + 1"
    using scan log_term_SomeD(2)[OF wf] by fastforce
  show "r_commit_index n < index" using scan commit by auto
  show "log_term (r_log n) index \<noteq> Some (le_term (entries ! position))" using scan by auto
  show "\<forall>k < length (drop position entries). le_index (drop position entries ! k) = index + k"
    using idx index by auto
  have "log_term (r_log n) (index - 1) = Some ((prev_term # map le_term entries) ! position)"
  proof (cases position)
    case 0
    then show ?thesis using prev index by simp
  next
    case (Suc j)
    then have "entries ! j \<in> set (take position entries)" using pos by (auto simp: in_set_conv_nth intro: exI[of _ j])
    then have "log_term (r_log n) (le_index (entries ! j)) = Some (le_term (entries ! j))"
      using stored by (simp add: append_stored_def)
    then show ?thesis using idx pos Suc index by simp
  qed
  then have "log_last_term (log_cut index (r_log n)) = (prev_term # map le_term entries) ! position"
    using log_cut_last(2)[OF wf base last] by simp
  moreover have "drop position (prev_term # map le_term entries)
      = (prev_term # map le_term entries) ! position # map le_term (drop position entries)"
    using pos by (simp add: Cons_nth_drop_Suc[symmetric] drop_map)
  moreover have "sorted (drop position (prev_term # map le_term entries))"
    using sorted by (rule sorted_wrt_drop)
  ultimately show "sorted (log_last_term (log_cut index (r_log n)) # map le_term (drop position entries))"
    by simp
qed

lemma store_wf:
  assumes "raft_wf sha n" and "append_received M n from prev prev_term entries leader_commit"
    and "scan_entries (r_log n) (r_commit_index n) 0 entries = ChangedFrom index position"
  shows "log_wf (truncate_and_append index (drop position entries) (r_log n))"
    and "log_last_index (truncate_and_append index (drop position entries) (r_log n)) = prev + length entries"
    and "log_last_term (truncate_and_append index (drop position entries) (r_log n)) \<le> r_term n"
proof -
  note facts = store_facts[OF assms]
  let ?l = "truncate_and_append index (drop position entries) (r_log n)"
  have wf: "log_wf (r_log n)" using assms(1) by (simp add: raft_wf_def)
  note cut = log_cut_wf[OF wf] log_cut_last[OF wf facts(3,4)]
  show wf': "log_wf ?l"
    unfolding truncate_and_append_cut
    by (rule log_wf_append_list[OF cut(1)]) (use facts(3,7,8) cut(2) in auto)
  show "log_last_index ?l = prev + length entries"
    using facts(1,2) cut(2) log_last_index_eq[OF wf'] log_last_index_eq[OF cut(1), of index]
    by (simp add: truncate_and_append_cut)
  have "last (drop position entries) \<in> set entries"
    using facts(2) by (metis drop_eq_Nil last_in_set in_set_dropD not_le)
  moreover have "\<forall>e \<in> set entries. le_term e \<le> r_term n"
    using assms(2) by (auto simp: append_received_def valid_entry_sequence_iff)
  ultimately show "log_last_term ?l \<le> r_term n"
    using facts(2) by (simp add: truncate_and_append_cut log_last_term_def)
qed

lemma match_index_update [simp]:
  "match_index_of (update_progress peer f n) voter =
     (if voter = peer \<and> bt_get (r_progress n) peer \<noteq> None
      then pr_match_index (f (the (bt_get (r_progress n) peer))) else match_index_of n voter)"
  by (auto simp: match_index_of_def update_progress_def bt.get_insert split: option.splits)

lemma update_progress_simps [simp]:
  "r_id (update_progress peer f n) = r_id n"
  "r_configuration (update_progress peer f n) = r_configuration n"
  "r_hard_state (update_progress peer f n) = r_hard_state n"
  "r_log (update_progress peer f n) = r_log n"
  "r_snapshot (update_progress peer f n) = r_snapshot n"
  "r_applied_index (update_progress peer f n) = r_applied_index n"
  "r_role (update_progress peer f n) = r_role n"
  "r_campaign_term (update_progress peer f n) = r_campaign_term n"
  "r_votes (update_progress peer f n) = r_votes n"
  "r_leader_id (update_progress peer f n) = r_leader_id n"
  "r_pending_reads (update_progress peer f n) = r_pending_reads n"
  "r_recent_active (update_progress peer f n) = r_recent_active n"
  by (simp_all add: update_progress_def split: option.splits)

lemma update_progress_next:
  assumes "bt_get (r_progress (update_progress peer f n)) p = Some progress"
    and "\<And>p progress. bt_get (r_progress n) p = Some progress \<Longrightarrow> 0 < pr_next_index progress"
    and "\<And>progress. 0 < pr_next_index progress \<Longrightarrow> 0 < pr_next_index (f progress)"
  shows "0 < pr_next_index progress"
  using assms by (auto simp: update_progress_def bt.get_insert split: option.splits if_splits)

lemma bt_get_fold_insert:
  "bt_get (fold (\<lambda>v. bt_insert v (f v)) vs m) voter
      = (if voter \<in> set vs then Some (f voter) else bt_get m voter)"
  by (induction vs arbitrary: m) (auto simp: bt.get_insert)

lemma leader_progress_get:
  "bt_get (leader_progress n index) voter =
     (if cfg_contains (r_configuration n) voter
      then Some \<lparr>pr_match_index = (if voter = r_id n then index else 0), pr_next_index = index + 1,
                 pr_snapshot_offset = None\<rparr>
      else None)"
  by (simp add: leader_progress_def bt_get_fold_insert cfg_contains_def bts_set_iff[symmetric]
      bts_set_def bt.get_empty)

lemma quorum_index_le_last:
  assumes "log_wf l" and "log_term l index = Some tm"
  shows "index \<le> log_last_index l"
  using log_term_SomeD(2)[OF assms] .

lemma move_wf:
  assumes wf: "raft_wf sha n" and "move sha strict M n acts n'"
  shows "raft_wf sha n'"
  using assms(2)
proof cases
  case Quiet
  then show ?thesis using wf by (auto simp: raft_wf_def quiet_def same_durable_def)
next
  case (Observe tm hs)
  then show ?thesis using wf by (auto simp: raft_wf_def volatile_ok_def)
next
  case (Campaign tm hs)
  then show ?thesis using wf by (auto simp: raft_wf_def volatile_ok_def)
next
  case (Grant src li lt hs)
  then show ?thesis using wf by (auto simp: raft_wf_def volatile_ok_def)
next
  case (Count src)
  then show ?thesis using wf by (auto simp: raft_wf_def volatile_ok_def)
next
  case (Lead entry)
  have "log_wf (log_append [entry] (r_log n))"
    using wf Lead by (intro log_wf_append) (auto simp: raft_wf_def)
  with wf Lead show ?thesis
    by (auto simp: raft_wf_def volatile_ok_def leader_progress_get log_last_index_def
        log_last_term_def split: if_splits)
next
  case (Extend entry payload)
  have "log_wf (log_append [entry] (r_log n))"
    using wf Extend by (intro log_wf_append) (auto simp: raft_wf_def)
  moreover have "r_commit_index n \<le> le_index entry" using wf Extend by (auto simp: raft_wf_def)
  moreover have "volatile_ok n'"
    using wf Extend unfolding Extend(2) volatile_ok_def
    by (auto simp: raft_wf_def volatile_ok_def elim!: update_progress_next)
  ultimately show ?thesis using wf Extend
    by (auto simp: raft_wf_def log_last_index_def log_last_term_def)
next
  case (Store src prev prev_term entries leader_commit index position suffix mutation)
  note facts = store_facts[OF wf Store(3,4)] store_wf[OF wf Store(3,4)]
  have "r_commit_index n \<le> prev + length entries" using facts(1,2,5) by simp
  with wf facts Store show ?thesis
    by (auto simp: raft_wf_def volatile_ok_def truncate_and_append_def Let_def)
next
  case (Match src index c d read_context offset f)
  have "volatile_ok n'"
    using wf Match unfolding Match(2) volatile_ok_def
    by (auto simp: raft_wf_def volatile_ok_def elim!: update_progress_next)
  then show ?thesis using wf Match by (auto simp: raft_wf_def)
next
  case (CommitLeader index hs)
  have "index \<le> log_last_index (r_log n)"
    using wf CommitLeader by (auto simp: raft_wf_def intro: quorum_index_le_last)
  then show ?thesis using wf CommitLeader by (auto simp: raft_wf_def volatile_ok_def)
next
  case (CommitFollower src prev prev_term entries leader_commit index hs)
  then show ?thesis using wf by (auto simp: raft_wf_def volatile_ok_def)
next
  case (Execute entry)
  then show ?thesis using wf by (auto simp: raft_wf_def volatile_ok_def)
next
  case (Compact s index l)
  have "log_wf (r_log n)" using wf by (simp add: raft_wf_def)
  note retain = log_compact_retain[OF this Compact(8)]
  show ?thesis using wf Compact retain by (auto simp: raft_wf_def snapshot_link_def volatile_ok_def)
next
  case (Install src s offset data index tm l hs)
  have "log_wf (r_log n)" using wf by (simp add: raft_wf_def)
  have "log_wf l \<and> index \<le> log_last_index l \<and> log_last_term l \<le> r_term n"
  proof (cases "log_term (r_log n) index = Some tm")
    case True
    then show ?thesis
      using log_compact_retain[OF \<open>log_wf (r_log n)\<close> True] Install wf log_term_SomeD(2)[OF \<open>log_wf (r_log n)\<close> True]
      by (auto simp: raft_wf_def)
  next
    case False
    then show ?thesis using log_compact_discard[of index tm "r_log n"] Install by auto
  qed
  then show ?thesis using wf Install by (auto simp: raft_wf_def snapshot_link_def volatile_ok_def)
qed (use wf in auto)

lemma moves_wf: "moves sha strict M n acts n' \<Longrightarrow> raft_wf sha n \<Longrightarrow> raft_wf sha n'"
  by (induction rule: moves.induct) (auto intro: move_wf)

end
