(* ===== verification/Raft_Mirror.thy ===== *)
theory Raft_Mirror
  imports Raft_Micro
begin

text \<open>
  The stable store follows the node.  Whatever the store accepts of a move's actions leaves it equal
  to the durable state of the node after the move, and it accepts every action of a move except
  those by which a node fences itself.
\<close>

definition mirrors :: "raft \<Rightarrow> stable_store \<Rightarrow> bool" where
  "mirrors n store = (sto_state store = stable_state_of n \<and> sto_pending store = None)"

fun halting :: "action \<Rightarrow> bool" where
  "halting (Fatal _) = True"
| "halting (SnapshotRejected _) = True"
| "halting _ = False"

text \<open>No index of a durable entry or snapshot reaches the end of the \<open>u64\<close> range.\<close>

fun mutation_bounded :: "storage_mutation \<Rightarrow> bool" where
  "mutation_bounded (MHardState _) = True"
| "mutation_bounded (MAppend entries) = (\<forall>e \<in> set entries. le_index e < u64_max)"
| "mutation_bounded (MTruncateAndAppend _ entries) = (\<forall>e \<in> set entries. le_index e < u64_max)"
| "mutation_bounded (MCompactSnapshot s entries) =
     (sm_last_included_index (ps_metadata s) < u64_max \<and> (\<forall>e \<in> set entries. le_index e < u64_max))"
| "mutation_bounded (MInstallSnapshot s entries _) =
     (sm_last_included_index (ps_metadata s) < u64_max \<and> (\<forall>e \<in> set entries. le_index e < u64_max))"

fun action_bounded :: "action \<Rightarrow> bool" where
  "action_bounded (Persist m) = mutation_bounded m"
| "action_bounded _ = True"

section \<open>The store reads what the node reads\<close>

lemma stable_state_simps [simp]:
  "ss_hard_state (stable_state_of n) = r_hard_state n"
  "ss_snapshot (stable_state_of n) = r_snapshot n"
  "ss_entries (stable_state_of n) = rl_entries (r_log n)"
  "ss_applied_index (stable_state_of n) = r_applied_index n"
  by (simp_all add: stable_state_of_def)

lemma ss_base:
  assumes "raft_wf sha n"
  shows "ss_base_index (stable_state_of n) = rl_base_index (r_log n)"
    and "ss_base_term (stable_state_of n) = rl_base_term (r_log n)"
  using assms
  by (auto simp: raft_wf_def snapshot_link_def ss_base_index_def ss_base_term_def split: option.splits)

lemma ss_last:
  assumes "raft_wf sha n"
  shows "ss_last_index (stable_state_of n) = log_last_index (r_log n)"
  using ss_base(1)[OF assms] by (simp add: ss_last_index_def log_last_index_def)

lemma ss_term_at_log:
  assumes "raft_wf sha n" and "index \<noteq> 0"
  shows "ss_term_at (stable_state_of n) index = log_term (r_log n) index"
  using ss_base[OF assms(1)] assms(2) by (simp add: ss_term_at_def log_term_def Let_def)

lemma suffix_after_log:
  assumes "raft_wf sha n" and "log_term (r_log n) index = Some tm"
  shows "suffix_after (stable_state_of n) index = Some (drop (index - rl_base_index (r_log n)) (rl_entries (r_log n)))"
proof -
  have wf: "log_wf (r_log n)" using assms(1) by (simp add: raft_wf_def)
  show ?thesis
    using log_term_SomeD[OF wf assms(2)] log_last_index_eq[OF wf] ss_base(1)[OF assms(1)] ss_last[OF assms(1)]
    by (auto simp: suffix_after_def Let_def)
qed

section \<open>What the store accepts, it mirrors\<close>

lemma execute_actions_Nil [simp]: "execute_actions sha [] store = Inr store"
  by (simp add: execute_actions_def)

lemma execute_actions_append:
  "execute_actions sha (a @ b) store = rbind (execute_actions sha a store) (execute_actions sha b)"
  by (simp add: execute_actions_def[abs_def] try_fold_append)

lemma execute_actions_one: "execute_actions sha [a] store = execute_action sha store a"
  by (cases "execute_action sha store a") (simp_all add: execute_actions_def)

lemma execute_silent: "silent a \<Longrightarrow> execute_action sha store a = Inr store"
  by (cases a) auto

lemma execute_all_silent: "list_all silent acts \<Longrightarrow> execute_actions sha acts store = Inr store"
proof (induction acts)
  case (Cons a acts)
  then show ?case using execute_actions_append[of sha "[a]" acts store]
    by (simp add: execute_actions_one execute_silent)
qed simp

lemma store_persist_Inr:
  "store_persist sha m st = Inr st' \<longleftrightarrow> persist_state sha m st = Inr st' \<and> validate_stable_indexes sha st' = Inr ()"
  by (auto simp: store_persist_def result_simps)

lemma execute_persist:
  assumes "\<And>s es hs. m \<noteq> MInstallSnapshot s es hs"
  shows "execute_action sha store (Persist m) = Inr store' \<longleftrightarrow>
    (\<exists>st. persist_state sha m (sto_state store) = Inr st \<and> validate_stable_indexes sha st = Inr ()
       \<and> store' = store\<lparr>sto_state := st\<rparr>)"
  using assms by (cases m) (auto simp: result_simps store_persist_Inr simp del: persist_state.simps)

lemma mirrors_persist:
  assumes "mirrors n store" and "\<And>s es hs. m \<noteq> MInstallSnapshot s es hs"
    and "execute_actions sha [Persist m] store = Inr store'"
    and "\<And>st. persist_state sha m (stable_state_of n) = Inr st \<Longrightarrow> st = stable_state_of n'"
  shows "mirrors n' store'"
  using assms by (auto simp: mirrors_def execute_actions_one execute_persist[OF assms(2)])

lemma move_mirrored:
  assumes wf: "raft_wf sha n" and "move sha strict M n acts n'" and mirror: "mirrors n store"
    and run: "execute_actions sha acts store = Inr store'"
  shows "mirrors n' store'"
  using assms(2)
proof cases
  case Quiet
  then show ?thesis using mirror run
    by (auto simp: execute_all_silent mirrors_def quiet_def same_durable_def stable_state_of_def)
next
  case (Exhausted reason)
  then show ?thesis using run by (simp add: execute_actions_one)
next
  case (Conflict src prev prev_term entries leader_commit index reason)
  then show ?thesis using run by (simp add: execute_actions_one)
next
  case (Refuse reason)
  then show ?thesis using run by (simp add: execute_actions_one)
next
  case (Observe tm hs)
  then show ?thesis using run
    by (intro mirrors_persist[OF mirror]) (auto simp: result_simps stable_state_of_def)
next
  case (Campaign tm hs)
  then show ?thesis using run
    by (intro mirrors_persist[OF mirror]) (auto simp: result_simps stable_state_of_def)
next
  case (Grant src li lt hs)
  then show ?thesis using run
    by (intro mirrors_persist[OF mirror]) (auto simp: result_simps stable_state_of_def)
next
  case (CommitLeader index hs)
  then show ?thesis using run
    by (intro mirrors_persist[OF mirror]) (auto simp: result_simps stable_state_of_def)
next
  case (CommitFollower src prev prev_term entries leader_commit index hs)
  then show ?thesis using run
    by (intro mirrors_persist[OF mirror]) (auto simp: result_simps stable_state_of_def)
next
  case (Lead entry)
  then show ?thesis using run
    by (intro mirrors_persist[OF mirror]) (auto simp: result_simps stable_state_of_def)
next
  case (Extend entry payload)
  then show ?thesis using run
    by (intro mirrors_persist[OF mirror]) (auto simp: result_simps stable_state_of_def)
next
  case (Store src prev prev_term entries leader_commit index position suffix mutation)
  note facts = store_facts[OF wf Store(3,4)]
  have wf_log: "log_wf (r_log n)" using wf by (simp add: raft_wf_def)
  have no_cut: "length (rl_entries (r_log n)) \<le> index - Suc (rl_base_index (r_log n))"
    if "\<not> index \<le> log_last_index (r_log n)"
    using that facts(4) log_last_index_eq[OF wf_log] by simp
  show ?thesis using run Store ss_base(1)[OF wf] no_cut
    by (intro mirrors_persist[OF mirror, where m = mutation])
       (auto simp: result_simps stable_state_of_def truncate_and_append_def Let_def split: if_splits)
next
  case (Execute entry)
  have "le_index entry = r_applied_index n + 1"
    using log_entry_at_SomeD(1)[OF _ Execute(4)] wf by (simp add: raft_wf_def)
  then show ?thesis using Execute run mirror
    by (auto simp: mirrors_def execute_actions_one store_mark_applied_def result_simps stable_state_of_def
        split: if_splits)
next
  case (Compact s index l)
  then show ?thesis using run
    by (intro mirrors_persist[OF mirror]) (auto simp: result_simps stable_state_of_def)
next
  case (Install src s offset data index tm l hs)
  then show ?thesis using run mirror
    by (auto simp: mirrors_def execute_actions_one begin_snapshot_install_def complete_snapshot_install_def
        result_simps Let_def pending_stable_state_def stable_state_of_def)
qed (use mirror run in \<open>auto simp: execute_actions_one mirrors_def stable_state_of_def\<close>)

lemma moves_mirrored:
  assumes "moves sha strict M n acts n'" and "raft_wf sha n" and "mirrors n store"
    and "execute_actions sha acts store = Inr store'"
  shows "mirrors n' store'"
  using assms
proof (induction arbitrary: store rule: moves.induct)
  case (Step n a n1 b n2)
  from Step.prems(3) obtain mid where "execute_actions sha a store = Inr mid" "execute_actions sha b mid = Inr store'"
    by (auto simp: execute_actions_append result_simps)
  then show ?case using Step.IH move_wf[OF Step.prems(1) Step.hyps(1)]
      move_mirrored[OF Step.prems(1) Step.hyps(1) Step.prems(2)] by blast
qed simp

section \<open>The store accepts the actions of a well-formed node\<close>

lemma entry_sequence_ok:
  assumes "\<forall>k < length es. le_index (es ! k) = expected + k" and "sorted (previous # map le_term es)"
    and "\<forall>e \<in> set es. le_index e < u64_max"
  shows "entry_sequence expected previous es = Inr ()"
  using assms
proof (induction es arbitrary: expected previous)
  case (Cons e es)
  have "le_index e = expected" using Cons.prems(1) by force
  moreover have "\<forall>k < length es. le_index (es ! k) = (expected + 1) + k"
    using Cons.prems(1) by (metis Suc_less_eq add.assoc length_Cons nth_Cons_Suc plus_1_eq_Suc)
  ultimately show ?case
    using Cons.IH[of "expected + 1" "le_term e"] Cons.prems(2,3) by (auto simp: nat_checked_add_def)
qed simp

lemma log_indexes_bounded:
  assumes "log_wf l" and "e \<in> set (rl_entries l)"
  shows "le_index e \<le> log_last_index l"
  using assms by (auto simp: log_last_index_eq in_set_conv_nth) (auto simp: log_wf_def)

lemma validate_stable_indexes_ok:
  assumes wf: "raft_wf sha n" and bound: "log_last_index (r_log n) < u64_max"
  shows "validate_stable_indexes sha (stable_state_of n) = Inr ()"
proof -
  have log: "log_wf (r_log n)" using wf by (simp add: raft_wf_def)
  have snap: "(case r_snapshot n of None \<Rightarrow> Inr () | Some s \<Rightarrow> validate_snapshot sha s) = Inr ()"
    using wf by (auto simp: raft_wf_def snapshot_link_def split: option.splits)
  have idx: "rl_base_index (r_log n) \<le> r_applied_index n" "r_applied_index n \<le> r_commit_index n"
    "r_commit_index n \<le> log_last_index (r_log n)"
    using wf by (auto simp: raft_wf_def)
  let ?st = "\<lparr>ss_hard_state = default_hard_state, ss_snapshot = r_snapshot n, ss_entries = [],
      ss_applied_index = ss_base_index (stable_state_of n)\<rparr>"
  have base: "ss_base_index ?st = rl_base_index (r_log n)" "ss_base_term ?st = rl_base_term (r_log n)"
    using ss_base[OF wf] by (simp_all add: ss_base_index_def ss_base_term_def)
  have lt: "rl_base_index (r_log n) + 1 \<le> u64_max" using idx bound by simp
  have "\<forall>k < length (rl_entries (r_log n)). le_index (rl_entries (r_log n) ! k) = rl_base_index (r_log n) + 1 + k"
    using log by (simp add: log_wf_def)
  moreover have "\<forall>e \<in> set (rl_entries (r_log n)). le_index e < u64_max"
    using log_indexes_bounded[OF log] bound by fastforce
  ultimately have "entry_sequence (rl_base_index (r_log n) + 1) (rl_base_term (r_log n)) (rl_entries (r_log n)) = Inr ()"
    using sorted_terms[OF log] by (intro entry_sequence_ok)
  then have seq: "store_entry_sequence ?st (rl_entries (r_log n)) = Inr ()"
    using lt base by (simp add: store_entry_sequence_def ss_last_index_def nat_checked_add_def)
  have "le_index (hd (rl_entries (r_log n))) = rl_base_index (r_log n) + 1" if "rl_entries (r_log n) \<noteq> []"
    using log that by (auto simp: log_wf_def hd_conv_nth)
  then show ?thesis
    using snap idx ss_base(1)[OF wf] ss_last[OF wf] seq lt
    by (auto simp: validate_stable_indexes_def Let_def nat_saturating_add_def)
qed

text \<open>The durable index that a bounded action leaves.\<close>

lemma move_bounded:
  assumes wf: "raft_wf sha n" and "move sha strict M n acts n'"
    and "log_last_index (r_log n) < u64_max" and "list_all action_bounded acts"
  shows "log_last_index (r_log n') < u64_max"
  using assms(2)
proof cases
  case (Store src prev prev_term entries leader_commit index position suffix mutation)
  note facts = store_facts[OF wf Store(3,4)] store_wf[OF wf Store(3,4)]
  have "\<forall>e \<in> set suffix. le_index e < u64_max" using assms(4) Store by (auto split: if_splits)
  moreover have "suffix \<noteq> []" using facts(2) Store by simp
  then have "last suffix \<in> set suffix" by (rule last_in_set)
  moreover have "log_last_index (truncate_and_append index suffix (r_log n)) = le_index (last suffix)"
    using facts(2) Store by (auto simp: truncate_and_append_def log_last_index_def Let_def)
  ultimately show ?thesis using Store by auto
next
  case (Compact s index l)
  have "log_wf (r_log n)" using wf by (simp add: raft_wf_def)
  from log_compact_retain(3)[OF this Compact(8)] Compact assms(3) show ?thesis by simp
next
  case (Install src s offset data index tm l hs)
  have "rl_base_index l < u64_max" using assms(4) Install by simp
  moreover have "\<forall>e \<in> set (rl_entries l). le_index e < u64_max" using assms(4) Install by simp
  ultimately show ?thesis using Install by (auto simp: log_last_index_def)
qed (use assms(3,4) in \<open>auto simp: quiet_def same_durable_def log_last_index_def\<close>)

lemma moves_bounded:
  assumes "moves sha strict M n acts n'" and "raft_wf sha n" and "log_last_index (r_log n) < u64_max"
    and "list_all action_bounded acts"
  shows "log_last_index (r_log n') < u64_max"
  using assms by (induction rule: moves.induct) (auto intro: move_bounded move_wf)

lemma execute_persist_ok:
  assumes "\<And>s es hs. m \<noteq> MInstallSnapshot s es hs" and "mirrors n store"
    and "raft_wf sha n'" and "log_last_index (r_log n') < u64_max"
    and "persist_state sha m (stable_state_of n) = Inr (stable_state_of n')"
  shows "is_ok (execute_actions sha [Persist m] store)"
  using assms validate_stable_indexes_ok[OF assms(3,4)]
  by (auto simp: is_ok_iff execute_actions_one execute_persist mirrors_def)

lemma store_sequence_ok:
  assumes "raft_wf sha n" and "log_last_index (r_log n) < u64_max"
    and "\<forall>k < length es. le_index (es ! k) = log_last_index (r_log n) + 1 + k"
    and "sorted (log_last_term (r_log n) # map le_term es)" and "\<forall>e \<in> set es. le_index e < u64_max"
  shows "store_entry_sequence (stable_state_of n) es = Inr ()"
  using assms(2-5) ss_last[OF assms(1)] ss_base(2)[OF assms(1)]
  by (auto simp: store_entry_sequence_def nat_checked_add_def log_last_term_def intro!: entry_sequence_ok)

lemma log_cut_node_wf:
  assumes "raft_wf sha n" and "rl_base_index (r_log n) < index" and "index \<le> log_last_index (r_log n) + 1"
    and "r_commit_index n < index"
  shows "raft_wf sha (n\<lparr>r_log := log_cut index (r_log n)\<rparr>)"
proof -
  have wf: "log_wf (r_log n)" using assms(1) by (simp add: raft_wf_def)
  note cut = log_cut_wf[OF wf] log_cut_last[OF wf assms(2,3)]
  have "log_last_term (log_cut index (r_log n)) \<le> log_last_term (r_log n)"
    using log_term_le_last[OF wf cut(3)] .
  with assms cut show ?thesis by (auto simp: raft_wf_def volatile_ok_def log_cut_def)
qed

lemma store_accepted:
  assumes wf: "raft_wf sha n" and mirror: "mirrors n store" and bound: "log_last_index (r_log n) < u64_max"
    and "append_received M n from prev prev_term entries leader_commit"
    and "scan_entries (r_log n) (r_commit_index n) 0 entries = ChangedFrom index position"
    and "\<forall>e \<in> set (drop position entries). le_index e < u64_max"
    and wf': "raft_wf sha n'" and "n' = n\<lparr>r_log := truncate_and_append index (drop position entries) (r_log n)\<rparr>"
    and bound': "log_last_index (r_log n') < u64_max"
  shows "is_ok (execute_actions sha [Persist (if index \<le> log_last_index (r_log n)
           then MTruncateAndAppend index (drop position entries) else MAppend (drop position entries))] store)"
proof -
  note facts = store_facts[OF wf assms(4,5)]
  have log: "log_wf (r_log n)" using wf by (simp add: raft_wf_def)
  let ?es = "drop position entries" and ?cut = "n\<lparr>r_log := log_cut index (r_log n)\<rparr>"
  have hd: "?es \<noteq> []" "le_index (hd ?es) = index" using facts(2) facts(7)[rule_format, of 0] by (auto simp: hd_conv_nth)
  have last_cut: "log_last_index (r_log ?cut) = index - 1"
    using log_cut_last(1)[OF log facts(3,4)] by simp
  have seq: "store_entry_sequence (stable_state_of ?cut) ?es = Inr ()"
    using log_cut_node_wf[OF wf facts(3,4,5)] last_cut facts bound assms(6)
    by (intro store_sequence_ok) auto
  have cut: "stable_state_of ?cut = (stable_state_of n)
      \<lparr>ss_entries := take (index - Suc (rl_base_index (r_log n))) (rl_entries (r_log n))\<rparr>"
    by (simp add: stable_state_of_def log_cut_def)
  show ?thesis
  proof (cases "index \<le> log_last_index (r_log n)")
    case True
    have "index - Suc (rl_base_index (r_log n)) \<le> length (rl_entries (r_log n))"
      using True log_last_index_eq[OF log] by simp
    then have "persist_state sha (MTruncateAndAppend index ?es) (stable_state_of n) = Inr (stable_state_of n')"
      using facts(3,5) hd seq ss_base(1)[OF wf] assms(8) unfolding cut
      by (auto simp: Let_def result_simps stable_state_of_def truncate_and_append_def)
    then show ?thesis using True execute_persist_ok[OF _ mirror wf' bound'] by simp
  next
    case False
    then have index: "index = log_last_index (r_log n) + 1" using facts(4) by simp
    have all: "length (rl_entries (r_log n)) \<le> index - Suc (rl_base_index (r_log n))"
      using index log_last_index_eq[OF log] by simp
    then have "stable_state_of ?cut = stable_state_of n" unfolding cut by (simp add: stable_state_of_def)
    then have "persist_state sha (MAppend ?es) (stable_state_of n) = Inr (stable_state_of n')"
      using hd seq ss_last[OF wf] bound index all assms(8)
      by (auto simp: result_simps nat_checked_add_def stable_state_of_def truncate_and_append_def Let_def)
    then show ?thesis using False execute_persist_ok[OF _ mirror wf' bound'] by simp
  qed
qed

lemma hard_state_ok:
  assumes "raft_wf sha n" and "r_term n \<le> hs_current_term hs" and "r_commit_index n \<le> hs_commit_index hs"
    and "hs_commit_index hs \<le> log_last_index (r_log n)"
    and "r_term n = hs_current_term hs \<and> r_voted_for n \<noteq> None \<longrightarrow> hs_voted_for hs = r_voted_for n"
    and "stable_state_of n' = (stable_state_of n)\<lparr>ss_hard_state := hs\<rparr>"
  shows "persist_state sha (MHardState hs) (stable_state_of n) = Inr (stable_state_of n')"
  using assms ss_last[OF assms(1)]
  by (auto simp: validate_hard_state_def validate_hard_state_monotonic_def result_simps)

lemma append_one_ok:
  assumes "raft_wf sha n" and "log_last_index (r_log n) < u64_max"
    and "le_index e = log_last_index (r_log n) + 1" and "log_last_term (r_log n) \<le> le_term e"
    and "le_index e < u64_max"
    and "stable_state_of n' = (stable_state_of n)\<lparr>ss_entries := rl_entries (r_log n) @ [e]\<rparr>"
  shows "persist_state sha (MAppend [e]) (stable_state_of n) = Inr (stable_state_of n')"
  using assms ss_last[OF assms(1)] store_sequence_ok[OF assms(1,2), of "[e]"]
  by (auto simp: result_simps nat_checked_add_def)

lemma begin_install_ok:
  assumes "validate_snapshot sha s = Inr ()" and "validate_hard_state_monotonic (ss_hard_state st) hs = Inr ()"
    and "intent = \<lparr>pi_snapshot = s, pi_retained_entries = retained, pi_hard_state = hs\<rparr>"
    and "validate_stable_indexes sha (pending_stable_state intent) = Inr ()"
    and "index = sm_last_included_index (ps_metadata s)" and "tm = sm_last_included_term (ps_metadata s)"
    and "retained = (if ss_term_at st index = Some tm
          then (case suffix_after st index of None \<Rightarrow> [] | Some suffix \<Rightarrow> suffix) else [])"
    and "ss_applied_index st < index" and "sto_pending store = None" and "sto_state store = st"
  shows "begin_snapshot_install sha s retained hs store = Inr (store\<lparr>sto_pending := Some intent\<rparr>)"
  using assms unfolding begin_snapshot_install_def Let_def by simp

lemma move_accepted:
  assumes wf: "raft_wf sha n" and move: "move sha strict M n acts n'" and mirror: "mirrors n store"
    and bound: "log_last_index (r_log n) < u64_max" and acts: "list_all action_bounded acts"
    and "list_ex halting acts = False"
  shows "is_ok (execute_actions sha acts store)"
proof -
  have wf': "raft_wf sha n'" by (rule move_wf[OF wf move])
  have bound': "log_last_index (r_log n') < u64_max" by (rule move_bounded[OF wf move bound acts])
  have log: "log_wf (r_log n)" and indexes: "r_commit_index n \<le> log_last_index (r_log n)"
    "r_applied_index n \<le> r_commit_index n" "log_last_term (r_log n) \<le> r_term n"
    using wf by (auto simp: raft_wf_def)
  note persist = execute_persist_ok[OF _ mirror wf' bound']
  from move show ?thesis
  proof cases
    case Quiet
    then show ?thesis by (simp add: execute_all_silent)
  next
    case (Observe tm hs)
    then show ?thesis using indexes by (auto intro!: persist hard_state_ok[OF wf] simp: stable_state_of_def)
  next
    case (Campaign tm hs)
    then show ?thesis using indexes by (auto intro!: persist hard_state_ok[OF wf] simp: stable_state_of_def)
  next
    case (Grant src li lt hs)
    then show ?thesis using indexes by (auto intro!: persist hard_state_ok[OF wf] simp: stable_state_of_def)
  next
    case (CommitLeader index hs)
    have "index \<le> log_last_index (r_log n)" using quorum_index_le_last[OF log CommitLeader(6)] .
    with CommitLeader(2,5,7) show ?thesis unfolding CommitLeader(1)
      by (intro persist hard_state_ok[OF wf]) (auto simp: stable_state_of_def)
  next
    case (CommitFollower src prev prev_term entries leader_commit index hs)
    then have "index \<le> log_last_index (r_log n)" by simp
    with CommitFollower(2,6,8) show ?thesis unfolding CommitFollower(1)
      by (intro persist hard_state_ok[OF wf]) (auto simp: stable_state_of_def)
  next
    case (Lead entry)
    then show ?thesis using indexes bound acts
      by (auto intro!: persist append_one_ok[OF wf] simp: stable_state_of_def)
  next
    case (Extend entry payload)
    then show ?thesis using indexes bound acts
      by (auto intro!: persist append_one_ok[OF wf] simp: stable_state_of_def)
  next
    case (Store src prev prev_term entries leader_commit index position suffix mutation)
    have "\<forall>e \<in> set (drop position entries). le_index e < u64_max" using acts Store by (auto split: if_splits)
    moreover have "n' = n\<lparr>r_log := truncate_and_append index (drop position entries) (r_log n)\<rparr>"
      using Store by simp
    ultimately show ?thesis
      using store_accepted[OF wf mirror bound Store(3,4) _ wf' _ bound'] by (simp only: Store(1,5,6))
  next
    case (Execute entry)
    have "le_index entry = r_applied_index n + 1" using log_entry_at_SomeD(1)[OF log Execute(4)] .
    then show ?thesis using Execute mirror indexes bound
      by (auto simp: is_ok_iff execute_actions_one mirrors_def store_mark_applied_def result_simps
          nat_checked_add_def)
  next
    case (Compact s index l)
    have "index \<noteq> 0" using Compact(3,5) by (auto simp: validate_snapshot_def split: if_splits)
    moreover have "rl_entries l = drop (index - rl_base_index (r_log n)) (rl_entries (r_log n))"
      using log_compact_retain(1)[OF log Compact(8)] Compact by simp
    ultimately have "persist_state sha (MCompactSnapshot s (rl_entries l)) (stable_state_of n) = Inr (stable_state_of n')"
      using Compact ss_term_at_log[OF wf, of index] suffix_after_log[OF wf Compact(8)]
      by (auto simp: result_simps stable_state_of_def)
    then show ?thesis using Compact persist by simp
  next
    case (Install src s offset data index tm l hs)
    have idx: "index \<noteq> 0" using Install by simp
    have st': "pending_stable_state \<lparr>pi_snapshot = s, pi_retained_entries = rl_entries l, pi_hard_state = hs\<rparr>
        = stable_state_of n'"
      using Install by (simp add: pending_stable_state_def stable_state_of_def)
    have suffix: "rl_entries l = (if ss_term_at (stable_state_of n) index = Some tm
        then (case suffix_after (stable_state_of n) index of None \<Rightarrow> [] | Some suffix \<Rightarrow> suffix) else [])"
    proof (cases "log_term (r_log n) index = Some tm")
      case True
      then show ?thesis using log_compact_retain(1)[OF log True] suffix_after_log[OF wf True]
          ss_term_at_log[OF wf idx] Install by simp
    next
      case False
      then show ?thesis using ss_term_at_log[OF wf idx] Install by (simp add: log_compact_def Let_def)
    qed
    have hs: "validate_hard_state_monotonic (r_hard_state n) hs = Inr ()"
      using Install(9,12) by (simp add: validate_hard_state_monotonic_def)
    have "begin_snapshot_install sha s (rl_entries l) hs store
        = Inr (store\<lparr>sto_pending := Some \<lparr>pi_snapshot = s, pi_retained_entries = rl_entries l, pi_hard_state = hs\<rparr>\<rparr>)"
      by (rule begin_install_ok[OF Install(5) _ refl _ Install(7,8) suffix])
         (use mirror hs validate_stable_indexes_ok[OF wf' bound'] indexes Install(9) in \<open>simp_all add: st' mirrors_def\<close>)
    then show ?thesis unfolding Install(1) using validate_stable_indexes_ok[OF wf' bound']
      by (simp add: is_ok_iff execute_actions_one complete_snapshot_install_def st')
  qed (use assms(6) in \<open>auto simp: is_ok_iff execute_actions_one\<close>)
qed

lemma moves_accepted:
  assumes "moves sha strict M n acts n'" and "raft_wf sha n" and "mirrors n store"
    and "log_last_index (r_log n) < u64_max" and "list_all action_bounded acts"
    and "list_ex halting acts = False"
  shows "is_ok (execute_actions sha acts store)"
  using assms
proof (induction arbitrary: store rule: moves.induct)
  case (Step n a n1 b n2)
  then obtain mid where mid: "execute_actions sha a store = Inr mid"
    using move_accepted[OF Step.prems(1) Step.hyps(1) Step.prems(2,3)] by (auto simp: is_ok_iff)
  have "is_ok (execute_actions sha b mid)"
    using Step move_wf[OF Step.prems(1) Step.hyps(1)] move_mirrored[OF Step.prems(1) Step.hyps(1) Step.prems(2) mid]
      move_bounded[OF Step.prems(1) Step.hyps(1) Step.prems(3)] by simp
  with mid show ?case by (simp add: execute_actions_append)
qed simp

end
