(* ===== verification/Raft_Refine.thy ===== *)
theory Raft_Refine
  imports Raft_Mirror
begin

text \<open>
  Every handler of the node is a sequence of protocol moves: \<open>does sha strict M n out\<close> says that
  an outcome is reached by moves that hand out exactly its actions, in order.
\<close>

definition does ::
    "(bytes \<Rightarrow> bytes) \<Rightarrow> bool \<Rightarrow> (node_id \<times> message) set \<Rightarrow> raft \<Rightarrow> outcome \<Rightarrow> bool" where
  "does sha strict M n out = moves sha strict M n (snd out) (fst out)"

section \<open>Combining handlers\<close>

declare andThen.simps [simp del]

lemma andThen_eq: "andThen x f = (fst (f (fst x)), snd x @ snd (f (fst x)))"
  by (cases x) (simp add: andThen.simps split_beta Let_def)

lemma fst_andThen [simp]: "fst (andThen x f) = fst (f (fst x))"
  by (simp add: andThen_eq)

lemma does_andThen:
  assumes "does sha strict M n x" and "does sha strict M (fst x) (f (fst x))"
  shows "does sha strict M n (andThen x f)"
  using assms moves_trans unfolding does_def andThen_eq by fastforce

lemma does_move: "move sha strict M n acts n' \<Longrightarrow> does sha strict M n (n', acts)"
  by (simp add: does_def moves_one)

lemma does_nothing: "does sha strict M n (n, [])"
  by (simp add: does_def moves.Done)

lemma does_quiet: "quiet n n' \<Longrightarrow> list_all silent acts \<Longrightarrow> does sha strict M n (n', acts)"
  by (intro does_move move.Quiet)

lemma does_wf: "does sha strict M n out \<Longrightarrow> raft_wf sha n \<Longrightarrow> raft_wf sha (fst out)"
  unfolding does_def by (rule moves_wf)

lemma does_first:
  assumes "move sha strict M n a n1" and "does sha strict M n1 (n2, b)"
  shows "does sha strict M n (n2, a @ b)"
  using assms by (auto simp: does_def intro: moves.Step)

lemma does_then_quiet:
  assumes "move sha strict M n a n1" and "quiet n1 n2" and "list_all silent b"
  shows "does sha strict M n (n2, a @ b)"
  using does_first[OF assms(1) does_quiet[OF assms(2,3)]] .

lemma quiet_refl: "volatile_ok n \<Longrightarrow> quiet n n"
  by (simp add: quiet_def same_durable_def)

lemma does_say:
  assumes "raft_wf sha n" and "list_all silent acts"
  shows "does sha strict M n (n, acts)"
  using assms by (intro does_quiet quiet_refl) (auto simp: raft_wf_def)

lemma does_same_append:
  assumes "does sha strict M n (n, a)" and "does sha strict M n (n, b)"
  shows "does sha strict M n (n, a @ b)"
  using assms moves_trans by (fastforce simp: does_def)

lemma does_concat:
  assumes "\<And>x. x \<in> set xs \<Longrightarrow> does sha strict M n (n, f x)"
  shows "does sha strict M n (n, concat (map f xs))"
  using assms
  by (induction xs) (auto intro: does_nothing does_same_append)

lemma does_map:
  assumes "\<And>x. x \<in> set xs \<Longrightarrow> move sha strict M n [f x] n"
  shows "does sha strict M n (n, map f xs)"
  using does_concat[of xs sha strict M n "\<lambda>x. [f x]"] assms by (simp add: does_move)

section \<open>Application and commitment\<close>

lemma wf_simps:
  assumes "raft_wf sha n"
  shows "log_wf (r_log n)" and "volatile_ok n" and "r_applied_index n \<le> r_commit_index n"
    and "r_commit_index n \<le> log_last_index (r_log n)" and "rl_base_index (r_log n) \<le> r_applied_index n"
    and "log_last_term (r_log n) \<le> r_term n"
  using assms by (auto simp: raft_wf_def)

lemma apply_committed_does:
  assumes "raft_wf sha n"
  shows "does sha strict M n (apply_committed n)
    \<and> fst (apply_committed n) = n\<lparr>r_applied_index := r_commit_index n\<rparr>"
  using assms
proof (induction n rule: apply_committed.induct)
  case (1 n)
  note wf = wf_simps[OF "1.prems"]
  show ?case
  proof (cases "r_applied_index n < r_commit_index n")
    case False
    then have "r_applied_index n = r_commit_index n" using wf(3) by simp
    then show ?thesis using False by (simp add: apply_committed.simps[of n] does_nothing)
  next
    case True
    have "\<exists>e. log_entry_at (r_log n) (r_applied_index n + 1) = Some e"
      using log_entry_at_Some_iff[OF wf(1)] wf True by simp
    then obtain e where e: "log_entry_at (r_log n) (r_applied_index n + 1) = Some e" by blast
    let ?n = "n\<lparr>r_applied_index := r_applied_index n + 1\<rparr>"
    let ?extra = "if r_role n = Leader then case le_payload e of
        Command i _ \<Rightarrow> [ProposalCommitted i (le_index e)] | Noop \<Rightarrow> [] else []"
    have move: "move sha strict M n [ApplyEntry e] ?n" by (rule move.Execute[OF True e])
    have wf': "raft_wf sha ?n" by (rule move_wf[OF "1.prems" move])
    have "list_all silent ?extra" by (auto split: entry_payload.splits)
    then have first: "does sha strict M n (?n, ApplyEntry e # ?extra)"
      using does_then_quiet[OF move quiet_refl] wf_simps(2)[OF wf'] by fastforce
    have rest: "does sha strict M ?n (apply_committed ?n)
        \<and> fst (apply_committed ?n) = ?n\<lparr>r_applied_index := r_commit_index ?n\<rparr>"
      using "1.IH"[OF True refl e _ wf'] by simp
    have "apply_committed n = andThen (?n, ApplyEntry e # ?extra) apply_committed"
      using True e by (simp add: apply_committed.simps[of n])
    then show ?thesis using does_andThen[OF first] rest by simp
  qed
qed

lemmas does_apply_committed = apply_committed_does[THEN conjunct1]
lemmas fst_apply_committed = apply_committed_does[THEN conjunct2]

lemma does_set_commit:
  assumes wf: "raft_wf sha n" and "index \<le> log_last_index (r_log n)"
    and "r_commit_index n < index \<Longrightarrow> move sha strict M n
      [Persist (MHardState ((r_hard_state n)\<lparr>hs_commit_index := index\<rparr>))]
      (n\<lparr>r_hard_state := (r_hard_state n)\<lparr>hs_commit_index := index\<rparr>\<rparr>)"
  shows "does sha strict M n (set_commit index n)"
proof (cases "r_commit_index n < index")
  case True
  let ?n = "n\<lparr>r_hard_state := (r_hard_state n)\<lparr>hs_commit_index := index\<rparr>\<rparr>"
  note move = assms(3)[OF True]
  have "does sha strict M ?n (apply_committed ?n)"
    by (rule does_apply_committed[OF move_wf[OF wf move]])
  then show ?thesis
    using True assms(2) does_andThen[OF does_move[OF move], of apply_committed]
    by (simp add: set_commit_def Let_def)
next
  case False
  then show ?thesis by (simp add: set_commit_def does_nothing)
qed

lemma fst_set_commit:
  assumes wf: "raft_wf sha n" and "index \<le> log_last_index (r_log n)"
  shows "fst (set_commit index n) = (if index \<le> r_commit_index n then n
    else n\<lparr>r_hard_state := (r_hard_state n)\<lparr>hs_commit_index := index\<rparr>, r_applied_index := index\<rparr>)"
proof (cases "index \<le> r_commit_index n")
  case False
  let ?n = "n\<lparr>r_hard_state := (r_hard_state n)\<lparr>hs_commit_index := index\<rparr>\<rparr>"
  have "raft_wf sha ?n" using wf False assms(2) by (auto simp: raft_wf_def volatile_ok_def)
  then show ?thesis using False assms(2) by (simp add: set_commit_def Let_def fst_apply_committed)
qed (simp add: set_commit_def)

lemma does_advance_leader_commit:
  assumes wf: "raft_wf sha n"
  shows "does sha strict M n (advance_leader_commit n)"
proof -
  let ?index = "quorum_index (r_configuration n) (match_index_of n)"
  show ?thesis
  proof (cases "r_role n = Leader \<and> ?index > r_commit_index n \<and> log_term (r_log n) ?index = Some (r_term n)")
    case True
    then have "does sha strict M n (set_commit ?index n)"
      using quorum_index_le_last[OF wf_simps(1)[OF wf]]
      by (intro does_set_commit[OF wf] move.CommitLeader) auto
    with True show ?thesis by (simp add: advance_leader_commit_def Let_def)
  next
    case False
    then show ?thesis by (auto simp: advance_leader_commit_def Let_def does_nothing)
  qed
qed

section \<open>Sending\<close>

lemma does_send_snapshot_chunk:
  assumes "raft_wf sha n" and "r_role n = Leader" and "0 < rl_base_index (r_log n)"
  shows "does sha strict M n (n, send_snapshot_chunk n peer offset)"
proof -
  obtain s where "r_snapshot n = Some s"
    using assms by (auto simp: raft_wf_def snapshot_link_def split: option.splits)
  with assms(2) show ?thesis
    by (auto simp: send_snapshot_chunk_def Let_def intro!: does_move move.Ship)
qed

lemma does_send_append:
  assumes wf: "raft_wf sha n" and leader: "r_role n = Leader"
  shows "does sha strict M n (n, send_append n peer read_context)"
proof (cases "bt_get (r_progress n) peer")
  case None
  then show ?thesis by (simp add: send_append_def does_nothing)
next
  case (Some progress)
  have pos: "0 < pr_next_index progress"
    using wf_simps(2)[OF wf] leader Some by (auto simp: volatile_ok_def)
  show ?thesis
  proof (cases "pr_next_index progress \<le> rl_base_index (r_log n)")
    case True
    then show ?thesis
      using Some pos does_send_snapshot_chunk[OF wf leader] by (simp add: send_append_def)
  next
    case False
    define nx where "nx = min (pr_next_index progress) (log_last_index (r_log n) + 1)"
    have last: "log_last_index (r_log n) = rl_base_index (r_log n) + length (rl_entries (r_log n))"
      by (rule log_last_index_eq[OF wf_simps(1)[OF wf]])
    have bounds: "rl_base_index (r_log n) < nx" "nx - 1 \<le> log_last_index (r_log n)"
      using False last by (auto simp: nx_def)
    then obtain tm where tm: "log_term (r_log n) (nx - 1) = Some tm"
      using log_term_Some_iff[OF wf_simps(1)[OF wf], of "nx - 1"] by auto
    have "entries_from (r_log n) nx (Some MAX_APPEND_ENTRIES)
        = take MAX_APPEND_ENTRIES (drop (nx - 1 - rl_base_index (r_log n)) (rl_entries (r_log n)))"
      using bounds(1) by (simp add: entries_from_def diff_diff_add add.commute)
    from move.Replicate[OF leader tm this] have
      "does sha strict M n (n, [Send peer (AppendEntries (r_term n) (r_id n) (nx - 1) tm
         (entries_from (r_log n) nx (Some MAX_APPEND_ENTRIES)) (r_commit_index n) read_context)])"
      by (rule does_move)
    then show ?thesis using Some False tm by (simp add: send_append_def Let_def nx_def)
  qed
qed

lemma does_broadcast_append:
  assumes "raft_wf sha n" and "r_role n = Leader"
  shows "does sha strict M n (n, broadcast_append n read_context)"
  unfolding broadcast_append_def by (intro does_concat does_send_append assms)

lemma role_advance_leader_commit:
  assumes wf: "raft_wf sha n"
  shows "r_role (fst (advance_leader_commit n)) = r_role n"
proof -
  let ?index = "quorum_index (r_configuration n) (match_index_of n)"
  have "log_term (r_log n) ?index = Some (r_term n) \<Longrightarrow> ?index \<le> log_last_index (r_log n)"
    by (rule quorum_index_le_last[OF wf_simps(1)[OF wf]])
  then show ?thesis by (simp add: advance_leader_commit_def Let_def fst_set_commit[OF wf])
qed

lemma does_advance_and_send:
  assumes wf: "raft_wf sha n" and leader: "r_role n = Leader"
    and "\<And>n. raft_wf sha n \<Longrightarrow> r_role n = Leader \<Longrightarrow> does sha strict M n (n, f n)"
  shows "does sha strict M n (andThen (advance_leader_commit n) (\<lambda>n. (n, f n)))"
  using does_advance_leader_commit[OF wf, of strict M]
  by (rule does_andThen)
     (use assms(3) does_wf[OF does_advance_leader_commit[OF wf, of strict M] wf] role_advance_leader_commit[OF wf]
        leader in auto)

section \<open>Roles and elections\<close>

definition followed :: "nat \<Rightarrow> node_id option \<Rightarrow> raft \<Rightarrow> raft" where
  "followed tm leader_id n =
     (if tm > r_term n
      then n\<lparr>r_hard_state := (r_hard_state n)\<lparr>hs_current_term := tm, hs_voted_for := None\<rparr>\<rparr> else n)
     \<lparr>r_pending_reads := bt_empty, r_role := Follower, r_leader_id := leader_id, r_campaign_term := None,
      r_votes := bt_empty, r_progress := bt_empty, r_recent_active := bt_empty\<rparr>"

lemma become_follower_eq:
  "become_follower tm leader_id n =
     (followed tm leader_id n,
      (if tm > r_term n
       then [Persist (MHardState ((r_hard_state n)\<lparr>hs_current_term := tm, hs_voted_for := None\<rparr>))] else [])
      @ (if r_role n = Leader \<or> r_pending_reads n \<noteq> bt_empty
         then map (\<lambda>context. ReadRejected context LeadershipLost) (bt_keys (r_pending_reads n)) else [])
      @ (if r_role n \<noteq> Follower then [RoleChanged Follower (r_term (followed tm leader_id n))] else []))"
  by (cases "r_pending_reads n = bt_empty")
     (auto simp: become_follower_def followed_def andThen_eq Let_def)

lemma fst_become_follower [simp]: "fst (become_follower tm leader_id n) = followed tm leader_id n"
  by (simp add: become_follower_eq)

lemma followed_simps [simp]:
  "r_id (followed tm leader_id n) = r_id n"
  "r_configuration (followed tm leader_id n) = r_configuration n"
  "r_log (followed tm leader_id n) = r_log n"
  "r_snapshot (followed tm leader_id n) = r_snapshot n"
  "r_applied_index (followed tm leader_id n) = r_applied_index n"
  "r_commit_index (followed tm leader_id n) = r_commit_index n"
  "r_role (followed tm leader_id n) = Follower"
  "r_term (followed tm leader_id n) = max tm (r_term n)"
  "r_incoming_snapshot (followed tm leader_id n) = r_incoming_snapshot n"
  by (auto simp: followed_def)

lemma does_become_follower: "does sha strict M n (become_follower tm leader_id n)"
proof -
  let ?hs = "(r_hard_state n)\<lparr>hs_current_term := tm, hs_voted_for := None\<rparr>"
  define news where "news = (if r_role n = Leader \<or> r_pending_reads n \<noteq> bt_empty
      then map (\<lambda>context. ReadRejected context LeadershipLost) (bt_keys (r_pending_reads n)) else [])
    @ (if r_role n \<noteq> Follower then [RoleChanged Follower (r_term (followed tm leader_id n))] else [])"
  have silent: "list_all silent news" by (auto simp: news_def list_all_iff)
  show ?thesis
  proof (cases "tm > r_term n")
    case True
    have "does sha strict M n (followed tm leader_id n, [Persist (MHardState ?hs)] @ news)"
      by (rule does_then_quiet[OF move.Observe[OF True refl] _ silent])
         (use True in \<open>auto simp: quiet_def same_durable_def followed_def volatile_ok_def\<close>)
    then show ?thesis using True unfolding become_follower_eq news_def by simp
  next
    case False
    have "does sha strict M n (followed tm leader_id n, news)"
      by (rule does_quiet[OF _ silent])
         (use False in \<open>auto simp: quiet_def same_durable_def followed_def volatile_ok_def\<close>)
    then show ?thesis using False unfolding become_follower_eq news_def by simp
  qed
qed

lemma followed_wf: "raft_wf sha n \<Longrightarrow> raft_wf sha (followed tm leader_id n)"
  using does_wf[OF does_become_follower] by fastforce

lemma does_step_down:
  assumes "raft_wf sha n"
  shows "does sha strict M n (andThen (become_follower tm leader_id n) (push [ResetElectionTimer]))"
  using does_become_follower
  by (rule does_andThen) (simp add: push_def does_say followed_wf[OF assms])

lemma does_follow_then:
  assumes wf: "raft_wf sha n" and "does sha strict M (followed tm leader_id n) (f (followed tm leader_id n))"
  shows "does sha strict M n (andThen (become_follower tm leader_id n) (\<lambda>n. andThen (n, [ResetElectionTimer]) f))"
proof (rule does_andThen[OF does_become_follower])
  have "does sha strict M (followed tm leader_id n) (followed tm leader_id n, [ResetElectionTimer])"
    by (rule does_say[OF followed_wf[OF wf]]) simp
  from does_andThen[OF this, of f] assms(2)
  show "does sha strict M (fst (become_follower tm leader_id n))
      (andThen (fst (become_follower tm leader_id n), [ResetElectionTimer]) f)" by simp
qed

lemma does_become_leader:
  assumes wf: "raft_wf sha n" and candidate: "r_role n = Candidate" and votes: "quorum (r_configuration n) (r_votes n)"
  shows "does sha strict M n (become_leader n)"
proof -
  define entry where "entry = \<lparr>le_index = log_last_index (r_log n) + 1, le_term = r_term n, le_payload = Noop\<rparr>"
  define led where "led = n\<lparr>r_role := Leader, r_leader_id := Some (r_id n), r_votes := bt_empty,
    r_pending_reads := bt_empty, r_log := log_append [entry] (r_log n),
    r_progress := leader_progress n (le_index entry),
    r_recent_active := cfg_participants (r_configuration n)\<rparr>"
  note move = move.Lead[OF candidate votes entry_def]
  have quiet: "quiet (n\<lparr>r_role := Leader, r_log := log_append [entry] (r_log n),
      r_progress := leader_progress n (le_index entry)\<rparr>) led"
    using wf_simps(2)[OF move_wf[OF wf move]]
    by (auto simp: quiet_def same_durable_def led_def volatile_ok_def match_index_of_def)
  have first: "does sha strict M n (led, [Persist (MAppend [entry]), RoleChanged Leader (r_term led), ResetHeartbeatTimer])"
    using does_then_quiet[OF move quiet, of "[RoleChanged Leader (r_term led), ResetHeartbeatTimer]"] by simp
  have "does sha strict M led (andThen (advance_leader_commit led) (\<lambda>n. (n, broadcast_append n None)))"
    using does_wf[OF first wf]
    by (intro does_advance_and_send does_broadcast_append) (auto simp: led_def)
  then have "does sha strict M n (andThen (led, [Persist (MAppend [entry]), RoleChanged Leader (r_term led), ResetHeartbeatTimer])
      (\<lambda>n. andThen (advance_leader_commit n) (\<lambda>n. (n, broadcast_append n None))))"
    by (intro does_andThen[OF first]) (simp only: fst_conv)
  moreover have "become_leader n = andThen (led, [Persist (MAppend [entry]), RoleChanged Leader (r_term led), ResetHeartbeatTimer])
      (\<lambda>n. andThen (advance_leader_commit n) (\<lambda>n. (n, broadcast_append n None)))"
    by (simp add: become_leader_def Let_def entry_def led_def)
  ultimately show ?thesis by simp
qed

lemma does_start_election:
  assumes wf: "raft_wf sha n" and tm: "tm = r_term n + 1" "tm \<le> u64_max"
  shows "does sha strict M n (start_election tm n)"
proof -
  define hs where "hs = (r_hard_state n)\<lparr>hs_current_term := tm, hs_voted_for := Some (r_id n)\<rparr>"
  define c where "c = n\<lparr>r_hard_state := hs, r_role := Candidate, r_campaign_term := None,
    r_votes := bts_insert (r_id n) bt_empty\<rparr>"
  have first: "does sha strict M n (c, [Persist (MHardState hs), RoleChanged Candidate tm, ResetElectionTimer])"
    using does_then_quiet[OF move.Campaign[OF tm hs_def], of c "[RoleChanged Candidate tm, ResetElectionTimer]"]
    by (simp add: quiet_def same_durable_def c_def volatile_ok_def)
  have wf': "raft_wf sha c" using does_wf[OF first wf] by simp
  have c: "r_role c = Candidate" "r_term c = tm" "r_hard_state c = hs" "r_voted_for c = Some (r_id c)" by (simp_all add: c_def hs_def)
  have "does sha strict M c (if quorum (r_configuration c) (r_votes c) then become_leader c
      else (c, map (\<lambda>peer. Send peer (RequestVote tm (r_id c) (log_last_index (r_log c)) (log_last_term (r_log c)))) (peers c)))"
    using does_become_leader[OF wf' c(1)] c
    by (auto intro!: does_map move.Ask[OF c(1)])
  then have "does sha strict M n (andThen (c, [Persist (MHardState hs), RoleChanged Candidate tm, ResetElectionTimer])
      (\<lambda>n. if quorum (r_configuration n) (r_votes n) then become_leader n
           else (n, map (\<lambda>peer. Send peer (RequestVote tm (r_id n) (log_last_index (r_log n)) (log_last_term (r_log n)))) (peers n))))"
    by (intro does_andThen[OF first]) (simp only: fst_conv)
  moreover have "start_election tm n = andThen (c, [Persist (MHardState hs), RoleChanged Candidate tm, ResetElectionTimer])
      (\<lambda>n. if quorum (r_configuration n) (r_votes n) then become_leader n
           else (n, map (\<lambda>peer. Send peer (RequestVote tm (r_id n) (log_last_index (r_log n)) (log_last_term (r_log n)))) (peers n)))"
    by (simp add: start_election_def Let_def hs_def c_def)
  ultimately show ?thesis by simp
qed

lemma does_start_pre_vote:
  assumes wf: "raft_wf sha n" and "r_role n \<noteq> Leader"
  shows "does sha strict M n (start_pre_vote n)"
proof (cases "nat_checked_add (r_term n) 1")
  case None
  then have "u64_max \<le> r_term n" by (auto simp: nat_checked_add_def split: if_splits)
  then show ?thesis using None by (auto simp: start_pre_vote_def intro!: does_move move.Exhausted)
next
  case (Some tm)
  then have tm: "tm = r_term n + 1" "tm \<le> u64_max" by (auto simp: nat_checked_add_def split: if_splits)
  define c where "c = n\<lparr>r_role := PreCandidate, r_leader_id := None, r_campaign_term := Some tm,
    r_votes := bts_insert (r_id n) bt_empty\<rparr>"
  have first: "does sha strict M n (c, [RoleChanged PreCandidate (r_term c), ResetElectionTimer])"
    by (rule does_quiet) (use tm in \<open>auto simp: quiet_def same_durable_def c_def volatile_ok_def\<close>)
  have wf': "raft_wf sha c" using does_wf[OF first wf] by simp
  have c: "r_role c = PreCandidate" "r_term c = r_term n" by (simp_all add: c_def)
  have "does sha strict M c (if quorum (r_configuration c) (r_votes c) then start_election tm c
      else (c, map (\<lambda>peer. Send peer (PreVoteRequest tm (r_id c) (log_last_index (r_log c)) (log_last_term (r_log c)))) (peers c)))"
    using does_start_election[OF wf'] tm c by (auto intro!: does_say[OF wf'] simp: list_all_iff)
  then have "does sha strict M n (andThen (c, [RoleChanged PreCandidate (r_term c), ResetElectionTimer])
      (\<lambda>n. if quorum (r_configuration n) (r_votes n) then start_election tm n
           else (n, map (\<lambda>peer. Send peer (PreVoteRequest tm (r_id n) (log_last_index (r_log n)) (log_last_term (r_log n)))) (peers n))))"
    by (intro does_andThen[OF first]) (simp only: fst_conv)
  moreover have "start_pre_vote n = andThen (c, [RoleChanged PreCandidate (r_term c), ResetElectionTimer])
      (\<lambda>n. if quorum (r_configuration n) (r_votes n) then start_election tm n
           else (n, map (\<lambda>peer. Send peer (PreVoteRequest tm (r_id n) (log_last_index (r_log n)) (log_last_term (r_log n)))) (peers n)))"
    using Some by (simp add: start_pre_vote_def Let_def c_def)
  ultimately show ?thesis by simp
qed

lemma does_on_pre_vote_response:
  assumes wf: "raft_wf sha n"
  shows "does sha strict M n (on_pre_vote_response from responder_term prospective_term granted n)"
proof -
  consider (newer) "responder_term > r_term n"
    | (ignored) "\<not> responder_term > r_term n" "r_role n \<noteq> PreCandidate \<or> r_campaign_term n \<noteq> Some prospective_term \<or> \<not> granted"
    | (counted) "\<not> responder_term > r_term n" "r_role n = PreCandidate" "r_campaign_term n = Some prospective_term" granted
    by blast
  then show ?thesis
  proof cases
    case newer
    then show ?thesis by (simp add: on_pre_vote_response_def does_step_down[OF wf])
  next
    case ignored
    then show ?thesis by (simp add: on_pre_vote_response_def does_nothing)
  next
    case counted
    then have tm: "prospective_term = r_term n + 1" "prospective_term \<le> u64_max"
      using wf_simps(2)[OF wf] by (auto simp: volatile_ok_def)
    define c where "c = n\<lparr>r_votes := bts_insert from (r_votes n)\<rparr>"
    have first: "does sha strict M n (c, [])"
      by (rule does_quiet) (use counted tm in \<open>auto simp: quiet_def same_durable_def c_def volatile_ok_def\<close>)
    have "does sha strict M c (start_election prospective_term c)"
      using does_wf[OF first wf] tm by (intro does_start_election) (auto simp: c_def)
    then have "does sha strict M n (andThen (c, [])
        (\<lambda>c. if quorum (r_configuration c) (r_votes c) then start_election prospective_term c else (c, [])))"
      by (intro does_andThen[OF first]) (simp add: does_nothing)
    then show ?thesis using counted
      by (simp add: on_pre_vote_response_def Let_def andThen_eq flip: c_def split: if_splits)
  qed
qed

lemma does_vote:
  assumes wf: "raft_wf sha n" and msg: "(from, RequestVote tm from last_index last_term) \<in> M"
    and granted: "granted = (tm = r_term n \<and> (r_voted_for n = None \<or> r_voted_for n = Some from)
      \<and> candidate_log_is_up_to_date (r_log n) last_index last_term)"
  shows "does sha strict M n (andThen
      (if granted then
         andThen
           (if r_voted_for n \<noteq> Some from then
              let n = n\<lparr>r_hard_state := (r_hard_state n)\<lparr>hs_voted_for := Some from\<rparr>\<rparr>
              in (n, [Persist (MHardState (r_hard_state n))])
            else (n, []))
           (\<lambda>n. (n\<lparr>r_leader_id := None\<rparr>, [ResetElectionTimer]))
       else (n, []))
      (\<lambda>n. (n, [Send from (RequestVoteResponse (r_term n) granted)])))"
proof (cases granted)
  case False
  then show ?thesis by (auto simp: andThen_eq intro!: does_say[OF wf])
next
  case True
  with granted have g: "tm = r_term n" "r_voted_for n = None \<or> r_voted_for n = Some from"
    "candidate_log_is_up_to_date (r_log n) last_index last_term" by simp_all
  define v where "v = (if r_voted_for n \<noteq> Some from
    then n\<lparr>r_hard_state := (r_hard_state n)\<lparr>hs_voted_for := Some from\<rparr>\<rparr> else n)"
  define save where "save = (if r_voted_for n \<noteq> Some from then [Persist (MHardState (r_hard_state v))] else [])"
  have first: "does sha strict M n (v, save)"
  proof (cases "r_voted_for n = Some from")
    case True
    then show ?thesis by (simp add: v_def save_def does_nothing)
  next
    case False
    then have "r_voted_for n = None" using g(2) by simp
    moreover have "(from, RequestVote (r_term n) from last_index last_term) \<in> M" using msg g(1) by simp
    ultimately have "move sha strict M n [Persist (MHardState ((r_hard_state n)\<lparr>hs_voted_for := Some from\<rparr>))]
        (n\<lparr>r_hard_state := (r_hard_state n)\<lparr>hs_voted_for := Some from\<rparr>\<rparr>)"
      using g(3) by (intro move.Grant[OF _ _ _ refl])
    from does_move[OF this] False show ?thesis by (simp add: v_def save_def)
  qed
  have wf': "raft_wf sha v" using does_wf[OF first wf] by simp
  have second: "does sha strict M v (v\<lparr>r_leader_id := None\<rparr>, [ResetElectionTimer])"
    by (rule does_quiet) (use wf_simps(2)[OF wf'] in \<open>auto simp: quiet_def same_durable_def volatile_ok_def match_index_of_def\<close>)
  have third: "does sha strict M (v\<lparr>r_leader_id := None\<rparr>)
      (v\<lparr>r_leader_id := None\<rparr>, [Send from (RequestVoteResponse (r_term (v\<lparr>r_leader_id := None\<rparr>)) True)])"
    by (rule does_move[OF move.Confirm]) (simp add: v_def)
  have "does sha strict M n (andThen (andThen (v, save) (\<lambda>n. (n\<lparr>r_leader_id := None\<rparr>, [ResetElectionTimer])))
      (\<lambda>n. (n, [Send from (RequestVoteResponse (r_term n) True)])))"
    by (intro does_andThen) (simp_all add: first second third[simplified])
  then show ?thesis using True by (simp add: v_def save_def Let_def split: if_splits)
qed

lemma does_on_vote_request:
  assumes wf: "raft_wf sha n" and msg: "(from, RequestVote tm candidate_id last_index last_term) \<in> M"
  shows "does sha strict M n (on_vote_request from tm candidate_id last_index last_term n)"
proof (cases "candidate_id = from")
  case False
  then show ?thesis by (simp add: on_vote_request_def does_nothing)
next
  case True
  define start where "start = (if tm > r_term n then become_follower tm None n else (n, []))"
  have first: "does sha strict M n start" by (simp add: start_def does_become_follower does_nothing)
  have "raft_wf sha (fst start)" using does_wf[OF first wf] .
  from does_vote[OF this msg[unfolded True] refl]
  show ?thesis unfolding on_vote_request_def True Let_def[of "_ \<and> _"] start_def[symmetric]
    by (simp only: if_False simp_thms not_True_eq_False) (rule does_andThen[OF first])
qed

lemma does_on_vote_response:
  assumes wf: "raft_wf sha n" and msg: "(from, RequestVoteResponse tm granted) \<in> M"
  shows "does sha strict M n (on_vote_response from tm granted n)"
proof -
  consider (newer) "tm > r_term n"
    | (ignored) "\<not> tm > r_term n" "r_role n \<noteq> Candidate \<or> tm \<noteq> r_term n \<or> \<not> granted"
    | (counted) "r_role n = Candidate" "tm = r_term n" granted
    by blast
  then show ?thesis
  proof cases
    case newer
    then show ?thesis by (simp add: on_vote_response_def does_step_down[OF wf])
  next
    case ignored
    then show ?thesis by (simp add: on_vote_response_def does_nothing)
  next
    case counted
    define c where "c = n\<lparr>r_votes := bts_insert from (r_votes n)\<rparr>"
    have move: "move sha strict M n [] c" unfolding c_def
      using msg counted by (intro move.Count) auto
    have wf': "raft_wf sha c" by (rule move_wf[OF wf move])
    have "does sha strict M c (become_leader c)" if "quorum (r_configuration c) (r_votes c)"
      using does_become_leader[OF wf' _ that] counted(1) by (simp add: c_def)
    then have "does sha strict M n (andThen (c, [])
        (\<lambda>c. if quorum (r_configuration c) (r_votes c) then become_leader c else (c, [])))"
      by (intro does_andThen[OF does_move[OF move]]) (simp add: does_nothing)
    then show ?thesis using counted
      by (simp add: on_vote_response_def Let_def andThen_eq flip: c_def split: if_splits)
  qed
qed

section \<open>Replication\<close>

lemma store_entries_eq:
  "store_entries index suffix n = (n\<lparr>r_log := truncate_and_append index suffix (r_log n)\<rparr>,
     [Persist (if index \<le> log_last_index (r_log n) then MTruncateAndAppend index suffix else MAppend suffix)])"
  by (simp add: store_entries_def Let_def)

text \<open>Once stored, the entries are where the message says.\<close>

lemma append_stored_after:
  assumes wf: "raft_wf sha n" and recv: "append_received M n from prev prev_term entries leader_commit"
    and scan: "scan_entries (r_log n) (r_commit_index n) 0 entries = ChangedFrom index position"
  defines "n' \<equiv> n\<lparr>r_log := truncate_and_append index (drop position entries) (r_log n)\<rparr>"
  shows "append_received M n' from prev prev_term entries leader_commit"
    and "append_stored (r_log n') entries"
proof -
  note facts = store_facts[OF wf recv scan] store_wf[OF wf recv scan]
  let ?l = "r_log n" and ?l' = "r_log n'"
  have log: "log_wf ?l" by (rule wf_simps(1)[OF wf])
  have prev: "rl_base_index ?l \<le> prev" "log_term ?l prev = Some prev_term"
    and idx: "\<forall>k < length entries. le_index (entries ! k) = prev + 1 + k"
    using recv by (auto simp: append_received_def valid_entry_sequence_iff)
  let ?keep = "index - (rl_base_index ?l + 1)"
  have keep: "?keep \<le> length (rl_entries ?l)" using facts(4) log_last_index_eq[OF log] by simp
  have entries': "rl_entries ?l' = take ?keep (rl_entries ?l) @ drop position entries"
    and base': "rl_base_index ?l' = rl_base_index ?l" "rl_base_term ?l' = rl_base_term ?l"
    by (simp_all add: n'_def truncate_and_append_def Let_def)
  have low: "log_term ?l' i = log_term ?l i" if "i < index" for i
  proof -
    have "i - Suc (rl_base_index ?l) < ?keep \<or> i \<le> rl_base_index ?l" using that by auto
    then show ?thesis using keep by (auto simp: log_term_def entries' base' nth_append Let_def)
  qed
  show "append_received M n' from prev prev_term entries leader_commit"
    using recv low[of prev] facts(1) base' unfolding append_received_def by (auto simp: n'_def)
  show "append_stored ?l' entries"
    unfolding append_stored_def
  proof
    fix e assume "e \<in> set entries"
    then obtain k where k: "k < length entries" "e = entries ! k" by (auto simp: in_set_conv_nth)
    show "log_term ?l' (le_index e) = Some (le_term e)"
    proof (cases "k < position")
      case True
      then have "e \<in> set (take position entries)" using k by (auto simp: in_set_conv_nth intro!: exI[of _ k])
      moreover have "le_index e < index" using k idx True facts(1) by simp
      ultimately show ?thesis using facts(6) low by (simp add: append_stored_def)
    next
      case False
      have e: "le_index e = prev + 1 + k" using k idx by simp
      obtain j where j: "k = position + j" using False by (metis le_iff_add not_less)
      have "le_index e = rl_base_index ?l + (?keep + j + 1)" using e j facts(1,3) prev by simp
      moreover have "log_term ?l' (rl_base_index ?l + (?keep + j + 1)) = Some (le_term e)"
        using k j keep log_term_offset[of ?l' "?keep + j + 1"]
        by (simp add: entries' base' nth_append min_def)
      ultimately show ?thesis by (simp only:)
    qed
  qed
qed

lemma does_acknowledge:
  assumes wf: "raft_wf sha n" and recv: "append_received M n from prev prev_term entries leader_commit"
    and stored: "append_stored (r_log n) entries"
    and strict: "strict \<Longrightarrow> min leader_commit (log_last_index (r_log n)) \<le> r_commit_index n
      \<or> min leader_commit (log_last_index (r_log n)) \<le> prev + length entries"
  shows "does sha strict M n (andThen (set_commit (min leader_commit (log_last_index (r_log n))) n) (\<lambda>n.
      (n, [Send from (AppendEntriesResponse (r_term n) True (prev + length entries) 0 None read_context)])))"
proof -
  let ?index = "min leader_commit (log_last_index (r_log n))"
  have first: "does sha strict M n (set_commit ?index n)"
    by (rule does_set_commit[OF wf _ move.CommitFollower[OF recv stored refl]]) (use strict in auto)
  have last: "?index \<le> log_last_index (r_log n)" by simp
  have "append_received M (fst (set_commit ?index n)) from prev prev_term entries leader_commit"
    "append_stored (r_log (fst (set_commit ?index n))) entries"
    using recv stored by (simp_all add: fst_set_commit[OF wf last] append_received_def)
  then show ?thesis by (intro does_andThen[OF first] does_move move.Acknowledge)
qed

lemma does_accept_append:
  assumes wf: "raft_wf sha n"
    and msg: "(from, AppendEntries tm from prev prev_term entries leader_commit read_context) \<in> M"
    and follower: "r_role n = Follower" "r_term n = tm"
    and strict: "strict \<Longrightarrow> r_commit_index (fst (accept_append from tm prev prev_term entries leader_commit read_context n))
      \<le> max (r_commit_index n) (prev + length entries)"
  shows "does sha strict M n (accept_append from tm prev prev_term entries leader_commit read_context n)"
proof -
  define finish where "finish = (\<lambda>n. andThen (set_commit (min leader_commit (log_last_index (r_log n))) n) (\<lambda>n.
    (n, [Send from (AppendEntriesResponse (r_term n) True (prev + length entries) 0 None read_context)])))"
  have reject: "does sha strict M n (n, reject_append n from read_context i t)" for i t
    by (rule does_say[OF wf]) (simp add: reject_append_def)
  have commit_finish: "r_commit_index (fst (finish n')) = max (r_commit_index n') (min leader_commit (log_last_index (r_log n')))"
    if "raft_wf sha n'" for n'
    by (cases "min leader_commit (log_last_index (r_log n')) \<le> r_commit_index n'")
       (simp_all add: finish_def fst_set_commit[OF that] max_absorb1 max_absorb2 del: min_le_iff_disj)
  show ?thesis
  proof (cases "rl_base_index (r_log n) \<le> prev \<and> log_term (r_log n) prev = Some prev_term
      \<and> valid_entry_sequence prev prev_term tm entries")
    case False
    then show ?thesis
      by (auto simp: accept_append_def reject split: option.split)
  next
    case True
    then have recv: "append_received M n from prev prev_term entries leader_commit"
      using msg follower by (auto simp: append_received_def)
    have body: "accept_append from tm prev prev_term entries leader_commit read_context n =
        (case scan_entries (r_log n) (r_commit_index n) 0 entries of
           ReplacesCommitted index \<Rightarrow>
             (n, [Fatal (''leader attempted to replace committed index '' @ show_nat index)])
         | Gap \<Rightarrow> (n, reject_append n from read_context (log_last_index (r_log n) + 1) None)
         | Same \<Rightarrow> finish n
         | ChangedFrom from_index position \<Rightarrow>
             andThen (store_entries from_index (drop position entries) n) finish)"
      using True unfolding finish_def by (simp add: accept_append_def Let_def)
    have idx: "\<forall>k < length entries. le_index (entries ! k) = prev + 1 + 0 + k"
      using True by (simp add: valid_entry_sequence_iff)
    show ?thesis
    proof (cases "scan_entries (r_log n) (r_commit_index n) 0 entries")
      case Same
      have "append_stored (r_log n) entries" by (rule scan_entries_result(1)[OF idx Same])
      moreover have "strict \<Longrightarrow> min leader_commit (log_last_index (r_log n)) \<le> r_commit_index n
          \<or> min leader_commit (log_last_index (r_log n)) \<le> prev + length entries"
        using strict commit_finish[OF wf] Same unfolding body by auto
      ultimately have "does sha strict M n (finish n)"
        unfolding finish_def by (rule does_acknowledge[OF wf recv])
      then show ?thesis unfolding body Same by simp
    next
      case (ChangedFrom index position)
      define n' where "n' = n\<lparr>r_log := truncate_and_append index (drop position entries) (r_log n)\<rparr>"
      have first: "does sha strict M n (store_entries index (drop position entries) n)"
        unfolding store_entries_eq by (rule does_move[OF move.Store[OF recv ChangedFrom refl refl]])
      have n': "fst (store_entries index (drop position entries) n) = n'" by (simp add: store_entries_eq n'_def)
      have wf': "raft_wf sha n'" using does_wf[OF first wf] n' by simp
      note after = append_stored_after[OF wf recv ChangedFrom, folded n'_def]
      have "log_last_index (r_log n') = prev + length entries"
        unfolding n'_def using store_wf(2)[OF wf recv ChangedFrom] by simp
      then have "does sha strict M n' (finish n')"
        unfolding finish_def by (intro does_acknowledge[OF wf' after]) simp
      then show ?thesis unfolding body ChangedFrom using does_andThen[OF first] n' by simp
    next
      case (ReplacesCommitted index)
      then show ?thesis unfolding body by (auto intro!: does_move move.Conflict[OF recv])
    next
      case Gap
      then show ?thesis unfolding body by (simp add: reject)
    qed
  qed
qed

lemma does_on_append_entries:
  assumes wf: "raft_wf sha n"
    and msg: "(from, AppendEntries tm leader_id prev prev_term entries leader_commit read_context) \<in> M"
    and strict: "strict \<Longrightarrow>
      r_commit_index (fst (on_append_entries from tm leader_id prev prev_term entries leader_commit read_context n))
      \<le> max (r_commit_index n) (prev + length entries)"
  shows "does sha strict M n (on_append_entries from tm leader_id prev prev_term entries leader_commit read_context n)"
proof -
  consider (other) "leader_id \<noteq> from" | (old) "leader_id = from" "tm < r_term n"
    | (current) "leader_id = from" "\<not> tm < r_term n" by blast
  then show ?thesis
  proof cases
    case other
    then show ?thesis by (simp add: on_append_entries_def does_nothing)
  next
    case old
    then show ?thesis by (auto simp: on_append_entries_def reject_append_def intro!: does_say[OF wf])
  next
    case current
    let ?f = "followed tm (Some from) n"
    let ?accept = "accept_append from tm prev prev_term entries leader_commit read_context"
    have wf': "raft_wf sha ?f" by (rule followed_wf[OF wf])
    have "does sha strict M ?f (?accept ?f)"
      using msg current strict
      by (intro does_accept_append[OF wf']) (auto simp: on_append_entries_def max_def)
    then show ?thesis using current does_follow_then[OF wf] by (simp add: on_append_entries_def)
  qed
qed

section \<open>Reads and responses\<close>

lemma quiet_volatile:
  assumes "raft_wf sha n" and "same_durable n n'" and "r_role n' = r_role n"
    and "r_votes n' = r_votes n" and "r_campaign_term n' = r_campaign_term n"
    and "\<And>p. match_index_of n' p = match_index_of n p"
    and "\<And>p progress. bt_get (r_progress n') p = Some progress \<Longrightarrow>
      (\<And>p progress. bt_get (r_progress n) p = Some progress \<Longrightarrow> 0 < pr_next_index progress)
      \<Longrightarrow> 0 < pr_next_index progress"
  shows "quiet n n'"
  using assms wf_simps(2)[OF assms(1)] unfolding quiet_def volatile_ok_def same_durable_def
  by (auto simp: fun_eq_iff)

lemma does_complete_read:
  assumes "raft_wf sha n"
  shows "does sha strict M n (complete_read context n)"
  using assms
  by (auto simp: complete_read_def does_nothing same_durable_def match_index_of_def
      intro!: does_quiet quiet_volatile[OF assms] split: option.split)

lemma role_complete_read [simp]: "r_role (fst (complete_read context n)) = r_role n"
  by (simp add: complete_read_def split: option.split)

lemma progress_quiet:
  assumes "raft_wf sha n" and "\<And>progress. pr_match_index (f progress) = pr_match_index progress"
    and "\<And>progress. 0 < pr_next_index progress \<Longrightarrow> 0 < pr_next_index (f progress)"
  shows "quiet n (update_progress peer f n)"
  using assms(2,3)
  by (intro quiet_volatile[OF assms(1)])
     (auto simp: same_durable_def match_index_of_def[of n] elim!: update_progress_next)

lemma pending_quiet: "raft_wf sha n \<Longrightarrow> quiet n (n\<lparr>r_pending_reads := p\<rparr>)"
  by (rule quiet_volatile) (auto simp: same_durable_def match_index_of_def)

lemma active_quiet: "raft_wf sha n \<Longrightarrow> quiet n (n\<lparr>r_recent_active := p\<rparr>)"
  by (rule quiet_volatile) (auto simp: same_durable_def match_index_of_def)

lemma incoming_quiet: "raft_wf sha n \<Longrightarrow> quiet n (n\<lparr>r_incoming_snapshot := p\<rparr>)"
  by (rule quiet_volatile) (auto simp: same_durable_def match_index_of_def)

lemma quiet_wf:
  assumes "raft_wf sha n" and "quiet n n'"
  shows "raft_wf sha n'"
  by (rule move_wf[OF assms(1) move.Quiet[OF assms(2), of "[]"]]) simp

lemma does_after_quiet:
  assumes "quiet n n'" and "does sha strict M n' out"
  shows "does sha strict M n out"
proof -
  have "moves sha strict M n ([] @ snd out) (fst out)"
    by (rule moves.Step[OF move.Quiet[OF assms(1)]]) (use assms(2) in \<open>simp_all add: does_def\<close>)
  then show ?thesis by (simp add: does_def)
qed

lemma does_acknowledge_read:
  assumes wf: "raft_wf sha n"
  shows "does sha strict M n (acknowledge_read from context n)"
proof (cases "bt_get (r_pending_reads n) context")
  case None
  then show ?thesis by (simp add: acknowledge_read_def does_nothing)
next
  case (Some pending)
  let ?p = "pending\<lparr>pd_acknowledgements := bts_insert from (pd_acknowledgements pending)\<rparr>"
  note q = pending_quiet[OF wf, of "bt_insert context ?p (r_pending_reads n)"]
  show ?thesis
    using Some does_after_quiet[OF q does_complete_read[OF quiet_wf[OF wf q]]] does_quiet[OF q]
    by (simp add: acknowledge_read_def Let_def)
qed

lemma role_acknowledge_read [simp]: "r_role (fst (acknowledge_read from context n)) = r_role n"
  by (auto simp: acknowledge_read_def Let_def split: option.split)

lemma does_read_index:
  assumes wf: "raft_wf sha n"
  shows "does sha strict M n (read_index context n)"
proof -
  let ?n = "n\<lparr>r_pending_reads := bt_insert context
    \<lparr>pd_index = r_commit_index n, pd_acknowledgements = bts_insert (r_id n) bt_empty\<rparr> (r_pending_reads n)\<rparr>"
  have q: "quiet n ?n" by (rule pending_quiet[OF wf])
  have "does sha strict M n (complete_read context ?n)"
    by (rule does_after_quiet[OF q does_complete_read[OF quiet_wf[OF wf q]]])
  moreover have "does sha strict M n (?n, broadcast_append ?n (Some context))" if "r_role n = Leader"
    using that by (intro does_after_quiet[OF q] does_broadcast_append quiet_wf[OF wf q]) simp
  ultimately show ?thesis
    by (auto simp: read_index_def Let_def intro!: does_say[OF wf])
qed

lemma does_on_append_response:
  assumes wf: "raft_wf sha n"
    and msg: "(from, AppendEntriesResponse tm success match_index conflict_index conflict_term read_context) \<in> M"
  shows "does sha strict M n
    (on_append_response from tm success match_index conflict_index conflict_term read_context n)"
proof -
  consider (newer) "tm > r_term n" | (ignored) "\<not> tm > r_term n" "r_role n \<noteq> Leader \<or> tm \<noteq> r_term n"
    | (leader) "r_role n = Leader" "tm = r_term n" by blast
  then show ?thesis
  proof cases
    case newer
    then show ?thesis by (simp add: on_append_response_def does_step_down[OF wf])
  next
    case ignored
    then show ?thesis by (simp add: on_append_response_def does_nothing)
  next
    case leader
    let ?a = "n\<lparr>r_recent_active := bts_insert from (r_recent_active n)\<rparr>"
    define start where "start = (case read_context of None \<Rightarrow> (?a, []) | Some context \<Rightarrow> acknowledge_read from context ?a)"
    note q = active_quiet[OF wf, of "bts_insert from (r_recent_active n)"]
    have first: "does sha strict M n start"
      using does_after_quiet[OF q does_acknowledge_read[OF quiet_wf[OF wf q]]] does_quiet[OF q]
      by (auto simp: start_def split: option.split)
    define b where "b = fst start"
    have wf': "raft_wf sha b" unfolding b_def by (rule does_wf[OF first wf])
    have b: "r_role b = Leader" "r_term b = tm"
      using leader by (auto simp: b_def start_def acknowledge_read_def complete_read_def Let_def split: option.split)
    let ?match = "\<lambda>progress. progress\<lparr>pr_match_index := max (pr_match_index progress) match_index,
      pr_next_index := max (pr_next_index progress) (nat_saturating_add match_index 1), pr_snapshot_offset := None\<rparr>"
    have matched: "does sha strict M b (andThen (advance_leader_commit (update_progress from ?match b))
        (\<lambda>n. (n, if match_index < log_last_index (r_log n) then send_append n from None else [])))" if success
    proof -
      have "(from, AppendEntriesResponse (r_term b) True match_index conflict_index conflict_term read_context) \<in> M"
        using msg that b by simp
      then have move: "move sha strict M b [] (update_progress from ?match b)"
        by (intro move.Match[OF disjI1 b(1)]) auto
      have "does sha strict M (update_progress from ?match b) (andThen (advance_leader_commit (update_progress from ?match b))
        (\<lambda>n. (n, if match_index < log_last_index (r_log n) then send_append n from None else [])))"
        using b by (intro does_advance_and_send move_wf[OF wf' move]) (auto intro: does_send_append does_nothing)
      then show ?thesis using moves.Step[OF move] by (simp add: does_def)
    qed
    let ?next = "max (case Option.bind conflict_term (last_index_of_term (r_log b)) of
      None \<Rightarrow> conflict_index | Some index \<Rightarrow> index + 1) 1"
    let ?lower = "\<lambda>progress. progress\<lparr>pr_next_index := min ?next (max (pr_next_index progress - 1) 1), pr_snapshot_offset := None\<rparr>"
    have q': "quiet b (update_progress from ?lower b)" by (rule progress_quiet[OF wf']) auto
    have backed: "does sha strict M b (update_progress from ?lower b, send_append (update_progress from ?lower b) from None)"
      using b by (intro does_after_quiet[OF q'] does_send_append quiet_wf[OF wf' q']) simp
    have "does sha strict M n (andThen start (\<lambda>n.
        if success then
          let n = update_progress from ?match n
          in andThen (advance_leader_commit n)
               (\<lambda>n. (n, if match_index < log_last_index (r_log n) then send_append n from None else []))
        else
          let next_index = max (case Option.bind conflict_term (last_index_of_term (r_log n)) of
                                  None \<Rightarrow> conflict_index | Some index \<Rightarrow> index + 1) 1;
              n = update_progress from (\<lambda>progress.
                progress\<lparr>pr_next_index := min next_index (max (pr_next_index progress - 1) 1),
                         pr_snapshot_offset := None\<rparr>) n
          in (n, send_append n from None)))"
      by (rule does_andThen[OF first]) (use matched backed in \<open>simp add: Let_def flip: b_def\<close>)
    then show ?thesis using leader by (simp add: on_append_response_def start_def Let_def)
  qed
qed

lemma does_on_snapshot_response:
  assumes wf: "raft_wf sha n"
    and msg: "(from, InstallSnapshotResponse tm accepted next_offset finished match_index) \<in> M"
  shows "does sha strict M n (on_snapshot_response from tm accepted next_offset finished match_index n)"
proof -
  consider (newer) "tm > r_term n" | (ignored) "\<not> tm > r_term n" "r_role n \<noteq> Leader \<or> tm \<noteq> r_term n"
    | (leader) "r_role n = Leader" "tm = r_term n" by blast
  then show ?thesis
  proof cases
    case newer
    then show ?thesis by (simp add: on_snapshot_response_def does_step_down[OF wf])
  next
    case ignored
    then show ?thesis by (simp add: on_snapshot_response_def does_nothing)
  next
    case leader
    let ?a = "n\<lparr>r_recent_active := bts_insert from (r_recent_active n)\<rparr>"
    note q = active_quiet[OF wf, of "bts_insert from (r_recent_active n)"]
    have wf': "raft_wf sha ?a" by (rule quiet_wf[OF wf q])
    let ?match = "\<lambda>progress. progress\<lparr>pr_match_index := max (pr_match_index progress) match_index,
      pr_next_index := max (pr_next_index progress) (match_index + 1), pr_snapshot_offset := None\<rparr>"
    let ?retry = "\<lambda>progress. progress\<lparr>pr_snapshot_offset := Some (if accepted then next_offset else 0)\<rparr>"
    have matched: "does sha strict M ?a (andThen (advance_leader_commit (update_progress from ?match ?a))
        (\<lambda>n. (n, send_append n from None)))" if "finished" "accepted"
    proof -
      have "(from, InstallSnapshotResponse (r_term ?a) True next_offset True match_index) \<in> M"
        using msg that leader by simp
      then have move: "move sha strict M ?a [] (update_progress from ?match ?a)"
        using leader by (intro move.Match[OF disjI2]) auto
      have "does sha strict M (update_progress from ?match ?a) (andThen (advance_leader_commit (update_progress from ?match ?a))
        (\<lambda>n. (n, send_append n from None)))"
        using leader by (intro does_advance_and_send move_wf[OF wf' move]) (auto intro: does_send_append)
      then show ?thesis using moves.Step[OF move] by (simp add: does_def)
    qed
    have q': "quiet ?a (update_progress from ?retry ?a)" by (rule progress_quiet[OF wf']) auto
    have retried: "does sha strict M ?a (update_progress from ?retry ?a, send_append (update_progress from ?retry ?a) from None)"
      using leader by (intro does_after_quiet[OF q'] does_send_append quiet_wf[OF wf' q']) simp
    from does_after_quiet[OF q matched] does_after_quiet[OF q retried] does_quiet[OF q, of "[]"] leader show ?thesis
      by (auto simp: on_snapshot_response_def Let_def andThen_eq split: option.split)
  qed
qed

lemma does_propose:
  assumes wf: "raft_wf sha n"
  shows "does sha strict M n (propose i command n)"
proof (cases "r_role n = Leader")
  case False
  then show ?thesis by (auto simp: propose_def intro!: does_say[OF wf])
next
  case True
  define entry where "entry = \<lparr>le_index = log_last_index (r_log n) + 1, le_term = r_term n, le_payload = Command i command\<rparr>"
  define p where "p = update_progress (r_id n) (\<lambda>progress.
    progress\<lparr>pr_match_index := le_index entry, pr_next_index := le_index entry + 1\<rparr>)
    (n\<lparr>r_log := log_append [entry] (r_log n)\<rparr>)"
  have move: "move sha strict M n [Persist (MAppend [entry])] p"
    unfolding p_def by (rule move.Extend[OF True entry_def])
  have "does sha strict M p (andThen (advance_leader_commit p) (\<lambda>n. (n, broadcast_append n None)))"
    using True by (intro does_advance_and_send does_broadcast_append move_wf[OF wf move]) (auto simp: p_def)
  then have "does sha strict M n (andThen (p, [Persist (MAppend [entry])])
      (\<lambda>n. andThen (advance_leader_commit n) (\<lambda>n. (n, broadcast_append n None))))"
    by (intro does_andThen[OF does_move[OF move]]) simp
  then show ?thesis using True by (simp add: propose_def Let_def p_def entry_def)
qed

section \<open>Snapshots\<close>

lemma validate_snapshot_intro:
  assumes "snapshot_validate sha s" and "ps_data s \<noteq> []" and "length (ps_data s) \<le> STORE_MAX_SNAPSHOT_BYTES"
    and "0 < sm_last_included_index (ps_metadata s)"
  shows "validate_snapshot sha s = Inr ()"
  using assms by (simp add: validate_snapshot_def)

lemma does_snapshot_built:
  assumes wf: "raft_wf sha n" and ok: "input_ok (SnapshotBuilt s)"
  shows "does sha strict M n (snapshot_built sha s n)"
proof -
  let ?md = "ps_metadata s"
  let ?valid = "snapshot_validate sha s \<and> sm_configuration ?md = r_configuration n
    \<and> sm_last_included_index ?md \<ge> rl_base_index (r_log n) \<and> sm_last_included_index ?md \<le> r_applied_index n
    \<and> log_term (r_log n) (sm_last_included_index ?md) = Some (sm_last_included_term ?md)"
  show ?thesis
  proof (cases ?valid)
    case True
    then have "validate_snapshot sha s = Inr ()" using ok by (intro validate_snapshot_intro) auto
    from move.Compact[OF this, of n "sm_last_included_index ?md"] True show ?thesis
      by (auto simp: snapshot_built_def Let_def intro!: does_move)
  next
    case False
    then show ?thesis by (auto simp: snapshot_built_def Let_def intro!: does_move move.Refuse)
  qed
qed

lemma does_install_snapshot:
  assumes wf: "raft_wf sha n"
    and msg: "(from, InstallSnapshot (r_term n) from (is_metadata incoming) offset data True) \<in> M"
    and ok: "sm_last_included_term (is_metadata incoming) \<le> r_term n"
    and follower: "r_role n = Follower" and cfg: "sm_configuration (is_metadata incoming) = r_configuration n"
    and newer: "r_commit_index n < sm_last_included_index (is_metadata incoming)"
    and valid: "validate_snapshot sha \<lparr>ps_metadata = is_metadata incoming, ps_data = is_data incoming\<rparr> = Inr ()"
  shows "does sha strict M n (install_snapshot from incoming n)"
proof -
  define s where "s = \<lparr>ps_metadata = is_metadata incoming, ps_data = is_data incoming\<rparr>"
  define index where "index = sm_last_included_index (is_metadata incoming)"
  define tm where "tm = sm_last_included_term (is_metadata incoming)"
  define l where "l = log_compact index tm (log_term (r_log n) index = Some tm) (r_log n)"
  define hs where "hs = (r_hard_state n)\<lparr>hs_commit_index := index\<rparr>"
  define n' where "n' = n\<lparr>r_log := l, r_snapshot := Some s, r_hard_state := hs, r_applied_index := index\<rparr>"
  have s: "ps_metadata s = is_metadata incoming" by (simp add: s_def)
  have move: "move sha strict M n [Persist (MInstallSnapshot s (rl_entries l) hs)] n'"
    unfolding n'_def
    by (rule move.Install[where s = s and offset = offset and data = data and tm = tm])
       (use msg follower valid cfg newer ok in \<open>simp_all add: s s_def[symmetric] index_def tm_def l_def hs_def\<close>)
  have q: "quiet n' (n'\<lparr>r_incoming_snapshot := None\<rparr>)" by (rule incoming_quiet[OF move_wf[OF wf move]])
  have reply: "move sha strict M (n'\<lparr>r_incoming_snapshot := None\<rparr>)
      [Send from (InstallSnapshotResponse (r_term (n'\<lparr>r_incoming_snapshot := None\<rparr>)) True
        (sm_byte_len (is_metadata incoming)) True (sm_last_included_index (is_metadata incoming)))] (n'\<lparr>r_incoming_snapshot := None\<rparr>)"
    by (rule move.AcknowledgeSnapshot[where metadata = "is_metadata incoming" and offset = offset and data = data and finished = True])
       (use msg follower in \<open>simp_all add: n'_def hs_def index_def\<close>)
  have "does sha strict M n (n'\<lparr>r_incoming_snapshot := None\<rparr>,
      [Persist (MInstallSnapshot s (rl_entries l) hs)] @
      [Send from (InstallSnapshotResponse (r_term (n'\<lparr>r_incoming_snapshot := None\<rparr>)) True
        (sm_byte_len (is_metadata incoming)) True (sm_last_included_index (is_metadata incoming)))])"
    by (rule does_first[OF move does_after_quiet[OF q does_move[OF reply]]])
  moreover have "max (r_commit_index n) index = index" using newer by (simp add: index_def)
  ultimately show ?thesis
    by (simp add: install_snapshot_def Let_def snapshot_reply_def n'_def hs_def l_def s_def index_def tm_def)
qed

lemma does_reply:
  "raft_wf sha n \<Longrightarrow> \<not> (accepted \<and> finished) \<Longrightarrow> does sha strict M n (n, snapshot_reply n' to accepted i finished j)"
  by (rule does_say) (auto simp: snapshot_reply_def)

lemma does_receive_chunk:
  assumes wf: "raft_wf sha n"
    and msg: "(from, InstallSnapshot (r_term n) from metadata offset data finished) \<in> M"
    and ok: "sm_last_included_term metadata \<le> r_term n" "0 < sm_byte_len metadata"
    and follower: "r_role n = Follower" and cfg: "sm_configuration metadata = r_configuration n"
    and size: "sm_byte_len metadata \<le> MAX_SNAPSHOT_BYTES" and index: "0 < sm_last_included_index metadata"
    and newer: "r_commit_index n < sm_last_included_index metadata"
    and same: "is_metadata incoming = metadata"
  shows "does sha strict M n (receive_chunk sha from metadata offset data finished incoming n)"
proof -
  let ?inc = "incoming\<lparr>is_data := is_data incoming @ data\<rparr>"
  note q = incoming_quiet[OF wf]
  note wf' = quiet_wf[OF wf q]
  have partial: "does sha strict M n (n\<lparr>r_incoming_snapshot := p\<rparr>, snapshot_reply n' from a i False 0)" for p n' a i
    by (intro does_after_quiet[OF incoming_quiet[OF wf, of p]] does_reply wf') simp
  have complete: "does sha strict M n (install_snapshot from ?inc (n\<lparr>r_incoming_snapshot := Some ?inc\<rparr>))"
    if "finished" "length (is_data ?inc) = sm_byte_len metadata" "sha (is_data ?inc) = sm_sha256 metadata"
  proof (intro does_after_quiet[OF incoming_quiet[OF wf, of "Some ?inc"]]
      does_install_snapshot[where offset = offset and data = data] wf')
    show "validate_snapshot sha \<lparr>ps_metadata = is_metadata ?inc, ps_data = is_data ?inc\<rparr> = Inr ()"
      using that ok(2) size index same
      by (intro validate_snapshot_intro)
         (auto simp: snapshot_validate_def MAX_SNAPSHOT_BYTES_def STORE_MAX_SNAPSHOT_BYTES_def)
  qed (use that msg ok follower cfg newer same in auto)
  show ?thesis
    using partial complete does_reply[OF wf] by (auto simp: receive_chunk_def Let_def)
qed

lemma does_accept_snapshot:
  assumes wf: "raft_wf sha n"
    and msg: "(from, InstallSnapshot (r_term n) from metadata offset data finished) \<in> M"
    and ok: "sm_last_included_term metadata \<le> r_term n" "0 < sm_byte_len metadata"
    and follower: "r_role n = Follower" and applied: "r_applied_index n = r_commit_index n"
  shows "does sha strict M n (accept_snapshot sha from metadata offset data finished n)"
proof -
  define bad where "bad \<longleftrightarrow> sm_configuration metadata \<noteq> r_configuration n
    \<or> sm_byte_len metadata > MAX_SNAPSHOT_BYTES \<or> sm_last_included_index metadata = 0"
  consider (bad) bad | (old) "\<not> bad" "sm_last_included_index metadata \<le> r_applied_index n"
    | (newer) "\<not> bad" "\<not> sm_last_included_index metadata \<le> r_applied_index n" by blast
  then show ?thesis
  proof cases
    case bad
    then show ?thesis
      by (auto simp: accept_snapshot_def bad_def intro!: does_after_quiet[OF incoming_quiet[OF wf, of None]] does_reply
          quiet_wf[OF wf incoming_quiet[OF wf]])
  next
    case old
    then show ?thesis using move.AcknowledgeSnapshot[OF msg follower old(2)]
      by (auto simp: accept_snapshot_def snapshot_reply_def bad_def intro!: does_move)
  next
    case newer
    define same where "same = (case r_incoming_snapshot n of None \<Rightarrow> False | Some incoming \<Rightarrow> is_metadata incoming = metadata)"
    define b where "b = (if offset = 0 \<and> \<not> same
      then n\<lparr>r_incoming_snapshot := Some \<lparr>is_metadata = metadata, is_data = []\<rparr>\<rparr> else n)"
    have q: "quiet n b" unfolding b_def using incoming_quiet[OF wf] quiet_refl[OF wf_simps(2)[OF wf]] by simp
    have wf': "raft_wf sha b" by (rule quiet_wf[OF wf q])
    have b: "r_term b = r_term n" "r_role b = Follower" "r_configuration b = r_configuration n"
      "r_commit_index b = r_commit_index n"
      using follower by (simp_all add: b_def)
    have "does sha strict M b (case r_incoming_snapshot b of
        None \<Rightarrow> (b, snapshot_reply b from False 0 False 0)
      | Some incoming \<Rightarrow>
          if is_metadata incoming \<noteq> metadata then (b, snapshot_reply b from False 0 False 0)
          else receive_chunk sha from metadata offset data finished incoming b)"
      using newer[unfolded bad_def] msg ok b applied
      by (auto intro!: does_reply[OF wf'] does_receive_chunk[OF wf'] split: option.split)
    note body = does_after_quiet[OF q this]
    show ?thesis
      unfolding accept_snapshot_def Let_def same_def[symmetric] b_def[symmetric]
      using body by (simp only: if_not_P[OF newer(1)[unfolded bad_def]] if_not_P[OF newer(2)])
  qed
qed

lemma does_on_install_snapshot:
  assumes wf: "raft_wf sha n"
    and msg: "(from, InstallSnapshot tm leader_id metadata offset data finished) \<in> M"
    and ok: "message_ok (InstallSnapshot tm leader_id metadata offset data finished)"
    and applied: "r_applied_index n = r_commit_index n"
  shows "does sha strict M n (on_install_snapshot sha from tm leader_id metadata offset data finished n)"
proof -
  consider (other) "leader_id \<noteq> from" | (old) "leader_id = from" "tm < r_term n"
    | (current) "leader_id = from" "\<not> tm < r_term n" by blast
  then show ?thesis
  proof cases
    case other
    then show ?thesis by (simp add: on_install_snapshot_def does_nothing)
  next
    case old
    then show ?thesis by (simp add: on_install_snapshot_def does_reply[OF wf])
  next
    case current
    let ?f = "followed tm (Some from) n"
    have "does sha strict M ?f (accept_snapshot sha from metadata offset data finished ?f)"
      using msg current ok applied
      by (intro does_accept_snapshot[OF followed_wf[OF wf]]) (auto simp: max_def)
    then show ?thesis using current does_follow_then[OF wf] by (simp add: on_install_snapshot_def)
  qed
qed

section \<open>Steps\<close>

lemma does_on_tick:
  assumes wf: "raft_wf sha n"
  shows "does sha strict M n (on_tick t n)"
proof (cases t)
  case Election
  then show ?thesis by (simp add: does_start_pre_vote[OF wf] does_nothing)
next
  case Heartbeat
  then show ?thesis
    using does_same_append[OF does_broadcast_append[OF wf] does_say[OF wf, of "[ResetHeartbeatTimer]"]]
    by (simp add: does_nothing)
next
  case CheckQuorum
  let ?a = "n\<lparr>r_recent_active := bts_insert (r_id n) bt_empty\<rparr>"
  note q = active_quiet[OF wf, of "bts_insert (r_id n) bt_empty"]
  have "does sha strict M n (?a, broadcast_append ?a None)" if "r_role n = Leader"
    using that by (intro does_after_quiet[OF q] does_broadcast_append quiet_wf[OF wf q]) simp
  then show ?thesis using CheckQuorum by (simp add: does_step_down[OF wf] does_nothing Let_def)
qed

text \<open>The messages an input may come from, and a commit that stays within what a message verified.\<close>

fun input_received :: "(node_id \<times> message) set \<Rightarrow> input \<Rightarrow> bool" where
  "input_received M (Message from m) = ((from, m) \<in> M)"
| "input_received M _ = True"

fun commit_verified :: "input \<Rightarrow> raft \<Rightarrow> raft \<Rightarrow> bool" where
  "commit_verified (Message from (AppendEntries tm leader_id prev prev_term entries leader_commit read_context)) n n' =
     (r_commit_index n' \<le> max (r_commit_index n) (prev + length entries))"
| "commit_verified _ n n' = True"

lemma does_dispatch:
  assumes wf: "raft_wf sha n" and msg: "(from, m) \<in> M" and ok: "message_ok m"
    and applied: "r_applied_index n = r_commit_index n"
    and strict: "strict \<Longrightarrow> commit_verified (Message from m) n (fst (dispatch sha from m n))"
  shows "does sha strict M n (dispatch sha from m n)"
proof (cases m)
  case (PreVoteRequest prospective_term candidate_id last_index last_term)
  then show ?thesis by (auto simp: on_pre_vote_request_def does_nothing Let_def intro!: does_say[OF wf])
next
  case (PreVoteResponse responder_term prospective_term granted)
  then show ?thesis by (simp add: does_on_pre_vote_response[OF wf])
next
  case (RequestVote tm candidate_id last_index last_term)
  then show ?thesis using msg by (simp add: does_on_vote_request[OF wf])
next
  case (RequestVoteResponse tm granted)
  then show ?thesis using msg by (simp add: does_on_vote_response[OF wf])
next
  case (AppendEntries tm leader_id prev prev_term entries leader_commit read_context)
  then show ?thesis using msg strict by (simp add: does_on_append_entries[OF wf])
next
  case (AppendEntriesResponse tm success match_index conflict_index conflict_term read_context)
  then show ?thesis using msg by (simp add: does_on_append_response[OF wf])
next
  case (InstallSnapshot tm leader_id metadata offset data finished)
  then show ?thesis using msg ok by (simp add: does_on_install_snapshot[OF wf _ _ applied])
next
  case (InstallSnapshotResponse tm accepted next_offset finished match_index)
  then show ?thesis using msg by (simp add: does_on_snapshot_response[OF wf])
qed

lemma does_on_input:
  assumes wf: "raft_wf sha n" and ok: "input_ok i" and "input_received M i"
    and applied: "r_applied_index n = r_commit_index n"
    and strict: "strict \<Longrightarrow> commit_verified i n (fst (on_input sha i n))"
  shows "does sha strict M n (on_input sha i n)"
proof (cases i)
  case (Tick t)
  then show ?thesis by (simp add: does_on_tick[OF wf])
next
  case (Message src m)
  show ?thesis
  proof (cases "\<not> cfg_contains (r_configuration n) src \<or> src = r_id n")
    case True
    then show ?thesis using Message by (simp add: on_message_def does_nothing)
  next
    case False
    then show ?thesis using Message assms by (auto simp: on_message_def intro!: does_dispatch[OF wf _ _ applied])
  qed
next
  case (Propose i command)
  then show ?thesis by (simp add: does_propose[OF wf])
next
  case (ReadIndex token)
  then show ?thesis by (simp add: does_read_index[OF wf])
next
  case (SnapshotBuilt s)
  then show ?thesis using does_snapshot_built[OF wf] ok by simp
qed

lemma commit_verified_cong:
  "r_commit_index n = r_commit_index m \<Longrightarrow> commit_verified i n n' = commit_verified i m n'"
  by (cases "(i, n, n')" rule: commit_verified.cases) auto

lemma does_raft_step:
  assumes wf: "raft_wf sha n" and ok: "input_ok i" and received: "input_received M i"
    and strict: "strict \<Longrightarrow> commit_verified i n (fst (raft_step sha i n))"
  shows "does sha strict M n (raft_step sha i n)"
proof -
  let ?n = "fst (apply_committed n)"
  note first = does_apply_committed[OF wf, of strict M]
  have n: "?n = n\<lparr>r_applied_index := r_commit_index n\<rparr>" by (rule fst_apply_committed[OF wf])
  have wf': "raft_wf sha ?n" by (rule does_wf[OF first wf])
  have "does sha strict M ?n (on_input sha i ?n)"
  proof (rule does_on_input[OF wf' ok received])
    show "r_applied_index ?n = r_commit_index ?n" by (simp add: n)
    show "commit_verified i ?n (fst (on_input sha i ?n))" if strict
      using strict[OF that] commit_verified_cong[of n ?n] by (simp add: raft_step_def n)
  qed
  then show ?thesis unfolding raft_step_def by (rule does_andThen[OF first])
qed

end
