(* ===== verification/Raft_Step.thy ===== *)
theory Raft_Step
  imports Raft_Refine "HOL-Library.Code_Target_Nat"
begin

text \<open>
  What one step of a node guarantees: the stable store accepts its actions, and after a crash between
  any two actions the node recovers well formed, with its terms and votes, the entries and snapshots it
  had acknowledged and the entries it had applied.
\<close>

section \<open>Restarting\<close>

definition restarted :: "raft \<Rightarrow> raft" where
  "restarted n =
     n\<lparr>r_role := Follower, r_leader_id := None, r_campaign_term := None, r_votes := bt_empty,
       r_progress := bt_empty, r_recent_active := bt_empty, r_pending_reads := bt_empty,
       r_incoming_snapshot := None\<rparr>"

lemma restarted_quiet: "quiet n (restarted n)"
  by (simp add: quiet_def restarted_def same_durable_def volatile_ok_def)

lemma raft_log_new_wf:
  assumes "raft_wf sha n"
  shows "raft_log_new (r_snapshot n) (rl_entries (r_log n)) = r_log n"
  using assms
  by (cases "r_snapshot n") (auto simp: raft_log_new_def raft_wf_def snapshot_link_def)

lemma recover_Inr:
  assumes "recover sha i cfg st = Inr m"
  shows "m = \<lparr>r_id = i, r_configuration = cfg, r_hard_state = ss_hard_state st,
      r_log = raft_log_new (ss_snapshot st) (ss_entries st), r_snapshot = ss_snapshot st,
      r_applied_index = ss_applied_index st, r_role = Follower, r_leader_id = None,
      r_campaign_term = None, r_votes = bt_empty, r_progress = bt_empty, r_recent_active = bt_empty,
      r_pending_reads = bt_empty, r_incoming_snapshot = None\<rparr>"
  using assms by (auto simp: recover_def result_simps Let_def split: prod.splits)

lemma recover_stable:
  assumes "raft_wf sha n" and "recover sha (r_id n) (r_configuration n) (stable_state_of n) = Inr m"
  shows "m = restarted n"
  using recover_Inr[OF assms(2)] raft_log_new_wf[OF assms(1)] by (simp add: restarted_def)

lemma recover_entries_ok:
  assumes "\<forall>k < length es. le_index (es ! k) = expected + k" and "sorted (previous # map le_term es)"
    and "\<forall>e \<in> set es. le_term e \<le> current" and "\<forall>e \<in> set es. le_index e < u64_max"
  shows "recover_entries current expected previous es = Inr ()"
  using assms
proof (induction es arbitrary: expected previous)
  case (Cons e es)
  have "le_index e = expected" using Cons.prems(1) by force
  moreover have "\<forall>k < length es. le_index (es ! k) = (expected + 1) + k"
    using Cons.prems(1) by (metis Suc_less_eq add.assoc length_Cons nth_Cons_Suc plus_1_eq_Suc)
  ultimately show ?case
    using Cons.IH[of "expected + 1" "le_term e"] Cons.prems(2-4) by (auto simp: nat_saturating_add_def)
qed simp

lemma log_terms_le:
  assumes "raft_wf sha n" and "e \<in> set (rl_entries (r_log n))"
  shows "le_term e \<le> r_term n"
proof -
  have wf: "log_wf (r_log n)" by (rule wf_simps(1)[OF assms(1)])
  from assms(2) obtain k where k: "k < length (rl_entries (r_log n))" "e = rl_entries (r_log n) ! k"
    by (auto simp: in_set_conv_nth)
  then have "log_term (r_log n) (rl_base_index (r_log n) + (k + 1)) = Some (le_term e)"
    using log_term_offset[of "r_log n" "k + 1"] by simp
  from log_term_le_last[OF wf this] wf_simps(6)[OF assms(1)] show ?thesis by simp
qed

lemma recover_ok:
  assumes wf: "raft_wf sha n" and bound: "log_last_index (r_log n) < u64_max"
  shows "recover sha (r_id n) (r_configuration n) (stable_state_of n) = Inr (restarted n)"
proof -
  have log: "log_wf (r_log n)" by (rule wf_simps(1)[OF wf])
  have base: "(case r_snapshot n of None \<Rightarrow> (0, 0) | Some s \<Rightarrow> (sm_last_included_index (ps_metadata s),
      sm_last_included_term (ps_metadata s))) = (rl_base_index (r_log n), rl_base_term (r_log n))"
    using wf by (auto simp: raft_wf_def snapshot_link_def split: option.splits)
  have snap: "(case r_snapshot n of None \<Rightarrow> Inr () | Some s \<Rightarrow>
      if \<not> snapshot_validate sha s then Inl (InvalidSnapshot ''length or SHA-256 mismatch'')
      else if sm_configuration (ps_metadata s) \<noteq> r_configuration n
        then Inl (InvalidSnapshot ''snapshot voter set differs from local configuration'')
      else Inr ()) = Inr ()"
    using wf by (auto simp: raft_wf_def snapshot_link_def validate_snapshot_def split: option.splits if_splits)
  have "rl_base_index (r_log n) \<le> log_last_index (r_log n)"
    using log_last_index_eq[OF log] by simp
  with bound have sat: "nat_saturating_add (rl_base_index (r_log n)) 1 = rl_base_index (r_log n) + 1"
    by (simp add: nat_saturating_add_def)
  have entries: "recover_entries (r_term n) (rl_base_index (r_log n) + 1) (rl_base_term (r_log n)) (rl_entries (r_log n)) = Inr ()"
    using log bound log_indexes_bounded[OF log] log_terms_le[OF wf] sorted_terms[OF log]
    by (intro recover_entries_ok) (fastforce simp: log_wf_def)+
  have last: "(if rl_entries (r_log n) = [] then rl_base_index (r_log n) else le_index (last (rl_entries (r_log n))))
      = log_last_index (r_log n)"
    by (simp add: log_last_index_def)
  have member: "cfg_contains (r_configuration n) (r_id n) = True" using wf by (simp add: raft_wf_def)
  have commit: "(\<not> (r_commit_index n < rl_base_index (r_log n) \<or> r_commit_index n > log_last_index (r_log n))) = True"
    and applied: "(\<not> (r_applied_index n < rl_base_index (r_log n) \<or> r_applied_index n > r_commit_index n)) = True"
    using wf_simps[OF wf] by auto
  show ?thesis
    by (simp only: recover_def stable_state_simps base snap prod.case Let_def sat entries last commit applied member
        require_simps rbind.simps raft_log_new_wf[OF wf]) (simp add: restarted_def)
qed

section \<open>Promises\<close>

text \<open>
  An entry that a log still stands for: it is stored with this term, or a snapshot has taken its
  place.
\<close>

definition log_holds :: "raft_log \<Rightarrow> nat \<Rightarrow> nat \<Rightarrow> bool" where
  "log_holds l index tm = (index < rl_base_index l \<or> log_term l index = Some tm)"

text \<open>
  What a successful answer to the input promises: the input was an \<open>AppendEntries\<close> from the receiver
  of the answer, its entries are those after \<open>prev\<close> up to the acknowledged index, and the log holds them
  and the entry before them.
\<close>

fun acknowledged :: "input \<Rightarrow> node_id \<Rightarrow> nat \<Rightarrow> raft_log \<Rightarrow> bool" where
  "acknowledged (Message from (AppendEntries _ _ prev prev_term entries _ _)) to index l =
     (to = from \<and> map le_index entries = [prev + 1..<index + 1] \<and> index \<le> log_last_index l
      \<and> prev \<le> index \<and> log_holds l prev prev_term
      \<and> (\<forall>e \<in> set entries. log_holds l (le_index e) (le_term e)))"
| "acknowledged _ _ _ _ = False"

text \<open>
  What a node must still know that handed out these actions on this input: the term of every message
  it stands by, its vote when it granted one or asked for one, the entries and the snapshot it
  acknowledged, and the entries it applied.
\<close>

fun message_kept :: "input \<Rightarrow> raft \<Rightarrow> node_id \<Rightarrow> message \<Rightarrow> bool" where
  "message_kept i n to (RequestVote tm _ _ _) = (tm \<le> r_term n \<and> (r_term n = tm \<longrightarrow> r_voted_for n = Some (r_id n)))"
| "message_kept i n to (RequestVoteResponse tm True) = (tm \<le> r_term n \<and> (r_term n = tm \<longrightarrow> r_voted_for n = Some to))"
| "message_kept i n to (AppendEntries tm _ _ _ _ _ _) = (tm \<le> r_term n)"
| "message_kept i n to (AppendEntriesResponse tm True index _ _ _) = (tm \<le> r_term n \<and> acknowledged i to index (r_log n))"
| "message_kept i n to (InstallSnapshot tm _ _ _ _ _) = (tm \<le> r_term n)"
| "message_kept i n to (InstallSnapshotResponse tm True _ True index) = (tm \<le> r_term n \<and> index \<le> r_applied_index n)"
| "message_kept i n to _ = True"

fun promise_kept :: "input \<Rightarrow> raft \<Rightarrow> action \<Rightarrow> bool" where
  "promise_kept i n (Send to m) = message_kept i n to m"
| "promise_kept i n (ApplyEntry e) = (le_index e \<le> r_applied_index n \<and> log_holds (r_log n) (le_index e) (le_term e))"
| "promise_kept i n _ = True"

definition keeps_promises :: "input \<Rightarrow> action list \<Rightarrow> raft \<Rightarrow> bool" where
  "keeps_promises i acts n = list_all (promise_kept i n) acts"

definition later :: "raft \<Rightarrow> raft \<Rightarrow> bool" where
  "later n n' =
     (r_id n' = r_id n \<and> r_configuration n' = r_configuration n \<and> r_term n \<le> r_term n'
      \<and> (r_term n' = r_term n \<longrightarrow> r_voted_for n \<noteq> None \<longrightarrow> r_voted_for n' = r_voted_for n)
      \<and> r_commit_index n \<le> r_commit_index n' \<and> r_applied_index n \<le> r_applied_index n')"

lemma later_refl [simp]: "later n n"
  by (simp add: later_def)

lemma later_trans: "later a b \<Longrightarrow> later b c \<Longrightarrow> later a c"
  unfolding later_def by (intro conjI) (auto dest: order_antisym)

lemma move_later:
  assumes "raft_wf sha n" and "move sha strict M n acts n'"
  shows "later n n'"
  using assms(2) wf_simps(3)[OF assms(1)]
  by cases (auto simp: later_def quiet_def same_durable_def)

lemma moves_later:
  assumes "moves sha strict M n acts n'" and "raft_wf sha n"
  shows "later n n'"
  using assms
proof (induction rule: moves.induct)
  case (Step n a n1 b n2)
  then show ?case
    using later_trans[OF move_later[OF Step.prems Step.hyps(1)]] move_wf[OF Step.prems Step.hyps(1)] by blast
qed simp

text \<open>Which entries a move keeps: the committed ones, and those of the message it answers.\<close>

lemma log_holds_simps [simp]:
  "log_term l index = Some tm \<Longrightarrow> log_holds l index tm"
  "index < rl_base_index l \<Longrightarrow> log_holds l index tm"
  by (simp_all add: log_holds_def)

lemma log_holds_le_last: "log_wf l \<Longrightarrow> log_holds l index tm \<Longrightarrow> index \<le> log_last_index l"
  using log_last_index_eq[of l] log_term_SomeD(2)[of l index tm] by (auto simp: log_holds_def)

lemma log_holds_append: "log_holds l index tm \<Longrightarrow> log_holds (log_append es l) index tm"
  by (auto simp: log_holds_def log_term_def nth_append Let_def split: if_splits)

lemma log_holds_truncate:
  "log_holds l index tm \<Longrightarrow> index < from \<Longrightarrow> log_holds (truncate_and_append from es l) index tm"
  by (auto simp: log_holds_def log_term_def truncate_and_append_def nth_append Let_def split: if_splits)

lemma log_holds_compact:
  assumes wf: "log_wf l" and base: "log_term l index = Some tm" and holds: "log_holds l k t"
  shows "log_holds (log_compact index tm True l) k t"
proof (cases "k < index")
  case False
  have "rl_base_index l \<le> index" by (rule log_term_SomeD(1)[OF wf base])
  with False holds obtain d where d: "k = index + d" "log_term l (index + d) = Some t"
    by (auto simp: log_holds_def le_iff_add not_less)
  then show ?thesis
    using base log_term_SomeD[OF wf base] log_compact_retain(1)[OF wf base]
    by (auto simp: log_holds_def log_term_def Let_def split: if_splits)
qed simp

lemma move_keeps_committed:
  assumes wf: "raft_wf sha n" and move: "move sha strict M n acts n'"
    and k: "k \<le> r_commit_index n" and holds: "log_holds (r_log n) k t"
  shows "log_holds (r_log n') k t"
  using move
proof cases
  case (Store src prev prev_term entries leader_commit index position suffix mutation)
  then show ?thesis using store_facts(5)[OF wf Store(3,4)] k holds by (simp add: log_holds_truncate)
next
  case (Compact s index l)
  then show ?thesis using log_holds_compact[OF wf_simps(1)[OF wf] _ holds] by simp
qed (use k holds in \<open>auto simp: quiet_def same_durable_def log_holds_append\<close>)

definition input_entries :: "input \<Rightarrow> (nat \<times> nat) set" where
  "input_entries i = (case i of
     Message from (AppendEntries _ _ prev prev_term entries _ _) \<Rightarrow>
       insert (prev, prev_term) ((\<lambda>e. (le_index e, le_term e)) ` set entries)
   | _ \<Rightarrow> {})"

lemma move_keeps_received:
  assumes wf: "raft_wf sha n" and move: "move sha strict {(from, m). i = Message from m} n acts n'"
    and all: "\<And>k t. (k, t) \<in> input_entries i \<Longrightarrow> log_holds (r_log n) k t"
    and kt: "(k, t) \<in> input_entries i"
  shows "log_holds (r_log n') k t"
  using move
proof cases
  case (Store src prev prev_term entries leader_commit index position suffix mutation)
  note facts = store_facts[OF wf Store(3,4)]
  let ?e = "entries ! position"
  have "(le_index ?e, le_term ?e) \<in> input_entries i"
    using Store(3) facts(2) by (auto simp: append_received_def input_entries_def)
  moreover have "le_index ?e = index"
    using Store(3) facts(1,2) by (auto simp: append_received_def valid_entry_sequence_iff)
  ultimately show ?thesis using all facts(3,9) by (fastforce simp: log_holds_def)
next
  case (Compact s index l)
  then show ?thesis using log_holds_compact[OF wf_simps(1)[OF wf] _ all[OF kt]] by simp
next
  case (Install src s offset data index tm l hs)
  then show ?thesis using kt by (simp add: input_entries_def)
qed (use all[OF kt] in \<open>auto simp: quiet_def same_durable_def log_holds_append\<close>)

lemma acknowledged_iff:
  "acknowledged i to index l \<longleftrightarrow> (\<exists>tm id prev prev_term entries lc rc.
     i = Message to (AppendEntries tm id prev prev_term entries lc rc)
     \<and> map le_index entries = [prev + 1..<index + 1] \<and> index \<le> log_last_index l \<and> prev \<le> index \<and> (\<forall>(k, t) \<in> input_entries i. log_holds l k t))"
  by (cases "(i, to, index, l)" rule: acknowledged.cases) (auto simp: input_entries_def)

lemma move_keeps_acknowledged:
  assumes wf: "raft_wf sha n" and move: "move sha strict {(from, m). i = Message from m} n acts n'"
    and ack: "acknowledged i to index (r_log n)"
  shows "acknowledged i to index (r_log n')"
proof -
  have "\<exists>t. (index, t) \<in> input_entries i"
  proof -
    from ack obtain tm id prev prev_term entries lc rc where
      i: "i = Message to (AppendEntries tm id prev prev_term entries lc rc)"
      and idx: "map le_index entries = [prev + 1..<index + 1]" "prev \<le> index"
      unfolding acknowledged_iff by blast
    show ?thesis
    proof (cases "index = prev")
      case False
      with idx(2) have "index \<in> set (map le_index entries)" unfolding idx(1) by auto
      then show ?thesis by (auto simp: i input_entries_def)
    qed (auto simp: i input_entries_def)
  qed
  note reached = this
  have "log_holds (r_log n') k t" if "(k, t) \<in> input_entries i" for k t
    using ack that by (intro move_keeps_received[OF wf move]) (auto simp: acknowledged_iff)
  moreover have "log_wf (r_log n')" by (rule wf_simps(1)[OF move_wf[OF wf move]])
  ultimately show ?thesis
    using ack reached log_holds_le_last unfolding acknowledged_iff by blast
qed

lemma promise_kept_move:
  assumes wf: "raft_wf sha n" and move: "move sha strict {(from, m). i = Message from m} n acts n'"
    and kept: "promise_kept i n a"
  shows "promise_kept i n' a"
proof -
  have later: "r_term n \<le> r_term n'" "r_applied_index n \<le> r_applied_index n'" "r_id n' = r_id n"
    "r_term n' = r_term n \<Longrightarrow> r_voted_for n \<noteq> None \<Longrightarrow> r_voted_for n' = r_voted_for n"
    using move_later[OF wf move] by (auto simp: later_def)
  show ?thesis
  proof (cases a)
    case (Send to m)
    have "message_kept i n to m \<Longrightarrow> message_kept i n' to m"
      using later move_keeps_acknowledged[OF wf move]
      by (cases "(i, n, to, m)" rule: message_kept.cases) auto
    with kept Send show ?thesis by simp
  next
    case (ApplyEntry e)
    then show ?thesis
      using kept later(2) wf_simps(3)[OF wf] move_keeps_committed[OF wf move, of "le_index e" "le_term e"] by auto
  qed simp_all
qed

lemma promise_kept_silent: "silent a \<Longrightarrow> promise_kept i n a"
proof (cases a)
  case (Send to m)
  moreover assume "silent a"
  ultimately show ?thesis by (cases "(i, n, to, m)" rule: message_kept.cases) auto
qed simp_all

lemma move_promises:
  assumes wf: "raft_wf sha n" and move: "move sha strict {(from, m). i = Message from m} n acts n'"
  shows "keeps_promises i acts n'"
  using move
proof cases
  case Quiet
  then show ?thesis by (auto simp: keeps_promises_def list_all_iff promise_kept_silent)
next
  case (Execute entry)
  note entry = log_entry_at_SomeD[OF wf_simps(1)[OF wf] Execute(4)]
  then show ?thesis using Execute by (simp add: keeps_promises_def)
next
  case (Acknowledge src prev prev_term entries leader_commit token)
  have wf_log: "log_wf (r_log n)" by (rule wf_simps(1)[OF wf])
  have i: "\<exists>rc. i = Message src (AppendEntries (r_term n) src prev prev_term entries leader_commit rc)"
    and prev: "log_term (r_log n) prev = Some prev_term"
    and idx: "\<forall>k < length entries. le_index (entries ! k) = prev + 1 + k"
    using Acknowledge(3) by (auto simp: append_received_def valid_entry_sequence_iff)
  have map: "map le_index entries = [prev + 1..<prev + length entries + 1]"
    using idx by (intro nth_equalityI) (simp_all del: upt_Suc)
  have "prev + length entries \<le> log_last_index (r_log n)"
  proof (cases "entries = []")
    case False
    then have "last entries \<in> set entries" "le_index (last entries) = prev + length entries"
      using idx by (simp_all add: last_conv_nth)
    then show ?thesis using Acknowledge(4) log_term_SomeD(2)[OF wf_log] by (fastforce simp: append_stored_def)
  qed (use log_term_SomeD(2)[OF wf_log prev] in simp)
  then have "acknowledged i src (prev + length entries) (r_log n)"
    using i prev map Acknowledge(4) by (auto simp: append_stored_def)
  then show ?thesis using Acknowledge by (simp add: keeps_promises_def)
qed (auto simp: keeps_promises_def)

lemma moves_promises:
  assumes "moves sha strict {(from, m). i = Message from m} n acts n'" and "raft_wf sha n" and "keeps_promises i sent n"
  shows "keeps_promises i (sent @ acts) n'"
  using assms
proof (induction arbitrary: sent rule: moves.induct)
  case (Step n a n1 b n2)
  have "keeps_promises i (sent @ a) n1"
    using promise_kept_move[OF Step.prems(1) Step.hyps(1)] Step.prems(2) move_promises[OF Step.prems(1) Step.hyps(1)]
    by (auto simp: keeps_promises_def list_all_iff)
  from Step.IH[OF move_wf[OF Step.prems(1) Step.hyps(1)] this] show ?case by simp
qed simp

lemma keeps_promises_restarted:
  assumes "keeps_promises i acts n"
  shows "keeps_promises i acts (restarted n)"
proof -
  have "message_kept i n to m \<Longrightarrow> message_kept i (restarted n) to m" for to m
    by (cases "(i, n, to, m)" rule: message_kept.cases) (simp_all add: restarted_def)
  then have "promise_kept i n a \<Longrightarrow> promise_kept i (restarted n) a" for a
    by (cases a) (simp_all add: restarted_def)
  then show ?thesis using assms by (auto simp: keeps_promises_def list_all_iff)
qed

section \<open>Stopping between two actions\<close>

lemma short_acts: "move sha strict M n acts n' \<Longrightarrow> length acts \<le> 1 \<or> quiet n n' \<and> list_all silent acts"
  by (erule moveE) simp_all

lemma move_prefix:
  assumes "move sha strict M n acts n'"
  shows "\<exists>m. moves sha strict M n (take k acts) m"
  using short_acts[OF assms]
proof
  assume "length acts \<le> 1"
  then have "take k acts = [] \<or> take k acts = acts" by (cases acts; cases k) auto
  then show ?thesis using moves.Done moves_one[OF assms] by (metis)
next
  assume "quiet n n' \<and> list_all silent acts"
  then have "move sha strict M n (take k acts) n'"
    by (intro move.Quiet) (auto simp: list_all_iff dest: in_set_takeD)
  then show ?thesis using moves_one by blast
qed

lemma moves_prefix:
  assumes "moves sha strict M n acts n'"
  shows "\<exists>m. moves sha strict M n (take k acts) m"
  using assms
proof (induction arbitrary: k rule: moves.induct)
  case (Done n)
  then show ?case by (auto intro: moves.Done)
next
  case (Step n a n1 b n2)
  show ?case
  proof (cases "k \<le> length a")
    case True
    then show ?thesis using move_prefix[OF Step.hyps(1), of k] by simp
  next
    case False
    from Step.IH[of "k - length a"] obtain m where "moves sha strict M n1 (take (k - length a) b) m" by blast
    from moves.Step[OF Step.hyps(1) this] show ?thesis using False by auto
  qed
qed

section \<open>A new node\<close>

definition stable_default :: stable_state where
  "stable_default = \<lparr>ss_hard_state = default_hard_state, ss_snapshot = None, ss_entries = [], ss_applied_index = 0\<rparr>"

definition raft_fresh :: "node_id \<Rightarrow> configuration \<Rightarrow> raft" where
  "raft_fresh i cfg =
     \<lparr>r_id = i, r_configuration = cfg, r_hard_state = default_hard_state,
      r_log = \<lparr>rl_base_index = 0, rl_base_term = 0, rl_entries = []\<rparr>, r_snapshot = None, r_applied_index = 0,
      r_role = Follower, r_leader_id = None, r_campaign_term = None, r_votes = bt_empty, r_progress = bt_empty,
      r_recent_active = bt_empty, r_pending_reads = bt_empty, r_incoming_snapshot = None\<rparr>"

lemma recover_fresh: "cfg_contains cfg i \<Longrightarrow> recover sha i cfg stable_default = Inr (raft_fresh i cfg)"
  by (simp add: recover_def stable_default_def raft_fresh_def default_hard_state_def raft_log_new_def Let_def)

lemma raft_fresh_wf: "config_ok cfg \<Longrightarrow> cfg_contains cfg i \<Longrightarrow> raft_wf sha (raft_fresh i cfg)"
  by (simp add: raft_wf_def raft_fresh_def default_hard_state_def log_wf_def snapshot_link_def log_last_index_def
      log_last_term_def volatile_ok_def)

lemma raft_fresh_stable: "stable_state_of (raft_fresh i cfg) = stable_default"
  by (simp add: stable_state_of_def raft_fresh_def stable_default_def)

lemma raft_fresh_simps [simp]:
  "r_id (raft_fresh i cfg) = i" "r_configuration (raft_fresh i cfg) = cfg" "r_role (raft_fresh i cfg) = Follower"
  "log_last_index (r_log (raft_fresh i cfg)) = 0" "r_term (raft_fresh i cfg) = 0"
  by (simp_all add: raft_fresh_def log_last_index_def default_hard_state_def)

text \<open>Three voters, and the second of them asked for its vote by the first.\<close>

definition three_voters :: configuration where
  "three_voters = projr (config_new [1, 2, 3])"

definition asked :: input where
  "asked = Message 1 (RequestVote 1 1 0 0)"

lemma three_voters_ok: "config_ok three_voters"
proof -
  have "config_new [1, 2, 3] = Inr three_voters"
    by (simp add: three_voters_def config_new_def Let_def bts_set_eq_empty[symmetric])
  then show ?thesis by (rule config_new_ok)
qed

lemma voter_wf: "i \<in> {1, 2, 3} \<Longrightarrow> raft_wf sha (raft_fresh i three_voters)"
proof -
  assume "i \<in> {1, 2, 3}"
  moreover have "cfg_contains three_voters 1 \<and> cfg_contains three_voters 2 \<and> cfg_contains three_voters 3"
    by code_simp
  ultimately show ?thesis by (intro raft_fresh_wf three_voters_ok) auto
qed

lemma asked_step: "raft_step sha asked (raft_fresh 2 three_voters) =
  ((raft_fresh 2 three_voters)\<lparr>r_hard_state := \<lparr>hs_current_term = 1, hs_voted_for = Some 1, hs_commit_index = 0\<rparr>\<rparr>,
   [Persist (MHardState \<lparr>hs_current_term = 1, hs_voted_for = None, hs_commit_index = 0\<rparr>),
    Persist (MHardState \<lparr>hs_current_term = 1, hs_voted_for = Some 1, hs_commit_index = 0\<rparr>),
    ResetElectionTimer, Send 1 (RequestVoteResponse 1 True)])"
proof -
  have "cfg_contains three_voters 1" by code_simp
  then show ?thesis
    by (simp add: raft_step_def asked_def on_message_def on_vote_request_def apply_committed.simps raft_fresh_def
        default_hard_state_def become_follower_eq followed_def andThen_eq candidate_log_is_up_to_date_def
        log_last_term_def log_last_index_def)
qed

lemma asked_ok: "input_ok asked"
  by (simp add: asked_def)

text \<open>Two entries sent to the second voter by the first.\<close>

definition sent_entries :: "log_entry list" where
  "sent_entries = [\<lparr>le_index = 1, le_term = 1, le_payload = Noop\<rparr>, \<lparr>le_index = 2, le_term = 1, le_payload = Noop\<rparr>]"

definition appended :: input where
  "appended = Message 1 (AppendEntries 1 1 0 0 sent_entries 1 None)"

lemma appended_step: "raft_step sha appended (raft_fresh 2 three_voters) =
  ((raft_fresh 2 three_voters)\<lparr>r_hard_state := \<lparr>hs_current_term = 1, hs_voted_for = None, hs_commit_index = 1\<rparr>,
     r_log := \<lparr>rl_base_index = 0, rl_base_term = 0, rl_entries = sent_entries\<rparr>, r_applied_index := 1,
     r_leader_id := Some 1\<rparr>,
   [Persist (MHardState \<lparr>hs_current_term = 1, hs_voted_for = None, hs_commit_index = 0\<rparr>), ResetElectionTimer,
    Persist (MAppend sent_entries),
    Persist (MHardState \<lparr>hs_current_term = 1, hs_voted_for = None, hs_commit_index = 1\<rparr>),
    ApplyEntry (hd sent_entries), Send 1 (AppendEntriesResponse 1 True 2 0 None None)])"
proof -
  have "cfg_contains three_voters 1" by code_simp
  then show ?thesis
    by (simp add: raft_step_def appended_def on_message_def on_append_entries_def accept_append_def
        store_entries_def set_commit_def apply_committed.simps raft_fresh_def sent_entries_def
        default_hard_state_def become_follower_eq followed_def andThen_eq truncate_and_append_def Let_def
        log_term_def log_entry_at_def log_last_term_def log_last_index_def)
qed

lemma appended_ok: "input_ok appended"
  by (simp add: appended_def)

section \<open>Properties\<close>

text \<open>
  C29: A restart loses nothing durable.  Recovery of the stable state of a well-formed node succeeds
  and gives the node back as a follower without volatile state; its own stable state is unchanged.
\<close>

theorem restart_roundtrip:
  assumes "raft_wf sha n" and "log_last_index (r_log n) < u64_max"
  shows "recover sha (r_id n) (r_configuration n) (stable_state_of n) = Inr (restarted n)
    \<and> stable_state_of (restarted n) = stable_state_of n"
  using recover_ok[OF assms] by (simp add: restarted_def stable_state_of_def)

theorem restart_roundtrip_witness:
  "recover id 2 three_voters (stable_state_of (raft_fresh 2 three_voters)) = Inr (restarted (raft_fresh 2 three_voters))"
  using restart_roundtrip[OF voter_wf[of 2 id]]
  by (simp add: u64_max_def)

lemma step_moves:
  assumes "raft_wf sha n" and "input_ok i" and "raft_step sha i n = (n', acts)"
  shows "moves sha False {(from, m). i = Message from m} n acts n'"
proof -
  have "does sha False {(from, m). i = Message from m} n (raft_step sha i n)"
    using assms by (intro does_raft_step) (cases i; auto)+
  then show ?thesis by (simp add: does_def assms(3))
qed

text \<open>
  C31: The stable store accepts what the node asks for.  When the store holds the durable state of
  the node and a step does not fence the node, every mutation of the step passes the store's own
  validation, and afterwards the store again holds exactly the durable state of the node.
\<close>

theorem store_follows_node:
  assumes "raft_wf sha n" and "input_ok i" and "raft_step sha i n = (n', acts)"
    and "mirrors n store" and "log_last_index (r_log n) < u64_max"
    and "list_all action_bounded acts" and "\<not> list_ex halting acts"
  shows "\<exists>store'. execute_actions sha acts store = Inr store' \<and> mirrors n' store'"
proof -
  note moves = step_moves[OF assms(1-3)]
  from moves_accepted[OF moves assms(1,4-6)] assms(7) obtain store' where
    "execute_actions sha acts store = Inr store'" by (auto simp: is_ok_iff)
  with moves_mirrored[OF moves assms(1,4)] show ?thesis by blast
qed

theorem store_follows_node_witness:
  "\<exists>store'. execute_actions id (snd (raft_step id asked (raft_fresh 2 three_voters)))
       \<lparr>sto_state = stable_default, sto_pending = None\<rparr> = Inr store'
     \<and> mirrors (fst (raft_step id asked (raft_fresh 2 three_voters))) store'"
  by (rule store_follows_node[OF voter_wf, of 2 asked])
     (simp_all add: asked_step asked_ok mirrors_def raft_fresh_stable u64_max_def)

text \<open>
  C37: A crash breaks no promise.  Whatever prefix of a step's actions was executed when the process
  died, recovery from the store gives a well-formed node that is no older than before the step and
  keeps what it had sent: the term of every request and acknowledgement, the vote it granted or cast
  for itself, every entry it acknowledged to the leader up to the acknowledged index, and every
  snapshot it acknowledged as installed.  Every entry it had applied is durably recorded as applied
  and still in its log or snapshot.  The input is a message as well-formed nodes send it or a local
  input with a valid checkpoint, and log indexes stay below \<open>u64::MAX\<close>.
\<close>

theorem crash_keeps_promises:
  assumes "raft_wf sha n" and "input_ok i" and "raft_step sha i n = (n', acts)"
    and "mirrors n store" and "log_last_index (r_log n) < u64_max" and "list_all action_bounded acts"
    and "execute_actions sha (take k acts) store = Inr store'"
  shows "\<exists>m. recover sha (r_id n) (r_configuration n) (sto_state store') = Inr m
           \<and> raft_wf sha m \<and> later n m \<and> keeps_promises i (take k acts) m"
proof -
  from moves_prefix[OF step_moves[OF assms(1-3)]] obtain m where
    moves: "moves sha False {(from, m). i = Message from m} n (take k acts) m" by blast
  have "list_all action_bounded (take k acts)" using assms(6) by (auto simp: list_all_iff dest: in_set_takeD)
  then have bound: "log_last_index (r_log m) < u64_max" using moves_bounded[OF moves assms(1,5)] by simp
  have wf: "raft_wf sha m" by (rule moves_wf[OF moves assms(1)])
  have store: "sto_state store' = stable_state_of m"
    using moves_mirrored[OF moves assms(1,4,7)] by (simp add: mirrors_def)
  have later: "later n m" by (rule moves_later[OF moves assms(1)])
  then have id: "r_id m = r_id n" "r_configuration m = r_configuration n" by (simp_all add: later_def)
  have "keeps_promises i [] n" by (simp add: keeps_promises_def)
  from moves_promises[OF moves assms(1) this] have "keeps_promises i (take k acts) m" by simp
  then have "keeps_promises i (take k acts) (restarted m)" by (rule keeps_promises_restarted)
  moreover have "later n (restarted m)" "raft_wf sha (restarted m)"
    using later quiet_wf[OF wf restarted_quiet] by (auto simp: restarted_def later_def)
  ultimately show ?thesis using recover_ok[OF wf bound] unfolding store id by blast
qed

text \<open>A follower that stores and acknowledges two entries, and dies right after the acknowledgement.\<close>

theorem crash_keeps_promises_witness:
  "\<exists>m. recover id 2 three_voters
        (sto_state (projr (execute_actions id (take 6 (snd (raft_step id appended (raft_fresh 2 three_voters))))
           \<lparr>sto_state = stable_default, sto_pending = None\<rparr>))) = Inr m
     \<and> raft_wf id m \<and> later (raft_fresh 2 three_voters) m
     \<and> keeps_promises appended (take 6 (snd (raft_step id appended (raft_fresh 2 three_voters)))) m"
proof -
  let ?acts = "snd (raft_step id appended (raft_fresh 2 three_voters))"
  let ?store = "\<lparr>sto_state = stable_default, sto_pending = None\<rparr>"
  have "is_ok (execute_actions id (take 6 ?acts) ?store)" unfolding appended_step by code_simp
  then have "execute_actions id (take 6 ?acts) ?store = Inr (projr (execute_actions id (take 6 ?acts) ?store))"
    by (auto simp: is_ok_iff)
  from crash_keeps_promises[OF voter_wf _ _ _ _ _ this, of 2 appended "fst (raft_step id appended (raft_fresh 2 three_voters))"]
  show ?thesis
    by (simp add: appended_step appended_ok mirrors_def raft_fresh_stable u64_max_def sent_entries_def)
qed

end
