(* ===== verification/Raft_Cluster.thy ===== *)
theory Raft_Cluster
  imports Raft_Step
begin

text \<open>
  A cluster of nodes over an unreliable network.

  \<open>cluster_step\<close> lets any live node take any step of the code with any message that was ever sent to
  it, so messages may be lost, delayed, reordered and duplicated; a node may crash after any prefix of
  a step's actions and restart later from its stable store.  The proofs work on \<open>proto_step\<close>, where
  nodes perform single moves and history variables record votes, elections and the logs of leaders;
  every cluster run is such a run.  A first consequence is that nodes stay well formed and never go back.
\<close>

section \<open>Clusters\<close>

record cluster =
  cl_live :: "node_id \<Rightarrow> raft option"
  cl_store :: "node_id \<Rightarrow> stable_store"
  cl_sent :: "(node_id \<times> node_id \<times> message) set"
  cl_applied :: "(node_id \<times> log_entry) set"

definition sends :: "node_id \<Rightarrow> action list \<Rightarrow> (node_id \<times> node_id \<times> message) set" where
  "sends i acts = {(i, to, m) | to m. Send to m \<in> set acts}"

definition applies :: "node_id \<Rightarrow> action list \<Rightarrow> (node_id \<times> log_entry) set" where
  "applies i acts = {(i, e) | e. ApplyEntry e \<in> set acts}"

definition inbox :: "(node_id \<times> node_id \<times> message) set \<Rightarrow> node_id \<Rightarrow> (node_id \<times> message) set" where
  "inbox sent i = {(from, m). (from, i, m) \<in> sent}"

definition local_ok :: "input \<Rightarrow> bool" where
  "local_ok i = (case i of Message _ _ \<Rightarrow> True | _ \<Rightarrow> input_ok i)"

definition cluster_init :: "configuration \<Rightarrow> cluster" where
  "cluster_init cfg =
     \<lparr>cl_live = (\<lambda>i. if cfg_contains cfg i then Some (raft_fresh i cfg) else None),
      cl_store = (\<lambda>_. \<lparr>sto_state = stable_default, sto_pending = None\<rparr>), cl_sent = {}, cl_applied = {}\<rparr>"

text \<open>
  With \<open>strict\<close>, only steps are considered in which a follower commits no entry beyond those that the
  message it answers has verified.
\<close>

inductive cluster_step ::
    "(bytes \<Rightarrow> bytes) \<Rightarrow> configuration \<Rightarrow> bool \<Rightarrow> cluster \<Rightarrow> cluster \<Rightarrow> bool"
  for sha cfg strict where
  Run: "cl_live c i = Some n \<Longrightarrow> input_received (inbox (cl_sent c) i) inp \<Longrightarrow> local_ok inp
    \<Longrightarrow> raft_step sha inp n = (n', acts) \<Longrightarrow> (strict \<Longrightarrow> commit_verified inp n n')
    \<Longrightarrow> execute_actions sha acts (cl_store c i) = Inr store
    \<Longrightarrow> cluster_step sha cfg strict c
          (c\<lparr>cl_live := (cl_live c)(i := Some n'), cl_store := (cl_store c)(i := store),
             cl_sent := cl_sent c \<union> sends i acts, cl_applied := cl_applied c \<union> applies i acts\<rparr>)"
| Crash: "cl_live c i = Some n \<Longrightarrow> input_received (inbox (cl_sent c) i) inp \<Longrightarrow> local_ok inp
    \<Longrightarrow> raft_step sha inp n = (n', acts) \<Longrightarrow> (strict \<Longrightarrow> commit_verified inp n n')
    \<Longrightarrow> execute_actions sha (take k acts) (cl_store c i) = Inr store
    \<Longrightarrow> cluster_step sha cfg strict c
          (c\<lparr>cl_live := (cl_live c)(i := None), cl_store := (cl_store c)(i := store),
             cl_sent := cl_sent c \<union> sends i (take k acts),
             cl_applied := cl_applied c \<union> applies i (take k acts)\<rparr>)"
| Restart: "cl_live c i = None \<Longrightarrow> recover sha i cfg (sto_state (cl_store c i)) = Inr n
    \<Longrightarrow> cluster_step sha cfg strict c (c\<lparr>cl_live := (cl_live c)(i := Some n)\<rparr>)"

definition cluster_reach :: "(bytes \<Rightarrow> bytes) \<Rightarrow> configuration \<Rightarrow> bool \<Rightarrow> cluster \<Rightarrow> cluster \<Rightarrow> bool" where
  "cluster_reach sha cfg strict = (cluster_step sha cfg strict)\<^sup>*\<^sup>*"

section \<open>Moves with history\<close>

record proto =
  p_node :: "node_id \<Rightarrow> raft"
  p_sent :: "(node_id \<times> node_id \<times> message) set"
  p_ballot :: "node_id \<Rightarrow> nat \<Rightarrow> node_id option"
  p_elected :: "nat \<Rightarrow> node_id option"
  p_log :: "nat \<Rightarrow> log_entry list"
  p_cand :: "node_id \<Rightarrow> nat \<Rightarrow> log_entry list"
  p_voters :: "nat \<Rightarrow> node_id set"
  p_vlog :: "node_id \<Rightarrow> nat \<Rightarrow> log_entry list"
  p_applied :: "(node_id \<times> log_entry) set"

text \<open>
  \<open>p_ballot\<close> holds the votes given in each term, \<open>p_elected\<close> the leader of each term and \<open>p_voters\<close> the
  votes it had counted when it became leader, \<open>p_log\<close> the log of the leader of each term, \<open>p_cand\<close> and
  \<open>p_vlog\<close> the logs of candidates and voters when they asked for and gave votes.

  The whole log of a node: the compacted part is read from the history of the leader of the boundary
  term, the rest is stored.
\<close>

definition full_log :: "(nat \<Rightarrow> log_entry list) \<Rightarrow> raft_log \<Rightarrow> log_entry list" where
  "full_log logs l = take (rl_base_index l) (logs (rl_base_term l)) @ rl_entries l"

definition record_move :: "node_id \<Rightarrow> action list \<Rightarrow> raft \<Rightarrow> proto \<Rightarrow> proto" where
  "record_move i acts n s =
     s\<lparr>p_node := (p_node s)(i := n), p_sent := p_sent s \<union> sends i acts,
       p_ballot := (case r_voted_for n of
           None \<Rightarrow> p_ballot s
         | Some c \<Rightarrow> (p_ballot s)(i := (p_ballot s i)(r_term n := Some c))),
       p_elected := (if r_role n = Leader then (p_elected s)(r_term n := Some i) else p_elected s),
       p_log := (if r_role n = Leader then (p_log s)(r_term n := full_log (p_log s) (r_log n)) else p_log s),
       p_cand := (if r_role n = Candidate
         then (p_cand s)(i := (p_cand s i)(r_term n := full_log (p_log s) (r_log n))) else p_cand s),
       p_voters := (if r_role n = Leader \<and> p_elected s (r_term n) = None
         then (p_voters s)(r_term n := bts_set (r_votes (p_node s i))) else p_voters s),
       p_vlog := (if r_voted_for n \<noteq> None \<and> p_ballot s i (r_term n) = None
         then (p_vlog s)(i := (p_vlog s i)(r_term n := full_log (p_log s) (r_log n))) else p_vlog s),
       p_applied := p_applied s \<union> applies i acts\<rparr>"

inductive proto_step :: "(bytes \<Rightarrow> bytes) \<Rightarrow> configuration \<Rightarrow> bool \<Rightarrow> proto \<Rightarrow> proto \<Rightarrow> bool"
  for sha cfg strict where
  Move: "cfg_contains cfg i \<Longrightarrow> move sha strict (inbox (p_sent s) i) (p_node s i) acts n
    \<Longrightarrow> proto_step sha cfg strict s (record_move i acts n s)"

definition proto_init :: "configuration \<Rightarrow> proto" where
  "proto_init cfg =
     \<lparr>p_node = (\<lambda>i. raft_fresh i cfg), p_sent = {}, p_ballot = (\<lambda>_ _. None), p_elected = (\<lambda>_. None),
      p_log = (\<lambda>_. []), p_cand = (\<lambda>_ _. []),
      p_voters = (\<lambda>_. {}), p_vlog = (\<lambda>_ _. []), p_applied = {}\<rparr>"

definition proto_reach :: "(bytes \<Rightarrow> bytes) \<Rightarrow> configuration \<Rightarrow> bool \<Rightarrow> proto \<Rightarrow> proto \<Rightarrow> bool" where
  "proto_reach sha cfg strict = (proto_step sha cfg strict)\<^sup>*\<^sup>*"

lemma record_move_simps [simp]:
  "p_node (record_move i acts n s) = (p_node s)(i := n)"
  "p_sent (record_move i acts n s) = p_sent s \<union> sends i acts"
  "p_applied (record_move i acts n s) = p_applied s \<union> applies i acts"
  by (simp_all add: record_move_def)

section \<open>Basic invariant\<close>

definition basic_inv :: "(bytes \<Rightarrow> bytes) \<Rightarrow> configuration \<Rightarrow> proto \<Rightarrow> bool" where
  "basic_inv sha cfg s =
     ((\<forall>i. cfg_contains cfg i \<longrightarrow>
          raft_wf sha (p_node s i) \<and> r_id (p_node s i) = i \<and> r_configuration (p_node s i) = cfg)
      \<and> (\<forall>from to m. (from, to, m) \<in> p_sent s \<longrightarrow> cfg_contains cfg from \<and> message_ok m))"

lemma move_sends_ok:
  assumes wf: "raft_wf sha n" and move: "move sha strict M n acts n'" and "Send to m \<in> set acts"
  shows "message_ok m"
  using move
proof cases
  case (Ship s peer offset data finished)
  have "sm_last_included_term (ps_metadata s) = rl_base_term (r_log n)" "validate_snapshot sha s = Inr ()"
    using wf Ship by (auto simp: raft_wf_def snapshot_link_def)
  moreover have "rl_base_term (r_log n) \<le> log_last_term (r_log n)"
    using log_term_le_last[OF wf_simps(1)[OF wf] log_term_base] .
  ultimately show ?thesis using assms(3) Ship wf_simps(6)[OF wf]
    by (auto simp: validate_snapshot_def snapshot_validate_def split: if_splits)
next
  case Quiet
  then have "silent (Send to m)" using assms(3) by (auto simp: list_all_iff)
  then show ?thesis by (cases m) auto
qed (use assms(3) in auto)

lemma basic_inv_step:
  assumes "basic_inv sha cfg s" and "proto_step sha cfg strict s s'"
  shows "basic_inv sha cfg s'"
  using assms(2)
proof cases
  case (Move i acts n)
  have wf: "raft_wf sha (p_node s i)" and id: "r_id (p_node s i) = i" "r_configuration (p_node s i) = cfg"
    using assms(1) Move by (auto simp: basic_inv_def)
  have later: "later (p_node s i) n" by (rule move_later[OF wf Move(3)])
  show ?thesis
    using assms(1) Move move_wf[OF wf Move(3)] move_sends_ok[OF wf Move(3)] later id
    by (auto simp: basic_inv_def sends_def later_def)
qed

lemma basic_inv_init:
  assumes "config_ok cfg"
  shows "basic_inv sha cfg (proto_init cfg)"
  using raft_fresh_wf[OF assms] by (auto simp: basic_inv_def proto_init_def)

lemma basic_inv_reach:
  assumes "proto_reach sha cfg strict s s'" and "basic_inv sha cfg s"
  shows "basic_inv sha cfg s'"
  using assms unfolding proto_reach_def
  by (induction rule: rtranclp_induct) (auto intro: basic_inv_step)

section \<open>Cluster runs are runs of moves\<close>

definition abstracts :: "configuration \<Rightarrow> cluster \<Rightarrow> proto \<Rightarrow> bool" where
  "abstracts cfg c s =
     (p_sent s = cl_sent c \<and> p_applied s = cl_applied c
      \<and> (\<forall>i. \<not> cfg_contains cfg i \<longrightarrow> cl_live c i = None)
      \<and> (\<forall>i n. cl_live c i = Some n \<longrightarrow> n = p_node s i)
      \<and> (\<forall>i. cfg_contains cfg i \<longrightarrow> mirrors (p_node s i) (cl_store c i)))"

lemma abstracts_init: "abstracts cfg (cluster_init cfg) (proto_init cfg)"
  by (simp add: abstracts_def cluster_init_def proto_init_def mirrors_def raft_fresh_stable)

lemma abstracts_live: "abstracts cfg c s \<Longrightarrow> cl_live c i = Some n \<Longrightarrow> cfg_contains cfg i \<and> p_node s i = n"
  by (metis abstracts_def option.distinct(1))

lemma sends_append: "sends i (a @ b) = sends i a \<union> sends i b"
  by (auto simp: sends_def)

lemma applies_append: "applies i (a @ b) = applies i a \<union> applies i b"
  by (auto simp: applies_def)

lemma no_sends [simp]: "sends i [] = {}" "applies i [] = {}"
  by (auto simp: sends_def applies_def)

lemma inbox_mono: "sent \<subseteq> sent' \<Longrightarrow> inbox sent i \<subseteq> inbox sent' i"
  by (auto simp: inbox_def)

lemma append_received_mono:
  "append_received M n from prev prev_term entries leader_commit \<Longrightarrow> M \<subseteq> M'
   \<Longrightarrow> append_received M' n from prev prev_term entries leader_commit"
  unfolding append_received_def by blast

lemma move_mono:
  assumes "move sha strict M n acts n'" and sub: "M \<subseteq> M'"
  shows "move sha strict M' n acts n'"
  using assms(1)
proof cases
  case Quiet
  then show ?thesis by (rule move.Quiet)
next
  case Exhausted
  then show ?thesis by (simp add: move.Exhausted)
next
  case Conflict
  then show ?thesis using move.Conflict[OF append_received_mono[OF _ sub]] by blast
next
  case Refuse
  then show ?thesis by (simp add: move.Refuse)
next
  case Observe
  then show ?thesis using move.Observe by blast
next
  case Campaign
  then show ?thesis using move.Campaign by blast
next
  case Ask
  then show ?thesis using move.Ask by blast
next
  case Grant
  then show ?thesis using move.Grant[OF subsetD[OF sub]] by blast
next
  case Confirm
  then show ?thesis using move.Confirm by blast
next
  case Count
  then show ?thesis using move.Count[OF subsetD[OF sub]] by blast
next
  case Lead
  then show ?thesis using move.Lead by blast
next
  case Extend
  then show ?thesis using move.Extend by blast
next
  case Replicate
  then show ?thesis using move.Replicate by blast
next
  case Ship
  then show ?thesis using move.Ship by blast
next
  case Store
  then show ?thesis using move.Store[OF append_received_mono[OF _ sub]] by blast
next
  case Acknowledge
  then show ?thesis using move.Acknowledge[OF append_received_mono[OF _ sub]] by blast
next
  case (Match src index c d token offset f)
  show ?thesis unfolding Match(1,2) using Match sub by (intro move.Match) auto
next
  case CommitLeader
  then show ?thesis using move.CommitLeader by blast
next
  case CommitFollower
  then show ?thesis using move.CommitFollower[OF append_received_mono[OF _ sub]] by blast
next
  case Execute
  then show ?thesis using move.Execute by blast
next
  case Compact
  then show ?thesis using move.Compact by blast
next
  case Install
  then show ?thesis using move.Install[OF subsetD[OF sub]] by blast
next
  case AcknowledgeSnapshot
  then show ?thesis using move.AcknowledgeSnapshot[OF subsetD[OF sub]] by blast
qed

lemma moves_proto:
  assumes "moves sha strict M n acts n'" and "cfg_contains cfg i"
    and "p_node s i = n" and "M \<subseteq> inbox (p_sent s) i"
  shows "\<exists>s'. proto_reach sha cfg strict s s' \<and> p_node s' = (p_node s)(i := n')
     \<and> p_sent s' = p_sent s \<union> sends i acts \<and> p_applied s' = p_applied s \<union> applies i acts"
  using assms
proof (induction arbitrary: s rule: moves.induct)
  case (Done n)
  then show ?case by (intro exI[of _ s]) (simp add: proto_reach_def fun_upd_idem)
next
  case (Step n a n1 b n2)
  let ?s = "record_move i a n1 s"
  have step: "proto_step sha cfg strict s ?s"
    using proto_step.Move[OF Step.prems(1), of sha strict s a n1] move_mono[OF Step.hyps(1) Step.prems(3)]
    unfolding Step.prems(2) .
  have "inbox (p_sent s) i \<subseteq> inbox (p_sent ?s) i" by (rule inbox_mono) simp
  with Step.prems(3) have "M \<subseteq> inbox (p_sent ?s) i" by (rule order_trans)
  moreover have "p_node ?s i = n1" by simp
  ultimately obtain s' where s': "proto_reach sha cfg strict ?s s'"
    "p_node s' = (p_node ?s)(i := n2)" "p_sent s' = p_sent ?s \<union> sends i b"
    "p_applied s' = p_applied ?s \<union> applies i b"
    using Step.IH[OF Step.prems(1)] by blast
  moreover have "proto_reach sha cfg strict s s'"
    using step s'(1) unfolding proto_reach_def by (rule converse_rtranclp_into_rtranclp)
  ultimately show ?case by (intro exI[of _ s']) (simp add: sends_append applies_append Un_assoc)
qed

lemma abstracts_moves:
  assumes abs: "abstracts cfg c s" and member: "cfg_contains cfg i"
    and moves: "moves sha strict (inbox (p_sent s) i) (p_node s i) acts n"
    and mirror: "mirrors n store" and live: "live = None \<or> live = Some n"
  shows "\<exists>s'. proto_reach sha cfg strict s s' \<and> abstracts cfg
    (c\<lparr>cl_live := (cl_live c)(i := live), cl_store := (cl_store c)(i := store),
       cl_sent := cl_sent c \<union> sends i acts, cl_applied := cl_applied c \<union> applies i acts\<rparr>) s'"
proof -
  from moves_proto[OF moves member refl order_refl] obtain s' where
    "proto_reach sha cfg strict s s'" "p_node s' = (p_node s)(i := n)" "p_sent s' = p_sent s \<union> sends i acts"
    "p_applied s' = p_applied s \<union> applies i acts" by blast
  then show ?thesis using abs member mirror live
    by (intro exI[of _ s']) (auto simp: abstracts_def)
qed

lemma input_ok_received:
  assumes "basic_inv sha cfg s" and "input_received (inbox (p_sent s) i) inp" and "local_ok inp"
  shows "input_ok inp"
  using assms by (cases inp) (auto simp: basic_inv_def inbox_def local_ok_def)

lemma abstracts_step:
  assumes abs: "abstracts cfg c s" and inv: "basic_inv sha cfg s" and step: "cluster_step sha cfg strict c c'"
  shows "\<exists>s'. proto_reach sha cfg strict s s' \<and> abstracts cfg c' s'"
  using step
proof cases
  case (Run i n inp n' acts store)
  have member: "cfg_contains cfg i" and node: "p_node s i = n" and sent: "p_sent s = cl_sent c"
    using abs Run by (auto simp: abstracts_def)
  have mirror: "mirrors n (cl_store c i)" using abs member unfolding node[symmetric] by (simp add: abstracts_def)
  have wf: "raft_wf sha n" using inv member node by (auto simp: basic_inv_def)
  have "does sha strict (inbox (p_sent s) i) n (raft_step sha inp n)"
    using Run sent input_ok_received[OF inv] by (intro does_raft_step[OF wf]) auto
  then have moves: "moves sha strict (inbox (p_sent s) i) n acts n'" by (simp add: does_def Run)
  show ?thesis unfolding Run(1)
    using moves moves_mirrored[OF moves wf mirror Run(7)] node
    by (intro abstracts_moves[OF abs member]) simp_all
next
  case (Crash i n inp n' acts k store)
  have member: "cfg_contains cfg i" and node: "p_node s i = n" and sent: "p_sent s = cl_sent c"
    using abs Crash by (auto simp: abstracts_def)
  have mirror: "mirrors n (cl_store c i)" using abs member unfolding node[symmetric] by (simp add: abstracts_def)
  have wf: "raft_wf sha n" using inv member node by (auto simp: basic_inv_def)
  have "does sha strict (inbox (p_sent s) i) n (raft_step sha inp n)"
    using Crash sent input_ok_received[OF inv] by (intro does_raft_step[OF wf]) auto
  then have "moves sha strict (inbox (p_sent s) i) n acts n'" by (simp add: does_def Crash)
  from moves_prefix[OF this] obtain m where
    moves: "moves sha strict (inbox (p_sent s) i) n (take k acts) m" by blast
  show ?thesis unfolding Crash(1)
    using moves moves_mirrored[OF moves wf mirror Crash(7)] node
    by (intro abstracts_moves[OF abs member]) simp_all
next
  case (Restart i n)
  show ?thesis
  proof (cases "cfg_contains cfg i")
    case member: True
    let ?m = "p_node s i"
    have wf: "raft_wf sha ?m" and id: "r_id ?m = i" "r_configuration ?m = cfg"
      using inv member by (auto simp: basic_inv_def)
    have mirror: "mirrors ?m (cl_store c i)" using abs member by (simp add: abstracts_def)
    then have "n = restarted ?m"
      using recover_stable[OF wf, of n] Restart id by (simp add: mirrors_def)
    moreover have "moves sha strict (inbox (p_sent s) i) ?m [] (restarted ?m)"
      by (intro moves_one move.Quiet restarted_quiet) simp
    moreover have "mirrors (restarted ?m) (cl_store c i)"
      using mirror by (simp add: mirrors_def restarted_def stable_state_of_def)
    ultimately show ?thesis unfolding Restart(1)
      using abstracts_moves[OF abs member, of sha strict "[]" n "cl_store c i" "Some n"] by simp
  next
    case False
    then show ?thesis using Restart by (auto simp: recover_def result_simps)
  qed
qed

lemma abstracts_reach:
  assumes "cluster_reach sha cfg strict c c'" and "abstracts cfg c s" and "basic_inv sha cfg s"
  shows "\<exists>s'. proto_reach sha cfg strict s s' \<and> abstracts cfg c' s'"
  using assms(1) unfolding cluster_reach_def
proof (induction rule: rtranclp_induct)
  case base
  then show ?case using assms(2) by (auto simp: proto_reach_def)
next
  case (step c1 c2)
  then obtain s1 where s1: "proto_reach sha cfg strict s s1" "abstracts cfg c1 s1" by blast
  from abstracts_step[OF s1(2) basic_inv_reach[OF s1(1) assms(3)] step.hyps(2)] obtain s2 where
    "proto_reach sha cfg strict s1 s2" "abstracts cfg c2 s2" by blast
  with s1(1) show ?case unfolding proto_reach_def by (meson rtranclp_trans)
qed

section \<open>Nodes never go back\<close>

lemma proto_later:
  assumes "proto_reach sha cfg strict s s'" and "basic_inv sha cfg s" and "cfg_contains cfg i"
  shows "later (p_node s i) (p_node s' i)"
  using assms unfolding proto_reach_def
proof (induction rule: rtranclp_induct)
  case (step s1 s2)
  have inv: "basic_inv sha cfg s1" using basic_inv_reach step by (auto simp: proto_reach_def)
  from step.hyps(2) have "later (p_node s1 i) (p_node s2 i)"
  proof cases
    case (Move j acts n)
    then show ?thesis using inv move_later[of sha "p_node s1 j"] by (auto simp: basic_inv_def)
  qed
  with step show ?case by (blast intro: later_trans)
qed simp

text \<open>
  Terms and indexes are natural numbers in the model.  In the code they are \<open>u64\<close>, and the index of a
  new entry is \<open>last_index() + 1\<close> without a check, so the runs considered are those in which no log
  reaches \<open>u64::MAX\<close>.
\<close>

definition within_u64 :: "cluster \<Rightarrow> bool" where
  "within_u64 c = (\<forall>i n. cl_live c i = Some n \<longrightarrow> log_last_index (r_log n) < u64_max)"

definition bounded_reach :: "(bytes \<Rightarrow> bytes) \<Rightarrow> configuration \<Rightarrow> bool \<Rightarrow> cluster \<Rightarrow> cluster \<Rightarrow> bool" where
  "bounded_reach sha cfg strict = (\<lambda>c c'. cluster_step sha cfg strict c c' \<and> within_u64 c')\<^sup>*\<^sup>*"

lemma bounded_reach_cluster: "bounded_reach sha cfg strict c c' \<Longrightarrow> cluster_reach sha cfg strict c c'"
  unfolding bounded_reach_def cluster_reach_def by (erule rtranclp_mono[THEN predicate2D, rotated]) blast

text \<open>
  C30: No run brings a node out of order.  In every run of a cluster, with messages lost, delayed,
  reordered and duplicated, crashes between any two actions and restarts, a live node is well formed:
  its log is consecutive with terms that do not decrease, nothing is applied beyond the commit index or
  committed beyond the log, no entry is newer than the term, and the snapshot matches the compaction
  boundary.  From any state to any later one, also across crashes, its term, commit index and applied
  index never go back and a vote does not change within its term.  The messages delivered are those the
  nodes sent, checkpoints handed in locally are not empty, within the size limit and not at index zero,
  and no log reaches \<open>u64::MAX\<close>.
\<close>

theorem node_never_goes_back:
  assumes "config_ok cfg" and "bounded_reach sha cfg strict (cluster_init cfg) c" and "bounded_reach sha cfg strict c c'"
    and "cl_live c i = Some n" and "cl_live c' i = Some n'"
  shows "raft_wf sha n \<and> raft_wf sha n' \<and> later n n'"
proof -
  from abstracts_reach[OF bounded_reach_cluster[OF assms(2)] abstracts_init basic_inv_init[OF assms(1)]] obtain s where
    s: "proto_reach sha cfg strict (proto_init cfg) s" "abstracts cfg c s" by blast
  have inv: "basic_inv sha cfg s" by (rule basic_inv_reach[OF s(1) basic_inv_init[OF assms(1)]])
  from abstracts_reach[OF bounded_reach_cluster[OF assms(3)] s(2) inv] obtain s' where
    s': "proto_reach sha cfg strict s s'" "abstracts cfg c' s'" by blast
  have inv': "basic_inv sha cfg s'" by (rule basic_inv_reach[OF s'(1) inv])
  note i = abstracts_live[OF s(2) assms(4)] abstracts_live[OF s'(2) assms(5)]
  show ?thesis using proto_later[OF s'(1) inv] inv inv' i by (auto simp: basic_inv_def)
qed

text \<open>The second of three voters starts a pre-vote.\<close>

theorem node_never_goes_back_witness:
  "\<exists>c n. bounded_reach id three_voters False (cluster_init three_voters) c \<and> cl_live c 2 = Some n
     \<and> r_role n = PreCandidate \<and> raft_wf id n \<and> later (raft_fresh 2 three_voters) n"
proof -
  let ?c = "cluster_init three_voters" and ?store = "\<lparr>sto_state = stable_default, sto_pending = None\<rparr>"
  obtain n acts where step: "raft_step id (Tick Election) (raft_fresh 2 three_voters) = (n, acts)" by fastforce
  have "case raft_step id (Tick Election) (raft_fresh 2 three_voters) of (n, acts) \<Rightarrow>
      is_ok (execute_actions id acts ?store) \<and> log_last_index (r_log n) = 0 \<and> r_role n = PreCandidate" by code_simp
  then have ok: "is_ok (execute_actions id acts ?store)" and n: "log_last_index (r_log n) = 0" "r_role n = PreCandidate"
    by (simp_all add: step)
  from ok obtain store where "execute_actions id acts ?store = Inr store" by (auto simp: is_ok_iff)
  then have exec: "execute_actions id acts (cl_store ?c 2) = Inr store" by (simp add: cluster_init_def)
  have "cfg_contains three_voters 2" by code_simp
  then have live: "cl_live ?c 2 = Some (raft_fresh 2 three_voters)" by (simp add: cluster_init_def)
  let ?c' = "?c\<lparr>cl_live := (cl_live ?c)(2 := Some n), cl_store := (cl_store ?c)(2 := store),
    cl_sent := cl_sent ?c \<union> sends 2 acts, cl_applied := cl_applied ?c \<union> applies 2 acts\<rparr>"
  have "cluster_step id three_voters False ?c ?c'"
    by (rule cluster_step.Run[OF live _ _ step _ exec]) (simp_all add: local_ok_def)
  moreover have "within_u64 ?c'"
    using n(1) by (auto simp: within_u64_def cluster_init_def u64_max_def split: if_splits)
  ultimately have reach: "bounded_reach id three_voters False ?c ?c'"
    unfolding bounded_reach_def by blast
  have refl: "bounded_reach id three_voters False ?c ?c" unfolding bounded_reach_def by blast
  have "raft_wf id n \<and> later (raft_fresh 2 three_voters) n"
    using node_never_goes_back[OF three_voters_ok refl reach live] by simp
  then show ?thesis using reach n(2) by (intro exI[of _ ?c'] exI[of _ n]) simp
qed

end
