(* ===== verification/Raft_Example.thy ===== *)
theory Raft_Example
  imports Raft_Cluster "HOL-Library.AList" "HOL-Library.Code_Target_Nat"
begin

text \<open>
  Executable cluster runs.

  A schedule names local events and the messages to deliver; \<open>run\<close> executes it with the node functions
  of the model, keeping only the messages that later events deliver.  Every such run is a run of
  \<open>cluster_step\<close>.  The example elects a leader among three voters, replicates its first entry and
  commits it on two nodes.
\<close>

section \<open>Schedules\<close>

text \<open>The last argument gives the positions of the messages to keep among those the step sends.\<close>

datatype event =
    Local node_id input "nat list"
  | Deliver nat "nat list"
  | Forget

type_synonym machines =
  "(node_id \<times> raft) list \<times> (node_id \<times> node_id \<times> message) list \<times> (node_id \<times> log_entry) list"

definition sends_of :: "node_id \<Rightarrow> action list \<Rightarrow> (node_id \<times> node_id \<times> message) list" where
  "sends_of i acts = concat (map (\<lambda>a. case a of Send to m \<Rightarrow> [(i, to, m)] | _ \<Rightarrow> []) acts)"

definition applies_of :: "node_id \<Rightarrow> action list \<Rightarrow> (node_id \<times> log_entry) list" where
  "applies_of i acts = concat (map (\<lambda>a. case a of ApplyEntry e \<Rightarrow> [(i, e)] | _ \<Rightarrow> []) acts)"

definition pick :: "nat list \<Rightarrow> 'a list \<Rightarrow> 'a list" where
  "pick ks xs = map (\<lambda>k. xs ! k) (filter (\<lambda>k. k < length xs) ks)"

definition latest :: "'a list \<Rightarrow> 'a list" where
  "latest xs = (if xs = [] then [] else [List.last xs])"

definition run_input ::
    "(bytes \<Rightarrow> bytes) \<Rightarrow> bool \<Rightarrow> node_id \<Rightarrow> input \<Rightarrow> nat list \<Rightarrow> machines \<Rightarrow> machines option" where
  "run_input sha strict i inp keep ms = (case ms of (nodes, sent, applied) \<Rightarrow>
     (case map_of nodes i of
        None \<Rightarrow> None
      | Some n \<Rightarrow>
          (case raft_step sha inp n of (n', acts) \<Rightarrow>
             if input_ok inp \<and> (strict \<longrightarrow> commit_verified inp n n')
                \<and> list_all action_bounded acts \<and> \<not> list_ex halting acts
             then Some (AList.update i n' nodes, sent @ pick keep (sends_of i acts),
                        applied @ latest (applies_of i acts))
             else None)))"

fun is_message :: "input \<Rightarrow> bool" where
  "is_message (Message _ _) = True"
| "is_message _ = False"

fun run_event :: "(bytes \<Rightarrow> bytes) \<Rightarrow> bool \<Rightarrow> event \<Rightarrow> machines \<Rightarrow> machines option" where
  "run_event sha strict (Local i inp keep) ms =
     (if is_message inp then None else run_input sha strict i inp keep ms)"
| "run_event sha strict (Deliver k keep) (nodes, sent, applied) =
     (if k < length sent
      then (case sent ! k of (from, i, m) \<Rightarrow>
              run_input sha strict i (Message from m) keep (nodes, sent, applied))
      else None)"
| "run_event sha strict Forget (nodes, sent, applied) = Some (nodes, [], applied)"

fun run :: "(bytes \<Rightarrow> bytes) \<Rightarrow> bool \<Rightarrow> event list \<Rightarrow> machines \<Rightarrow> machines option" where
  "run sha strict [] ms = Some ms"
| "run sha strict (e # es) ms =
     (case run_event sha strict e ms of None \<Rightarrow> None | Some ms' \<Rightarrow> run sha strict es ms')"

definition machines_init :: "configuration \<Rightarrow> machines" where
  "machines_init cfg = (map (\<lambda>i. (i, raft_fresh i cfg)) (bt_keys (cfg_participants cfg)), [], [])"

section \<open>Runs of schedules are runs of the cluster\<close>

definition agrees :: "(bytes \<Rightarrow> bytes) \<Rightarrow> machines \<Rightarrow> cluster \<Rightarrow> bool" where
  "agrees sha ms c = (case ms of (nodes, sent, applied) \<Rightarrow>
     (\<forall>i n. map_of nodes i = Some n \<longrightarrow> cl_live c i = Some n \<and> mirrors n (cl_store c i) \<and> raft_wf sha n
        \<and> log_last_index (r_log n) < u64_max)
     \<and> set sent \<subseteq> cl_sent c \<and> set applied \<subseteq> cl_applied c)"

lemma set_pick: "set (pick ks xs) \<subseteq> set xs"
  by (auto simp: pick_def)

lemma set_latest: "set (latest xs) \<subseteq> set xs"
  by (simp add: latest_def)

lemma set_sends_of: "set (sends_of i acts) = sends i acts"
  by (auto simp: sends_of_def sends_def split: action.splits)

lemma set_applies_of: "set (applies_of i acts) = applies i acts"
  by (auto simp: applies_of_def applies_def split: action.splits)

lemma run_input_step:
  assumes run: "run_input sha strict i inp keep ms = Some ms'" and agrees: "agrees sha ms c"
    and received: "input_received (inbox (cl_sent c) i) inp"
  shows "\<exists>c'. cluster_step sha cfg strict c c' \<and> agrees sha ms' c'"
proof -
  obtain nodes sent applied where ms: "ms = (nodes, sent, applied)" by (cases ms)
  from run ms obtain n n' acts where
    i: "map_of nodes i = Some n" and step: "raft_step sha inp n = (n', acts)"
    and ok: "input_ok inp" "strict \<longrightarrow> commit_verified inp n n'" "list_all action_bounded acts" "\<not> list_ex halting acts"
    and ms': "ms' = (AList.update i n' nodes, sent @ pick keep (sends_of i acts), applied @ latest (applies_of i acts))"
    by (auto simp: run_input_def split: option.splits prod.splits if_splits)
  from agrees i have n: "cl_live c i = Some n" "mirrors n (cl_store c i)" "raft_wf sha n" "log_last_index (r_log n) < u64_max"
    by (auto simp: agrees_def ms)
  note moves = step_moves[OF n(3) ok(1) step]
  from moves_accepted[OF moves n(3,2,4) ok(3)] ok(4) obtain store where
    exec: "execute_actions sha acts (cl_store c i) = Inr store" by (auto simp: is_ok_iff)
  have "local_ok inp" using ok(1) by (cases inp) (auto simp: local_ok_def)
  note cluster_step.Run[OF n(1) received this step _ exec, of strict cfg]
  moreover have "agrees sha ms' (c\<lparr>cl_live := (cl_live c)(i := Some n'), cl_store := (cl_store c)(i := store),
      cl_sent := cl_sent c \<union> sends i acts, cl_applied := cl_applied c \<union> applies i acts\<rparr>)"
    using agrees set_pick[of keep "sends_of i acts"] set_latest[of "applies_of i acts"]
      moves_mirrored[OF moves n(3,2) exec] moves_wf[OF moves n(3)] moves_bounded[OF moves n(3,4) ok(3)]
    by (auto simp: agrees_def ms ms' update_conv' set_sends_of set_applies_of)
  ultimately show ?thesis using ok(2) by blast
qed

lemma run_event_step:
  assumes run: "run_event sha strict e ms = Some ms'" and agrees: "agrees sha ms c"
  shows "\<exists>c'. cluster_reach sha cfg strict c c' \<and> agrees sha ms' c'"
proof -
  have single: "cluster_step sha cfg strict c c' \<Longrightarrow> cluster_reach sha cfg strict c c'" for c'
    unfolding cluster_reach_def by (rule r_into_rtranclp)
  obtain nodes sent applied where ms: "ms = (nodes, sent, applied)" by (cases ms)
  show ?thesis
  proof (cases e)
    case (Local i inp keep)
    with run have input: "run_input sha strict i inp keep ms = Some ms'" and "\<not> is_message inp"
      by (simp_all split: if_splits)
    then have "input_received (inbox (cl_sent c) i) inp" by (cases inp) auto
    with run_input_step[OF input agrees] single show ?thesis by blast
  next
    case (Deliver k keep)
    with run ms obtain src i m where msg: "sent ! k = (src, i, m)" "k < length sent"
      and input: "run_input sha strict i (Message src m) keep ms = Some ms'"
      by (auto split: if_splits prod.splits)
    have "(src, i, m) \<in> set sent" using msg by (metis nth_mem)
    then have "input_received (inbox (cl_sent c) i) (Message src m)"
      using agrees by (auto simp: agrees_def ms inbox_def)
    with run_input_step[OF input agrees] single show ?thesis by blast
  next
    case Forget
    then have "agrees sha ms' c" using run agrees ms by (auto simp: agrees_def)
    then show ?thesis unfolding cluster_reach_def by blast
  qed
qed

lemma run_reach:
  "run sha strict es ms = Some ms' \<Longrightarrow> agrees sha ms c
   \<Longrightarrow> \<exists>c'. cluster_reach sha cfg strict c c' \<and> agrees sha ms' c'"
proof (induction es arbitrary: ms c)
  case Nil
  then show ?case unfolding cluster_reach_def by auto
next
  case (Cons e es)
  then obtain ms1 where ms1: "run_event sha strict e ms = Some ms1" "run sha strict es ms1 = Some ms'"
    by (auto split: option.splits)
  from run_event_step[OF ms1(1) Cons.prems(2)] obtain c1 where
    c1: "cluster_reach sha cfg strict c c1" "agrees sha ms1 c1" by blast
  from Cons.IH[OF ms1(2) c1(2)] c1(1) show ?case
    unfolding cluster_reach_def by (meson rtranclp_trans)
qed

lemma agrees_init:
  assumes "config_ok cfg"
  shows "agrees sha (machines_init cfg) (cluster_init cfg)"
proof -
  have "map_of (map (\<lambda>i. (i, f i)) ks) j = (if j \<in> set ks then Some (f j) else None)"
    for f :: "node_id \<Rightarrow> raft" and ks j
    by (induction ks) auto
  moreover have "i \<in> set (bt_keys (cfg_participants cfg)) \<longleftrightarrow> cfg_contains cfg i" for i
    unfolding cfg_contains_def bts_set_def[symmetric] by (rule bts_set_iff)
  moreover have "log_last_index (r_log (raft_fresh i cfg)) < u64_max" for i
    by (simp add: raft_fresh_def log_last_index_def u64_max_def)
  ultimately show ?thesis using raft_fresh_wf[OF assms]
    by (auto simp: agrees_def cluster_init_def machines_init_def mirrors_def raft_fresh_stable)
qed

lemma run_from_init:
  assumes "config_ok cfg" and "run sha strict es (machines_init cfg) = Some ms"
  obtains c where "cluster_reach sha cfg strict (cluster_init cfg) c" and "agrees sha ms c"
  using run_reach[OF assms(2) agrees_init[OF assms(1)]] by blast

section \<open>A leader is elected and commits an entry\<close>

definition replication :: "event list" where
  "replication =
     [Local 1 (Tick Election) [0], Deliver 0 [0], Deliver 1 [0], Deliver 2 [0], Deliver 3 [0],
      Deliver 4 [0], Deliver 5 [0], Deliver 6 [0], Deliver 7 [], Local 1 (Tick Heartbeat) [0], Deliver 8 []]"

definition first_entry :: log_entry where
  "first_entry = \<lparr>le_index = 1, le_term = 1, le_payload = Noop\<rparr>"

definition replicated_ok :: "role \<Rightarrow> raft option \<Rightarrow> bool" where
  "replicated_ok role node = (case node of
     None \<Rightarrow> False
   | Some n \<Rightarrow> r_role n = role \<and> r_term n = 1 \<and> r_commit_index n = 1 \<and> rl_base_index (r_log n) = 0
       \<and> log_entry_at (r_log n) 1 = Some first_entry)"

lemma replication_result:
  "case run id True replication (machines_init three_voters) of
     None \<Rightarrow> False
   | Some (nodes, sent, applied) \<Rightarrow> replicated_ok Leader (map_of nodes 1) \<and> replicated_ok Follower (map_of nodes 2)
       \<and> (1, first_entry) \<in> set applied \<and> (2, first_entry) \<in> set applied"
  by code_simp

lemma replicated:
  obtains c n m where "cluster_reach id three_voters True (cluster_init three_voters) c"
    and "cl_live c 1 = Some n" and "r_role n = Leader" and "r_term n = 1" and "r_commit_index n = 1"
    and "log_entry_at (r_log n) 1 = Some first_entry" and "rl_base_index (r_log n) = 0"
    and "cl_live c 2 = Some m" and "r_role m = Follower" and "r_term m = 1" and "r_commit_index m = 1"
    and "log_entry_at (r_log m) 1 = Some first_entry"
    and "(1, first_entry) \<in> cl_applied c" and "(2, first_entry) \<in> cl_applied c"
proof -
  from replication_result obtain nodes sent applied where
    run: "run id True replication (machines_init three_voters) = Some (nodes, sent, applied)"
    and nodes: "replicated_ok Leader (map_of nodes 1)" "replicated_ok Follower (map_of nodes 2)"
    and applied: "(1, first_entry) \<in> set applied" "(2, first_entry) \<in> set applied"
    by (auto split: option.splits)
  from nodes obtain n m where nm: "map_of nodes 1 = Some n" "map_of nodes 2 = Some m"
    by (auto simp: replicated_ok_def split: option.splits)
  from run_from_init[OF three_voters_ok run] obtain c where
    "cluster_reach id three_voters True (cluster_init three_voters) c" "agrees id (nodes, sent, applied) c" by blast
  with nodes nm applied show thesis by (intro that[of c n m]) (auto simp: replicated_ok_def agrees_def)
qed

end
