(* ===== verification/Raft_Election.thy ===== *)
theory Raft_Election
  imports Raft_Example
begin

text \<open>
  Elections: a term has at most one leader.

  The history \<open>p_ballot\<close> holds the vote each node gave in each term; a node never changes it, across
  crashes included, because the vote is persisted before it is sent.  A leader holds the votes of a
  quorum, and two quorums share a member.
\<close>

section \<open>What moves do to the state of an election\<close>

lemma r_update_progress [simp]:
  "r_role (update_progress peer f n) = r_role n" "r_hard_state (update_progress peer f n) = r_hard_state n"
  "r_votes (update_progress peer f n) = r_votes n" "r_log (update_progress peer f n) = r_log n"
  "r_configuration (update_progress peer f n) = r_configuration n" "r_id (update_progress peer f n) = r_id n"
  "r_applied_index (update_progress peer f n) = r_applied_index n"
  by (simp_all add: update_progress_def split: option.splits)

lemma silent_sends: "list_all silent acts \<Longrightarrow> Send to m \<in> set acts \<Longrightarrow> harmless m"
  by (auto simp: list_all_iff)

lemma bts_set_singleton [simp]: "bts_set (bts_insert i bt_empty) = {i}"
  by (simp add: bts_set_insert)

lemma move_candidate:
  assumes "move sha strict M n acts n'" and "r_role n' = Candidate"
  shows "r_term n' = r_term n + 1 \<and> bts_set (r_votes n') = {r_id n} \<and> r_voted_for n' = Some (r_id n)
    \<or> r_role n = Candidate \<and> r_term n' = r_term n
      \<and> (bts_set (r_votes n') = bts_set (r_votes n)
         \<or> (\<exists>from. bts_set (r_votes n') = insert from (bts_set (r_votes n))
              \<and> (from, RequestVoteResponse (r_term n) True) \<in> M))"
  using assms
  by cases (auto simp: quiet_def same_durable_def bts_set_insert append_received_def)

lemma move_leader:
  assumes "move sha strict M n acts n'" and "r_role n' = Leader"
  shows "r_term n' = r_term n
    \<and> (r_role n = Leader \<or> r_role n = Candidate \<and> is_quorum (r_configuration n) (bts_set (r_votes n)))"
  using assms by cases (auto simp: quiet_def same_durable_def quorum_iff append_received_def)

lemma move_vote_sent:
  assumes "move sha strict M n acts n'" and "Send to (RequestVoteResponse tm True) \<in> set acts"
  shows "tm = r_term n' \<and> r_voted_for n' = Some to"
  using assms by cases (auto dest: silent_sends)

section \<open>Votes and elections\<close>

definition election_inv :: "configuration \<Rightarrow> proto \<Rightarrow> bool" where
  "election_inv cfg s =
     ((\<forall>i. cfg_contains cfg i \<longrightarrow> (\<forall>c. r_voted_for (p_node s i) = Some c \<longrightarrow>
          p_ballot s i (r_term (p_node s i)) = Some c))
      \<and> (\<forall>i t c. p_ballot s i t = Some c \<longrightarrow> cfg_contains cfg i \<and> t \<le> r_term (p_node s i)
          \<and> (t = r_term (p_node s i) \<longrightarrow> r_voted_for (p_node s i) = Some c))
      \<and> (\<forall>v to t. (v, to, RequestVoteResponse t True) \<in> p_sent s \<longrightarrow> p_ballot s v t = Some to)
      \<and> (\<forall>i. cfg_contains cfg i \<longrightarrow> r_role (p_node s i) = Candidate \<longrightarrow>
          bts_set (r_votes (p_node s i)) \<subseteq> {v. p_ballot s v (r_term (p_node s i)) = Some i})
      \<and> (\<forall>t i. p_elected s t = Some i \<longrightarrow> is_quorum cfg {v. p_ballot s v t = Some i})
      \<and> (\<forall>t i. p_elected s t = Some i \<longrightarrow> cfg_contains cfg i \<and> t \<le> r_term (p_node s i)
          \<and> (t = r_term (p_node s i) \<longrightarrow> r_role (p_node s i) \<noteq> Candidate))
      \<and> (\<forall>i. cfg_contains cfg i \<longrightarrow> r_role (p_node s i) = Leader \<longrightarrow>
          p_elected s (r_term (p_node s i)) = Some i))"

lemma election_invD:
  assumes "election_inv cfg s"
  shows vote_recorded: "cfg_contains cfg i \<Longrightarrow> r_voted_for (p_node s i) = Some c
      \<Longrightarrow> p_ballot s i (r_term (p_node s i)) = Some c"
    and ballot_past: "p_ballot s i t = Some c \<Longrightarrow> cfg_contains cfg i \<and> t \<le> r_term (p_node s i)
      \<and> (t = r_term (p_node s i) \<longrightarrow> r_voted_for (p_node s i) = Some c)"
    and vote_sent: "(v, to, RequestVoteResponse t True) \<in> p_sent s \<Longrightarrow> p_ballot s v t = Some to"
    and votes_counted: "cfg_contains cfg i \<Longrightarrow> r_role (p_node s i) = Candidate
      \<Longrightarrow> bts_set (r_votes (p_node s i)) \<subseteq> {v. p_ballot s v (r_term (p_node s i)) = Some i}"
    and elected_quorum: "p_elected s t = Some i \<Longrightarrow> is_quorum cfg {v. p_ballot s v t = Some i}"
    and elected_past: "p_elected s t = Some i \<Longrightarrow> cfg_contains cfg i \<and> t \<le> r_term (p_node s i)
      \<and> (t = r_term (p_node s i) \<longrightarrow> r_role (p_node s i) \<noteq> Candidate)"
    and leader_elected: "cfg_contains cfg i \<Longrightarrow> r_role (p_node s i) = Leader
      \<Longrightarrow> p_elected s (r_term (p_node s i)) = Some i"
  using assms unfolding election_inv_def by simp_all

lemma record_ballot:
  "p_ballot (record_move i acts n s) j t =
     (if j = i \<and> t = r_term n \<and> r_voted_for n \<noteq> None then r_voted_for n else p_ballot s j t)"
  by (auto simp: record_move_def split: option.splits)

lemma record_elected:
  "p_elected (record_move i acts n s) t =
     (if r_role n = Leader \<and> t = r_term n then Some i else p_elected s t)"
  by (simp add: record_move_def)

lemma election_inv_init: "election_inv cfg (proto_init cfg)"
  by (simp add: election_inv_def proto_init_def raft_fresh_def default_hard_state_def)

text \<open>One node moves; its new state and the new messages satisfy the invariant.\<close>

lemma ballot_kept:
  assumes "election_inv cfg s" and "later (p_node s i) n" and "p_ballot s j t = Some c"
  shows "p_ballot (record_move i acts n s) j t = Some c"
  using ballot_past[OF assms(1,3)] assms(2,3)
  by (auto simp: record_ballot later_def)

text \<open>A candidate that counts a quorum is the first node elected in its term.\<close>

lemma new_leader_first:
  assumes inv: "election_inv cfg s" and member: "cfg_contains cfg i"
    and role: "r_role (p_node s i) = Candidate" and quorum: "is_quorum cfg (bts_set (r_votes (p_node s i)))"
  shows "p_elected s (r_term (p_node s i)) = None"
proof (rule ccontr)
  assume "p_elected s (r_term (p_node s i)) \<noteq> None"
  then obtain j where j: "p_elected s (r_term (p_node s i)) = Some j" by blast
  from quorums.common_member[OF elected_quorum[OF inv j] quorum] obtain v where
    "p_ballot s v (r_term (p_node s i)) = Some j" "v \<in> bts_set (r_votes (p_node s i))" by auto
  with votes_counted[OF inv member role] have "j = i" by auto
  with elected_past[OF inv j] role show False by simp
qed

lemma election_inv_move:
  assumes inv: "election_inv cfg s" and basic: "basic_inv sha cfg s" and member: "cfg_contains cfg i"
    and move: "move sha strict (inbox (p_sent s) i) (p_node s i) acts n"
  shows "election_inv cfg (record_move i acts n s)"
proof -
  let ?m = "p_node s i" and ?s = "record_move i acts n s"
  have id: "r_id ?m = i" "r_configuration ?m = cfg" and wf: "raft_wf sha ?m"
    using basic member by (auto simp: basic_inv_def)
  have later: "later ?m n" by (rule move_later[OF wf move])
  note kept = ballot_kept[OF inv later, where acts = acts]
  have recorded: "p_ballot ?s j (r_term (p_node ?s j)) = Some c"
    if "cfg_contains cfg j" "r_voted_for (p_node ?s j) = Some c" for j c
    using that vote_recorded[OF inv, of j c] by (auto simp: record_ballot)
  have past: "cfg_contains cfg j \<and> t \<le> r_term (p_node ?s j)
      \<and> (t = r_term (p_node ?s j) \<longrightarrow> r_voted_for (p_node ?s j) = Some c)" if "p_ballot ?s j t = Some c" for j t c
  proof (cases "j = i")
    case True
    then show ?thesis using that ballot_past[OF inv, of i t c] later member
      by (cases "t = r_term n \<and> r_voted_for n \<noteq> None") (auto simp: record_ballot later_def)
  next
    case False
    then show ?thesis using that ballot_past[OF inv, of j t c] by (simp add: record_ballot)
  qed
  have sent: "p_ballot ?s v t = Some to" if "(v, to, RequestVoteResponse t True) \<in> p_sent ?s" for v to t
  proof (cases "(v, to, RequestVoteResponse t True) \<in> p_sent s")
    case True
    then show ?thesis by (rule kept[OF vote_sent[OF inv]])
  next
    case False
    with that have "v = i" "Send to (RequestVoteResponse t True) \<in> set acts" by (auto simp: sends_def)
    with move_vote_sent[OF move] show ?thesis by (auto simp: record_ballot)
  qed
  have counted: "bts_set (r_votes (p_node ?s j)) \<subseteq> {v. p_ballot ?s v (r_term (p_node ?s j)) = Some j}"
    if "cfg_contains cfg j" "r_role (p_node ?s j) = Candidate" for j
  proof (cases "j = i")
    case False
    then show ?thesis using votes_counted[OF inv that(1)] that kept by auto
  next
    case True
    with that have "r_role n = Candidate" by simp
    from move_candidate[OF move this] show ?thesis
    proof (elim disjE)
      assume "r_term n = r_term ?m + 1 \<and> bts_set (r_votes n) = {r_id ?m} \<and> r_voted_for n = Some (r_id ?m)"
      then show ?thesis using True id by (simp add: record_ballot)
    next
      assume old: "r_role ?m = Candidate \<and> r_term n = r_term ?m \<and> (bts_set (r_votes n) = bts_set (r_votes ?m)
         \<or> (\<exists>src. bts_set (r_votes n) = insert src (bts_set (r_votes ?m))
              \<and> (src, RequestVoteResponse (r_term ?m) True) \<in> inbox (p_sent s) i))"
      then have "bts_set (r_votes n) \<subseteq> {v. p_ballot s v (r_term n) = Some i}"
        using votes_counted[OF inv member] vote_sent[OF inv, of _ i "r_term ?m"] by (auto simp: inbox_def)
      then show ?thesis using True kept by auto
    qed
  qed
  have quorum: "is_quorum cfg {v. p_ballot ?s v t = Some j}" if "p_elected ?s t = Some j" for t j
  proof (cases "p_elected s t = Some j")
    case True
    from elected_quorum[OF inv this] show ?thesis by (rule quorums.mono) (use kept in blast)
  next
    case False
    with that have "r_role n = Leader" "t = r_term n" "j = i" by (auto simp: record_elected split: if_splits)
    moreover from this False have "is_quorum cfg (bts_set (r_votes ?m))" "r_role ?m = Candidate" "r_term n = r_term ?m"
      using move_leader[OF move] leader_elected[OF inv member] id by auto
    moreover have "{v. p_ballot s v t = Some i} \<subseteq> {v. p_ballot ?s v t = Some i}" using kept by blast
    ultimately show ?thesis using votes_counted[OF inv member] by (auto elim!: quorums.mono)
  qed
  have elected: "cfg_contains cfg j \<and> t \<le> r_term (p_node ?s j)
      \<and> (t = r_term (p_node ?s j) \<longrightarrow> r_role (p_node ?s j) \<noteq> Candidate)" if "p_elected ?s t = Some j" for t j
  proof (cases "p_elected s t = Some j \<and> r_role n \<noteq> Leader")
    case True
    from elected_past[OF inv conjunct1[OF this]] move_candidate[OF move] later True
    show ?thesis by (auto simp: later_def)
  next
    case False
    with that elected_past[OF inv, of t j] later member show ?thesis
      by (auto simp: record_elected later_def split: if_splits)
  qed
  have leader: "p_elected ?s (r_term (p_node ?s j)) = Some j"
    if "cfg_contains cfg j" "r_role (p_node ?s j) = Leader" for j
  proof (cases "j = i")
    case True
    then show ?thesis using that by (simp add: record_elected)
  next
    case False
    then have j: "p_elected s (r_term (p_node s j)) = Some j" using that leader_elected[OF inv, of j] by simp
    have "\<not> (r_role n = Leader \<and> r_term n = r_term (p_node s j))"
    proof
      assume n: "r_role n = Leader \<and> r_term n = r_term (p_node s j)"
      with move_leader[OF move] have "p_elected s (r_term ?m) = Some i \<or> p_elected s (r_term ?m) = None"
        using leader_elected[OF inv member] new_leader_first[OF inv member] id by auto
      with n j False move_leader[OF move] show False by auto
    qed
    then show ?thesis using j False by (auto simp: record_elected)
  qed
  show ?thesis unfolding election_inv_def
    using recorded past sent counted quorum elected leader by blast
qed

section \<open>Election safety\<close>

lemma elected_kept:
  assumes inv: "election_inv cfg s" and basic: "basic_inv sha cfg s"
    and step: "proto_step sha cfg strict s s'" and elected: "p_elected s t = Some j"
  shows "p_elected s' t = Some j"
  using step
proof cases
  case (Move i acts n)
  have "j = i" if n: "r_role n = Leader" "t = r_term n"
  proof -
    have id: "r_configuration (p_node s i) = cfg" using basic Move by (auto simp: basic_inv_def)
    from move_leader[OF Move(3) n(1)] leader_elected[OF inv Move(2)] new_leader_first[OF inv Move(2)] id elected n(2)
    show ?thesis by auto
  qed
  then show ?thesis using elected by (auto simp: Move record_elected)
qed

lemma election_inv_reach:
  assumes "proto_reach sha cfg strict s s'" and "election_inv cfg s" and "basic_inv sha cfg s"
  shows "election_inv cfg s' \<and> basic_inv sha cfg s' \<and> (\<forall>t j. p_elected s t = Some j \<longrightarrow> p_elected s' t = Some j)"
  using assms unfolding proto_reach_def
proof (induction rule: rtranclp_induct)
  case (step s1 s2)
  from step.hyps(2) obtain i acts n where "s2 = record_move i acts n s1" "cfg_contains cfg i"
    "move sha strict (inbox (p_sent s1) i) (p_node s1 i) acts n" by cases
  then have "election_inv cfg s2" using step by (auto intro: election_inv_move)
  with step show ?case using basic_inv_step elected_kept by blast
qed simp

text \<open>
  C32: a term has at most one leader.  If a node leads term \<open>t\<close> in a reachable cluster state and
  any node leads \<open>t\<close> in that state or any later one, they are the same node.
\<close>

theorem election_safety:
  assumes "config_ok cfg"
    and "cluster_reach sha cfg strict (cluster_init cfg) c" and "cluster_reach sha cfg strict c d"
    and "cl_live c i = Some n" and "r_role n = Leader"
    and "cl_live d j = Some m" and "r_role m = Leader" and "r_term m = r_term n"
  shows "i = j"
proof -
  have basic: "basic_inv sha cfg (proto_init cfg)" by (rule basic_inv_init[OF assms(1)])
  from abstracts_reach[OF assms(2) abstracts_init basic] obtain s where
    s: "proto_reach sha cfg strict (proto_init cfg) s" "abstracts cfg c s" by blast
  note inv = election_inv_reach[OF s(1) election_inv_init basic]
  from abstracts_reach[OF assms(3) s(2)] inv obtain s' where
    s': "proto_reach sha cfg strict s s'" "abstracts cfg d s'" by blast
  note inv' = election_inv_reach[OF s'(1)]
  have "p_elected s (r_term n) = Some i"
    using leader_elected[of cfg s i] inv abstracts_live[OF s(2) assms(4)] assms(5) by simp
  then have "p_elected s' (r_term n) = Some i" using inv' inv by blast
  moreover have "p_elected s' (r_term m) = Some j"
    using leader_elected[of cfg s' j] inv' inv abstracts_live[OF s'(2) assms(6)] assms(7) by simp
  ultimately show ?thesis using assms(8) by simp
qed

theorem election_safety_witness:
  "\<exists>c i j n m. cluster_reach id three_voters True (cluster_init three_voters) c
     \<and> cl_live c i = Some n \<and> r_role n = Leader \<and> cl_live c j = Some m \<and> r_role m = Leader
     \<and> r_term m = r_term n \<and> i = j"
proof -
  obtain c n where c: "cluster_reach id three_voters True (cluster_init three_voters) c"
    and n: "cl_live c 1 = Some n" "r_role n = Leader" by (rule replicated)
  have "cluster_reach id three_voters True c c" by (simp add: cluster_reach_def)
  from election_safety[OF three_voters_ok c this n n refl] c n show ?thesis by blast
qed

end
