(* ===== verification/Raft_Matching.thy ===== *)
theory Raft_Matching
  imports Raft_Election
begin

text \<open>
  Log matching: two logs that hold entries of the same index and term agree up to that index.

  The history \<open>p_log\<close> gives for each term the longest log its leader had.  Every log, every message
  with entries and every snapshot boundary is a piece of such a log, and each entry of a log comes
  with everything that preceded it in the log of its leader.
\<close>

section \<open>Pieces of leader logs\<close>

definition term_at :: "log_entry list \<Rightarrow> nat \<Rightarrow> nat" where
  "term_at xs k = (if k = 0 then 0 else le_term (xs ! (k - 1)))"

definition traced :: "(nat \<Rightarrow> log_entry list) \<Rightarrow> log_entry list \<Rightarrow> bool" where
  "traced logs xs =
     ((\<forall>k < length xs. le_index (xs ! k) = k + 1 \<and> take (k + 1) xs = take (k + 1) (logs (le_term (xs ! k))))
      \<and> sorted (map le_term xs))"

definition boundary_ok :: "(nat \<Rightarrow> log_entry list) \<Rightarrow> raft_log \<Rightarrow> bool" where
  "boundary_ok logs l =
     (rl_base_index l \<le> length (logs (rl_base_term l))
      \<and> term_at (logs (rl_base_term l)) (rl_base_index l) = rl_base_term l)"

definition extends :: "(nat \<Rightarrow> log_entry list) \<Rightarrow> (nat \<Rightarrow> log_entry list) \<Rightarrow> bool" where
  "extends logs logs' = (\<forall>t. take (length (logs t)) (logs' t) = logs t)"

lemma term_at_0 [simp]: "term_at xs 0 = 0"
  by (simp add: term_at_def)

lemma term_at_Suc: "term_at xs (Suc k) = le_term (xs ! k)"
  by (simp add: term_at_def)

lemma term_at_append: "k \<le> length xs \<Longrightarrow> term_at (xs @ ys) k = term_at xs k"
  by (auto simp: term_at_def nth_append)

lemma term_at_take: "k \<le> m \<Longrightarrow> term_at (take m xs) k = term_at xs k"
  by (auto simp: term_at_def)

lemma tracedD:
  assumes "traced logs xs" and "k < length xs"
  shows "le_index (xs ! k) = k + 1" and "take (Suc k) xs = take (Suc k) (logs (le_term (xs ! k)))"
  using assms by (auto simp: traced_def)

lemma traced_prefix:
  assumes "traced logs xs" and "k \<le> length xs"
  shows "take k xs = take k (logs (term_at xs k))"
proof (cases k)
  case (Suc j)
  then show ?thesis using tracedD(2)[OF assms(1), of j] assms(2) by (simp add: term_at_Suc)
qed simp

lemma traced_prefix_length:
  assumes "traced logs xs" and "k \<le> length xs"
  shows "k \<le> length (logs (term_at xs k))"
proof -
  have "length (take k xs) = length (take k (logs (term_at xs k)))" using traced_prefix[OF assms] by simp
  then show ?thesis using assms(2) by simp
qed

lemma traced_match:
  assumes "traced logs xs" and "traced logs ys" and "k \<le> length xs" and "k \<le> length ys"
    and "term_at xs k = term_at ys k"
  shows "take k xs = take k ys"
  using traced_prefix[OF assms(1,3)] traced_prefix[OF assms(2,4)] assms(5) by simp

lemma traced_take: "traced logs xs \<Longrightarrow> traced logs (take m xs)"
  by (auto simp: traced_def min_def take_map[symmetric] intro: sorted_wrt_take)

lemma traced_nil [simp]: "traced logs []"
  by (simp add: traced_def)

lemma traced_terms: "traced logs xs \<Longrightarrow> j \<le> k \<Longrightarrow> k \<le> length xs \<Longrightarrow> term_at xs j \<le> term_at xs k"
  using sorted_nth_mono[of "map le_term xs" "j - 1" "k - 1"] by (cases j; cases k) (auto simp: traced_def term_at_Suc)

lemma extends_refl [simp]: "extends logs logs"
  by (simp add: extends_def)

lemma extends_take: "extends logs logs' \<Longrightarrow> k \<le> length (logs t) \<Longrightarrow> take k (logs' t) = take k (logs t)"
  by (metis extends_def min.absorb1 take_take)

lemma extends_length: "extends logs logs' \<Longrightarrow> length (logs t) \<le> length (logs' t)"
  by (metis extends_def length_take min.cobounded2 min.commute)

lemma extends_term_at: "extends logs logs' \<Longrightarrow> k \<le> length (logs t) \<Longrightarrow> term_at (logs' t) k = term_at (logs t) k"
  by (metis extends_take order_refl term_at_take)

lemma traced_extends:
  assumes "traced logs xs" and "extends logs logs'"
  shows "traced logs' xs"
proof -
  have "take (Suc k) (logs' (le_term (xs ! k))) = take (Suc k) (logs (le_term (xs ! k)))" if "k < length xs" for k
    using extends_take[OF assms(2)] traced_prefix_length[OF assms(1), of "Suc k"] that by (simp add: term_at_Suc)
  then show ?thesis using assms(1) by (auto simp: traced_def)
qed

lemma boundary_extends: "boundary_ok logs l \<Longrightarrow> extends logs logs' \<Longrightarrow> boundary_ok logs' l"
  unfolding boundary_ok_def using extends_length extends_term_at by (metis order_trans)

lemma full_log_extends: "boundary_ok logs l \<Longrightarrow> extends logs logs' \<Longrightarrow> full_log logs' l = full_log logs l"
  by (simp add: boundary_ok_def full_log_def extends_take)

section \<open>Whole logs\<close>

lemma length_full_log: "boundary_ok logs l \<Longrightarrow> log_wf l \<Longrightarrow> length (full_log logs l) = log_last_index l"
  by (simp add: boundary_ok_def full_log_def log_last_index_eq)

lemma drop_full_log:
  "boundary_ok logs l \<Longrightarrow> rl_base_index l \<le> k
   \<Longrightarrow> drop k (full_log logs l) = drop (k - rl_base_index l) (rl_entries l)"
  by (simp add: boundary_ok_def full_log_def)

lemma log_term_full:
  assumes "boundary_ok logs l" and "log_wf l" and "log_term l k = Some t"
  shows "term_at (full_log logs l) k = t" and "k \<le> length (full_log logs l)"
proof -
  let ?b = "rl_base_index l" and ?pre = "take (rl_base_index l) (logs (rl_base_term l))"
  have pre: "length ?pre = ?b" using assms(1) by (simp add: boundary_ok_def)
  obtain d where k: "k = ?b + d" using log_term_SomeD[OF assms(2,3)] by (metis le_iff_add)
  have d: "d \<le> length (rl_entries l)" using log_term_SomeD[OF assms(2,3)] log_last_index_eq[OF assms(2)] k by simp
  show "k \<le> length (full_log logs l)" using pre d k by (simp add: full_log_def)
  show "term_at (full_log logs l) k = t"
  proof (cases d)
    case 0
    then show ?thesis using assms k pre by (simp add: full_log_def term_at_append term_at_take boundary_ok_def)
  next
    case (Suc j)
    then show ?thesis using assms(3) k pre d log_term_offset[of l d]
      by (simp add: full_log_def term_at_Suc nth_append)
  qed
qed

lemma last_term_full:
  "boundary_ok logs l \<Longrightarrow> log_wf l \<Longrightarrow> term_at (full_log logs l) (length (full_log logs l)) = log_last_term l"
  using log_term_full(1)[OF _ _ log_term_last] by (simp add: length_full_log)

lemma full_log_append: "full_log logs (log_append es l) = full_log logs l @ es"
  by (simp add: full_log_def)

lemma full_log_cut:
  assumes "boundary_ok logs l" and "rl_base_index l < index"
  shows "full_log logs (truncate_and_append index es l) = take (index - 1) (full_log logs l) @ es"
proof -
  have "length (take (rl_base_index l) (logs (rl_base_term l))) = rl_base_index l"
    using assms(1) by (simp add: boundary_ok_def)
  then show ?thesis using assms(2)
    by (simp add: full_log_def truncate_and_append_def Let_def)
qed

lemma traced_all_terms:
  assumes "traced logs xs" and "e \<in> set xs"
  shows "le_term e \<le> term_at xs (length xs)"
proof -
  from assms(2) obtain k where "k < length xs" "e = xs ! k" by (auto simp: in_set_conv_nth)
  then show ?thesis using traced_terms[OF assms(1), of "Suc k" "length xs"] by (simp add: term_at_Suc)
qed

text \<open>Compaction and installation move the boundary along the log of a leader.\<close>

lemma compact_full_log:
  assumes ok: "boundary_ok logs l" and wf: "log_wf l" and traced: "traced logs (full_log logs l)"
    and tm: "log_term l index = Some t"
  shows "full_log logs (log_compact index t True l) = full_log logs l"
    and "boundary_ok logs (log_compact index t True l)"
proof -
  let ?F = "full_log logs l"
  note at = log_term_full[OF ok wf tm]
  have base: "rl_base_index l \<le> index" by (rule log_term_SomeD(1)[OF wf tm])
  have pre: "take index (logs t) = take index ?F" using traced_prefix[OF traced at(2)] at(1) by simp
  have "full_log logs (log_compact index t True l) = take index ?F @ drop index ?F"
    using log_compact_retain(1)[OF wf tm] pre drop_full_log[OF ok base] by (simp add: full_log_def)
  then show "full_log logs (log_compact index t True l) = ?F" by simp
  show "boundary_ok logs (log_compact index t True l)"
    using traced_prefix_length[OF traced at(2)] at pre
    by (simp add: boundary_ok_def) (metis order_refl term_at_take)
qed

lemma install_full_log:
  assumes "traced logs (logs T)" and "index \<le> length (logs T)" and "term_at (logs T) index = t"
  shows "full_log logs (log_compact index t False l) = take index (logs T)"
    and "boundary_ok logs (log_compact index t False l)"
proof -
  have pre: "take index (logs t) = take index (logs T)" using traced_prefix[OF assms(1,2)] assms(3) by simp
  then show "full_log logs (log_compact index t False l) = take index (logs T)"
    by (simp add: full_log_def log_compact_def Let_def)
  show "boundary_ok logs (log_compact index t False l)"
    using traced_prefix_length[OF assms(1,2)] assms(3) pre
    by (simp add: boundary_ok_def) (metis order_refl term_at_take)
qed

text \<open>Storing a piece of a leader's log makes the log a prefix of it.\<close>

definition segment :: "log_entry list \<Rightarrow> nat \<Rightarrow> nat \<Rightarrow> log_entry list \<Rightarrow> bool" where
  "segment xs prev prev_term entries =
     (prev + length entries \<le> length xs \<and> take (length entries) (drop prev xs) = entries
      \<and> term_at xs prev = prev_term)"

lemma segment_nth: "segment xs prev prev_term entries \<Longrightarrow> k < length entries \<Longrightarrow> entries ! k = xs ! (prev + k)"
  unfolding segment_def by (metis add_leD1 nth_drop nth_take)

lemma segment_extends:
  "segment (logs t) prev prev_term entries \<Longrightarrow> extends logs logs' \<Longrightarrow> segment (logs' t) prev prev_term entries"
  using extends_length[of logs logs' t] extends_term_at[of logs logs' prev t]
    extends_take[of logs logs' "prev + length entries" t]
  by (simp add: segment_def take_drop add.commute)

lemma stored_prefix:
  assumes ok: "boundary_ok logs l" and wf: "log_wf l" and traced: "traced logs (full_log logs l)"
    and leader: "traced logs (logs T)" and seg: "segment (logs T) prev prev_term entries"
    and prev: "log_term l prev = Some prev_term"
    and idx: "\<forall>k < length entries. le_index (entries ! k) = prev + 1 + k"
    and stored: "append_stored l (take m entries)" and m: "m \<le> length entries"
  shows "take (prev + m) (full_log logs l) = take (prev + m) (logs T)" and "prev + m \<le> length (full_log logs l)"
proof -
  let ?F = "full_log logs l"
  have at: "term_at ?F (prev + m) = term_at (logs T) (prev + m) \<and> prev + m \<le> length ?F"
  proof (cases m)
    case 0
    then show ?thesis using log_term_full[OF ok wf prev] seg by (simp add: segment_def)
  next
    case (Suc j)
    then have j: "j < length entries" "entries ! j \<in> set (take m entries)"
      using m by (auto simp: in_set_conv_nth)
    then have "log_term l (le_index (entries ! j)) = Some (le_term (entries ! j))"
      using stored by (auto simp: append_stored_def)
    moreover have "le_index (entries ! j) = prev + m" using idx j(1) Suc by simp
    ultimately have "log_term l (prev + m) = Some (le_term (entries ! j))" by simp
    from log_term_full[OF ok wf this] show ?thesis
      using segment_nth[OF seg j(1)] Suc by (simp add: term_at_Suc)
  qed
  moreover have "prev + m \<le> length (logs T)" using seg m by (simp add: segment_def)
  ultimately show "take (prev + m) ?F = take (prev + m) (logs T)" "prev + m \<le> length ?F"
    using traced_match[OF traced leader] by simp_all
qed

lemma store_full_log:
  assumes ok: "boundary_ok logs l" and wf: "log_wf l" and traced: "traced logs (full_log logs l)"
    and leader: "traced logs (logs T)" and seg: "segment (logs T) prev prev_term entries"
    and prev: "log_term l prev = Some prev_term"
    and idx: "\<forall>k < length entries. le_index (entries ! k) = prev + 1 + k"
    and stored: "append_stored l (take m entries)" and m: "m \<le> length entries"
  shows "full_log logs (truncate_and_append (prev + 1 + m) (drop m entries) l) = take (prev + length entries) (logs T)"
proof -
  have "rl_base_index l < prev + 1 + m" using log_term_SomeD(1)[OF wf prev] by simp
  from full_log_cut[OF ok this, of "drop m entries"]
  have "full_log logs (truncate_and_append (prev + 1 + m) (drop m entries) l)
      = take (prev + m) (logs T) @ drop m entries"
    using stored_prefix[OF assms] by simp
  moreover have "drop m entries = take (length entries - m) (drop (prev + m) (logs T))"
    using seg by (metis add.commute drop_drop drop_take segment_def)
  moreover have "take (prev + m) (logs T) @ take (length entries - m) (drop (prev + m) (logs T))
      = take (prev + length entries) (logs T)"
    using take_add[of "prev + m" "length entries - m" "logs T"] m by simp
  ultimately show ?thesis by simp
qed

section \<open>What moves do to the log\<close>

text \<open>
  The messages a node may act on are pieces of the log of the leader of its term.
\<close>

definition leader_pieces :: "(node_id \<times> message) set \<Rightarrow> nat \<Rightarrow> (nat \<Rightarrow> log_entry list) \<Rightarrow> bool" where
  "leader_pieces M T logs =
     ((\<forall>src prev prev_term entries leader_commit token.
          (src, AppendEntries T src prev prev_term entries leader_commit token) \<in> M
          \<longrightarrow> segment (logs T) prev prev_term entries)
      \<and> (\<forall>src metadata offset data finished. (src, InstallSnapshot T src metadata offset data finished) \<in> M
          \<longrightarrow> sm_last_included_index metadata \<le> length (logs T)
              \<and> term_at (logs T) (sm_last_included_index metadata) = sm_last_included_term metadata))"

lemma append_received_segment:
  assumes "append_received M n src prev prev_term entries leader_commit" and "leader_pieces M (r_term n) logs"
  shows "segment (logs (r_term n)) prev prev_term entries" and "log_term (r_log n) prev = Some prev_term"
    and "\<forall>k < length entries. le_index (entries ! k) = prev + 1 + k" and "r_role n = Follower"
proof -
  from assms(1) obtain token where
    "(src, AppendEntries (r_term n) src prev prev_term entries leader_commit token) \<in> M"
    and n: "r_role n = Follower" "log_term (r_log n) prev = Some prev_term"
      "valid_entry_sequence prev prev_term (r_term n) entries"
    by (auto simp: append_received_def)
  with assms(2) show "segment (logs (r_term n)) prev prev_term entries"
    unfolding leader_pieces_def by blast
  from n show "log_term (r_log n) prev = Some prev_term" "r_role n = Follower"
    "\<forall>k < length entries. le_index (entries ! k) = prev + 1 + k"
    unfolding valid_entry_sequence_iff by blast+
qed

lemma move_log:
  assumes wf: "raft_wf sha n" and move: "move sha strict M n acts n'"
    and ok: "boundary_ok logs (r_log n)" and traced: "traced logs (full_log logs (r_log n))"
    and leader: "traced logs (logs (r_term n))" and pieces: "leader_pieces M (r_term n) logs"
  obtains (Same) "full_log logs (r_log n') = full_log logs (r_log n)" and "boundary_ok logs (r_log n')"
      and "r_role n' = Leader \<longrightarrow> r_role n = Leader" and "r_role n' = Candidate \<longrightarrow> r_term n < r_term n' \<or> r_role n = Candidate"
  | (Grow) e where "full_log logs (r_log n') = full_log logs (r_log n) @ [e]" and "boundary_ok logs (r_log n')"
      and "le_index e = log_last_index (r_log n) + 1" and "le_term e = r_term n"
      and "r_role n' = Leader" and "r_hard_state n' = r_hard_state n" and "r_applied_index n' = r_applied_index n"
  | (Adopt) m where "full_log logs (r_log n') = take m (logs (r_term n))" and "boundary_ok logs (r_log n')"
      and "m \<le> length (logs (r_term n))" and "r_term n' = r_term n" and "r_role n' = Follower"
      and "r_commit_index n < m"
      and "\<And>k. k \<le> length (full_log logs (r_log n)) \<Longrightarrow> k \<le> length (logs (r_term n))
        \<Longrightarrow> take k (full_log logs (r_log n)) = take k (logs (r_term n)) \<Longrightarrow> k \<le> m"
proof -
  have lwf: "log_wf (r_log n)" by (rule wf_simps(1)[OF wf])
  show thesis using move
  proof cases
    case (Lead entry)
    then show thesis using ok by (intro Grow[of entry]) (simp_all add: full_log_append boundary_ok_def)
  next
    case (Extend entry payload)
    then show thesis using ok by (intro Grow[of entry]) (simp_all add: full_log_append boundary_ok_def)
  next
    case (Store src prev prev_term entries leader_commit index position suffix mutation)
    note received = append_received_segment[OF Store(3) pieces]
    note facts = store_facts[OF wf Store(3,4)]
    have index: "index = prev + 1 + position" "position \<le> length entries" using facts(1,2) by auto
    have new: "full_log logs (r_log n') = take (prev + length entries) (logs (r_term n))"
      using store_full_log[OF ok lwf traced leader received(1-3) facts(6) index(2)] Store index(1) by simp
    show thesis
    proof (rule Adopt[OF new])
      show "prev + length entries \<le> length (logs (r_term n))" using received(1) by (simp add: segment_def)
      show "boundary_ok logs (r_log n')"
        using ok Store by (simp add: boundary_ok_def truncate_and_append_def Let_def)
      show "r_term n' = r_term n" "r_role n' = Follower" using Store received(4) by simp_all
      show "r_commit_index n < prev + length entries" using facts(1,2,5) by simp
      fix k assume k: "k \<le> length (full_log logs (r_log n))" "k \<le> length (logs (r_term n))"
        "take k (full_log logs (r_log n)) = take k (logs (r_term n))"
      show "k \<le> prev + length entries"
      proof (rule ccontr)
        assume "\<not> k \<le> prev + length entries"
        then have less: "index \<le> k" "prev + position < k" using index(1) facts(2) by auto
        have "term_at (full_log logs (r_log n)) index = le_term (entries ! position)"
          using k(3) less segment_nth[OF received(1) facts(2)] index(1)
          by (metis add.commute add.left_commute nth_take plus_1_eq_Suc term_at_Suc)
        moreover have "rl_base_index (r_log n) \<le> index" "index \<le> log_last_index (r_log n)"
          using facts(3) less(1) k(1) length_full_log[OF ok lwf] by auto
        then obtain u where u: "log_term (r_log n) index = Some u" using log_term_Some_iff[OF lwf] by blast
        ultimately show False using log_term_full(1)[OF ok lwf u] facts(9) by simp
      qed
    qed
  next
    case (Compact s index l)
    then show thesis using compact_full_log[OF ok lwf traced, of index] by (intro Same) auto
  next
    case (Install src s offset data index tm l hs)
    have piece: "index \<le> length (logs (r_term n))" "term_at (logs (r_term n)) index = tm"
      using pieces Install(3) unfolding leader_pieces_def Install(7,8) by blast+
    show thesis
    proof (cases "log_term (r_log n) index = Some tm")
      case True
      then have "r_log n' = log_compact index tm True (r_log n)" using Install by simp
      then show thesis using compact_full_log[OF ok lwf traced True] Install(1,2,4) by (intro Same) simp_all
    next
      case False
      then have log: "r_log n' = log_compact index tm False (r_log n)" using Install by simp
      note new = install_full_log[OF leader piece, of "r_log n"]
      show thesis
      proof (rule Adopt)
        show "full_log logs (r_log n') = take index (logs (r_term n))" "boundary_ok logs (r_log n')"
          using new log by simp_all
        show "index \<le> length (logs (r_term n))" by (rule piece(1))
        show "r_term n' = r_term n" "r_role n' = Follower" "r_commit_index n < index" using Install by simp_all
        fix k assume k: "k \<le> length (full_log logs (r_log n))" "k \<le> length (logs (r_term n))"
          "take k (full_log logs (r_log n)) = take k (logs (r_term n))"
        show "k \<le> index"
        proof (rule ccontr)
          assume "\<not> k \<le> index"
          then have "index \<le> k" by simp
          have "rl_base_index (r_log n) \<le> index"
            using Install(9) wf by (simp add: raft_wf_def)
          moreover have "index \<le> log_last_index (r_log n)"
            using \<open>index \<le> k\<close> k(1) length_full_log[OF ok lwf] by simp
          ultimately obtain u where u: "log_term (r_log n) index = Some u" using log_term_Some_iff[OF lwf] by blast
          have "term_at (full_log logs (r_log n)) index = tm"
            using k(3) \<open>index \<le> k\<close> piece(2) by (metis term_at_take)
          with log_term_full(1)[OF ok lwf u] u False show False by simp
        qed
      qed
    qed
  next
    case Quiet
    then show thesis using ok by (intro Same) (auto simp: quiet_def same_durable_def)
  qed (use ok in \<open>auto intro!: Same\<close>)
qed

lemma move_append_sent:
  assumes "move sha strict M n acts n'"
    and "Send to (AppendEntries t l prev prev_term entries leader_commit token) \<in> set acts"
  shows "r_role n = Leader \<and> n' = n \<and> t = r_term n \<and> l = r_id n \<and> leader_commit = r_commit_index n
    \<and> log_term (r_log n) prev = Some prev_term
    \<and> (\<exists>k. entries = take k (drop (prev - rl_base_index (r_log n)) (rl_entries (r_log n))))"
  using assms by cases (auto dest: silent_sends)

lemma move_snapshot_sent:
  assumes "move sha strict M n acts n'"
    and "Send to (InstallSnapshot t l metadata offset data finished) \<in> set acts"
  shows "r_role n = Leader \<and> n' = n \<and> t = r_term n \<and> l = r_id n \<and> (\<exists>s. r_snapshot n = Some s \<and> metadata = ps_metadata s)"
  using assms by cases (auto dest: silent_sends)

section \<open>The invariant\<close>

abbreviation p_full :: "proto \<Rightarrow> node_id \<Rightarrow> log_entry list" where
  "p_full s i \<equiv> full_log (p_log s) (r_log (p_node s i))"

definition logs_inv :: "configuration \<Rightarrow> proto \<Rightarrow> bool" where
  "logs_inv cfg s =
     ((\<forall>i. cfg_contains cfg i \<longrightarrow> boundary_ok (p_log s) (r_log (p_node s i)) \<and> traced (p_log s) (p_full s i)
          \<and> (r_role (p_node s i) = Leader \<longrightarrow> p_log s (r_term (p_node s i)) = p_full s i))
      \<and> (\<forall>t. traced (p_log s) (p_log s t) \<and> (\<forall>e \<in> set (p_log s t). le_term e \<le> t)
          \<and> (p_log s t \<noteq> [] \<longrightarrow> p_elected s t \<noteq> None)))"

definition pieces_inv :: "proto \<Rightarrow> bool" where
  "pieces_inv s =
     ((\<forall>src to t l prev prev_term entries leader_commit token.
          (src, to, AppendEntries t l prev prev_term entries leader_commit token) \<in> p_sent s \<longrightarrow>
          l = src \<and> p_elected s t = Some src \<and> segment (p_log s t) prev prev_term entries)
      \<and> (\<forall>src to t l metadata offset data finished.
          (src, to, InstallSnapshot t l metadata offset data finished) \<in> p_sent s \<longrightarrow>
          l = src \<and> p_elected s t = Some src \<and> sm_last_included_index metadata \<le> length (p_log s t)
          \<and> term_at (p_log s t) (sm_last_included_index metadata) = sm_last_included_term metadata))"

lemma logs_invD:
  assumes "logs_inv cfg s"
  shows "cfg_contains cfg i \<Longrightarrow> boundary_ok (p_log s) (r_log (p_node s i))"
    and "cfg_contains cfg i \<Longrightarrow> traced (p_log s) (p_full s i)"
    and "cfg_contains cfg i \<Longrightarrow> r_role (p_node s i) = Leader \<Longrightarrow> p_log s (r_term (p_node s i)) = p_full s i"
    and "traced (p_log s) (p_log s t)" and "e \<in> set (p_log s t) \<Longrightarrow> le_term e \<le> t"
    and "p_elected s t = None \<Longrightarrow> p_log s t = []"
  using assms unfolding logs_inv_def by blast+

lemma pieces_inv_inbox: "pieces_inv s \<Longrightarrow> leader_pieces (inbox (p_sent s) i) t (p_log s)"
  unfolding pieces_inv_def leader_pieces_def inbox_def by blast

lemma record_log:
  "p_log (record_move i acts n s) =
     (if r_role n = Leader then (p_log s)(r_term n := full_log (p_log s) (r_log n)) else p_log s)"
  by (simp add: record_move_def)

text \<open>The state in which one node moves.\<close>

definition ready :: "(bytes \<Rightarrow> bytes) \<Rightarrow> configuration \<Rightarrow> proto \<Rightarrow> bool" where
  "ready sha cfg s = (basic_inv sha cfg s \<and> election_inv cfg s \<and> logs_inv cfg s \<and> pieces_inv s)"

lemma readyD:
  assumes "ready sha cfg s"
  shows "basic_inv sha cfg s" and "election_inv cfg s" and "logs_inv cfg s" and "pieces_inv s"
    and "cfg_contains cfg i \<Longrightarrow> raft_wf sha (p_node s i)" and "cfg_contains cfg i \<Longrightarrow> r_id (p_node s i) = i"
    and "cfg_contains cfg i \<Longrightarrow> r_configuration (p_node s i) = cfg"
  using assms by (auto simp: ready_def basic_inv_def)

lemma length_p_full:
  "ready sha cfg s \<Longrightarrow> cfg_contains cfg i \<Longrightarrow> length (p_full s i) = log_last_index (r_log (p_node s i))"
  by (rule length_full_log[OF logs_invD(1)[OF readyD(3)] wf_simps(1)[OF readyD(5)]])

text \<open>A move of one node leaves the leader logs as they are or adds an entry to that of its own term.\<close>

lemma boundary_after:
  assumes ready: "ready sha cfg s" and member: "cfg_contains cfg i"
    and move: "move sha strict (inbox (p_sent s) i) (p_node s i) acts n"
  shows "boundary_ok (p_log s) (r_log n)"
  using move_log[OF readyD(5)[OF ready member] move logs_invD(1,2)[OF readyD(3)[OF ready] member]
      logs_invD(4)[OF readyD(3)[OF ready]] pieces_inv_inbox[OF readyD(4)[OF ready]]] .

lemma p_log_after:
  assumes ready: "ready sha cfg s" and member: "cfg_contains cfg i"
    and move: "move sha strict (inbox (p_sent s) i) (p_node s i) acts n"
  obtains (Kept) "p_log (record_move i acts n s) = p_log s"
      and "full_log (p_log s) (r_log n) = p_full s i
        \<or> (\<exists>m. full_log (p_log s) (r_log n) = take m (p_log s (r_term (p_node s i))))"
      and "r_role n = Leader \<longrightarrow> r_role (p_node s i) = Leader \<and> full_log (p_log s) (r_log n) = p_full s i"
  | (Grown) e where "r_role n = Leader" and "r_term n = r_term (p_node s i)"
      and "p_log (record_move i acts n s) = (p_log s)(r_term n := p_full s i @ [e])"
      and "full_log (p_log s) (r_log n) = p_full s i @ [e]"
      and "le_index e = length (p_full s i) + 1" and "le_term e = r_term n"
      and "p_log s (r_term n) = p_full s i \<or> p_log s (r_term n) = [] \<and> p_elected s (r_term n) = None"
proof -
  note inv = readyD(1-4)[OF ready] and wf = readyD(5)[OF ready member]
  let ?m = "p_node s i"
  have lead: "r_term n = r_term ?m" "p_log s (r_term ?m) = p_full s i \<or> p_log s (r_term ?m) = [] \<and> p_elected s (r_term ?m) = None"
    if "r_role n = Leader"
    using move_leader[OF move that] new_leader_first[OF inv(2) member] logs_invD(3,6)[OF inv(3)] member readyD(7)[OF ready member]
    by auto
  show thesis
  proof (cases rule: move_log[OF wf move logs_invD(1,2)[OF inv(3) member] logs_invD(4)[OF inv(3)] pieces_inv_inbox[OF inv(4)]])
    case 1
    have "p_log (record_move i acts n s) = p_log s"
      using 1 lead logs_invD(3)[OF inv(3) member] by (auto simp: record_log fun_upd_idem)
    with 1 show ?thesis by (intro Kept) simp_all
  next
    case (2 e)
    with lead show ?thesis by (intro Grown[of e]) (auto simp: record_log length_p_full[OF ready member])
  next
    case (3 m)
    then show ?thesis by (intro Kept) (auto simp: record_log)
  qed
qed

lemma p_log_extends:
  assumes "ready sha cfg s" and "cfg_contains cfg i"
    and "move sha strict (inbox (p_sent s) i) (p_node s i) acts n"
  shows "extends (p_log s) (p_log (record_move i acts n s))"
  using assms by (cases rule: p_log_after[OF assms]) (auto simp: extends_def)

lemma p_full_after:
  assumes ready: "ready sha cfg s" and member: "cfg_contains cfg i" "cfg_contains cfg j"
    and move: "move sha strict (inbox (p_sent s) i) (p_node s i) acts n"
  shows "p_full (record_move i acts n s) j = (if j = i then full_log (p_log s) (r_log n) else p_full s j)"
  using p_log_extends[OF ready member(1) move] boundary_after[OF ready member(1) move]
    logs_invD(1)[OF readyD(3)[OF ready] member(2)]
  by (auto intro: full_log_extends)

lemma traced_grown:
  assumes "traced logs xs" and "extends logs logs'" and "logs' (le_term e) = xs @ [e]"
    and "le_index e = length xs + 1" and "term_at xs (length xs) \<le> le_term e"
  shows "traced logs' (xs @ [e])"
proof -
  have old: "traced logs' xs" by (rule traced_extends[OF assms(1,2)])
  have "sorted (map le_term xs @ [le_term e])"
    using old assms(5) by (intro sorted_snoc) (auto simp: traced_def term_at_def last_conv_nth)
  then show ?thesis using old assms(3,4) by (auto simp: traced_def nth_append less_Suc_eq)
qed

lemma logs_inv_move:
  assumes ready: "ready sha cfg s" and member: "cfg_contains cfg i"
    and move: "move sha strict (inbox (p_sent s) i) (p_node s i) acts n"
  shows "logs_inv cfg (record_move i acts n s)"
proof -
  let ?s = "record_move i acts n s" and ?m = "p_node s i"
  note inv = readyD(1-4)[OF ready] and wf = readyD(5)[OF ready member]
  note ext = p_log_extends[OF ready member move] and full = p_full_after[OF ready member _ move]
  have election: "election_inv cfg ?s" by (rule election_inv_move[OF inv(2,1) member move])
  have last: "term_at (p_full s i) (length (p_full s i)) \<le> r_term ?m"
    using last_term_full[OF logs_invD(1)[OF inv(3) member] wf_simps(1)[OF wf]] wf by (simp add: raft_wf_def)
  have unelected: "p_log s t = []" if "p_elected ?s t = None" for t
    using that logs_invD(6)[OF inv(3), of t] by (simp add: record_elected split: if_splits)
  have leaders: "traced (p_log ?s) (p_log ?s t) \<and> (\<forall>e \<in> set (p_log ?s t). le_term e \<le> t)
      \<and> (p_log ?s t \<noteq> [] \<longrightarrow> p_elected ?s t \<noteq> None)" for t
  proof (cases rule: p_log_after[OF ready member move])
    case 1
    then show ?thesis using logs_invD(4)[OF inv(3), of t] logs_invD(5)[OF inv(3), of _ t] unelected[of t] by auto
  next
    case (2 e)
    have "traced (p_log ?s) (p_full s i @ [e])"
      using 2 last by (intro traced_grown[OF logs_invD(2)[OF inv(3) member] ext]) auto
    moreover have "\<forall>e' \<in> set (p_full s i @ [e]). le_term e' \<le> r_term n"
      using 2 last traced_all_terms[OF logs_invD(2)[OF inv(3) member]] by fastforce
    ultimately show ?thesis
      using 2 traced_extends[OF logs_invD(4)[OF inv(3)] ext, of t] logs_invD(5)[OF inv(3), of _ t] unelected[of t]
      by (cases "t = r_term n") (auto simp: record_elected)
  qed
  have nodes: "boundary_ok (p_log ?s) (r_log (p_node ?s j)) \<and> traced (p_log ?s) (p_full ?s j)
      \<and> (r_role (p_node ?s j) = Leader \<longrightarrow> p_log ?s (r_term (p_node ?s j)) = p_full ?s j)"
    if j: "cfg_contains cfg j" for j
  proof (cases "j = i")
    case True
    have "traced (p_log ?s) (full_log (p_log s) (r_log n))
        \<and> (r_role n = Leader \<longrightarrow> p_log ?s (r_term n) = full_log (p_log s) (r_log n))"
    proof (cases rule: p_log_after[OF ready member move])
      case 1
      then show ?thesis using logs_invD(2)[OF inv(3) member] traced_take[OF logs_invD(4)[OF inv(3)]]
        by (auto simp: record_log)
    next
      case (2 e)
      then show ?thesis using leaders[of "r_term n"] by simp
    qed
    then show ?thesis
      using True full[OF member] boundary_extends[OF boundary_after[OF ready member move] ext] by simp
  next
    case False
    have "p_log ?s (r_term (p_node s j)) = p_log s (r_term (p_node s j))" if "r_role (p_node s j) = Leader"
    proof -
      have "r_role n = Leader \<Longrightarrow> r_term n \<noteq> r_term (p_node s j)"
        using leader_elected[OF election j] leader_elected[OF election member] that False by auto
      then show ?thesis by (auto simp: record_log)
    qed
    then show ?thesis
      using False full[OF j] boundary_extends[OF logs_invD(1)[OF inv(3) j] ext]
        traced_extends[OF logs_invD(2)[OF inv(3) j] ext] logs_invD(3)[OF inv(3) j] by simp
  qed
  show ?thesis unfolding logs_inv_def using leaders nodes by blast
qed

lemma elected_after:
  assumes "ready sha cfg s" and "cfg_contains cfg i"
    and "move sha strict (inbox (p_sent s) i) (p_node s i) acts n" and "p_elected s t = Some j"
  shows "p_elected (record_move i acts n s) t = Some j"
  using elected_kept[OF readyD(2,1)[OF assms(1)] proto_step.Move[OF assms(2,3)] assms(4)] .

lemma sent_after:
  "(src, to, m) \<in> p_sent (record_move i acts n s) \<longleftrightarrow> (src, to, m) \<in> p_sent s \<or> src = i \<and> Send to m \<in> set acts"
  by (auto simp: sends_def)

lemma pieces_inv_move:
  assumes ready: "ready sha cfg s" and member: "cfg_contains cfg i"
    and move: "move sha strict (inbox (p_sent s) i) (p_node s i) acts n"
  shows "pieces_inv (record_move i acts n s)"
proof -
  let ?s = "record_move i acts n s" and ?m = "p_node s i"
  note inv = readyD(1-4)[OF ready] and wf = readyD(5)[OF ready member] and id = readyD(6)[OF ready member]
  note ext = p_log_extends[OF ready member move] and kept = elected_after[OF ready member move]
  have bound: "boundary_ok (p_log s) (r_log ?m)" by (rule logs_invD(1)[OF inv(3) member])
  have lwf: "log_wf (r_log ?m)" by (rule wf_simps(1)[OF wf])
  have append: "l = src \<and> p_elected ?s t = Some src \<and> segment (p_log ?s t) prev prev_term entries"
    if sent: "(src, to, AppendEntries t l prev prev_term entries leader_commit token) \<in> p_sent ?s"
    for src to t l prev prev_term entries leader_commit token
  proof (cases "(src, to, AppendEntries t l prev prev_term entries leader_commit token) \<in> p_sent s")
    case True
    with inv(4) have "l = src \<and> p_elected s t = Some src \<and> segment (p_log s t) prev prev_term entries"
      unfolding pieces_inv_def by blast
    then show ?thesis using kept segment_extends[OF _ ext] by blast
  next
    case False
    with sent have src: "src = i" and "Send to (AppendEntries t l prev prev_term entries leader_commit token) \<in> set acts"
      unfolding sent_after by blast+
    note facts = move_append_sent[OF move this(2)]
    from facts obtain k where k: "entries = take k (drop (prev - rl_base_index (r_log ?m)) (rl_entries (r_log ?m)))" by blast
    have at: "log_term (r_log ?m) prev = Some prev_term" using facts by blast
    note here = log_term_full[OF bound lwf at]
    have log: "p_log s t = p_full s i" using facts logs_invD(3)[OF inv(3) member] by simp
    have "entries = take k (drop prev (p_full s i))"
      using k drop_full_log[OF bound log_term_SomeD(1)[OF lwf at]] by simp
    then have "segment (p_log s t) prev prev_term entries"
      unfolding log segment_def using here by (auto simp: min_def)
    then show ?thesis
      using kept[OF leader_elected[OF inv(2) member]] facts src id segment_extends[OF _ ext] by auto
  qed
  have snapshot: "l = src \<and> p_elected ?s t = Some src \<and> sm_last_included_index metadata \<le> length (p_log ?s t)
      \<and> term_at (p_log ?s t) (sm_last_included_index metadata) = sm_last_included_term metadata"
    if sent: "(src, to, InstallSnapshot t l metadata offset data finished) \<in> p_sent ?s"
    for src to t l metadata offset data finished
  proof -
    have "l = src \<and> p_elected ?s t = Some src \<and> sm_last_included_index metadata \<le> length (p_log s t)
      \<and> term_at (p_log s t) (sm_last_included_index metadata) = sm_last_included_term metadata"
    proof (cases "(src, to, InstallSnapshot t l metadata offset data finished) \<in> p_sent s")
      case True
      with inv(4) have "l = src \<and> p_elected s t = Some src \<and> sm_last_included_index metadata \<le> length (p_log s t)
        \<and> term_at (p_log s t) (sm_last_included_index metadata) = sm_last_included_term metadata"
        unfolding pieces_inv_def by blast
      then show ?thesis using kept by blast
    next
      case False
      with sent have src: "src = i" and "Send to (InstallSnapshot t l metadata offset data finished) \<in> set acts"
        unfolding sent_after by blast+
      note facts = move_snapshot_sent[OF move this(2)]
      then have "sm_last_included_index metadata = rl_base_index (r_log ?m)"
        "sm_last_included_term metadata = rl_base_term (r_log ?m)"
        using wf by (auto simp: raft_wf_def snapshot_link_def)
      with log_term_full[OF bound lwf log_term_base] show ?thesis
        using facts src id logs_invD(3)[OF inv(3) member] kept[OF leader_elected[OF inv(2) member]] by auto
    qed
    then show ?thesis using extends_length[OF ext, of t] extends_term_at[OF ext, of _ t] by auto
  qed
  show ?thesis unfolding pieces_inv_def using append snapshot by blast
qed

lemma ready_step:
  assumes "ready sha cfg s" and "proto_step sha cfg strict s s'"
  shows "ready sha cfg s'"
  using assms(2)
proof cases
  case (Move i acts n)
  then show ?thesis
    using assms basic_inv_step election_inv_move logs_inv_move pieces_inv_move unfolding ready_def by metis
qed

lemma ready_init: "config_ok cfg \<Longrightarrow> ready sha cfg (proto_init cfg)"
  using basic_inv_init election_inv_init
  by (auto simp: ready_def logs_inv_def pieces_inv_def proto_init_def raft_fresh_def boundary_ok_def full_log_def)

lemma ready_reach: "proto_reach sha cfg strict s s' \<Longrightarrow> ready sha cfg s \<Longrightarrow> ready sha cfg s'"
  unfolding proto_reach_def by (induction rule: rtranclp_induct) (auto intro: ready_step)

section \<open>Log matching\<close>

text \<open>
  C33: Log matching.  If the logs of two live nodes hold entries of the same index and term, they
  hold the same entries at that index and at every index before it that both still store.
\<close>

theorem log_matching:
  assumes "config_ok cfg" and "cluster_reach sha cfg strict (cluster_init cfg) c"
    and "cl_live c i = Some n" and "cl_live c j = Some m"
    and "log_entry_at (r_log n) k = Some e" and "log_entry_at (r_log m) k = Some e'"
    and "le_term e = le_term e'"
    and "h \<le> k" and "log_entry_at (r_log n) h = Some d" and "log_entry_at (r_log m) h = Some d'"
  shows "d = d'"
proof -
  from abstracts_reach[OF assms(2) abstracts_init basic_inv_init[OF assms(1)]] obtain s where
    s: "proto_reach sha cfg strict (proto_init cfg) s" "abstracts cfg c s" by blast
  note ready = ready_reach[OF s(1) ready_init[OF assms(1)]]
  have n: "cfg_contains cfg i" "p_node s i = n" and m: "cfg_contains cfg j" "p_node s j = m"
    using abstracts_live[OF s(2)] assms(3,4) by auto
  have at: "p_full s v ! (q - 1) = x \<and> q \<le> length (p_full s v) \<and> 0 < q"
    if v: "cfg_contains cfg v" "log_entry_at (r_log (p_node s v)) q = Some x" for v q x
    using v(2) logs_invD(1)[OF readyD(3)[OF ready] v(1)]
    by (auto simp: log_entry_at_def full_log_def boundary_ok_def nth_append Let_def split: if_splits)
  note ik = at[OF n(1), of k e] and jk = at[OF m(1), of k e']
  have "term_at (p_full s i) k = term_at (p_full s j) k"
    using ik jk assms(5-7) n m by (simp add: term_at_def)
  then have "take k (p_full s i) = take k (p_full s j)"
    using traced_match[OF logs_invD(2)[OF readyD(3)[OF ready] n(1)] logs_invD(2)[OF readyD(3)[OF ready] m(1)], of k]
      ik jk assms(5,6) n m by simp
  then have "take k (p_full s i) ! (h - 1) = take k (p_full s j) ! (h - 1)" by simp
  moreover have "h - 1 < k" using at[OF n(1), of h d] assms(8,9) n by auto
  ultimately show ?thesis using at[OF n(1), of h d] at[OF m(1), of h d'] assms(9,10) n m by simp
qed

theorem log_matching_witness:
  "\<exists>c n m d d'. cluster_reach id three_voters True (cluster_init three_voters) c
     \<and> cl_live c 1 = Some n \<and> cl_live c 2 = Some m
     \<and> log_entry_at (r_log n) 1 = Some d \<and> log_entry_at (r_log m) 1 = Some d' \<and> d = d'"
proof -
  obtain c n m where c: "cluster_reach id three_voters True (cluster_init three_voters) c"
    and n: "cl_live c 1 = Some n" "log_entry_at (r_log n) 1 = Some first_entry"
    and m: "cl_live c 2 = Some m" "log_entry_at (r_log m) 1 = Some first_entry" by (rule replicated)
  from log_matching[OF three_voters_ok c n(1) m(1) n(2) m(2) refl order_refl n(2) m(2)] c n m show ?thesis by blast
qed

end
