(* ===== verification/Raft_Ballot.thy ===== *)
theory Raft_Ballot
  imports Raft_Matching
begin

text \<open>
  What votes say about logs: every voter's log was at most as up to date as its candidate's, and the
  log of a leader starts with the log it campaigned with.
\<close>

section \<open>Candidates and voters\<close>

definition up_to_date :: "log_entry list \<Rightarrow> log_entry list \<Rightarrow> bool" where
  "up_to_date xs ys =
     (term_at ys (length ys) < term_at xs (length xs)
      \<or> term_at ys (length ys) = term_at xs (length xs) \<and> length ys \<le> length xs)"

definition ballot_inv :: "configuration \<Rightarrow> proto \<Rightarrow> bool" where
  "ballot_inv cfg s =
     ((\<forall>t i. p_elected s t = Some i \<longrightarrow> is_quorum cfg (p_voters s t)
          \<and> p_voters s t \<subseteq> {v. p_ballot s v t = Some i}
          \<and> take (length (p_cand s i t)) (p_log s t) = p_cand s i t)
      \<and> (\<forall>i. cfg_contains cfg i \<longrightarrow> r_role (p_node s i) = Candidate \<longrightarrow>
          p_cand s i (r_term (p_node s i)) = p_full s i \<and> log_last_term (r_log (p_node s i)) < r_term (p_node s i))
      \<and> (\<forall>c to t c' last_index last_term. (c, to, RequestVote t c' last_index last_term) \<in> p_sent s \<longrightarrow>
          t \<le> r_term (p_node s c) \<and> last_index = length (p_cand s c t)
          \<and> last_term = term_at (p_cand s c t) (length (p_cand s c t))
          \<and> traced (p_log s) (p_cand s c t) \<and> last_term < t)
      \<and> (\<forall>v t c. p_ballot s v t = Some c \<longrightarrow> cfg_contains cfg c \<and> t \<le> r_term (p_node s c)
          \<and> up_to_date (p_cand s c t) (p_vlog s v t)
          \<and> traced (p_log s) (p_vlog s v t) \<and> traced (p_log s) (p_cand s c t)
          \<and> term_at (p_cand s c t) (length (p_cand s c t)) < t))"

lemma ballot_invD:
  assumes "ballot_inv cfg s"
  shows "p_elected s t = Some i \<Longrightarrow> is_quorum cfg (p_voters s t)"
    and "p_elected s t = Some i \<Longrightarrow> v \<in> p_voters s t \<Longrightarrow> p_ballot s v t = Some i"
    and "p_elected s t = Some i \<Longrightarrow> take (length (p_cand s i t)) (p_log s t) = p_cand s i t"
    and "cfg_contains cfg i \<Longrightarrow> r_role (p_node s i) = Candidate \<Longrightarrow> p_cand s i (r_term (p_node s i)) = p_full s i"
    and "cfg_contains cfg i \<Longrightarrow> r_role (p_node s i) = Candidate \<Longrightarrow> log_last_term (r_log (p_node s i)) < r_term (p_node s i)"
    and "(c, to, RequestVote t c' last_index last_term) \<in> p_sent s \<Longrightarrow>
      t \<le> r_term (p_node s c) \<and> last_index = length (p_cand s c t)
      \<and> last_term = term_at (p_cand s c t) (length (p_cand s c t))
      \<and> traced (p_log s) (p_cand s c t) \<and> last_term < t"
    and "p_ballot s v t = Some c \<Longrightarrow> cfg_contains cfg c \<and> t \<le> r_term (p_node s c)
      \<and> up_to_date (p_cand s c t) (p_vlog s v t)
      \<and> traced (p_log s) (p_vlog s v t) \<and> traced (p_log s) (p_cand s c t)
      \<and> term_at (p_cand s c t) (length (p_cand s c t)) < t"
proof -
  note inv = assms[unfolded ballot_inv_def]
  show "p_elected s t = Some i \<Longrightarrow> is_quorum cfg (p_voters s t)"
    and "p_elected s t = Some i \<Longrightarrow> v \<in> p_voters s t \<Longrightarrow> p_ballot s v t = Some i"
    and "p_elected s t = Some i \<Longrightarrow> take (length (p_cand s i t)) (p_log s t) = p_cand s i t"
    using inv[THEN conjunct1] by blast+
  show "cfg_contains cfg i \<Longrightarrow> r_role (p_node s i) = Candidate \<Longrightarrow> p_cand s i (r_term (p_node s i)) = p_full s i"
    and "cfg_contains cfg i \<Longrightarrow> r_role (p_node s i) = Candidate \<Longrightarrow> log_last_term (r_log (p_node s i)) < r_term (p_node s i)"
    using inv[THEN conjunct2, THEN conjunct1] by blast+
  show "(c, to, RequestVote t c' last_index last_term) \<in> p_sent s \<Longrightarrow>
      t \<le> r_term (p_node s c) \<and> last_index = length (p_cand s c t)
      \<and> last_term = term_at (p_cand s c t) (length (p_cand s c t))
      \<and> traced (p_log s) (p_cand s c t) \<and> last_term < t"
    using inv[THEN conjunct2, THEN conjunct2, THEN conjunct1] by blast
  show "p_ballot s v t = Some c \<Longrightarrow> cfg_contains cfg c \<and> t \<le> r_term (p_node s c)
      \<and> up_to_date (p_cand s c t) (p_vlog s v t)
      \<and> traced (p_log s) (p_vlog s v t) \<and> traced (p_log s) (p_cand s c t)
      \<and> term_at (p_cand s c t) (length (p_cand s c t)) < t"
    using inv[THEN conjunct2, THEN conjunct2, THEN conjunct2] by blast
qed

lemma record_cand:
  "p_cand (record_move i acts n s) c t =
     (if c = i \<and> t = r_term n \<and> r_role n = Candidate then full_log (p_log s) (r_log n) else p_cand s c t)"
  by (auto simp: record_move_def)

lemma record_vlog:
  "p_vlog (record_move i acts n s) v t =
     (if v = i \<and> t = r_term n \<and> r_voted_for n \<noteq> None \<and> p_ballot s i t = None
      then full_log (p_log s) (r_log n) else p_vlog s v t)"
  by (auto simp: record_move_def)

lemma record_voters:
  "p_voters (record_move i acts n s) t =
     (if r_role n = Leader \<and> t = r_term n \<and> p_elected s t = None
      then bts_set (r_votes (p_node s i)) else p_voters s t)"
  by (auto simp: record_move_def)

section \<open>What moves do to candidates and votes\<close>

lemma move_candidate_log:
  assumes "move sha strict M n acts n'" and "r_role n' = Candidate"
  shows "r_log n' = r_log n
    \<or> (\<exists>index tm. r_log n' = log_compact index tm True (r_log n) \<and> log_term (r_log n) index = Some tm)"
  using assms by cases (auto simp: quiet_def same_durable_def append_received_def)

lemma move_vote_asked:
  assumes "move sha strict M n acts n'" and "Send to (RequestVote t c last_index last_term) \<in> set acts"
  shows "r_role n = Candidate \<and> n' = n \<and> t = r_term n \<and> c = r_id n
    \<and> last_index = log_last_index (r_log n) \<and> last_term = log_last_term (r_log n)"
  using assms by cases (auto dest: silent_sends)

text \<open>A vote is new in a campaign or when it is granted.\<close>

lemma move_vote_new:
  assumes "move sha strict M n acts n'" and "r_voted_for n' = Some c"
    and "\<not> (r_term n' = r_term n \<and> r_voted_for n = Some c)"
  obtains (Campaign) "c = r_id n" and "r_term n' = r_term n + 1" and "r_role n' = Candidate" and "r_log n' = r_log n"
  | (Grant) last_index last_term where "(c, RequestVote (r_term n) c last_index last_term) \<in> M"
      and "candidate_log_is_up_to_date (r_log n) last_index last_term" and "r_term n' = r_term n"
      and "r_log n' = r_log n" and "r_voted_for n = None"
  using assms by cases (auto simp: quiet_def same_durable_def append_received_def)

lemma up_to_date_refl [simp]: "up_to_date xs xs"
  by (simp add: up_to_date_def)

lemma cand_after:
  assumes ready: "ready sha cfg s" and inv: "ballot_inv cfg s" and member: "cfg_contains cfg i"
    and move: "move sha strict (inbox (p_sent s) i) (p_node s i) acts n"
    and past: "t \<le> r_term (p_node s c)"
  shows "p_cand (record_move i acts n s) c t = p_cand s c t"
proof (cases "c = i \<and> t = r_term n \<and> r_role n = Candidate")
  case True
  let ?m = "p_node s i"
  have same: "r_role ?m = Candidate" "r_term n = r_term ?m"
    using move_candidate[OF move] True past by auto
  note full = logs_invD(1,2)[OF readyD(3)[OF ready] member]
  have "full_log (p_log s) (r_log n) = p_full s i"
    using move_candidate_log[OF move] True
      compact_full_log(1)[OF full(1) wf_simps(1)[OF readyD(5)[OF ready member]] full(2)] by auto
  then show ?thesis using True same ballot_invD(4)[OF inv member] by (simp add: record_cand)
qed (auto simp: record_cand)

lemma term_after:
  assumes "ready sha cfg s" and "cfg_contains cfg i"
    and "move sha strict (inbox (p_sent s) i) (p_node s i) acts n"
  shows "r_term (p_node s c) \<le> r_term (p_node (record_move i acts n s) c)"
  using move_later[OF readyD(5)[OF assms(1,2)] assms(3)] by (simp add: later_def)

lemma vlog_after:
  "p_ballot s v t = Some c \<Longrightarrow> p_vlog (record_move i acts n s) v t = p_vlog s v t"
  by (auto simp: record_vlog)

lemma ballot_after:
  assumes "ready sha cfg s" and "cfg_contains cfg i"
    and "move sha strict (inbox (p_sent s) i) (p_node s i) acts n" and "p_ballot s v t = Some c"
  shows "p_ballot (record_move i acts n s) v t = Some c"
  using ballot_kept[OF readyD(2)[OF assms(1)] move_later[OF readyD(5)[OF assms(1,2)] assms(3)] assms(4)] .

lemma last_term_p_full:
  assumes "ready sha cfg s" and "cfg_contains cfg i"
  shows "term_at (p_full s i) (length (p_full s i)) = log_last_term (r_log (p_node s i))"
  using last_term_full[OF logs_invD(1)[OF readyD(3)[OF assms(1)] assms(2)] wf_simps(1)[OF readyD(5)[OF assms]]] .

lemma candidate_past:
  assumes "ballot_inv cfg s" and "election_inv cfg s" and "cfg_contains cfg i" and "r_role (p_node s i) = Candidate"
    and "v \<in> bts_set (r_votes (p_node s i))"
  shows "p_ballot s v (r_term (p_node s i)) = Some i"
  using votes_counted[OF assms(2-4)] assms(5) by auto

section \<open>The invariant is kept\<close>

lemma ballot_inv_elected:
  assumes ready: "ready sha cfg s" and inv: "ballot_inv cfg s" and member: "cfg_contains cfg i"
    and move: "move sha strict (inbox (p_sent s) i) (p_node s i) acts n"
    and elected: "p_elected (record_move i acts n s) t = Some j"
  shows "is_quorum cfg (p_voters (record_move i acts n s) t)
    \<and> p_voters (record_move i acts n s) t \<subseteq> {v. p_ballot (record_move i acts n s) v t = Some j}
    \<and> take (length (p_cand (record_move i acts n s) j t)) (p_log (record_move i acts n s) t)
      = p_cand (record_move i acts n s) j t"
proof (cases "p_elected s t")
  case (Some k)
  let ?s = "record_move i acts n s"
  from elected_after[OF ready member move Some] elected have old: "p_elected s t = Some j" using Some by simp
  have "t \<le> r_term (p_node s j)" using elected_past[OF readyD(2)[OF ready] old] by blast
  then have cand: "p_cand ?s j t = p_cand s j t" by (rule cand_after[OF ready inv member move])
  have "length (p_cand s j t) \<le> length (p_log s t)"
    using ballot_invD(3)[OF inv old] by (metis length_take min.cobounded1)
  then show ?thesis
    using ballot_invD(1-3)[OF inv old] ballot_after[OF ready member move] Some
      extends_take[OF p_log_extends[OF ready member move]] by (auto simp: record_voters cand)
next
  case None
  let ?s = "record_move i acts n s" and ?m = "p_node s i"
  note id = readyD(7)[OF ready member]
  from None elected have n: "r_role n = Leader" "t = r_term n" "j = i"
    by (auto simp: record_elected split: if_splits)
  then have lead: "r_role ?m = Candidate" "is_quorum cfg (bts_set (r_votes ?m))" "r_term n = r_term ?m"
    using move_leader[OF move] leader_elected[OF readyD(2)[OF ready] member] None id by auto
  have voters: "p_voters ?s t = bts_set (r_votes ?m)" using n None by (simp add: record_voters)
  have cand: "p_cand ?s i t = p_full s i"
    using ballot_invD(4)[OF inv member lead(1)] n lead by (simp add: record_cand)
  have "take (length (p_full s i)) (p_log ?s t) = p_full s i"
  proof (cases rule: p_log_after[OF ready member move])
    case 1
    then show ?thesis using n lead by simp
  next
    case (2 e)
    then show ?thesis using n by simp
  qed
  moreover have "p_ballot ?s v t = Some i" if "v \<in> bts_set (r_votes ?m)" for v
    using ballot_after[OF ready member move candidate_past[OF inv readyD(2)[OF ready] member lead(1) that]] n lead by simp
  ultimately show ?thesis using lead voters cand n by auto
qed

lemma ballot_inv_asked:
  assumes ready: "ready sha cfg s" and inv: "ballot_inv cfg s" and member: "cfg_contains cfg i"
    and move: "move sha strict (inbox (p_sent s) i) (p_node s i) acts n"
    and sent: "(c, to, RequestVote t c' last_index last_term) \<in> p_sent (record_move i acts n s)"
  shows "t \<le> r_term (p_node (record_move i acts n s) c)
    \<and> last_index = length (p_cand (record_move i acts n s) c t)
    \<and> last_term = term_at (p_cand (record_move i acts n s) c t) (length (p_cand (record_move i acts n s) c t))
    \<and> traced (p_log (record_move i acts n s)) (p_cand (record_move i acts n s) c t) \<and> last_term < t"
proof -
  let ?s = "record_move i acts n s" and ?m = "p_node s i"
  have "t \<le> r_term (p_node s c) \<and> last_index = length (p_cand s c t)
      \<and> last_term = term_at (p_cand s c t) (length (p_cand s c t))
      \<and> traced (p_log s) (p_cand s c t) \<and> last_term < t"
  proof (cases "(c, to, RequestVote t c' last_index last_term) \<in> p_sent s")
    case True
    then show ?thesis by (rule ballot_invD(6)[OF inv])
  next
    case False
    with sent have c: "c = i" and "Send to (RequestVote t c' last_index last_term) \<in> set acts"
      unfolding sent_after by blast+
    note facts = move_vote_asked[OF move this(2)]
    have cand: "p_cand s i t = p_full s i" using facts ballot_invD(4)[OF inv member] by simp
    show ?thesis
      unfolding c cand
      using facts length_p_full[OF ready member] last_term_p_full[OF ready member] logs_invD(2)[OF readyD(3)[OF ready] member]
        ballot_invD(5)[OF inv member] by auto
  qed
  then show ?thesis
    using term_after[OF ready member move, of c] cand_after[OF ready inv member move, of t c]
      traced_extends[OF _ p_log_extends[OF ready member move]] by (metis order_trans)
qed

lemma ballot_inv_candidate:
  assumes ready: "ready sha cfg s" and inv: "ballot_inv cfg s" and member: "cfg_contains cfg i" "cfg_contains cfg j"
    and move: "move sha strict (inbox (p_sent s) i) (p_node s i) acts n"
    and role: "r_role (p_node (record_move i acts n s) j) = Candidate"
  shows "p_cand (record_move i acts n s) j (r_term (p_node (record_move i acts n s) j)) = p_full (record_move i acts n s) j
    \<and> log_last_term (r_log (p_node (record_move i acts n s) j)) < r_term (p_node (record_move i acts n s) j)"
proof (cases "j = i")
  case False
  then show ?thesis using role ballot_invD(4,5)[OF inv member(2)] p_full_after[OF ready member move]
    by (simp add: record_cand)
next
  case True
  let ?m = "p_node s i"
  have role: "r_role n = Candidate" using role True by simp
  have wf: "raft_wf sha ?m" by (rule readyD(5)[OF ready member(1)])
  have "log_last_term (r_log n) = log_last_term (r_log ?m)"
    using move_candidate_log[OF move role] log_compact_retain(4)[OF wf_simps(1)[OF wf]] by auto
  then have "log_last_term (r_log n) < r_term n"
    using move_candidate[OF move role] wf_simps(6)[OF wf] ballot_invD(5)[OF inv member(1)] by auto
  then show ?thesis using True role p_full_after[OF ready member move] by (simp add: record_cand)
qed

lemma ballot_inv_votes:
  assumes ready: "ready sha cfg s" and inv: "ballot_inv cfg s" and member: "cfg_contains cfg i"
    and move: "move sha strict (inbox (p_sent s) i) (p_node s i) acts n"
    and ballot: "p_ballot (record_move i acts n s) v t = Some c"
  shows "cfg_contains cfg c \<and> t \<le> r_term (p_node (record_move i acts n s) c)
    \<and> up_to_date (p_cand (record_move i acts n s) c t) (p_vlog (record_move i acts n s) v t)
    \<and> traced (p_log (record_move i acts n s)) (p_vlog (record_move i acts n s) v t)
    \<and> traced (p_log (record_move i acts n s)) (p_cand (record_move i acts n s) c t)
    \<and> term_at (p_cand (record_move i acts n s) c t) (length (p_cand (record_move i acts n s) c t)) < t"
proof (cases "p_ballot s v t")
  case (Some c')
  let ?s = "record_move i acts n s"
  have "p_ballot s v t = Some c" using ballot_after[OF ready member move Some] ballot Some by simp
  note old = ballot_invD(7)[OF inv this]
  then have cand: "p_cand ?s c t = p_cand s c t" using cand_after[OF ready inv member move] by blast
  show ?thesis unfolding cand vlog_after[OF Some]
    using old term_after[OF ready member move, of c] traced_extends[OF _ p_log_extends[OF ready member move]]
    by (meson order_trans)
next
  case None
  let ?s = "record_move i acts n s" and ?m = "p_node s i"
  from None ballot have v: "v = i" "t = r_term n" "r_voted_for n = Some c"
    by (auto simp: record_ballot split: if_splits)
  have vlog: "p_vlog ?s i t = full_log (p_log s) (r_log n)" using v None by (simp add: record_vlog)
  note ext = traced_extends[OF _ p_log_extends[OF ready member move]]
  have traced: "traced (p_log ?s) (p_full s i)" by (rule ext[OF logs_invD(2)[OF readyD(3)[OF ready] member]])
  have new: "\<not> (r_term n = r_term ?m \<and> r_voted_for ?m = Some c)"
    using vote_recorded[OF readyD(2)[OF ready] member, of c] None v by auto
  show ?thesis
  proof (cases rule: move_vote_new[OF move v(3) new])
    case 1
    then have "c = i" using readyD(6)[OF ready member] by simp
    moreover have "p_cand ?s i t = p_full s i" using 1 v by (simp add: record_cand)
    moreover have "term_at (p_full s i) (length (p_full s i)) < t"
      using last_term_p_full[OF ready member] wf_simps(6)[OF readyD(5)[OF ready member]] 1 v by simp
    ultimately show ?thesis using v vlog traced member 1 by simp
  next
    case (2 last_index last_term)
    then have sent: "(c, i, RequestVote t c last_index last_term) \<in> p_sent s" using v by (simp add: inbox_def)
    note asked = ballot_invD(6)[OF inv this]
    have cand: "p_cand ?s c t = p_cand s c t" using cand_after[OF ready inv member move] asked by blast
    have "cfg_contains cfg c" using sent readyD(1)[OF ready] unfolding basic_inv_def by blast
    moreover have "up_to_date (p_cand s c t) (p_full s i)"
      using 2 asked last_term_p_full[OF ready member] length_p_full[OF ready member]
      by (auto simp: up_to_date_def candidate_log_is_up_to_date_def)
    moreover have "t \<le> r_term (p_node ?s c)" using asked term_after[OF ready member move, of c] by linarith
    moreover have "full_log (p_log s) (r_log n) = p_full s i" using 2 by simp
    ultimately show ?thesis using v(1) vlog traced asked cand ext by simp
  qed
qed

lemma ballot_inv_move:
  assumes "ready sha cfg s" and "ballot_inv cfg s" and "cfg_contains cfg i"
    and "move sha strict (inbox (p_sent s) i) (p_node s i) acts n"
  shows "ballot_inv cfg (record_move i acts n s)"
  unfolding ballot_inv_def
  using ballot_inv_elected[OF assms] ballot_inv_asked[OF assms] ballot_inv_candidate[OF assms(1-3) _ assms(4)]
    ballot_inv_votes[OF assms]
  by (intro conjI allI impI) blast+

lemma ballot_inv_init: "ballot_inv cfg (proto_init cfg)"
  by (simp add: ballot_inv_def proto_init_def raft_fresh_def)

end
