(* ===== verification/Raft_Commit.thy ===== *)
theory Raft_Commit
  imports Raft_Ballot
begin

text \<open>
  Commitment: an entry of a leader's own term that a quorum has acknowledged is in the log of every
  later leader, and no node commits or applies anything else, provided that followers commit only
  entries that the leader's message has verified.
\<close>

section \<open>Chosen entries\<close>

definition holds :: "(nat \<Rightarrow> log_entry list) \<Rightarrow> nat \<Rightarrow> nat \<Rightarrow> log_entry list \<Rightarrow> bool" where
  "holds logs t k xs = (k \<le> length xs \<and> k \<le> length (logs t) \<and> take k xs = take k (logs t))"

definition acked :: "proto \<Rightarrow> node_id \<Rightarrow> nat \<Rightarrow> nat \<Rightarrow> bool" where
  "acked s v t k =
     ((\<exists>to index c d token. (v, to, AppendEntriesResponse t True index c d token) \<in> p_sent s \<and> k \<le> index)
      \<or> (\<exists>to offset index. (v, to, InstallSnapshotResponse t True offset True index) \<in> p_sent s \<and> k \<le> index)
      \<or> (p_elected s t = Some v \<and> k \<le> length (p_log s t)))"

definition chosen :: "configuration \<Rightarrow> proto \<Rightarrow> nat \<Rightarrow> nat \<Rightarrow> bool" where
  "chosen cfg s t k =
     (0 < k \<and> k \<le> length (p_log s t) \<and> term_at (p_log s t) k = t \<and> is_quorum cfg {v. acked s v t k})"

text \<open>A leader after term \<open>t\<close>, up to term \<open>T\<close>, that does not have the first \<open>k\<close> entries.\<close>

definition diverged :: "proto \<Rightarrow> nat \<Rightarrow> nat \<Rightarrow> nat \<Rightarrow> bool" where
  "diverged s t k T = (\<exists>t'. t < t' \<and> t' \<le> T \<and> p_elected s t' \<noteq> None \<and> \<not> holds (p_log s) t k (p_log s t'))"

definition ack_inv :: "configuration \<Rightarrow> proto \<Rightarrow> bool" where
  "ack_inv cfg s =
     ((\<forall>v t k. acked s v t k \<longrightarrow> cfg_contains cfg v \<and> t \<le> r_term (p_node s v) \<and> k \<le> length (p_log s t)
          \<and> (holds (p_log s) t k (p_full s v) \<or> diverged s t k (r_term (p_node s v))))
      \<and> (\<forall>v t k T. acked s v t k \<longrightarrow> t < T \<longrightarrow> p_ballot s v T \<noteq> None \<longrightarrow>
          (p_elected s T = None \<or> v \<in> p_voters s T) \<longrightarrow>
          holds (p_log s) t k (p_vlog s v T) \<or> diverged s t k (T - 1)))"

lemma ack_invD:
  assumes "ack_inv cfg s" and "acked s v t k"
  shows "cfg_contains cfg v" and "t \<le> r_term (p_node s v)" and "k \<le> length (p_log s t)"
    and "holds (p_log s) t k (p_full s v) \<or> diverged s t k (r_term (p_node s v))"
    and "t < T \<Longrightarrow> p_ballot s v T \<noteq> None \<Longrightarrow> p_elected s T = None \<or> v \<in> p_voters s T
      \<Longrightarrow> holds (p_log s) t k (p_vlog s v T) \<or> diverged s t k (T - 1)"
  using assms unfolding ack_inv_def by blast+

lemma acked_less: "acked s v t k \<Longrightarrow> j \<le> k \<Longrightarrow> acked s v t j"
  unfolding acked_def by (meson order_trans)

lemma holds_less: "holds logs t k xs \<Longrightarrow> j \<le> k \<Longrightarrow> holds logs t j xs"
  unfolding holds_def by (metis min.absorb1 order_trans take_take)

lemma holds_self [simp]: "holds logs t k (logs t) \<longleftrightarrow> k \<le> length (logs t)"
  by (simp add: holds_def)

lemma holds_append: "holds logs t k xs \<Longrightarrow> holds logs t k (xs @ ys)"
  by (simp add: holds_def)

lemma holds_extends: "holds logs t k xs \<Longrightarrow> extends logs logs' \<Longrightarrow> holds logs' t k xs"
  unfolding holds_def using extends_length[of logs logs' t] extends_take[of logs logs' k t] by simp

lemma holds_term: "holds logs t k xs \<Longrightarrow> term_at xs k = term_at (logs t) k"
  unfolding holds_def by (metis order_refl term_at_take)

lemma prefix_take: "xs = take m ys \<Longrightarrow> k \<le> length xs \<Longrightarrow> take k xs = take k ys"
  by (simp add: min.absorb1)

lemma prefix_nth: "take k xs = take k ys \<Longrightarrow> j < k \<Longrightarrow> xs ! j = ys ! j"
  by (metis nth_take)

section \<open>Leader completeness\<close>

lemma candidate_holds:
  assumes logs: "logs_inv cfg s" and C: "traced (p_log s) C" and V: "traced (p_log s) V"
    and fresh: "up_to_date C V" and held: "holds (p_log s) t k V" and pos: "0 < k"
    and own: "term_at (p_log s t) k = t"
    and between: "\<And>t'. t < t' \<Longrightarrow> t' \<le> term_at C (length C) \<Longrightarrow> p_elected s t' \<noteq> None \<Longrightarrow> holds (p_log s) t k (p_log s t')"
  shows "holds (p_log s) t k C"
proof -
  let ?u = "term_at C (length C)"
  have low: "t \<le> term_at V (length V)"
    using traced_terms[OF V, of k "length V"] holds_term[OF held] held own by (simp add: holds_def)
  have CL: "C = take (length C) (p_log s ?u)" using traced_prefix[OF C order_refl] by simp
  show ?thesis
  proof (cases "term_at V (length V) = ?u")
    case True
    then have "V = take (length V) (p_log s ?u)" using traced_prefix[OF V order_refl] by simp
    moreover have "length V \<le> length C" using fresh True by (simp add: up_to_date_def)
    ultimately have "take k C = take k V"
      using prefix_take[OF CL, of k] prefix_take[of V "length V" "p_log s ?u" k] held by (simp add: holds_def)
    then show ?thesis using held \<open>length V \<le> length C\<close> by (simp add: holds_def)
  next
    case False
    then have u: "t < ?u" using fresh low by (simp add: up_to_date_def)
    then have "C \<noteq> []" by auto
    then have "p_log s ?u \<noteq> []" using CL by (cases "p_log s ?u") auto
    then have at: "holds (p_log s) t k (p_log s ?u)" using between[OF u order_refl] logs_invD(6)[OF logs] by blast
    have "k \<le> length C"
    proof (rule ccontr)
      assume "\<not> k \<le> length C"
      then have less: "length C - 1 < k" "length C \<le> k" by auto
      have "?u = le_term (C ! (length C - 1))" using \<open>C \<noteq> []\<close> by (simp add: term_at_def)
      also have "C ! (length C - 1) = p_log s ?u ! (length C - 1)"
        using prefix_take[OF CL order_refl] \<open>C \<noteq> []\<close> by (intro prefix_nth[of "length C"]) auto
      also have "\<dots> = p_log s t ! (length C - 1)"
        using at less by (intro prefix_nth[of k]) (auto simp: holds_def)
      finally have "?u \<le> t"
        using logs_invD(5)[OF logs, of "p_log s t ! (length C - 1)" t] at less by (simp add: holds_def)
      with u show False by simp
    qed
    then have "take k C = take k (p_log s ?u)" by (rule prefix_take[OF CL])
    with at \<open>k \<le> length C\<close> show ?thesis by (simp add: holds_def)
  qed
qed

lemma leader_holds:
  assumes ready: "ready sha cfg s" and ballots: "ballot_inv cfg s" and acks: "ack_inv cfg s"
    and chosen: "chosen cfg s t k" and later: "t < T" and elected: "p_elected s T \<noteq> None"
  shows "holds (p_log s) t k (p_log s T)"
  using later elected
proof (induction T rule: less_induct)
  case (less T)
  from less.prems(2) obtain c where c: "p_elected s T = Some c" by blast
  have ck: "0 < k" "k \<le> length (p_log s t)" "term_at (p_log s t) k = t" "is_quorum cfg {v. acked s v t k}"
    using chosen by (auto simp: chosen_def)
  from quorums.common_member[OF ck(4) ballot_invD(1)[OF ballots c]] obtain v where
    v: "acked s v t k" "v \<in> p_voters s T" by blast
  have ballot: "p_ballot s v T = Some c" by (rule ballot_invD(2)[OF ballots c v(2)])
  note vote = ballot_invD(7)[OF ballots ballot]
  have between: "holds (p_log s) t k (p_log s t')" if "t < t'" "t' < T" "p_elected s t' \<noteq> None" for t'
    by (rule less.IH[OF that(2,1,3)])
  have "\<not> diverged s t k (T - 1)"
  proof
    assume "diverged s t k (T - 1)"
    then obtain t' where "t < t'" "t' \<le> T - 1" "p_elected s t' \<noteq> None" "\<not> holds (p_log s) t k (p_log s t')"
      unfolding diverged_def by blast
    moreover from this have "t' < T" using less.prems(1) by linarith
    ultimately show False using between by blast
  qed
  then have "holds (p_log s) t k (p_vlog s v T)"
    using ack_invD(5)[OF acks v(1) less.prems(1)] ballot v(2) by auto
  have "holds (p_log s) t k (p_cand s c T)"
  proof (rule candidate_holds[OF readyD(3)[OF ready] _ _ _ \<open>holds (p_log s) t k (p_vlog s v T)\<close> ck(1,3)])
    show "traced (p_log s) (p_cand s c T)" "traced (p_log s) (p_vlog s v T)"
      "up_to_date (p_cand s c T) (p_vlog s v T)" using vote by blast+
    fix t' assume "t < t'" "t' \<le> term_at (p_cand s c T) (length (p_cand s c T))" "p_elected s t' \<noteq> None"
    then show "holds (p_log s) t k (p_log s t')" using vote between[of t'] by linarith
  qed
  then have "holds (p_log s) t k (p_cand s c T @ drop (length (p_cand s c T)) (p_log s T))"
    by (rule holds_append)
  moreover have "p_cand s c T @ drop (length (p_cand s c T)) (p_log s T) = p_log s T"
    using append_take_drop_id[of "length (p_cand s c T)" "p_log s T"] unfolding ballot_invD(3)[OF ballots c] .
  ultimately show ?case by simp
qed

section \<open>Committed prefixes\<close>

definition committed :: "configuration \<Rightarrow> proto \<Rightarrow> nat \<Rightarrow> log_entry list \<Rightarrow> nat \<Rightarrow> bool" where
  "committed cfg s T xs m =
     (m = 0 \<or> (\<exists>t k. t \<le> T \<and> m \<le> k \<and> chosen cfg s t k \<and> holds (p_log s) t m xs))"

lemma committed_leader:
  assumes "ready sha cfg s" and "ballot_inv cfg s" and "ack_inv cfg s"
    and commit: "committed cfg s T xs m" and elected: "p_elected s T \<noteq> None"
  shows "committed cfg s T (p_log s T) m" and "m \<le> length (p_log s T)" and "take m xs = take m (p_log s T)"
proof -
  have "committed cfg s T (p_log s T) m \<and> m \<le> length (p_log s T) \<and> take m xs = take m (p_log s T)"
  proof (cases "m = 0")
    case False
    with commit obtain t k where tk: "t \<le> T" "m \<le> k" "chosen cfg s t k" "holds (p_log s) t m xs"
      by (auto simp: committed_def)
    have "holds (p_log s) t k (p_log s T)"
    proof (cases "t = T")
      case True
      then show ?thesis using tk(3) by (simp add: chosen_def)
    next
      case False
      then show ?thesis using leader_holds[OF assms(1-3) tk(3)] tk(1) elected by simp
    qed
    then have "holds (p_log s) t m (p_log s T)" using tk(2) by (rule holds_less)
    with tk show ?thesis by (auto simp: committed_def holds_def)
  qed (simp add: committed_def)
  then show "committed cfg s T (p_log s T) m" "m \<le> length (p_log s T)" "take m xs = take m (p_log s T)" by auto
qed

lemma committed_less: "committed cfg s T xs m \<Longrightarrow> j \<le> m \<Longrightarrow> committed cfg s T xs j"
  unfolding committed_def by (metis holds_less le_zero_eq order_trans)

lemma committed_later: "committed cfg s T xs m \<Longrightarrow> T \<le> T' \<Longrightarrow> committed cfg s T' xs m"
  unfolding committed_def by (meson order_trans)

lemma committed_same:
  "committed cfg s T xs m \<Longrightarrow> m \<le> length ys \<Longrightarrow> take m ys = take m xs \<Longrightarrow> committed cfg s T ys m"
  unfolding committed_def holds_def by auto

definition commit_inv :: "configuration \<Rightarrow> proto \<Rightarrow> bool" where
  "commit_inv cfg s =
     ((\<forall>i. cfg_contains cfg i \<longrightarrow> committed cfg s (r_term (p_node s i)) (p_full s i) (r_commit_index (p_node s i)))
      \<and> (\<forall>src to t l prev prev_term entries leader_commit token.
          (src, to, AppendEntries t l prev prev_term entries leader_commit token) \<in> p_sent s \<longrightarrow>
          committed cfg s t (p_log s t) leader_commit)
      \<and> (\<forall>src to t l metadata offset data finished.
          (src, to, InstallSnapshot t l metadata offset data finished) \<in> p_sent s \<longrightarrow>
          committed cfg s t (p_log s t) (sm_last_included_index metadata)))"

definition progress_inv :: "configuration \<Rightarrow> proto \<Rightarrow> bool" where
  "progress_inv cfg s =
     (\<forall>i v. cfg_contains cfg i \<longrightarrow> r_role (p_node s i) = Leader \<longrightarrow> 0 < match_index_of (p_node s i) v \<longrightarrow>
        acked s v (r_term (p_node s i)) (match_index_of (p_node s i) v))"

definition applied_inv :: "configuration \<Rightarrow> proto \<Rightarrow> bool" where
  "applied_inv cfg s =
     (\<forall>i e. (i, e) \<in> p_applied s \<longrightarrow>
        (\<exists>t k. chosen cfg s t k \<and> 0 < le_index e \<and> le_index e \<le> k \<and> p_log s t ! (le_index e - 1) = e))"

lemma commit_invD:
  assumes "commit_inv cfg s"
  shows "cfg_contains cfg i \<Longrightarrow> committed cfg s (r_term (p_node s i)) (p_full s i) (r_commit_index (p_node s i))"
    and "(src, to, AppendEntries t l prev prev_term entries leader_commit token) \<in> p_sent s
      \<Longrightarrow> committed cfg s t (p_log s t) leader_commit"
    and "(src, to, InstallSnapshot t l metadata offset data finished) \<in> p_sent s
      \<Longrightarrow> committed cfg s t (p_log s t) (sm_last_included_index metadata)"
  using assms unfolding commit_inv_def by blast+

section \<open>History only grows\<close>

lemma acked_after:
  assumes "ready sha cfg s" and "cfg_contains cfg i"
    and "move sha strict (inbox (p_sent s) i) (p_node s i) acts n" and "acked s v t k"
  shows "acked (record_move i acts n s) v t k"
  using assms(4) elected_after[OF assms(1-3), of t v] extends_length[OF p_log_extends[OF assms(1-3)], of t]
  unfolding acked_def record_move_simps(2) by (meson UnI1 order_trans)

lemma chosen_after:
  assumes "ready sha cfg s" and "cfg_contains cfg i"
    and "move sha strict (inbox (p_sent s) i) (p_node s i) acts n" and "chosen cfg s t k"
  shows "chosen cfg (record_move i acts n s) t k"
proof -
  note ext = p_log_extends[OF assms(1-3)]
  have "{v. acked s v t k} \<subseteq> {v. acked (record_move i acts n s) v t k}"
    using acked_after[OF assms(1-3)] by blast
  then have "is_quorum cfg {v. acked (record_move i acts n s) v t k}"
    using assms(4) unfolding chosen_def by (blast intro: quorums.mono)
  then show ?thesis using assms(4) extends_length[OF ext, of t] extends_term_at[OF ext, of k t]
    by (simp add: chosen_def)
qed

lemma committed_after:
  assumes "ready sha cfg s" and "cfg_contains cfg i"
    and "move sha strict (inbox (p_sent s) i) (p_node s i) acts n" and "committed cfg s T xs m"
  shows "committed cfg (record_move i acts n s) T xs m"
  using assms(4) chosen_after[OF assms(1-3)] holds_extends[OF _ p_log_extends[OF assms(1-3)]]
  unfolding committed_def by blast

lemma committed_log_after:
  assumes "ready sha cfg s" and "cfg_contains cfg i"
    and "move sha strict (inbox (p_sent s) i) (p_node s i) acts n" and "committed cfg s T (p_log s t) m"
  shows "committed cfg (record_move i acts n s) T (p_log (record_move i acts n s) t) m"
proof (rule committed_same[OF committed_after[OF assms]])
  note ext = p_log_extends[OF assms(1-3)]
  have "m \<le> length (p_log s t)" using assms(4) by (auto simp: committed_def holds_def)
  then show "m \<le> length (p_log (record_move i acts n s) t)"
    "take m (p_log (record_move i acts n s) t) = take m (p_log s t)"
    using extends_length[OF ext, of t] extends_take[OF ext, of m t] by simp_all
qed

lemma diverged_more: "diverged s t k T \<Longrightarrow> T \<le> T' \<Longrightarrow> diverged s t k T'"
  unfolding diverged_def by (meson order_trans)

text \<open>A leader that lacks an entry of an earlier leader only adds entries of its own term.\<close>

lemma lacks_after:
  assumes ready: "ready sha cfg s" and member: "cfg_contains cfg i"
    and move: "move sha strict (inbox (p_sent s) i) (p_node s i) acts n"
    and less: "t < t'" and elected: "p_elected s t' \<noteq> None" and k: "k \<le> length (p_log s t)"
    and lacks: "\<not> holds (p_log s) t k (p_log s t')"
  shows "\<not> holds (p_log (record_move i acts n s)) t k (p_log (record_move i acts n s) t')"
proof
  let ?s = "record_move i acts n s"
  note ext = p_log_extends[OF ready member move]
  assume holds: "holds (p_log ?s) t k (p_log ?s t')"
  then have same: "take k (p_log ?s t') = take k (p_log s t)" "k \<le> length (p_log ?s t')"
    using extends_take[OF ext k] by (simp_all add: holds_def)
  have longer: "length (p_log s t') < k"
  proof (rule ccontr)
    assume "\<not> length (p_log s t') < k"
    then have "take k (p_log ?s t') = take k (p_log s t')" "k \<le> length (p_log s t')" using extends_take[OF ext, of k t'] by auto
    with same k lacks show False by (simp add: holds_def)
  qed
  show False
  proof (cases rule: p_log_after[OF ready member move])
    case 1
    then show False using longer same(2) by simp
  next
    case (2 e)
    then have t': "t' = r_term n" using longer same(2) by (cases "t' = r_term n") auto
    then have old: "p_log s t' = p_full s i" using 2(7) elected by auto
    then have "k = length (p_log s t') + 1" using longer same(2) 2(3) t' by auto
    moreover from this have "p_log ?s t' ! (k - 1) = e" using 2(3) t' old by simp
    ultimately have "p_log s t ! (k - 1) = e" using prefix_nth[OF same(1), of "k - 1"] by simp
    moreover have "k - 1 < length (p_log s t)" using k longer by linarith
    ultimately have "e \<in> set (p_log s t)" by (metis nth_mem)
    then have "le_term e \<le> t" by (rule logs_invD(5)[OF readyD(3)[OF ready]])
    then show False using 2(6) t' less by simp
  qed
qed

lemma diverged_after:
  assumes ready: "ready sha cfg s" and member: "cfg_contains cfg i"
    and move: "move sha strict (inbox (p_sent s) i) (p_node s i) acts n"
    and "diverged s t k T" and "k \<le> length (p_log s t)"
  shows "diverged (record_move i acts n s) t k T"
proof -
  from assms(4) obtain t' where t': "t < t'" "t' \<le> T" "p_elected s t' \<noteq> None" "\<not> holds (p_log s) t k (p_log s t')"
    unfolding diverged_def by blast
  moreover from t'(3) have "p_elected (record_move i acts n s) t' \<noteq> None"
    using elected_after[OF ready member move] by fastforce
  ultimately show ?thesis unfolding diverged_def
    using lacks_after[OF ready member move t'(1,3) assms(5) t'(4)] by blast
qed

section \<open>New acknowledgements\<close>

lemma move_append_acked:
  assumes "move sha strict M n acts n'" and "Send to (AppendEntriesResponse t True index c d token) \<in> set acts"
  obtains src prev prev_term entries leader_commit where "n' = n" and "t = r_term n"
    and "append_received M n src prev prev_term entries leader_commit" and "append_stored (r_log n) entries"
    and "index = prev + length entries"
  using assms(1)
proof cases
  case Acknowledge
  then show thesis using assms(2) that by auto
qed (use assms(2) in \<open>auto dest: silent_sends\<close>)

lemma move_snapshot_acked:
  assumes "move sha strict M n acts n'" and "Send to (InstallSnapshotResponse t True offset True index) \<in> set acts"
  obtains src metadata off data finished where "n' = n" and "t = r_term n" and "index \<le> r_applied_index n"
    and "(src, InstallSnapshot (r_term n) src metadata off data finished) \<in> M"
    and "index = sm_last_included_index metadata"
  using assms(1)
proof cases
  case AcknowledgeSnapshot
  then show thesis using assms(2) that by auto
qed (use assms(2) in \<open>auto dest: silent_sends\<close>)

lemma received_prefix:
  assumes ready: "ready sha cfg s" and member: "cfg_contains cfg i"
    and received: "append_received (inbox (p_sent s) i) (p_node s i) src prev prev_term entries leader_commit"
    and stored: "append_stored (r_log (p_node s i)) entries"
  shows "holds (p_log s) (r_term (p_node s i)) (prev + length entries) (p_full s i)"
proof -
  note logs = readyD(3)[OF ready] and wf = wf_simps(1)[OF readyD(5)[OF ready member]]
  note facts = append_received_segment[OF received pieces_inv_inbox[OF readyD(4)[OF ready]]]
  have "append_stored (r_log (p_node s i)) (take (length entries) entries)" using stored by simp
  from stored_prefix[OF logs_invD(1)[OF logs member] wf logs_invD(2)[OF logs member] logs_invD(4)[OF logs] facts(1-3) this order_refl]
  show ?thesis using facts(1) by (simp add: holds_def segment_def)
qed

lemma acked_new:
  assumes ready: "ready sha cfg s" and ballots: "ballot_inv cfg s" and acks: "ack_inv cfg s"
    and commits: "commit_inv cfg s" and member: "cfg_contains cfg i"
    and move: "move sha strict (inbox (p_sent s) i) (p_node s i) acts n"
    and acked: "acked (record_move i acts n s) v t k" and new: "\<not> acked s v t k"
  shows "v = i \<and> t = r_term n \<and> holds (p_log (record_move i acts n s)) t k (p_full (record_move i acts n s) i)"
proof -
  let ?s = "record_move i acts n s" and ?m = "p_node s i"
  note ext = p_log_extends[OF ready member move]
  have same: "p_full ?s i = p_full s i" if "n = ?m"
    using p_full_after[OF ready member member move] that by simp
  from acked consider
      (append) to index c d token where "(v, to, AppendEntriesResponse t True index c d token) \<in> p_sent ?s" "k \<le> index"
    | (snapshot) to offset index where "(v, to, InstallSnapshotResponse t True offset True index) \<in> p_sent ?s" "k \<le> index"
    | (leader) "p_elected ?s t = Some v" "k \<le> length (p_log ?s t)"
    unfolding acked_def by blast
  then show ?thesis
  proof cases
    case append
    with new have v: "v = i" and send: "Send to (AppendEntriesResponse t True index c d token) \<in> set acts"
      unfolding acked_def sent_after by blast+
    obtain src prev prev_term entries leader_commit where facts: "n = ?m" "t = r_term ?m"
        "append_received (inbox (p_sent s) i) ?m src prev prev_term entries leader_commit"
        "append_stored (r_log ?m) entries" "index = prev + length entries"
      by (rule move_append_acked[OF move send])
    then have "holds (p_log s) t index (p_full s i)" using received_prefix[OF ready member facts(3,4)] by simp
    then show ?thesis using v facts(1,2) same holds_extends[OF holds_less[OF _ append(2)] ext] by simp
  next
    case snapshot
    with new have v: "v = i" and send: "Send to (InstallSnapshotResponse t True offset True index) \<in> set acts"
      unfolding acked_def sent_after by blast+
    obtain src metadata off data finished where facts: "n = ?m" "t = r_term ?m" "index \<le> r_applied_index ?m"
        and "(src, InstallSnapshot (r_term ?m) src metadata off data finished) \<in> inbox (p_sent s) i"
        and "index = sm_last_included_index metadata"
      by (rule move_snapshot_acked[OF move send])
    then have "(src, i, InstallSnapshot (r_term ?m) src metadata off data finished) \<in> p_sent s"
      by (simp add: inbox_def)
    then have "p_elected s (r_term ?m) \<noteq> None" using readyD(4)[OF ready] unfolding pieces_inv_def by blast
    note leader = committed_leader[OF ready ballots acks commit_invD(1)[OF commits member] this]
    have "index \<le> r_commit_index ?m" using facts wf_simps(3)[OF readyD(5)[OF ready member]] by linarith
    moreover have "r_commit_index ?m \<le> length (p_full s i)"
      using wf_simps(4)[OF readyD(5)[OF ready member]] length_p_full[OF ready member] by simp
    then have "holds (p_log s) t (r_commit_index ?m) (p_full s i)" using leader facts(2) by (simp add: holds_def)
    ultimately have "holds (p_log s) t index (p_full s i)" using holds_less by blast
    then show ?thesis using v facts(1,2) same holds_extends[OF holds_less[OF _ snapshot(2)] ext] by simp
  next
    case leader
    have election: "election_inv cfg ?s" by (rule election_inv_move[OF readyD(2,1)[OF ready] member move])
    have "\<not> (p_elected s t = Some v \<and> k \<le> length (p_log s t))" using new unfolding acked_def by blast
    then have "r_role n = Leader \<and> t = r_term n"
      using leader by (auto simp: record_elected record_log split: if_splits)
    moreover from this have "v = i" using leader_elected[OF election member] leader(1) by simp
    moreover from calculation have "p_log ?s t = p_full ?s i"
      using logs_invD(3)[OF logs_inv_move[OF ready member move] member] by simp
    ultimately show ?thesis using leader(2) holds_self[of "p_log ?s" t k] by metis
  qed
qed

lemma ack_inv_held:
  assumes ready: "ready sha cfg s" and ballots: "ballot_inv cfg s" and acks: "ack_inv cfg s"
    and member: "cfg_contains cfg i"
    and move: "move sha strict (inbox (p_sent s) i) (p_node s i) acts n" and acked: "acked s v t k"
  shows "holds (p_log (record_move i acts n s)) t k (p_full (record_move i acts n s) v)
    \<or> diverged (record_move i acts n s) t k (r_term (p_node (record_move i acts n s) v))"
proof (cases "diverged s t k (r_term (p_node s v))")
  case True
  then show ?thesis
    using diverged_more[OF diverged_after[OF ready member move _ ack_invD(3)[OF acks acked]]
        term_after[OF ready member move, of v]] by blast
next
  case False
  let ?s = "record_move i acts n s" and ?m = "p_node s i"
  note ext = p_log_extends[OF ready member move] and logs = readyD(3)[OF ready]
  have held: "holds (p_log s) t k (p_full s v)" using ack_invD(4)[OF acks acked] False by blast
  have v: "cfg_contains cfg v" by (rule ack_invD(1)[OF acks acked])
  show ?thesis
  proof (cases "v = i")
    case False
    then show ?thesis using holds_extends[OF held ext] p_full_after[OF ready member v move] by simp
  next
    case True
    have full: "p_full ?s v = full_log (p_log s) (r_log n)" using p_full_after[OF ready member v move] True by simp
    show ?thesis
    proof (cases rule: move_log[OF readyD(5)[OF ready member] move logs_invD(1,2)[OF logs member] logs_invD(4)[OF logs]
          pieces_inv_inbox[OF readyD(4)[OF ready]]])
      case 1
      then show ?thesis using holds_extends[OF held ext] full True by simp
    next
      case (2 e)
      then show ?thesis using holds_extends[OF holds_append[OF held] ext] full True by simp
    next
      case (3 m)
      have "p_log s (r_term ?m) \<noteq> []" using 3(3,6) by auto
      then have elected: "p_elected s (r_term ?m) \<noteq> None" using logs_invD(6)[OF logs] by blast
      have t: "t \<le> r_term ?m" using ack_invD(2)[OF acks acked] True by simp
      have "holds (p_log s) t k (p_log s (r_term ?m))"
      proof (rule ccontr)
        assume lacks: "\<not> holds (p_log s) t k (p_log s (r_term ?m))"
        then have "t \<noteq> r_term ?m" using held by (auto simp: holds_def)
        then have "diverged s t k (r_term ?m)" using lacks t elected unfolding diverged_def by (intro exI[of _ "r_term ?m"]) simp
        with \<open>\<not> diverged s t k (r_term (p_node s v))\<close> True show False by simp
      qed
      then have "k \<le> m" "take k (p_log s (r_term ?m)) = take k (p_log s t)" "k \<le> length (p_log s t)"
        using 3(7)[of k] held True by (simp_all add: holds_def)
      then have "holds (p_log s) t k (full_log (p_log s) (r_log n))"
        using 3(1,3) by (simp add: holds_def min.absorb1)
      then show ?thesis using holds_extends[OF _ ext] full by simp
    qed
  qed
qed

lemma ack_inv_voted:
  assumes ready: "ready sha cfg s" and ballots: "ballot_inv cfg s" and acks: "ack_inv cfg s"
    and member: "cfg_contains cfg i"
    and move: "move sha strict (inbox (p_sent s) i) (p_node s i) acts n" and acked: "acked s v t k"
    and later: "t < T" and voted: "p_ballot (record_move i acts n s) v T \<noteq> None"
    and counted: "p_elected (record_move i acts n s) T = None \<or> v \<in> p_voters (record_move i acts n s) T"
  shows "holds (p_log (record_move i acts n s)) t k (p_vlog (record_move i acts n s) v T)
    \<or> diverged (record_move i acts n s) t k (T - 1)"
proof -
  let ?s = "record_move i acts n s" and ?m = "p_node s i"
  note k = ack_invD(3)[OF acks acked] and ext = p_log_extends[OF ready member move]
  have before: "p_elected s T = None \<or> v \<in> p_voters s T"
    using counted elected_after[OF ready member move, of T] by (cases "p_elected s T") (auto simp: record_voters split: if_splits)
  have "holds (p_log s) t k (p_vlog ?s v T) \<or> diverged s t k (T - 1)"
  proof (cases "p_ballot s v T")
    case (Some c)
    then show ?thesis using ack_invD(5)[OF acks acked later _ before] vlog_after[OF Some] by simp
  next
    case None
    with voted obtain c where v: "v = i" "T = r_term n" "r_voted_for n = Some c"
      by (auto simp: record_ballot split: if_splits)
    have new: "\<not> (r_term n = r_term ?m \<and> r_voted_for ?m = Some c)"
      using vote_recorded[OF readyD(2)[OF ready] member, of c] None v by auto
    have unelected: "p_elected s T = None"
      using before ballot_invD(2)[OF ballots] None by (cases "p_elected s T") auto
    have log: "r_log n = r_log ?m" and up: "r_term ?m \<le> T"
      by (cases rule: move_vote_new[OF move v(3) new]; use v in simp)+
    have "p_vlog ?s v T = p_full s i" using v None log by (simp add: record_vlog)
    moreover have "diverged s t k (T - 1)" if div: "diverged s t k (r_term ?m)"
    proof -
      from div obtain t' where t': "t < t'" "t' \<le> r_term ?m" "p_elected s t' \<noteq> None" "\<not> holds (p_log s) t k (p_log s t')"
        unfolding diverged_def by blast
      then have "t' \<noteq> T" using unelected by auto
      then have "t' \<le> T - 1" using t'(2) up by linarith
      with t' show ?thesis unfolding diverged_def by blast
    qed
    ultimately show ?thesis using ack_invD(4)[OF acks acked] v(1) by auto
  qed
  then show ?thesis using holds_extends[OF _ ext] diverged_after[OF ready member move _ k] by blast
qed

lemma ack_inv_move:
  assumes ready: "ready sha cfg s" and ballots: "ballot_inv cfg s" and acks: "ack_inv cfg s"
    and commits: "commit_inv cfg s" and member: "cfg_contains cfg i"
    and move: "move sha strict (inbox (p_sent s) i) (p_node s i) acts n"
  shows "ack_inv cfg (record_move i acts n s)"
proof -
  let ?s = "record_move i acts n s"
  note new = acked_new[OF ready ballots acks commits member move]
  have election: "election_inv cfg ?s" by (rule election_inv_move[OF readyD(2,1)[OF ready] member move])
  have held: "cfg_contains cfg v \<and> t \<le> r_term (p_node ?s v) \<and> k \<le> length (p_log ?s t)
      \<and> (holds (p_log ?s) t k (p_full ?s v) \<or> diverged ?s t k (r_term (p_node ?s v)))"
    if acked: "acked ?s v t k" for v t k
  proof (cases "acked s v t k")
    case True
    then show ?thesis
      using ack_invD(1-3)[OF acks True] ack_inv_held[OF ready ballots acks member move True]
        term_after[OF ready member move, of v] extends_length[OF p_log_extends[OF ready member move], of t]
      by (meson order_trans)
  next
    case False
    from new[OF acked False] show ?thesis using member by (auto simp: holds_def)
  qed
  have voted: "holds (p_log ?s) t k (p_vlog ?s v T) \<or> diverged ?s t k (T - 1)"
    if acked: "acked ?s v t k" and later: "t < T" "p_ballot ?s v T \<noteq> None"
      "p_elected ?s T = None \<or> v \<in> p_voters ?s T" for v t k T
  proof (cases "acked s v t k")
    case True
    then show ?thesis by (rule ack_inv_voted[OF ready ballots acks member move _ later])
  next
    case False
    from later(2) obtain c where "p_ballot ?s v T = Some c" by blast
    from ballot_past[OF election this] new[OF acked False] later(1) show ?thesis by simp
  qed
  show ?thesis unfolding ack_inv_def using held voted by blast
qed

section \<open>Commit indexes\<close>

lemma move_commit:
  assumes "move sha True M n acts n'"
  obtains (Keep) "r_commit_index n' = r_commit_index n"
  | (Leader) index where "r_role n = Leader" and "index = quorum_index (r_configuration n) (match_index_of n)"
      and "r_commit_index n < index" and "log_term (r_log n) index = Some (r_term n)"
      and "r_commit_index n' = index" and "r_log n' = r_log n" and "r_term n' = r_term n"
  | (Follower) src prev prev_term entries leader_commit index where
      "append_received M n src prev prev_term entries leader_commit" and "append_stored (r_log n) entries"
      and "index \<le> leader_commit" and "index \<le> prev + length entries"
      and "r_commit_index n' = index" and "r_log n' = r_log n" and "r_term n' = r_term n"
  | (Install) src metadata offset data finished where
      "(src, InstallSnapshot (r_term n) src metadata offset data finished) \<in> M"
      and "r_commit_index n' = sm_last_included_index metadata" and "r_term n' = r_term n"
      and "rl_base_index (r_log n') = sm_last_included_index metadata"
      and "rl_base_term (r_log n') = sm_last_included_term metadata"
  using assms
proof cases
  case (CommitLeader index hs)
  then show thesis by (intro Leader[of index]) simp_all
next
  case (CommitFollower src prev prev_term entries leader_commit index hs)
  then show thesis by (intro Follower[OF CommitFollower(3,4), of index]) simp_all
next
  case (Install src s offset data index tm l hs)
  then show thesis by (intro that(4)[OF Install(3)]) simp_all
next
  case Quiet
  then show thesis by (intro Keep) (simp add: quiet_def same_durable_def)
qed (use Keep in auto)

lemma quorum_acked:
  assumes ready: "ready sha cfg s" and progress: "progress_inv cfg s" and member: "cfg_contains cfg i"
    and role: "r_role (p_node s i) = Leader" and pos: "0 < quorum_index cfg (match_index_of (p_node s i))"
  shows "is_quorum cfg {v. acked s v (r_term (p_node s i)) (quorum_index cfg (match_index_of (p_node s i)))}"
proof (rule quorums.mono)
  have "config_ok cfg" using readyD(5,7)[OF ready member] by (simp add: raft_wf_def)
  then show "is_quorum cfg (reached cfg (match_index_of (p_node s i)) (quorum_index cfg (match_index_of (p_node s i))))"
    by (rule quorum_index_greatest(1))
  show "reached cfg (match_index_of (p_node s i)) (quorum_index cfg (match_index_of (p_node s i)))
      \<subseteq> {v. acked s v (r_term (p_node s i)) (quorum_index cfg (match_index_of (p_node s i)))}"
  proof
    fix v assume "v \<in> reached cfg (match_index_of (p_node s i)) (quorum_index cfg (match_index_of (p_node s i)))"
    then have v: "quorum_index cfg (match_index_of (p_node s i)) \<le> match_index_of (p_node s i) v"
      by (simp add: reached_def)
    then have "acked s v (r_term (p_node s i)) (match_index_of (p_node s i) v)"
      using progress member role pos unfolding progress_inv_def by auto
    from acked_less[OF this v]
    show "v \<in> {v. acked s v (r_term (p_node s i)) (quorum_index cfg (match_index_of (p_node s i)))}" by simp
  qed
qed

lemma committed_node:
  assumes ready: "ready sha cfg s" and ballots: "ballot_inv cfg s" and acks: "ack_inv cfg s"
    and commits: "commit_inv cfg s" and progress: "progress_inv cfg s" and member: "cfg_contains cfg i"
    and move: "move sha True (inbox (p_sent s) i) (p_node s i) acts n"
  shows "committed cfg s (r_term n) (full_log (p_log s) (r_log n)) (r_commit_index n)"
proof -
  let ?m = "p_node s i" and ?F = "full_log (p_log s) (r_log n)"
  note logs = readyD(3)[OF ready] and wf = readyD(5)[OF ready member]
  have up: "r_term ?m \<le> r_term n" using term_after[OF ready member move, of i] by simp
  show ?thesis
  proof (cases rule: move_commit[OF move])
    case 1
    note before = commit_invD(1)[OF commits member]
    have len: "r_commit_index ?m \<le> length (p_full s i)"
      using wf_simps(4)[OF wf] length_p_full[OF ready member] by simp
    have "committed cfg s (r_term ?m) ?F (r_commit_index ?m)"
    proof (cases rule: move_log[OF wf move logs_invD(1,2)[OF logs member] logs_invD(4)[OF logs]
          pieces_inv_inbox[OF readyD(4)[OF ready]]])
      case 1
      then show ?thesis using before by simp
    next
      case (2 e)
      then show ?thesis using len by (intro committed_same[OF before]) simp_all
    next
      case (3 m)
      have "p_log s (r_term ?m) \<noteq> []" using 3(3,6) by auto
      then have "p_elected s (r_term ?m) \<noteq> None" using logs_invD(6)[OF logs] by blast
      note leader = committed_leader[OF ready ballots acks before this]
      have "take (r_commit_index ?m) ?F = take (r_commit_index ?m) (p_log s (r_term ?m))" "r_commit_index ?m \<le> length ?F"
        using 3(1,3,6) by (simp_all add: min.absorb1)
      then show ?thesis using committed_same[OF leader(1)] by blast
    qed
    then show ?thesis using committed_later[OF _ up] 1 by simp
  next
    case (2 index)
    have F: "p_log s (r_term ?m) = p_full s i" using logs_invD(3)[OF logs member 2(1)] .
    have at: "term_at (p_full s i) index = r_term ?m" "index \<le> length (p_full s i)"
      using log_term_full[OF logs_invD(1)[OF logs member] wf_simps(1)[OF wf] 2(4)] by auto
    have "0 < index" using 2(3) by simp
    then have "is_quorum cfg {v. acked s v (r_term ?m) index}"
      using quorum_acked[OF ready progress member 2(1)] 2(2) readyD(7)[OF ready member] by simp
    then have "chosen cfg s (r_term ?m) index"
      using at F \<open>0 < index\<close> by (simp add: chosen_def)
    then have "committed cfg s (r_term ?m) (p_full s i) index"
      using at F unfolding committed_def holds_def
      by (intro disjI2 exI[of _ "r_term ?m"] exI[of _ index]) simp
    then show ?thesis using 2 by simp
  next
    case (3 src prev prev_term entries leader_commit index)
    obtain token where "(src, i, AppendEntries (r_term ?m) src prev prev_term entries leader_commit token) \<in> p_sent s"
      using 3(1) by (auto simp: append_received_def inbox_def)
    from committed_less[OF commit_invD(2)[OF commits this] 3(3)]
    have leader: "committed cfg s (r_term ?m) (p_log s (r_term ?m)) index" .
    have "holds (p_log s) (r_term ?m) index (p_full s i)"
      by (rule holds_less[OF received_prefix[OF ready member 3(1,2)] 3(4)])
    then have "committed cfg s (r_term ?m) (p_full s i) index"
      using committed_same[OF leader] unfolding holds_def by blast
    then show ?thesis using 3 by simp
  next
    case (4 src metadata offset data finished)
    let ?i = "sm_last_included_index metadata"
    from 4(1) have msg: "(src, i, InstallSnapshot (r_term ?m) src metadata offset data finished) \<in> p_sent s"
      by (simp add: inbox_def)
    then have piece: "?i \<le> length (p_log s (r_term ?m))"
      "term_at (p_log s (r_term ?m)) ?i = sm_last_included_term metadata"
      using readyD(4)[OF ready] unfolding pieces_inv_def by blast+
    have base: "?i \<le> length (p_log s (sm_last_included_term metadata))"
      using boundary_after[OF ready member move] 4 by (simp add: boundary_ok_def)
    then have "take ?i ?F = take ?i (p_log s (r_term ?m))" "?i \<le> length ?F"
      using traced_prefix[OF logs_invD(4)[OF logs] piece(1)] piece(2) 4 by (simp_all add: full_log_def)
    then have "committed cfg s (r_term ?m) ?F ?i"
      by (intro committed_same[OF commit_invD(3)[OF commits msg]])
    then show ?thesis using 4 by simp
  qed
qed

lemma commit_inv_move:
  assumes ready: "ready sha cfg s" and ballots: "ballot_inv cfg s" and acks: "ack_inv cfg s"
    and commits: "commit_inv cfg s" and progress: "progress_inv cfg s" and member: "cfg_contains cfg i"
    and move: "move sha True (inbox (p_sent s) i) (p_node s i) acts n"
  shows "commit_inv cfg (record_move i acts n s)"
proof -
  let ?s = "record_move i acts n s" and ?m = "p_node s i"
  note logs = readyD(3)[OF ready] and wf = readyD(5)[OF ready member]
  note kept = committed_after[OF ready member move] and log_kept = committed_log_after[OF ready member move]
  have nodes: "committed cfg ?s (r_term (p_node ?s j)) (p_full ?s j) (r_commit_index (p_node ?s j))"
    if j: "cfg_contains cfg j" for j
  proof (cases "j = i")
    case True
    then show ?thesis
      using kept[OF committed_node[OF assms]] p_full_after[OF ready member j move] by simp
  next
    case False
    then show ?thesis using kept[OF commit_invD(1)[OF commits j]] p_full_after[OF ready member j move] by simp
  qed
  have leader: "committed cfg ?s (r_term ?m) (p_log ?s (r_term ?m)) m"
    if "r_role ?m = Leader" "m \<le> r_commit_index ?m" for m
    using log_kept[of "r_term ?m" "r_term ?m" m] committed_less[OF commit_invD(1)[OF commits member] that(2)]
      logs_invD(3)[OF logs member that(1)] by simp
  have appends: "committed cfg ?s t (p_log ?s t) leader_commit"
    if sent: "(src, to, AppendEntries t l prev prev_term entries leader_commit token) \<in> p_sent ?s"
    for src to t l prev prev_term entries leader_commit token
  proof (cases "(src, to, AppendEntries t l prev prev_term entries leader_commit token) \<in> p_sent s")
    case True
    then show ?thesis by (rule log_kept[OF commit_invD(2)[OF commits]])
  next
    case False
    with sent have "Send to (AppendEntries t l prev prev_term entries leader_commit token) \<in> set acts"
      unfolding sent_after by blast
    from move_append_sent[OF move this] show ?thesis using leader by simp
  qed
  have snapshots: "committed cfg ?s t (p_log ?s t) (sm_last_included_index metadata)"
    if sent: "(src, to, InstallSnapshot t l metadata offset data finished) \<in> p_sent ?s"
    for src to t l metadata offset data finished
  proof (cases "(src, to, InstallSnapshot t l metadata offset data finished) \<in> p_sent s")
    case True
    then show ?thesis by (rule log_kept[OF commit_invD(3)[OF commits]])
  next
    case False
    with sent have "Send to (InstallSnapshot t l metadata offset data finished) \<in> set acts"
      unfolding sent_after by blast
    note facts = move_snapshot_sent[OF move this]
    then have "sm_last_included_index metadata = rl_base_index (r_log ?m)"
      using wf by (auto simp: raft_wf_def snapshot_link_def)
    then have "sm_last_included_index metadata \<le> r_commit_index ?m" using wf_simps(3,5)[OF wf] by linarith
    with facts show ?thesis using leader by simp
  qed
  show ?thesis unfolding commit_inv_def using nodes appends snapshots by blast
qed

section \<open>Progress and applied entries\<close>

lemma match_index_fields [simp]:
  "match_index_of (n\<lparr>r_log := l\<rparr>) v = match_index_of n v"
  "match_index_of (n\<lparr>r_hard_state := hs\<rparr>) v = match_index_of n v"
  "match_index_of (n\<lparr>r_snapshot := sn\<rparr>) v = match_index_of n v"
  "match_index_of (n\<lparr>r_applied_index := a\<rparr>) v = match_index_of n v"
  by (simp_all add: match_index_of_def)

lemma move_match:
  assumes "move sha strict M n acts n'" and "r_role n' = Leader" and "0 < match_index_of n' v"
  obtains (Keep) "r_role n = Leader" and "r_term n' = r_term n" and "match_index_of n' v = match_index_of n v"
  | (Self) "v = r_id n" and "match_index_of n' v = log_last_index (r_log n')"
  | (Append) c d token where "(v, AppendEntriesResponse (r_term n') True (match_index_of n' v) c d token) \<in> M"
  | (Snapshot) offset where "(v, InstallSnapshotResponse (r_term n') True offset True (match_index_of n' v)) \<in> M"
  using assms(1)
proof cases
  case (Lead entry)
  then show thesis using assms(3) Self
    by (auto simp: match_index_of_def leader_progress_get log_last_index_def split: if_splits)
next
  case (Extend entry payload)
  show thesis
  proof (cases "v = r_id n \<and> bt_get (r_progress n) v \<noteq> None")
    case True
    then show thesis using Extend by (intro Self) (auto simp: log_last_index_def)
  next
    case False
    then show thesis using Extend by (intro Keep) auto
  qed
next
  case (Match src index c d token offset f)
  show thesis
  proof (cases "v = src \<and> bt_get (r_progress n) v \<noteq> None \<and> match_index_of n v < index")
    case True
    then obtain progress where "bt_get (r_progress n) v = Some progress" "match_index_of n v = pr_match_index progress"
      by (auto simp: match_index_of_def)
    then have "match_index_of n' v = index" using Match True by auto
    then show thesis using Match(3) True Append Snapshot by (auto simp: Match(2))
  next
    case False
    then have "match_index_of n' v = match_index_of n v" using Match
      by (cases "bt_get (r_progress n) v") (auto simp: match_index_of_def[of n])
    then show thesis using Match by (intro Keep) auto
  qed
next
  case Quiet
  then show thesis using assms(2) by (intro Keep) (auto simp: quiet_def same_durable_def)
qed (use assms(2) Keep in \<open>auto simp: append_received_def\<close>)

lemma progress_inv_move:
  assumes ready: "ready sha cfg s" and progress: "progress_inv cfg s" and member: "cfg_contains cfg i"
    and move: "move sha strict (inbox (p_sent s) i) (p_node s i) acts n"
  shows "progress_inv cfg (record_move i acts n s)"
proof -
  let ?s = "record_move i acts n s" and ?m = "p_node s i"
  note kept = acked_after[OF ready member move]
  have own: "acked ?s v (r_term n) (match_index_of n v)" if role: "r_role n = Leader" and pos: "0 < match_index_of n v" for v
  proof (cases rule: move_match[OF move role pos])
    case 1
    then show ?thesis using kept progress member pos unfolding progress_inv_def by simp
  next
    case 2
    have "p_elected ?s (r_term n) = Some i" using role by (simp add: record_elected)
    moreover have "p_log ?s (r_term n) = full_log (p_log s) (r_log n)" using role by (simp add: record_log)
    moreover have "length (full_log (p_log s) (r_log n)) = log_last_index (r_log n)"
      using length_full_log[OF boundary_after[OF ready member move] wf_simps(1)[OF move_wf[OF readyD(5)[OF ready member] move]]] .
    ultimately show ?thesis using 2 readyD(6)[OF ready member] unfolding acked_def by simp
  next
    case (3 c d token)
    then have "acked s v (r_term n) (match_index_of n v)" unfolding acked_def inbox_def by blast
    then show ?thesis by (rule kept)
  next
    case (4 offset)
    then have "acked s v (r_term n) (match_index_of n v)" unfolding acked_def inbox_def by blast
    then show ?thesis by (rule kept)
  qed
  show ?thesis unfolding progress_inv_def
  proof (intro allI impI)
    fix j v assume j: "cfg_contains cfg j" "r_role (p_node ?s j) = Leader" "0 < match_index_of (p_node ?s j) v"
    show "acked ?s v (r_term (p_node ?s j)) (match_index_of (p_node ?s j) v)"
      using own j progress kept unfolding progress_inv_def by (cases "j = i") simp_all
  qed
qed

lemma move_applied:
  assumes "move sha strict M n acts n'" and "ApplyEntry e \<in> set acts"
  shows "r_applied_index n < r_commit_index n \<and> log_entry_at (r_log n) (r_applied_index n + 1) = Some e"
  using assms by cases (auto simp: list_all_iff)

lemma applied_inv_move:
  assumes ready: "ready sha cfg s" and commits: "commit_inv cfg s" and applied: "applied_inv cfg s"
    and member: "cfg_contains cfg i" and move: "move sha strict (inbox (p_sent s) i) (p_node s i) acts n"
  shows "applied_inv cfg (record_move i acts n s)"
  unfolding applied_inv_def
proof (intro allI impI)
  let ?s = "record_move i acts n s" and ?m = "p_node s i"
  note ext = p_log_extends[OF ready member move] and wf = readyD(5)[OF ready member]
  fix j e assume e: "(j, e) \<in> p_applied ?s"
  have "\<exists>t k. chosen cfg s t k \<and> 0 < le_index e \<and> le_index e \<le> k \<and> p_log s t ! (le_index e - 1) = e"
  proof (cases "(j, e) \<in> p_applied s")
    case True
    then show ?thesis using applied unfolding applied_inv_def by blast
  next
    case False
    with e have "ApplyEntry e \<in> set acts" by (auto simp: applies_def)
    note facts = move_applied[OF move this]
    let ?k = "r_applied_index ?m + 1"
    have index: "le_index e = ?k" using facts log_entry_at_SomeD(1)[OF wf_simps(1)[OF wf]] by blast
    have entry: "p_full s i ! (?k - 1) = e"
      using facts logs_invD(1)[OF readyD(3)[OF ready] member]
      by (auto simp: log_entry_at_def full_log_def boundary_ok_def nth_append Let_def split: if_splits)
    from commit_invD(1)[OF commits member] facts obtain t k where
      tk: "r_commit_index ?m \<le> k" "chosen cfg s t k" "holds (p_log s) t (r_commit_index ?m) (p_full s i)"
      unfolding committed_def by auto
    then have "p_log s t ! (?k - 1) = e"
      using prefix_nth[of "r_commit_index ?m" "p_full s i" "p_log s t" "?k - 1"] facts entry by (simp add: holds_def)
    then show ?thesis using tk facts index by (intro exI[of _ t] exI[of _ k]) auto
  qed
  then obtain t k where tk: "chosen cfg s t k" "0 < le_index e" "le_index e \<le> k" "p_log s t ! (le_index e - 1) = e" by blast
  then have "p_log ?s t ! (le_index e - 1) = e"
    using prefix_nth[OF extends_take[OF ext, of k t], of "le_index e - 1"] by (auto simp: chosen_def)
  then show "\<exists>t k. chosen cfg ?s t k \<and> 0 < le_index e \<and> le_index e \<le> k \<and> p_log ?s t ! (le_index e - 1) = e"
    using tk chosen_after[OF ready member move] by blast
qed

section \<open>Runs\<close>

definition safe :: "(bytes \<Rightarrow> bytes) \<Rightarrow> configuration \<Rightarrow> proto \<Rightarrow> bool" where
  "safe sha cfg s =
     (ready sha cfg s \<and> ballot_inv cfg s \<and> ack_inv cfg s \<and> commit_inv cfg s \<and> progress_inv cfg s \<and> applied_inv cfg s)"

lemma safe_step:
  assumes "safe sha cfg s" and "proto_step sha cfg True s s'"
  shows "safe sha cfg s'"
  using assms(2)
proof cases
  case (Move i acts n)
  then show ?thesis
    using assms ready_step[OF _ assms(2)] ballot_inv_move[OF _ _ Move(2,3)] ack_inv_move[OF _ _ _ _ Move(2,3)]
      commit_inv_move[OF _ _ _ _ _ Move(2,3)] progress_inv_move[OF _ _ Move(2,3)] applied_inv_move[OF _ _ _ Move(2,3)]
    unfolding safe_def by blast
qed

lemma safe_init: "config_ok cfg \<Longrightarrow> safe sha cfg (proto_init cfg)"
  using ready_init[of cfg sha] ballot_inv_init[of cfg]
  by (auto simp: safe_def ack_inv_def acked_def commit_inv_def committed_def progress_inv_def applied_inv_def
      proto_init_def raft_fresh_def default_hard_state_def)

lemma safe_reach:
  assumes "proto_reach sha cfg True s s'" and "safe sha cfg s"
  shows "safe sha cfg s' \<and> (\<forall>T xs m. committed cfg s T xs m \<longrightarrow> committed cfg s' T xs m)"
  using assms unfolding proto_reach_def
proof (induction rule: rtranclp_induct)
  case (step s1 s2)
  from step.hyps(2) obtain i acts n where "s2 = record_move i acts n s1" "cfg_contains cfg i"
    "move sha True (inbox (p_sent s1) i) (p_node s1 i) acts n" by cases
  moreover have "safe sha cfg s1" using step by blast
  ultimately have "committed cfg s1 T xs m \<Longrightarrow> committed cfg s2 T xs m" for T xs m
    using committed_after[of sha cfg s1 i True acts n] by (auto simp: safe_def)
  then show ?case using step safe_step by blast
qed simp

lemma cluster_safe:
  assumes "config_ok cfg" and "cluster_reach sha cfg True (cluster_init cfg) c"
  obtains s where "abstracts cfg c s" and "safe sha cfg s"
  using abstracts_reach[OF assms(2) abstracts_init basic_inv_init[OF assms(1)]] safe_reach[OF _ safe_init[OF assms(1)]]
  by blast

lemma p_full_entry:
  assumes "ready sha cfg s" and "cfg_contains cfg i" and "log_entry_at (r_log (p_node s i)) k = Some e"
  shows "p_full s i ! (k - 1) = e" and "0 < k" and "k \<le> length (p_full s i)"
  using assms(3) logs_invD(1)[OF readyD(3)[OF assms(1)] assms(2)]
  by (auto simp: log_entry_at_def full_log_def boundary_ok_def nth_append Let_def split: if_splits)

section \<open>Safety of the cluster\<close>

text \<open>
  C34: Leader completeness.  In runs in which followers commit only verified entries, an entry at or
  below the commit index of some node is in the log of every leader, now or later, whose term is at
  least that node's, unless the leader has already compacted that index.
\<close>

theorem leader_completeness:
  assumes "config_ok cfg"
    and "cluster_reach sha cfg True (cluster_init cfg) c" and "cluster_reach sha cfg True c d"
    and "cl_live c i = Some n" and "log_entry_at (r_log n) k = Some e" and "k \<le> r_commit_index n"
    and "cl_live d j = Some m" and "r_role m = Leader" and "r_term n \<le> r_term m"
  shows "log_entry_at (r_log m) k = Some e \<or> k \<le> rl_base_index (r_log m)"
proof -
  from cluster_safe[OF assms(1,2)] obtain s where s: "abstracts cfg c s" "safe sha cfg s" by blast
  from abstracts_reach[OF assms(3) s(1)] s(2) obtain s' where
    reach: "proto_reach sha cfg True s s'" and s': "abstracts cfg d s'" by (auto simp: safe_def ready_def)
  note later = safe_reach[OF reach s(2)]
  have n: "cfg_contains cfg i" "p_node s i = n" using abstracts_live[OF s(1) assms(4)] by auto
  have m: "cfg_contains cfg j" "p_node s' j = m" using abstracts_live[OF s' assms(7)] by auto
  have ready: "ready sha cfg s" "ready sha cfg s'" using s(2) later by (auto simp: safe_def)
  have "committed cfg s (r_term n) (p_full s i) (r_commit_index n)"
    using commit_invD(1)[of cfg s i] s(2) n by (simp add: safe_def)
  then have "committed cfg s' (r_term m) (p_full s i) (r_commit_index n)"
    using later committed_later assms(9) by blast
  moreover have "p_elected s' (r_term m) \<noteq> None"
    using leader_elected[OF readyD(2)[OF ready(2)] m(1)] m(2) assms(8) by simp
  ultimately have same: "take (r_commit_index n) (p_full s i) = take (r_commit_index n) (p_full s' j)"
      and len: "r_commit_index n \<le> length (p_full s' j)"
    using committed_leader[of sha cfg s' "r_term m" "p_full s i" "r_commit_index n"] later
      logs_invD(3)[OF readyD(3)[OF ready(2)] m(1)] m(2) assms(8) by (auto simp: safe_def)
  note entry = p_full_entry[OF ready(1) n(1), unfolded n(2), OF assms(5)]
  have "p_full s' j ! (k - 1) = e"
    using prefix_nth[OF same, of "k - 1"] entry assms(6) n(2) by simp
  then show ?thesis
    using len entry(2) assms(6) m(2) logs_invD(1)[OF readyD(3)[OF ready(2)] m(1)]
    by (auto simp: log_entry_at_def full_log_def boundary_ok_def nth_append Let_def)
qed

theorem leader_completeness_witness:
  "\<exists>c n m. cluster_reach id three_voters True (cluster_init three_voters) c
     \<and> cl_live c 2 = Some m \<and> r_commit_index m = 1 \<and> cl_live c 1 = Some n \<and> r_role n = Leader
     \<and> log_entry_at (r_log n) 1 = Some first_entry"
proof -
  obtain c n m where c: "cluster_reach id three_voters True (cluster_init three_voters) c"
    and n: "cl_live c 1 = Some n" "r_role n = Leader" "r_term n = 1" "rl_base_index (r_log n) = 0"
    and m: "cl_live c 2 = Some m" "log_entry_at (r_log m) 1 = Some first_entry" "r_commit_index m = 1" "r_term m = 1"
    by (rule replicated)
  have refl: "cluster_reach id three_voters True c c" by (simp add: cluster_reach_def)
  have "log_entry_at (r_log n) 1 = Some first_entry \<or> 1 \<le> rl_base_index (r_log n)"
    by (rule leader_completeness[OF three_voters_ok c refl m(1,2) _ n(1,2)]) (simp_all add: m n)
  with c n m show ?thesis by auto
qed

text \<open>
  C35: State machine safety.  In runs in which followers commit only verified entries, no two nodes
  ever apply different entries at the same index, whatever messages are lost, repeated or reordered
  and whichever nodes crash and restart.
\<close>

theorem state_machine_safety:
  assumes "config_ok cfg" and "cluster_reach sha cfg True (cluster_init cfg) c"
    and "(i, e) \<in> cl_applied c" and "(j, e') \<in> cl_applied c" and "le_index e = le_index e'"
  shows "e = e'"
proof -
  from cluster_safe[OF assms(1,2)] obtain s where s: "abstracts cfg c s" "safe sha cfg s" by blast
  note inv = s(2)[unfolded safe_def]
  have applied: "\<exists>t k. chosen cfg s t k \<and> 0 < le_index x \<and> le_index x \<le> k \<and> p_log s t ! (le_index x - 1) = x"
    if "(v, x) \<in> cl_applied c" for v x
    using inv s(1) that unfolding applied_inv_def abstracts_def by blast
  have agree: "x = y" if x: "chosen cfg s t k" "0 < le_index x" "le_index x \<le> k" "p_log s t ! (le_index x - 1) = x"
    and y: "chosen cfg s t' k'" "le_index x \<le> k'" "p_log s t' ! (le_index x - 1) = y" and le: "t \<le> t'" for x y t k t' k'
  proof (cases "t = t'")
    case False
    have "p_log s t' \<noteq> []" using y(1) by (auto simp: chosen_def)
    then have "p_elected s t' \<noteq> None" using logs_invD(6)[OF readyD(3), of sha cfg s t'] inv by blast
    then have "holds (p_log s) t k (p_log s t')"
      using leader_holds[of sha cfg s t k t'] inv x(1) le False by simp
    then show ?thesis using prefix_nth[of k "p_log s t'" "p_log s t" "le_index x - 1"] x y by (simp add: holds_def)
  qed (use x y in simp)
  from applied[OF assms(3)] obtain t k where
    x: "chosen cfg s t k" "0 < le_index e" "le_index e \<le> k" "p_log s t ! (le_index e - 1) = e" by blast
  from applied[OF assms(4)] obtain t' k' where
    y: "chosen cfg s t' k'" "0 < le_index e'" "le_index e' \<le> k'" "p_log s t' ! (le_index e' - 1) = e'" by blast
  show ?thesis
  proof (cases "t \<le> t'")
    case True
    then show ?thesis using agree[OF x y(1)] y(3,4) assms(5) by simp
  next
    case False
    then show ?thesis using agree[OF y x(1)] x(3,4) assms(5) by simp
  qed
qed

theorem state_machine_safety_witness:
  "\<exists>c e e'. cluster_reach id three_voters True (cluster_init three_voters) c
     \<and> (1, e) \<in> cl_applied c \<and> (2, e') \<in> cl_applied c \<and> e = e'"
proof -
  obtain c where c: "cluster_reach id three_voters True (cluster_init three_voters) c"
    and e: "(1, first_entry) \<in> cl_applied c" "(2, first_entry) \<in> cl_applied c" by (rule replicated)
  from state_machine_safety[OF three_voters_ok c e refl] c e show ?thesis by blast
qed

end
