(* ===== verification/Raft_Divergence.thy ===== *)
theory Raft_Divergence
  imports Raft_Example
begin

text \<open>
  A run of three nodes in which two of them apply different entries at index 65.

  \<open>on_append_entries\<close> takes the smaller of the leader's commit index and its own last index as the new
  commit index (\<open>node.rs\<close>, line 682), also when the message has verified only a shorter part of its log,
  which happens for logs of more than \<open>MAX_APPEND_ENTRIES\<close> entries.  Node 1 leads term 1 and appends 65
  entries, of which the others get 64.  Node 2 leads term 2 and commits its own entry 65 with node 3.  A
  rejection of node 1 that reaches node 2 65 times makes it send the first 64 entries again, and they make
  node 1 commit the entry 65 of term 1.
\<close>

section \<open>The nodes of the run\<close>

definition track :: "progress \<Rightarrow> progress \<Rightarrow> progress \<Rightarrow> (node_id, progress) btmap" where
  "track a b c = bt_insert 1 a (bt_insert 2 b (bt_insert 3 c bt_empty))"

definition at_index :: "nat \<Rightarrow> nat \<Rightarrow> progress" where
  "at_index m n = \<lparr>pr_match_index = m, pr_next_index = n, pr_snapshot_offset = None\<rparr>"

definition voter :: "node_id \<Rightarrow> nat \<Rightarrow> node_id option \<Rightarrow> nat \<Rightarrow> log_entry list \<Rightarrow> role \<Rightarrow> node_id option
    \<Rightarrow> (node_id, progress) btmap \<Rightarrow> node_id btset \<Rightarrow> raft" where
  "voter i tm vote commit entries role leader progress active =
     \<lparr>r_id = i, r_configuration = three_voters,
      r_hard_state = \<lparr>hs_current_term = tm, hs_voted_for = vote, hs_commit_index = commit\<rparr>,
      r_log = \<lparr>rl_base_index = 0, rl_base_term = 0, rl_entries = entries\<rparr>, r_snapshot = None,
      r_applied_index = commit, r_role = role, r_leader_id = leader, r_campaign_term = None,
      r_votes = bt_empty, r_progress = progress, r_recent_active = active, r_pending_reads = bt_empty,
      r_incoming_snapshot = None\<rparr>"

definition proposed :: "nat \<Rightarrow> log_entry" where
  "proposed k = \<lparr>le_index = k + 2, le_term = 1, le_payload = Command k []\<rparr>"

definition command_ids :: "nat list" where
  "command_ids =
     [0, 1, 2, 3, 4, 5, 6, 7, 8, 9, 10, 11, 12, 13, 14, 15, 16, 17, 18, 19, 20, 21, 22, 23, 24, 25, 26,
      27, 28, 29, 30, 31, 32, 33, 34, 35, 36, 37, 38, 39, 40, 41, 42, 43, 44, 45, 46, 47, 48, 49, 50, 51,
      52, 53, 54, 55, 56, 57, 58, 59, 60, 61, 62, 63]"

definition entries_upto :: "nat \<Rightarrow> log_entry list" where
  "entries_upto k = first_entry # map proposed (take k command_ids)"

definition new_entry :: log_entry where
  "new_entry = \<lparr>le_index = 65, le_term = 2, le_payload = Noop\<rparr>"

definition old_leader :: "log_entry list \<Rightarrow> raft" where
  "old_leader entries =
     voter 1 1 (Some 1) 0 entries Leader (Some 1)
       (track (at_index (length entries) (length entries + 1)) (at_index 0 1) (at_index 0 1))
       (cfg_participants three_voters)"

definition stale_node :: raft where
  "stale_node = voter 1 2 None 0 (entries_upto 64) Follower (Some 2) bt_empty bt_empty"

definition new_leader :: "nat \<Rightarrow> raft" where
  "new_leader index =
     voter 2 2 (Some 2) 65 (entries_upto 63 @ [new_entry]) Leader (Some 2)
       (track (at_index 0 index) (at_index 65 66) (at_index 65 66)) (cfg_participants three_voters)"

definition first_stage :: "event list" where
  "first_stage =
     [Local 1 (Tick Election) [0], Deliver 0 [0], Deliver 1 [0], Deliver 2 [0], Deliver 3 [0, 1],
      Deliver 4 [0], Deliver 5 [0], Deliver 6 [], Deliver 7 [], Forget]"

definition second_stage :: "event list" where
  "second_stage =
     [Local 1 (Propose 62 []) [0, 1], Deliver 0 [], Deliver 1 [], Forget, Local 1 (Propose 63 []) [],
      Local 2 (Tick Election) [1], Deliver 0 [0], Deliver 1 [1], Deliver 2 [0], Deliver 3 [0, 1],
      Deliver 5 [0], Deliver 6 [0], Deliver 7 [0], Deliver 8 [], Deliver 4 [0]]"

definition rejection :: message where
  "rejection = AppendEntriesResponse 2 False 0 1 (Some 1) None"

definition followers :: "(node_id \<times> raft) list" where
  "followers = [(2, voter 2 1 (Some 1) 0 [] Follower (Some 1) bt_empty bt_empty),
                (3, voter 3 1 None 0 [] Follower (Some 1) bt_empty bt_empty)]"

lemma run_append:
  "run sha strict (es @ fs) ms = (case run sha strict es ms of None \<Rightarrow> None | Some ms' \<Rightarrow> run sha strict fs ms')"
  by (induction es arbitrary: ms) (auto split: option.splits)

lemma first_stage_result:
  "run id False first_stage (machines_init three_voters)
     = Some ((1, old_leader (entries_upto 0)) # followers, [], [])"
  by code_simp

lemma second_stage_result:
  "case run id False second_stage ((1, old_leader (entries_upto 62)) # followers, [], []) of
     None \<Rightarrow> False
   | Some (nodes, sent, applied) \<Rightarrow> map_of nodes 1 = Some stale_node \<and> map_of nodes 2 = Some (new_leader 66)
       \<and> length sent = 10 \<and> sent ! 9 = (1, 2, rejection) \<and> (2, new_entry) \<in> set applied"
  by code_simp

section \<open>Proposals\<close>

lemma command_ids_eq: "command_ids = [0..<64]"
  by (simp add: command_ids_def upt_conv_Cons)

lemma entries_upto_eq: "k \<le> 64 \<Longrightarrow> entries_upto k = first_entry # map proposed [0..<k]"
  by (simp add: entries_upto_def command_ids_eq take_upt)

lemma entries_upto_Suc: "k < 64 \<Longrightarrow> entries_upto (Suc k) = entries_upto k @ [proposed k]"
  by (simp add: entries_upto_eq)

lemma length_entries_upto: "k \<le> 64 \<Longrightarrow> length (entries_upto k) = k + 1"
  by (simp add: entries_upto_eq)

lemma last_index_upto: "k \<le> 64 \<Longrightarrow> le_index (List.last (entries_upto k)) = k + 1"
  by (cases k) (simp_all add: entries_upto_eq first_entry_def proposed_def)

lemma voter_keys: "bt_keys (cfg_participants three_voters) = [1, 2, 3]"
  by code_simp

lemma one_is_no_quorum: "\<not> is_quorum three_voters {1}"
proof -
  have "\<not> quorum three_voters (bts_insert 1 bt_empty)" by code_simp
  then show ?thesis by (simp add: quorum_iff bts_set_insert)
qed

lemma alone_quorum_index:
  assumes "matched 2 = 0" and "matched 3 = 0"
  shows "quorum_index three_voters matched = 0"
proof (rule ccontr)
  assume pos: "quorum_index three_voters matched \<noteq> 0"
  have "reached three_voters matched (quorum_index three_voters matched) \<subseteq> {1}"
    using assms pos by (auto simp: reached_def bts_set_def voter_keys)
  with quorum_index_greatest(1)[OF three_voters_ok, of matched] one_is_no_quorum show False
    using quorums.mono by blast
qed

lemma track_get [simp]:
  "bt_get (track a b c) 1 = Some a" "bt_get (track a b c) 2 = Some b" "bt_get (track a b c) 3 = Some c"
  by (simp_all add: track_def)

lemma track_insert [simp]: "bt_insert 1 a' (track a b c) = track a' b c"
  by (rule btmap_eqI) (simp add: track_def)

lemmas track_one [simp] = track_get(1)[unfolded One_nat_def] track_insert[unfolded One_nat_def]

lemma propose_step:
  assumes "k < 64"
  shows "\<exists>acts. raft_step sha (Propose k []) (old_leader (entries_upto k)) = (old_leader (entries_upto (Suc k)), acts)
    \<and> list_all action_bounded acts \<and> \<not> list_ex halting acts \<and> applies_of 1 acts = []"
proof -
  let ?n = "old_leader (entries_upto k)" and ?n' = "old_leader (entries_upto (Suc k))"
  have last: "log_last_index (r_log ?n) + 1 = k + 2"
    using last_index_upto[of k] assms by (simp add: old_leader_def voter_def log_last_index_def entries_upto_eq)
  have idle: "apply_committed ?n = (?n, [])"
    by (simp add: old_leader_def voter_def apply_committed.simps)
  have new: "update_progress (r_id ?n) (\<lambda>progress. progress\<lparr>pr_match_index := k + 2, pr_next_index := k + 2 + 1\<rparr>)
      (?n\<lparr>r_log := log_append [proposed k] (r_log ?n)\<rparr>) = ?n'"
    using assms
    by (simp add: old_leader_def voter_def update_progress_def at_index_def entries_upto_Suc length_entries_upto log_append_def)
  have commit: "advance_leader_commit ?n' = (?n', [])"
  proof -
    have "quorum_index three_voters (match_index_of ?n') = 0"
      by (rule alone_quorum_index) (simp_all add: match_index_of_def old_leader_def voter_def at_index_def)
    then show ?thesis by (simp add: advance_leader_commit_def old_leader_def voter_def)
  qed
  have send: "\<exists>m. send_append ?n' peer None = [Send peer m]" if "peer = 2 \<or> peer = 3" for peer
    using that by (auto simp: send_append_def old_leader_def voter_def at_index_def log_term_def Let_def)
  have peers: "peers ?n' = [2, 3]" by (simp add: peers_def old_leader_def voter_def voter_keys)
  obtain m1 m2 where "broadcast_append ?n' None = [Send 2 m1, Send 3 m2]"
    using send[of 2] send[of 3] by (auto simp: broadcast_append_def peers)
  moreover have "raft_step sha (Propose k []) ?n = (?n', Persist (MAppend [proposed k]) # broadcast_append ?n' None)"
  proof -
    have role: "r_role ?n = Leader" "r_term ?n = 1" by (simp_all add: old_leader_def voter_def)
    have entry: "\<lparr>le_index = k + 2, le_term = 1, le_payload = Command k []\<rparr> = proposed k" by (simp add: proposed_def)
    have index: "le_index (proposed k) = k + 2" by (simp add: proposed_def)
    have "propose k [] ?n = andThen (?n', [Persist (MAppend [proposed k])]) (\<lambda>n.
        andThen (advance_leader_commit n) (\<lambda>n. (n, broadcast_append n None)))"
      unfolding propose_def Let_def last role entry index new by simp
    then show ?thesis by (simp add: raft_step_def andThen_eq idle commit)
  qed
  ultimately show ?thesis using assms
    by (simp add: proposed_def u64_max_def applies_of_def)
qed

lemma proposals_run:
  "k \<le> 64 \<Longrightarrow> run sha False (map (\<lambda>k. Local 1 (Propose k []) []) [0..<k])
       ((1, old_leader (entries_upto 0)) # followers, [], [])
     = Some ((1, old_leader (entries_upto k)) # followers, [], [])"
proof (induction k)
  case (Suc k)
  from propose_step[of k] Suc.prems obtain acts where
    step: "raft_step sha (Propose k []) (old_leader (entries_upto k)) = (old_leader (entries_upto (Suc k)), acts)"
    and ok: "list_all action_bounded acts" "\<not> list_ex halting acts" "applies_of 1 acts = []" by auto
  have "run_event sha False (Local 1 (Propose k []) []) ((1, old_leader (entries_upto k)) # followers, [], [])
      = Some ((1, old_leader (entries_upto (Suc k))) # followers, [], [])"
    using step ok by (simp add: run_input_def pick_def latest_def)
  with Suc show ?case by (simp add: run_append)
qed simp

section \<open>Rejections\<close>

lemma last_index_old_term:
  "last_index_of_term \<lparr>rl_base_index = 0, rl_base_term = 0, rl_entries = entries_upto 63 @ [new_entry]\<rparr> 1 = Some 64"
  using entries_upto_Suc[of 62] by (simp add: last_index_of_term_def new_entry_def proposed_def)

lemma voter_one: "cfg_contains three_voters 1" "bts_insert 1 (cfg_participants three_voters) = cfg_participants three_voters"
  by code_simp+

lemma new_leader_last:
  "log_last_index \<lparr>rl_base_index = 0, rl_base_term = 0, rl_entries = entries_upto 63 @ [new_entry]\<rparr> = 65"
  by (simp add: log_last_index_def new_entry_def)

lemma new_leader_send:
  assumes "1 \<le> index" and "index \<le> 65"
  shows "\<exists>m. send_append (new_leader index) 1 None = [Send 1 m]"
proof -
  have "\<exists>t. log_term \<lparr>rl_base_index = 0, rl_base_term = 0, rl_entries = entries_upto 63 @ [new_entry]\<rparr> (index - 1) = Some t"
    using assms length_entries_upto[of 63] by (auto simp: log_term_def Let_def)
  then show ?thesis
    using assms new_leader_last by (auto simp: send_append_def new_leader_def voter_def at_index_def Let_def)
qed

lemma new_leader_resend:
  "send_append (new_leader 1) 1 None = [Send 1 (AppendEntries 2 2 0 0 (entries_upto 63) 65 None)]"
  using new_leader_last length_entries_upto[of 63]
  by (simp add: send_append_def new_leader_def voter_def at_index_def log_term_def entries_from_def MAX_APPEND_ENTRIES_def Let_def)

lemma rejection_step:
  assumes "2 \<le> index" and "index \<le> 66"
  shows "raft_step sha (Message 1 rejection) (new_leader index)
    = (new_leader (index - 1), send_append (new_leader (index - 1)) 1 None)"
proof -
  let ?n = "new_leader index" and ?l = "\<lparr>rl_base_index = 0, rl_base_term = 0, rl_entries = entries_upto 63 @ [new_entry]\<rparr>"
  have idle: "apply_committed ?n = (?n, [])"
    by (simp add: new_leader_def voter_def apply_committed.simps)
  have fields: "r_term ?n = 2" "r_role ?n = Leader" "r_id ?n = 2" "r_configuration ?n = three_voters" "r_log ?n = ?l"
    "?n\<lparr>r_recent_active := bts_insert 1 (r_recent_active ?n)\<rparr> = ?n"
    using voter_one(2) by (simp_all add: new_leader_def voter_def)
  have "on_append_response 1 2 False 0 1 (Some 1) None ?n = (new_leader (index - 1), send_append (new_leader (index - 1)) 1 None)"
  proof -
    have "update_progress 1 (\<lambda>progress. progress\<lparr>pr_next_index := min 65 (max (pr_next_index progress - 1) 1),
        pr_snapshot_offset := None\<rparr>) ?n = new_leader (index - 1)"
    proof -
      have "min 65 (max (index - 1) 1) = index - 1" using assms by linarith
      then show ?thesis by (simp add: update_progress_def new_leader_def voter_def at_index_def)
    qed
    then show ?thesis
      unfolding on_append_response_def fields Let_def using last_index_old_term by (simp add: andThen_eq fields)
  qed
  then show ?thesis
    using voter_one(1) fields
    by (simp add: raft_step_def andThen_eq idle on_message_def rejection_def)
qed

lemma rejection_event:
  assumes "2 \<le> index" and "index \<le> 66" and "map_of nodes 2 = Some (new_leader index)"
    and "9 < length sent" and "sent ! 9 = (1, 2, rejection)"
  shows "run_event sha False (Deliver 9 keep) (nodes, sent, applied) =
    Some (AList.update 2 (new_leader (index - 1)) nodes,
          sent @ pick keep (sends_of 2 (send_append (new_leader (index - 1)) 1 None)), applied)"
proof -
  obtain m where "send_append (new_leader (index - 1)) 1 None = [Send 1 m]"
  proof -
    have "1 \<le> index - 1" "index - 1 \<le> 65" using assms(1,2) by linarith+
    from new_leader_send[OF this] that show thesis by blast
  qed
  then show ?thesis
    using assms rejection_step[OF assms(1,2), of sha]
    by (simp add: run_input_def rejection_def applies_of_def latest_def)
qed

lemma rejections_run:
  assumes "k \<le> 64" and "map_of nodes 2 = Some (new_leader 66)" and "9 < length sent" and "sent ! 9 = (1, 2, rejection)"
  shows "\<exists>nodes'. run sha False (replicate k (Deliver 9 [])) (nodes, sent, applied) = Some (nodes', sent, applied)
    \<and> map_of nodes' 2 = Some (new_leader (66 - k)) \<and> map_of nodes' 1 = map_of nodes 1"
  using assms
proof (induction k)
  case (Suc k)
  then obtain nodes' where
    run: "run sha False (replicate k (Deliver 9 [])) (nodes, sent, applied) = Some (nodes', sent, applied)"
    and nodes': "map_of nodes' 2 = Some (new_leader (66 - k))" "map_of nodes' 1 = map_of nodes 1" by auto
  have "run sha False (replicate (Suc k) (Deliver 9 [])) (nodes, sent, applied)
      = run_event sha False (Deliver 9 []) (nodes', sent, applied)"
    unfolding replicate_append_same[symmetric] replicate_Suc run_append run by (simp split: option.splits)
  also have "\<dots> = Some (AList.update 2 (new_leader (66 - k - 1)) nodes', sent, applied)"
    using rejection_event[OF _ _ nodes'(1) Suc.prems(3,4), of sha "[]" applied] Suc.prems(1) by (simp add: pick_def)
  finally show ?case using nodes' by (simp add: update_conv')
qed simp

lemma last_step:
  "case raft_step id (Message 2 (AppendEntries 2 2 0 0 (entries_upto 63) 65 None)) stale_node of (n, acts) \<Rightarrow>
     list_all action_bounded acts \<and> \<not> list_ex halting acts \<and> latest (applies_of 1 acts) = [(1, proposed 63)]"
  by code_simp

section \<open>Divergence\<close>

definition divergence :: "event list" where
  "divergence =
     first_stage @ map (\<lambda>k. Local 1 (Propose k []) []) [0..<62] @ second_stage
     @ replicate 64 (Deliver 9 []) @ [Deliver 9 [0], Deliver 10 []]"

lemma divergence_result:
  "\<exists>nodes sent applied. run id False divergence (machines_init three_voters) = Some (nodes, sent, applied)
     \<and> (1, proposed 63) \<in> set applied \<and> (2, new_entry) \<in> set applied"
proof -
  from second_stage_result obtain nodes sent applied where
    second: "run id False second_stage ((1, old_leader (entries_upto 62)) # followers, [], []) = Some (nodes, sent, applied)"
    and nodes: "map_of nodes 1 = Some stale_node" "map_of nodes 2 = Some (new_leader 66)"
    and sent: "length sent = 10" "sent ! 9 = (1, 2, rejection)" and applied: "(2, new_entry) \<in> set applied"
    by (auto split: option.splits)
  from rejections_run[of 64 nodes sent id applied] nodes sent obtain nodes' where
    rejections: "run id False (replicate 64 (Deliver 9 [])) (nodes, sent, applied) = Some (nodes', sent, applied)"
    and nodes': "map_of nodes' 2 = Some (new_leader 2)" "map_of nodes' 1 = Some stale_node" by auto
  let ?m = "AppendEntries 2 2 0 0 (entries_upto 63) 65 None"
  have "pick [0] (sends_of 2 (send_append (new_leader 1) 1 None)) = [(2, 1, ?m)]"
    unfolding new_leader_resend by (simp add: sends_of_def pick_def)
  then have resend: "run_event id False (Deliver 9 [0]) (nodes', sent, applied)
      = Some (AList.update 2 (new_leader 1) nodes', sent @ [(2, 1, ?m)], applied)"
    using rejection_event[of 2 nodes' sent id "[0]" applied] nodes' sent by simp
  obtain n acts where step: "raft_step id (Message 2 ?m) stale_node = (n, acts)"
    and ok: "list_all action_bounded acts" "\<not> list_ex halting acts" "latest (applies_of 1 acts) = [(1, proposed 63)]"
    using last_step by (auto split: prod.splits)
  have msg: "(sent @ [(2, 1, ?m)]) ! 10 = (2, 1, ?m)" "10 < length (sent @ [(2, 1, ?m)])"
    using sent(1) by (simp_all add: nth_append)
  have final: "run_event id False (Deliver 10 []) (AList.update 2 (new_leader 1) nodes', sent @ [(2, 1, ?m)], applied)
      = Some (AList.update 1 n (AList.update 2 (new_leader 1) nodes'), sent @ [(2, 1, ?m)], applied @ [(1, proposed 63)])"
    unfolding run_event.simps msg(1) using msg(2) step ok nodes'(2)
    by (simp add: run_input_def update_conv' pick_def)
  have "(62 :: nat) \<le> 64" by simp
  note proposals = proposals_run[OF this, of id]
  have "run id False divergence (machines_init three_voters)
      = Some (AList.update 1 n (AList.update 2 (new_leader 1) nodes'), sent @ [(2, 1, ?m)], applied @ [(1, proposed 63)])"
    unfolding divergence_def run_append first_stage_result proposals second rejections
      run.simps resend final option.case by (rule refl)
  with applied show ?thesis by auto
qed

text \<open>
  C36: Without that restriction state machine safety fails.  There is a run of three nodes, with messages
  delayed and repeated but no crash, in which two nodes apply different entries at index 65.
\<close>

theorem nodes_diverge:
  "\<exists>c e e'. cluster_reach id three_voters False (cluster_init three_voters) c
     \<and> (1, e) \<in> cl_applied c \<and> (2, e') \<in> cl_applied c \<and> le_index e = le_index e' \<and> e \<noteq> e'"
proof -
  from divergence_result obtain nodes sent applied where
    run: "run id False divergence (machines_init three_voters) = Some (nodes, sent, applied)"
    and applied: "(1, proposed 63) \<in> set applied" "(2, new_entry) \<in> set applied" by blast
  from run_from_init[OF three_voters_ok run] obtain c where
    c: "cluster_reach id three_voters False (cluster_init three_voters) c" "agrees id (nodes, sent, applied) c" by blast
  then have "set applied \<subseteq> cl_applied c" by (simp add: agrees_def)
  moreover have "le_index (proposed 63) = le_index new_entry" "proposed 63 \<noteq> new_entry"
    by (simp_all add: proposed_def new_entry_def)
  ultimately show ?thesis using applied c(1) by blast
qed

end
