(* ===== verification/Sql_Ast.thy ===== *)
theory Sql_Ast
  imports Core_Values
begin

text \<open>
  Syntax trees of \<open>crates/aster-sql/src/ast.rs\<close> and the diagnostics of \<open>crates/aster-sql/src/lib.rs\<close>.

  \<open>Spanned<T>\<close> attaches a byte range to a value.  An expression of the source is a
  \<open>Spanned<ExprKind>\<close>; here every constructor of \<open>sql_expr\<close> has the range as its last field.  The
  argument \<open>*\<close> of an aggregate is \<open>None\<close>.  Diagnostics keep their kind, their range and the fixed text
  of the message without the interpolated values.
\<close>

section \<open>Ranges and diagnostics\<close>

record span =
  span_start :: nat
  span_end :: nat

definition span_new :: "nat \<Rightarrow> nat \<Rightarrow> span" where
  "span_new start end' = \<lparr>span_start = start, span_end = end'\<rparr>"

definition span_default :: span where
  "span_default = span_new 0 0"

definition span_join :: "span \<Rightarrow> span \<Rightarrow> span" where
  "span_join s other = span_new (span_start s) (span_end other)"

datatype sql_error_kind = ErrLex | ErrParse | ErrBind | ErrType | ErrConstraint | ErrUnsupported

record sql_error =
  err_kind :: sql_error_kind
  err_message :: string
  err_span :: span

definition sql_error_new :: "sql_error_kind \<Rightarrow> string \<Rightarrow> span \<Rightarrow> sql_error" where
  "sql_error_new kind message sp = \<lparr>err_kind = kind, err_message = message, err_span = sp\<rparr>"

definition sql_unsupported :: "string \<Rightarrow> span \<Rightarrow> sql_error" where
  "sql_unsupported message sp = sql_error_new ErrUnsupported message sp"

lemma err_kind_new [simp]: "err_kind (sql_error_new k m s) = k" "err_kind (sql_unsupported m s) = ErrUnsupported"
  by (simp_all add: sql_error_new_def sql_unsupported_def)

section \<open>Identifiers\<close>

record ident =
  id_value :: string
  id_quoted :: bool
  id_span :: span

definition ident_matches :: "ident \<Rightarrow> string \<Rightarrow> bool" where
  "ident_matches name candidate =
     (if id_quoted name then id_value name = candidate else eq_ignore_ascii_case (id_value name) candidate)"

definition ident_canonical :: "ident \<Rightarrow> string" where
  "ident_canonical name = (if id_quoted name then id_value name else to_ascii_lowercase (id_value name))"

section \<open>Expressions\<close>

datatype sql_unary_op = SNot | SNegate

datatype sql_binary_op = SOr | SAnd | SEq | SNotEq | SLt | SLtEq | SGt | SGtEq

fun is_comparison :: "sql_binary_op \<Rightarrow> bool" where
  "is_comparison SOr = False"
| "is_comparison SAnd = False"
| "is_comparison _ = True"

datatype aggregate_function = AggCount | AggSum | AggMin | AggMax

datatype sql_expr =
    ExLiteral sql_value span
  | ExParameter nat span
  | ExColumn "ident option" ident span
  | ExUnary sql_unary_op sql_expr span
  | ExBinary sql_expr sql_binary_op sql_expr span
  | ExIsNull sql_expr bool span
  | ExAggregate aggregate_function "sql_expr option" span

fun expr_span :: "sql_expr \<Rightarrow> span" where
  "expr_span (ExLiteral _ s) = s"
| "expr_span (ExParameter _ s) = s"
| "expr_span (ExColumn _ _ s) = s"
| "expr_span (ExUnary _ _ s) = s"
| "expr_span (ExBinary _ _ _ s) = s"
| "expr_span (ExIsNull _ _ s) = s"
| "expr_span (ExAggregate _ _ s) = s"

section \<open>Statements\<close>

record column_def =
  cd_name :: ident
  cd_data_type :: data_type
  cd_nullable :: bool
  cd_primary_key :: bool
  cd_span :: span

record create_table_stmt =
  ct_name :: ident
  ct_columns :: "column_def list"

record create_index_stmt =
  ci_name :: ident
  ci_table :: ident
  ci_column :: ident

record insert_stmt =
  ins_table :: ident
  ins_columns :: "ident list option"
  ins_values :: "sql_expr list"

record assignment =
  asg_column :: ident
  asg_value :: sql_expr

record update_stmt =
  upd_table :: ident
  upd_assignments :: "assignment list"
  upd_selection :: "sql_expr option"

record delete_stmt =
  del_table :: ident
  del_selection :: "sql_expr option"

datatype select_item = SelWildcard span | SelExpr sql_expr "ident option"

record table_source =
  ts_name :: ident
  ts_alias :: "ident option"
  ts_span :: span

record join_clause =
  jn_right :: table_source
  jn_on :: sql_expr
  jn_span :: span

datatype order_direction = Asc | Desc

record order_item =
  oi_expr :: sql_expr
  oi_direction :: order_direction

record select_stmt =
  sel_projection :: "select_item list"
  sel_from :: table_source
  sel_joins :: "join_clause list"
  sel_selection :: "sql_expr option"
  sel_group_by :: "sql_expr list"
  sel_order_by :: "order_item list"
  sel_limit :: "sql_expr option"

text \<open>\<open>EXPLAIN\<close> holds the explained statement and its range.\<close>

datatype statement =
    StCreateTable create_table_stmt
  | StCreateIndex create_index_stmt
  | StInsert insert_stmt
  | StUpdate update_stmt
  | StDelete delete_stmt
  | StSelect select_stmt
  | StBegin
  | StCommit
  | StRollback
  | StExplain statement span

end
