(* ===== verification/Sql_Plan.thy ===== *)
theory Sql_Plan
  imports Sql_Ast
begin

text \<open>
  Bound expressions, logical and physical plans, and the optimizer of
  \<open>crates/aster-sql/src/plan.rs\<close>, with the catalogs of \<open>crates/aster-sql/src/catalog.rs\<close>.  The trait
  \<open>Catalog\<close> is a record of its three methods.
\<close>

section \<open>Catalogs\<close>

record table_def =
  td_id :: u64
  td_name :: string
  td_schema :: schema

record index_def =
  xd_id :: u64
  xd_name :: string
  xd_table_id :: u64
  xd_column_index :: nat

record sql_catalog =
  resolve_table :: "ident \<Rightarrow> table_def option"
  resolve_index :: "ident \<Rightarrow> index_def option"
  table_indexes :: "u64 \<Rightarrow> index_def list"

record memory_catalog =
  mc_tables :: "table_def list"
  mc_indexes :: "index_def list"

definition memory_catalog_new :: memory_catalog where
  "memory_catalog_new = \<lparr>mc_tables = [], mc_indexes = []\<rparr>"

definition add_table :: "memory_catalog \<Rightarrow> table_def \<Rightarrow> sql_error + memory_catalog" where
  "add_table c table =
     rbind (map_err (\<lambda>_. sql_error_new ErrConstraint ''invalid schema'' span_default)
              (schema_validate (td_schema table))) (\<lambda>_.
       if list_ex (\<lambda>candidate. td_id candidate = td_id table
             \<or> eq_ignore_ascii_case (td_name candidate) (td_name table)) (mc_tables c)
          \<or> list_ex (\<lambda>candidate. eq_ignore_ascii_case (xd_name candidate) (td_name table)) (mc_indexes c)
       then Inl (sql_error_new ErrConstraint ''duplicate table id or name'' span_default)
       else Inr (c\<lparr>mc_tables := mc_tables c @ [table]\<rparr>))"

definition add_index :: "memory_catalog \<Rightarrow> index_def \<Rightarrow> sql_error + memory_catalog" where
  "add_index c index =
     (if list_ex (\<lambda>candidate. xd_id candidate = xd_id index
            \<or> eq_ignore_ascii_case (xd_name candidate) (xd_name index)) (mc_indexes c)
         \<or> list_ex (\<lambda>candidate. eq_ignore_ascii_case (td_name candidate) (xd_name index)) (mc_tables c)
      then Inl (sql_error_new ErrConstraint ''duplicate index id or name'' span_default)
      else rbind (ok_or (find (\<lambda>table. td_id table = xd_table_id index) (mc_tables c))
                   (sql_error_new ErrBind ''index references an unknown table'' span_default)) (\<lambda>table.
        if length (columns (td_schema table)) \<le> xd_column_index index
        then Inl (sql_error_new ErrConstraint ''index references column'' span_default)
        else Inr (c\<lparr>mc_indexes := mc_indexes c @ [index]\<rparr>)))"

text \<open>The two loops of \<open>MemoryCatalog::validate\<close> insert every name into one set.\<close>

fun insert_names :: "string list \<Rightarrow> string list \<Rightarrow> sql_error + string list" where
  "insert_names names [] = Inr names"
| "insert_names names (name # rest) =
     (let canonical = to_ascii_lowercase name in
      if canonical \<in> set names
      then Inl (sql_error_new ErrConstraint ''catalog contains duplicate object names'' span_default)
      else insert_names (canonical # names) rest)"

definition memory_catalog_validate :: "memory_catalog \<Rightarrow> sql_error + unit" where
  "memory_catalog_validate c =
     rbind (insert_names [] (map td_name (mc_tables c))) (\<lambda>names.
       rbind (insert_names names (map xd_name (mc_indexes c))) (\<lambda>_. Inr ()))"

definition memory_catalog_view :: "memory_catalog \<Rightarrow> sql_catalog" where
  "memory_catalog_view c =
     \<lparr>resolve_table = \<lambda>name. find (\<lambda>table. ident_matches name (td_name table)) (mc_tables c),
      resolve_index = \<lambda>name. find (\<lambda>index. ident_matches name (xd_name index)) (mc_indexes c),
      table_indexes = \<lambda>tid. filter (\<lambda>index. xd_table_id index = tid) (mc_indexes c)\<rparr>"

section \<open>Bound expressions\<close>

record sql_type =
  ty_data_type :: "data_type option"
  ty_nullable :: bool

definition type_known :: "data_type \<Rightarrow> bool \<Rightarrow> sql_type" where
  "type_known d nullable = \<lparr>ty_data_type = Some d, ty_nullable = nullable\<rparr>"

definition type_UNKNOWN :: sql_type where
  "type_UNKNOWN = \<lparr>ty_data_type = None, ty_nullable = True\<rparr>"

record parameter_spec =
  ps_index :: nat
  ps_data_type :: "data_type option"
  ps_nullable :: bool

record bound_table =
  bd_table :: table_def
  bd_alias :: string
  bd_slot_offset :: nat

record bound_column =
  bc_table_id :: u64
  bc_table_name :: string
  bc_table_alias :: string
  bc_column_index :: nat
  bc_input_slot :: nat
  bc_column :: column

datatype bound_expr =
    BLiteral sql_value span
  | BParameter nat "data_type option" span
  | BColumn bound_column span
  | BUnary sql_unary_op bound_expr span
  | BBinary bound_expr sql_binary_op bound_expr span
  | BIsNull bound_expr bool span
  | BAggregate aggregate_function "bound_expr option" span

fun expression_span :: "bound_expr \<Rightarrow> span" where
  "expression_span (BLiteral _ s) = s"
| "expression_span (BParameter _ _ s) = s"
| "expression_span (BColumn _ s) = s"
| "expression_span (BUnary _ _ s) = s"
| "expression_span (BBinary _ _ _ s) = s"
| "expression_span (BIsNull _ _ s) = s"
| "expression_span (BAggregate _ _ s) = s"

text \<open>The assignment \<open>expression.span = s\<close>.\<close>

fun bound_with_span :: "span \<Rightarrow> bound_expr \<Rightarrow> bound_expr" where
  "bound_with_span s (BLiteral v _) = BLiteral v s"
| "bound_with_span s (BParameter i d _) = BParameter i d s"
| "bound_with_span s (BColumn c _) = BColumn c s"
| "bound_with_span s (BUnary op e _) = BUnary op e s"
| "bound_with_span s (BBinary l op r _) = BBinary l op r s"
| "bound_with_span s (BIsNull e negated _) = BIsNull e negated s"
| "bound_with_span s (BAggregate f a _) = BAggregate f a s"

fun sql_type_of :: "bound_expr \<Rightarrow> sql_type" where
  "sql_type_of (BLiteral v _) = \<lparr>ty_data_type = value_data_type v, ty_nullable = is_null v\<rparr>"
| "sql_type_of (BParameter _ d _) = \<lparr>ty_data_type = d, ty_nullable = True\<rparr>"
| "sql_type_of (BColumn c _) = type_known (col_data_type (bc_column c)) (col_nullable (bc_column c))"
| "sql_type_of (BUnary SNot e _) = type_known DBool (ty_nullable (sql_type_of e))"
| "sql_type_of (BUnary SNegate e _) = type_known DInt64 (ty_nullable (sql_type_of e))"
| "sql_type_of (BBinary l op r _) = type_known DBool (ty_nullable (sql_type_of l) \<or> ty_nullable (sql_type_of r))"
| "sql_type_of (BIsNull _ _ _) = type_known DBool False"
| "sql_type_of (BAggregate AggCount _ _) = type_known DInt64 False"
| "sql_type_of (BAggregate AggSum _ _) = type_known DInt64 True"
| "sql_type_of (BAggregate _ None _) = type_UNKNOWN"
| "sql_type_of (BAggregate _ (Some a) _) = (sql_type_of a)\<lparr>ty_nullable := True\<rparr>"

section \<open>Plans\<close>

record named_expr =
  ne_expr :: bound_expr
  ne_name :: string

record bound_order =
  bo_expr :: bound_expr
  bo_direction :: order_direction

datatype logical_plan =
    LScan bound_table
  | LFilter logical_plan bound_expr
  | LJoin logical_plan logical_plan bound_expr
  | LAggregate logical_plan "bound_expr list" "bound_expr list"
  | LSort logical_plan "bound_order list"
  | LLimit logical_plan bound_expr
  | LProject logical_plan "named_expr list"

datatype transaction_statement = TxBegin | TxCommit | TxRollback

datatype bound_statement =
    BsCreateTable string schema
  | BsCreateIndex string table_def nat
  | BsInsert table_def "bound_expr list"
  | BsUpdate table_def "(nat \<times> bound_expr) list" "bound_expr option"
  | BsDelete table_def "bound_expr option"
  | BsQuery logical_plan "named_expr list"
  | BsTransaction transaction_statement
  | BsExplain bound_statement

record index_constraint =
  ic_column_index :: nat
  ic_operator :: sql_binary_op
  ic_value :: bound_expr

datatype join_algorithm = NestedLoop | HashJoin | IndexNestedLoop u64 nat

datatype physical_plan =
    PSeqScan bound_table
  | PIndexScan bound_table index_def index_constraint
  | PFilter physical_plan bound_expr
  | PJoin physical_plan physical_plan bound_expr join_algorithm
  | PHashAggregate physical_plan "bound_expr list" "bound_expr list"
  | PSort physical_plan "bound_order list"
  | PLimit physical_plan bound_expr
  | PProject physical_plan "named_expr list"

section \<open>The optimizer\<close>

fun reverse_comparison :: "sql_binary_op \<Rightarrow> sql_binary_op" where
  "reverse_comparison SLt = SGt"
| "reverse_comparison SLtEq = SGtEq"
| "reverse_comparison SGt = SLt"
| "reverse_comparison SGtEq = SLtEq"
| "reverse_comparison operator = operator"

definition sargable :: "bound_expr \<Rightarrow> (bound_column \<times> sql_binary_op \<times> bound_expr) option" where
  "sargable predicate =
     (case predicate of
        BBinary l op r _ \<Rightarrow>
          if is_comparison op then
            (case (l, r) of
               (BColumn c _, BLiteral v _) \<Rightarrow> if is_null v then None else Some (c, op, r)
             | (BColumn c _, BParameter _ _ _) \<Rightarrow> Some (c, op, r)
             | (BLiteral v _, BColumn c _) \<Rightarrow> if is_null v then None else Some (c, reverse_comparison op, l)
             | (BParameter _ _ _, BColumn c _) \<Rightarrow> Some (c, reverse_comparison op, l)
             | _ \<Rightarrow> None)
          else None
      | _ \<Rightarrow> None)"

definition choose_index_for ::
    "bound_table \<Rightarrow> bound_expr \<Rightarrow> sql_catalog \<Rightarrow> (index_def \<times> index_constraint) option" where
  "choose_index_for table predicate cat =
     (case sargable predicate of
        None \<Rightarrow> None
      | Some (c, operator, v) \<Rightarrow>
          if bc_table_id c \<noteq> td_id (bd_table table) then None
          else (case find (\<lambda>candidate. xd_column_index candidate = bc_column_index c)
                       (table_indexes cat (td_id (bd_table table))) of
                  None \<Rightarrow> None
                | Some index \<Rightarrow>
                    Some (index, \<lparr>ic_column_index = bc_column_index c, ic_operator = operator, ic_value = v\<rparr>)))"

fun choose_index ::
    "bound_table \<Rightarrow> bound_expr \<Rightarrow> sql_catalog \<Rightarrow> (index_def \<times> index_constraint) option" where
  "choose_index table predicate cat =
     (case predicate of
        BBinary l SAnd r _ \<Rightarrow>
          (case choose_index table l cat of Some c \<Rightarrow> Some c | None \<Rightarrow> choose_index table r cat)
      | _ \<Rightarrow> choose_index_for table predicate cat)"

declare choose_index.simps [simp del]

definition choose_join_algorithm :: "logical_plan \<Rightarrow> bound_expr \<Rightarrow> sql_catalog \<Rightarrow> join_algorithm" where
  "choose_join_algorithm right on cat =
     (case on of
        BBinary (BColumn left_column _) SEq (BColumn right_column _) _ \<Rightarrow>
          (case right of
             LScan inner \<Rightarrow>
               (let tid = td_id (bd_table inner) in
                case (if bc_table_id right_column = tid then Some right_column
                      else if bc_table_id left_column = tid then Some left_column
                      else None) of
                  None \<Rightarrow> HashJoin
                | Some inner_column \<Rightarrow>
                    (case find (\<lambda>index. xd_column_index index = bc_column_index inner_column)
                            (table_indexes cat tid) of
                       Some index \<Rightarrow> IndexNestedLoop (xd_id index) (bc_column_index inner_column)
                     | None \<Rightarrow> HashJoin))
           | _ \<Rightarrow> HashJoin)
      | _ \<Rightarrow> NestedLoop)"

fun optimize :: "sql_catalog \<Rightarrow> logical_plan \<Rightarrow> physical_plan" where
  "optimize cat (LScan table) = PSeqScan table"
| "optimize cat (LFilter input predicate) =
     (case input of
        LScan table \<Rightarrow>
          (case choose_index table predicate cat of
             Some (index, constraint) \<Rightarrow> PFilter (PIndexScan table index constraint) predicate
           | None \<Rightarrow> PFilter (optimize cat input) predicate)
      | _ \<Rightarrow> PFilter (optimize cat input) predicate)"
| "optimize cat (LJoin left right on) =
     PJoin (optimize cat left) (optimize cat right) on (choose_join_algorithm right on cat)"
| "optimize cat (LAggregate input group_by aggregates) = PHashAggregate (optimize cat input) group_by aggregates"
| "optimize cat (LSort input order_by) = PSort (optimize cat input) order_by"
| "optimize cat (LLimit input limit) = PLimit (optimize cat input) limit"
| "optimize cat (LProject input expressions) = PProject (optimize cat input) expressions"

section \<open>Rendering of plans\<close>

fun decimal :: "nat \<Rightarrow> string" where
  "decimal n = (if n < 10 then [char_of (48 + n)] else decimal (n div 10) @ [char_of (48 + n mod 10)])"

declare decimal.simps [simp del]

definition show_algorithm :: "join_algorithm \<Rightarrow> string" where
  "show_algorithm algorithm =
     (case algorithm of
        NestedLoop \<Rightarrow> ''NestedLoop''
      | HashJoin \<Rightarrow> ''Hash''
      | IndexNestedLoop iid c \<Rightarrow>
          ''IndexNestedLoop { inner_index_id: '' @ decimal (unat iid) @ '', inner_column_index: '' @ decimal c @ '' }'')"

definition explain_line :: "nat \<Rightarrow> string \<Rightarrow> string" where
  "explain_line depth line = concat (replicate depth ''  '') @ line @ [CHR 0x0A]"

fun explain_node :: "physical_plan \<Rightarrow> nat \<Rightarrow> string \<Rightarrow> string" where
  "explain_node (PSeqScan table) depth output =
     output @ explain_line depth (''SeqScan table='' @ td_name (bd_table table))"
| "explain_node (PIndexScan table index _) depth output =
     output @ explain_line depth (''IndexScan table='' @ td_name (bd_table table) @ '' index='' @ xd_name index)"
| "explain_node (PFilter input _) depth output =
     explain_node input (depth + 1) (output @ explain_line depth ''Filter'')"
| "explain_node (PJoin left right _ algorithm) depth output =
     explain_node right (depth + 1) (explain_node left (depth + 1)
       (output @ explain_line depth (''Join algorithm='' @ show_algorithm algorithm)))"
| "explain_node (PHashAggregate input _ _) depth output =
     explain_node input (depth + 1) (output @ explain_line depth ''HashAggregate'')"
| "explain_node (PSort input _) depth output =
     explain_node input (depth + 1) (output @ explain_line depth ''Sort'')"
| "explain_node (PLimit input _) depth output =
     explain_node input (depth + 1) (output @ explain_line depth ''Limit'')"
| "explain_node (PProject input _) depth output =
     explain_node input (depth + 1) (output @ explain_line depth ''Project'')"

definition explain_physical :: "physical_plan \<Rightarrow> string" where
  "explain_physical plan = explain_node plan 0 []"

end
