(* ===== verification/Sql_Eval.thy ===== *)
theory Sql_Eval
  imports Sql_Plan Engine_Expr
begin

text \<open>
  Evaluation of bound expressions and validation of parameters, \<open>crates/aster-sql/src/eval.rs\<close>, and
  a type system for bound expressions: what a well-typed expression evaluates to.
\<close>

section \<open>Definitions\<close>

datatype truth_value = TvFalse | TvTrue | TvUnknown

fun tv_and :: "truth_value \<Rightarrow> truth_value \<Rightarrow> truth_value" where
  "tv_and TvFalse _ = TvFalse"
| "tv_and _ TvFalse = TvFalse"
| "tv_and TvTrue TvTrue = TvTrue"
| "tv_and _ _ = TvUnknown"

fun tv_or :: "truth_value \<Rightarrow> truth_value \<Rightarrow> truth_value" where
  "tv_or TvTrue _ = TvTrue"
| "tv_or _ TvTrue = TvTrue"
| "tv_or TvFalse TvFalse = TvFalse"
| "tv_or _ _ = TvUnknown"

fun tv_not :: "truth_value \<Rightarrow> truth_value" where
  "tv_not TvFalse = TvTrue"
| "tv_not TvTrue = TvFalse"
| "tv_not TvUnknown = TvUnknown"

fun tv_into_value :: "truth_value \<Rightarrow> sql_value" where
  "tv_into_value TvFalse = Bool False"
| "tv_into_value TvTrue = Bool True"
| "tv_into_value TvUnknown = Null"

definition sql_type_error :: "string \<Rightarrow> sql_value \<Rightarrow> span \<Rightarrow> sql_error" where
  "sql_type_error operation v s = sql_error_new ErrType (''cannot '' @ operation) s"

fun sql_truth :: "sql_value \<Rightarrow> span \<Rightarrow> sql_error + truth_value" where
  "sql_truth (Bool False) _ = Inr TvFalse"
| "sql_truth (Bool True) _ = Inr TvTrue"
| "sql_truth Null _ = Inr TvUnknown"
| "sql_truth other s = Inl (sql_type_error ''use as a predicate'' other s)"

text \<open>\<open>None\<close> is the operator for which the source has an unreachable branch.\<close>

fun comparison_result :: "sql_binary_op \<Rightarrow> ordering \<Rightarrow> bool option" where
  "comparison_result SEq ord = Some (ord = OEqual)"
| "comparison_result SNotEq ord = Some (ord \<noteq> OEqual)"
| "comparison_result SLt ord = Some (ord = OLess)"
| "comparison_result SLtEq ord = Some (ord \<noteq> OGreater)"
| "comparison_result SGt ord = Some (ord = OGreater)"
| "comparison_result SGtEq ord = Some (ord \<noteq> OLess)"
| "comparison_result _ ord = None"

definition unreachable :: sql_error where
  "unreachable = sql_error_new ErrConstraint ''unreachable'' span_default"

definition sql_compare :: "sql_value \<Rightarrow> sql_binary_op \<Rightarrow> sql_value \<Rightarrow> span \<Rightarrow> sql_error + sql_value" where
  "sql_compare left operator right s =
     rbind (map_err (\<lambda>_. sql_error_new ErrType ''cannot compare'' s) (checked_cmp left right)) (\<lambda>ordering.
       case ordering of
         None \<Rightarrow> Inr Null
       | Some ord \<Rightarrow> (case comparison_result operator ord of Some b \<Rightarrow> Inr (Bool b) | None \<Rightarrow> Inl unreachable))"

definition ensure_runtime_type :: "sql_value \<Rightarrow> data_type option \<Rightarrow> span \<Rightarrow> sql_error + unit" where
  "ensure_runtime_type v expected s =
     (case (expected, value_data_type v) of
        (Some d, Some actual) \<Rightarrow>
          if d \<noteq> actual then Inl (sql_error_new ErrType ''expected another type'' s) else Inr ()
      | _ \<Rightarrow> Inr ())"

definition checked_get :: "'a list \<Rightarrow> nat \<Rightarrow> 'a option" where
  "checked_get xs i = (if i < length xs then Some (xs ! i) else None)"

definition negate_value :: "sql_value \<Rightarrow> span \<Rightarrow> sql_error + sql_value" where
  "negate_value v s =
     (case v of
        Null \<Rightarrow> Inr Null
      | Int64 i \<Rightarrow> ok_or (map_option Int64 (i64_checked_neg i))
                     (sql_error_new ErrConstraint ''INT64 negation overflow'' s)
      | other \<Rightarrow> Inl (sql_type_error ''negate'' other s))"

fun sql_evaluate :: "bound_expr \<Rightarrow> row \<Rightarrow> sql_value list \<Rightarrow> sql_error + sql_value" where
  "sql_evaluate (BLiteral v _) row parameters = Inr v"
| "sql_evaluate (BParameter index data_type s) row parameters =
     rbind (ok_or (checked_get parameters index)
              (sql_error_new ErrConstraint ''missing value for parameter'' s)) (\<lambda>v.
       rbind (ensure_runtime_type v data_type s) (\<lambda>_. Inr v))"
| "sql_evaluate (BColumn c s) row parameters =
     rbind (ok_or (checked_get (row_values row) (bc_input_slot c))
              (sql_error_new ErrConstraint ''row has no slot'' s)) (\<lambda>v.
       rbind (ensure_runtime_type v (Some (col_data_type (bc_column c))) s) (\<lambda>_. Inr v))"
| "sql_evaluate (BUnary op e s) row parameters =
     rbind (sql_evaluate e row parameters) (\<lambda>v.
       case op of
         SNot \<Rightarrow> rbind (sql_truth v s) (\<lambda>t. Inr (tv_into_value (tv_not t)))
       | SNegate \<Rightarrow> negate_value v s)"
| "sql_evaluate (BBinary left op right s) row parameters =
     rbind (sql_evaluate left row parameters) (\<lambda>l.
       case op of
         SAnd \<Rightarrow> rbind (sql_truth l s) (\<lambda>left_truth.
           if left_truth = TvFalse then Inr (Bool False)
           else rbind (sql_evaluate right row parameters) (\<lambda>r.
             rbind (sql_truth r s) (\<lambda>right_truth. Inr (tv_into_value (tv_and left_truth right_truth)))))
       | SOr \<Rightarrow> rbind (sql_truth l s) (\<lambda>left_truth.
           if left_truth = TvTrue then Inr (Bool True)
           else rbind (sql_evaluate right row parameters) (\<lambda>r.
             rbind (sql_truth r s) (\<lambda>right_truth. Inr (tv_into_value (tv_or left_truth right_truth)))))
       | comparison \<Rightarrow> rbind (sql_evaluate right row parameters) (\<lambda>r. sql_compare l comparison r s))"
| "sql_evaluate (BIsNull e negated s) row parameters =
     rbind (sql_evaluate e row parameters) (\<lambda>v. Inr (Bool (if negated then \<not> is_null v else is_null v)))"
| "sql_evaluate (BAggregate _ _ s) row parameters =
     Inl (sql_unsupported ''aggregate expressions require an aggregate executor'' s)"

definition predicate_matches :: "bound_expr \<Rightarrow> row \<Rightarrow> sql_value list \<Rightarrow> sql_error + bool" where
  "predicate_matches e row parameters =
     rbind (sql_evaluate e row parameters) (\<lambda>v.
       rbind (sql_truth v (expression_span e)) (\<lambda>t. Inr (t = TvTrue)))"

definition validate_parameter :: "sql_value list \<Rightarrow> parameter_spec \<Rightarrow> sql_error + unit" where
  "validate_parameter values specification =
     rbind (ok_or (checked_get values (ps_index specification))
              (sql_error_new ErrConstraint ''missing parameter'' span_default)) (\<lambda>v.
       rbind (ensure_runtime_type v (ps_data_type specification) span_default) (\<lambda>_.
         if is_null v \<and> \<not> ps_nullable specification
         then Inl (sql_error_new ErrConstraint ''parameter cannot be NULL'' span_default)
         else Inr ()))"

definition validate_parameters :: "parameter_spec list \<Rightarrow> sql_value list \<Rightarrow> sql_error + unit" where
  "validate_parameters specifications values =
     (if length specifications \<noteq> length values
      then Inl (sql_error_new ErrConstraint ''statement expects another number of parameters'' span_default)
      else try_each (validate_parameter values) specifications)"

section \<open>Basic facts\<close>

lemma checked_get_Some [result_simps]: "checked_get xs i = Some x \<longleftrightarrow> i < length xs \<and> xs ! i = x"
  by (auto simp: checked_get_def)

lemma ensure_runtime_type_ok [result_simps]:
  "ensure_runtime_type v d s = Inr u \<longleftrightarrow> d = None \<or> v = Null \<or> value_data_type v = d"
  by (cases d; cases v) (auto simp: ensure_runtime_type_def)

lemma tv_into_value_type [simp]:
  "tv_into_value t = Null \<longleftrightarrow> t = TvUnknown"
  "value_data_type (tv_into_value t) = (if t = TvUnknown then None else Some DBool)"
  by (cases t; simp)+

lemma sql_truth_into_value [simp]: "sql_truth (tv_into_value t) s = Inr t"
  by (cases t) auto

lemma tv_unknown:
  "tv_and a b = TvUnknown \<Longrightarrow> a = TvUnknown \<or> b = TvUnknown"
  "tv_or a b = TvUnknown \<Longrightarrow> a = TvUnknown \<or> b = TvUnknown"
  by (cases a; cases b; simp)+

text \<open>The values of a type, and the values an expression of that static type may have.\<close>

definition value_in :: "sql_value \<Rightarrow> sql_type \<Rightarrow> bool" where
  "value_in v t \<longleftrightarrow> (if v = Null then ty_nullable t else ty_data_type t = None \<or> value_data_type v = ty_data_type t)"

lemma sql_truth_bool:
  assumes "v = Null \<or> value_data_type v = Some DBool"
  obtains t where "sql_truth v s = Inr t" "t = TvUnknown \<longleftrightarrow> v = Null"
proof (cases v)
  case (Bool b)
  then show ?thesis using that[of "if b then TvTrue else TvFalse"] by (cases b) auto
qed (use assms that in auto)

lemma sql_compare_typed:
  assumes "l = Null \<or> r = Null \<or> value_data_type l = value_data_type r" and "is_comparison op"
  obtains v where "sql_compare l op r s = Inr v" "v = Null \<longleftrightarrow> l = Null \<or> r = Null"
    "v = Null \<or> value_data_type v = Some DBool"
proof -
  from checked_cmp_ok_iff[of l r] assms(1) obtain c where c: "checked_cmp l r = Inr c" by auto
  have none: "c = None \<longleftrightarrow> l = Null \<or> r = Null"
    using c assms(1) by (cases l; cases r) auto
  show ?thesis
  proof (cases c)
    case None
    with c none show ?thesis by (intro that[of Null]) (auto simp: sql_compare_def)
  next
    case (Some ord)
    moreover obtain b where "comparison_result op ord = Some b" using assms(2) by (cases op) auto
    ultimately show ?thesis using c none by (intro that[of "Bool b"]) (auto simp: sql_compare_def)
  qed
qed

section \<open>Typing\<close>

text \<open>
  \<open>operand d e\<close>: the static type of \<open>e\<close> is \<open>d\<close>, or \<open>e\<close> is the literal \<open>NULL\<close>, which has every type.
\<close>

fun null_literal :: "bound_expr \<Rightarrow> bool" where
  "null_literal (BLiteral v _) = is_null v"
| "null_literal _ = False"

definition operand :: "data_type \<Rightarrow> bound_expr \<Rightarrow> bool" where
  "operand d e \<longleftrightarrow> ty_data_type (sql_type_of e) = Some d \<or> null_literal e"

text \<open>
  Expressions without aggregates over the given input columns and parameters.
\<close>

fun typed :: "parameter_spec list \<Rightarrow> column list \<Rightarrow> bound_expr \<Rightarrow> bool" where
  "typed specs cols (BLiteral v _) = True"
| "typed specs cols (BParameter index d _) =
     (\<exists>p \<in> set specs. ps_index p = index \<and> (d = None \<or> ps_data_type p = d))"
| "typed specs cols (BColumn c _) = (checked_get cols (bc_input_slot c) = Some (bc_column c))"
| "typed specs cols (BUnary SNot e _) = (typed specs cols e \<and> operand DBool e)"
| "typed specs cols (BUnary SNegate e _) = (typed specs cols e \<and> operand DInt64 e)"
| "typed specs cols (BBinary l op r _) =
     (typed specs cols l \<and> typed specs cols r \<and>
      (if is_comparison op
       then (\<exists>d. operand d l \<and> operand d r) \<or> null_literal l \<or> null_literal r
       else operand DBool l \<and> operand DBool r))"
| "typed specs cols (BIsNull e _ _) = typed specs cols e"
| "typed specs cols (BAggregate _ _ _) = False"

text \<open>A run-time error that typing does not exclude: the negation of the smallest \<open>INT64\<close>.\<close>

definition overflow_error :: "sql_error \<Rightarrow> bool" where
  "overflow_error err \<longleftrightarrow> err_kind err = ErrConstraint \<and> err_message err = ''INT64 negation overflow''"

lemma null_literal_value: "null_literal e \<Longrightarrow> sql_evaluate e row ps = Inr Null"
  by (cases e) auto

lemma operand_value:
  assumes "operand d e" "sql_evaluate e row ps = Inr v" "value_in v (sql_type_of e)"
  shows "v = Null \<or> value_data_type v = Some d"
  using assms null_literal_value[of e row ps] by (auto simp: operand_def value_in_def split: if_splits)

lemma validate_parameters_value:
  assumes "validate_parameters specs vs = Inr u" "p \<in> set specs"
  shows "ps_index p < length vs" "vs ! ps_index p = Null \<or> ps_data_type p = None
      \<or> value_data_type (vs ! ps_index p) = ps_data_type p"
    "vs ! ps_index p = Null \<Longrightarrow> ps_nullable p"
  using assms by (auto simp: validate_parameters_def validate_parameter_def result_simps split: if_splits)

lemma typed_evaluate:
  assumes "typed specs cols e" and "validate_parameters specs ps = Inr ()"
    and "list_all2 cell_ok cols (row_values row)"
  shows "case sql_evaluate e row ps of Inl err \<Rightarrow> overflow_error err | Inr v \<Rightarrow> value_in v (sql_type_of e)"
  using assms(1)
proof (induction e)
  case (BLiteral v s)
  show ?case by (simp add: value_in_def)
next
  case (BParameter i d s)
  then obtain p where p: "p \<in> set specs" "ps_index p = i" "d = None \<or> ps_data_type p = d" by auto
  note ok = validate_parameters_value[OF assms(2) p(1)]
  have "ensure_runtime_type (ps ! i) d s = Inr ()" using ok(2) p by (auto simp: result_simps)
  moreover have "value_in (ps ! i) (sql_type_of (BParameter i d s))"
    using ok(2) p by (auto simp: value_in_def)
  ultimately show ?case using ok(1) p(2) by (simp add: checked_get_def)
next
  case (BColumn c s)
  then have c: "bc_input_slot c < length cols" "cols ! bc_input_slot c = bc_column c"
    by (auto simp: result_simps)
  let ?v = "row_values row ! bc_input_slot c"
  from assms(3) c have len: "bc_input_slot c < length (row_values row)" and cell: "cell_ok (bc_column c) ?v"
    by (auto simp: list_all2_conv_all_nth)
  have "ensure_runtime_type ?v (Some (col_data_type (bc_column c))) s = Inr ()"
    using cell by (auto simp: result_simps cell_ok_def split: if_splits)
  with len cell show ?case by (simp add: checked_get_def value_in_def type_known_def cell_ok_def split: if_splits)
next
  case (BUnary op e s)
  show ?case
  proof (cases "sql_evaluate e row ps")
    case (Inl err)
    with BUnary show ?thesis by (cases op) auto
  next
    case v: (Inr v)
    show ?thesis
    proof (cases op)
      case SNot
      with BUnary v have "operand DBool e" "value_in v (sql_type_of e)" by auto
      with operand_value[OF _ v] obtain t where "sql_truth v s = Inr t" "t = TvUnknown \<longleftrightarrow> v = Null"
        by (metis sql_truth_bool)
      with SNot v \<open>value_in v _\<close> show ?thesis
        by (cases t) (auto simp: value_in_def type_known_def split: if_splits)
    next
      case SNegate
      with BUnary v have ok: "operand DInt64 e" "value_in v (sql_type_of e)" by auto
      from operand_value[OF ok(1) v ok(2)] show ?thesis
        using SNegate v ok(2)
        by (cases v) (auto simp: negate_value_def value_in_def type_known_def overflow_error_def sql_error_new_def
            ok_or_def split: option.splits)
    qed
  qed
next
  case (BBinary l op r s)
  then have typed: "typed specs cols l" "typed specs cols r" by auto
  show ?case
  proof (cases "sql_evaluate l row ps")
    case (Inl err)
    with BBinary.IH(1)[OF typed(1)] show ?thesis by (cases op) auto
  next
    case l: (Inr lv)
    with BBinary.IH(1)[OF typed(1)] have lv: "value_in lv (sql_type_of l)" by simp
    show ?thesis
    proof (cases "is_comparison op")
      case True
      show ?thesis
      proof (cases "sql_evaluate r row ps")
        case (Inl err)
        with BBinary.IH(2)[OF typed(2)] l True show ?thesis by (cases op) auto
      next
        case r: (Inr rv)
        with BBinary.IH(2)[OF typed(2)] have rv: "value_in rv (sql_type_of r)" by simp
        have "lv = Null \<or> rv = Null \<or> value_data_type lv = value_data_type rv"
          using BBinary.prems True operand_value[OF _ l lv] operand_value[OF _ r rv]
            null_literal_value[of l row ps] null_literal_value[of r row ps] l r by auto metis
        then obtain v where v: "sql_compare lv op rv s = Inr v" "v = Null \<longleftrightarrow> lv = Null \<or> rv = Null"
            "v = Null \<or> value_data_type v = Some DBool"
          using True by (rule sql_compare_typed)
        have "sql_evaluate (BBinary l op r s) row ps = Inr v" using l r v(1) True by (cases op) auto
        moreover have "value_in v (sql_type_of (BBinary l op r s))"
          using v(2,3) lv rv by (auto simp: value_in_def type_known_def split: if_splits)
        ultimately show ?thesis by simp
      qed
    next
      case False
      with BBinary.prems have op: "operand DBool l" "operand DBool r" by auto
      obtain lt where lt: "sql_truth lv s = Inr lt" "lt = TvUnknown \<longleftrightarrow> lv = Null"
        using operand_value[OF op(1) l lv] by (rule sql_truth_bool)
      show ?thesis
      proof (cases "op = SAnd \<and> lt = TvFalse \<or> op = SOr \<and> lt = TvTrue")
        case True
        with l lt show ?thesis by (auto simp: value_in_def type_known_def)
      next
        case continue: False
        show ?thesis
        proof (cases "sql_evaluate r row ps")
          case (Inl err)
          with BBinary.IH(2)[OF typed(2)] l lt continue False show ?thesis by (cases op) auto
        next
          case r: (Inr rv)
          with BBinary.IH(2)[OF typed(2)] have rv: "value_in rv (sql_type_of r)" by simp
          obtain rt where rt: "sql_truth rv s = Inr rt" "rt = TvUnknown \<longleftrightarrow> rv = Null"
            using operand_value[OF op(2) r rv] by (rule sql_truth_bool)
          have "value_in (tv_into_value t) (sql_type_of (BBinary l op r s))"
            if "t = TvUnknown \<Longrightarrow> lt = TvUnknown \<or> rt = TvUnknown" for t
            using that lt(2) rt(2) lv rv by (auto simp: value_in_def type_known_def split: if_splits)
          with l r lt(1) rt(1) continue False tv_unknown show ?thesis by (cases op) auto
        qed
      qed
    qed
  qed
next
  case (BIsNull e negated s)
  then show ?case by (cases "sql_evaluate e row ps") (auto simp: value_in_def type_known_def)
qed simp

end
