(* ===== verification/Sql_Binder.thy ===== *)
theory Sql_Binder
  imports Sql_Eval
begin

text \<open>
  Name resolution and type inference, \<open>crates/aster-sql/src/binder.rs\<close>.

  The binder's mutable list of parameter specifications is passed to every function and returned with
  its result.  A \<open>Scope\<close> is its list of tables.
\<close>

section \<open>Scopes\<close>

type_synonym scope = "bound_table list"

definition scope_single :: "table_def \<Rightarrow> string \<Rightarrow> nat \<Rightarrow> scope" where
  "scope_single table alias slot_offset =
     [\<lparr>bd_table = table, bd_alias = alias, bd_slot_offset = slot_offset\<rparr>]"

definition scope_push :: "scope \<Rightarrow> bound_table \<Rightarrow> span \<Rightarrow> sql_error + scope" where
  "scope_push tables table s =
     (if list_ex (\<lambda>existing. eq_ignore_ascii_case (bd_alias existing) (bd_alias table)) tables
      then Inl (sql_error_new ErrBind ''duplicate table alias'' s)
      else Inr (tables @ [table]))"

definition total_columns :: "scope \<Rightarrow> nat" where
  "total_columns tables =
     (if tables = [] then 0
      else bd_slot_offset (last tables) + length (columns (td_schema (bd_table (last tables)))))"

definition bound_column_of :: "bound_table \<Rightarrow> nat \<Rightarrow> column \<Rightarrow> bound_column" where
  "bound_column_of table column_index column =
     \<lparr>bc_table_id = td_id (bd_table table), bc_table_name = td_name (bd_table table),
      bc_table_alias = bd_alias table, bc_column_index = column_index,
      bc_input_slot = bd_slot_offset table + column_index, bc_column = column\<rparr>"

definition qualifies :: "ident option \<Rightarrow> bound_table \<Rightarrow> bool" where
  "qualifies qualifier table =
     (case qualifier of
        None \<Rightarrow> True
      | Some q \<Rightarrow> if id_quoted q then id_value q = bd_alias table else eq_ignore_ascii_case (id_value q) (bd_alias table))"

definition resolve_column :: "scope \<Rightarrow> ident option \<Rightarrow> ident \<Rightarrow> sql_error + bound_column" where
  "resolve_column tables qualifier name =
     (case List.map_filter (\<lambda>table.
             map_option (\<lambda>(column_index, column). bound_column_of table column_index column)
               (find (\<lambda>(_, column). ident_matches name (col_name column))
                 (enumerate 0 (columns (td_schema (bd_table table))))))
             (filter (qualifies qualifier) tables) of
        [column] \<Rightarrow> Inr column
      | [] \<Rightarrow> Inl (sql_error_new ErrBind ''column does not exist in the query scope'' (id_span name))
      | _ \<Rightarrow> Inl (sql_error_new ErrBind ''column is ambiguous'' (id_span name)))"

definition find_column :: "table_def \<Rightarrow> ident \<Rightarrow> nat option" where
  "find_column table name = position (\<lambda>column. ident_matches name (col_name column)) (columns (td_schema table))"

section \<open>Parameters\<close>

text \<open>\<open>iter_mut().find(p)\<close> followed by an update of the item found.\<close>

fun update_first :: "('a \<Rightarrow> bool) \<Rightarrow> ('a \<Rightarrow> 'a) \<Rightarrow> 'a list \<Rightarrow> 'a list" where
  "update_first P f [] = []"
| "update_first P f (x # xs) = (if P x then f x # xs else x # update_first P f xs)"

definition record_parameter ::
    "nat \<Rightarrow> data_type option \<Rightarrow> span \<Rightarrow> parameter_spec list \<Rightarrow> sql_error + parameter_spec list" where
  "record_parameter index data_type s parameters =
     (case find (\<lambda>parameter. ps_index parameter = index) parameters of
        Some parameter \<Rightarrow>
          (case (ps_data_type parameter, data_type) of
             (Some existing, Some new) \<Rightarrow>
               if existing \<noteq> new
               then Inl (sql_error_new ErrType ''parameter is constrained as two types'' s)
               else Inr parameters
           | (Some _, None) \<Rightarrow> Inr parameters
           | (None, _) \<Rightarrow>
               Inr (update_first (\<lambda>p. ps_index p = index) (\<lambda>p. p\<lparr>ps_data_type := data_type\<rparr>) parameters))
      | None \<Rightarrow>
          Inr (parameters @ [\<lparr>ps_index = index, ps_data_type = data_type, ps_nullable = True\<rparr>]))"

definition constrain_direct_parameter ::
    "bound_expr \<Rightarrow> data_type \<Rightarrow> parameter_spec list \<Rightarrow> sql_error + bound_expr \<times> parameter_spec list" where
  "constrain_direct_parameter expression expected parameters =
     (case expression of
        BParameter index data_type s \<Rightarrow>
          if data_type \<noteq> None \<and> data_type \<noteq> Some expected
          then Inl (sql_error_new ErrType ''parameter expects another type'' s)
          else Inr (BParameter index (Some expected) s,
                    update_first (\<lambda>item. ps_index item = index) (\<lambda>p. p\<lparr>ps_data_type := Some expected\<rparr>) parameters)
      | _ \<Rightarrow> Inr (expression, parameters))"

definition require_direct_parameter_value :: "bound_expr \<Rightarrow> parameter_spec list \<Rightarrow> parameter_spec list" where
  "require_direct_parameter_value expression parameters =
     (case expression of
        BParameter index _ _ \<Rightarrow>
          update_first (\<lambda>item. ps_index item = index) (\<lambda>p. p\<lparr>ps_nullable := False\<rparr>) parameters
      | _ \<Rightarrow> parameters)"

definition enforce_expected ::
    "bound_expr \<Rightarrow> data_type option \<Rightarrow> parameter_spec list \<Rightarrow> sql_error + bound_expr \<times> parameter_spec list" where
  "enforce_expected expression expected parameters =
     (case expected of
        None \<Rightarrow> Inr (expression, parameters)
      | Some d \<Rightarrow>
          (case ty_data_type (sql_type_of expression) of
             Some actual \<Rightarrow>
               if actual \<noteq> d then Inl (sql_error_new ErrType ''expected another type'' (expression_span expression))
               else Inr (expression, parameters)
           | None \<Rightarrow> constrain_direct_parameter expression d parameters))"

definition unify_comparison_types ::
    "bound_expr \<Rightarrow> bound_expr \<Rightarrow> parameter_spec list \<Rightarrow> span
      \<Rightarrow> sql_error + (bound_expr \<times> bound_expr) \<times> parameter_spec list" where
  "unify_comparison_types left right parameters s =
     (case (ty_data_type (sql_type_of left), ty_data_type (sql_type_of right)) of
        (Some left_type, Some right_type) \<Rightarrow>
          if left_type \<noteq> right_type then Inl (sql_error_new ErrType ''cannot compare'' s)
          else Inr ((left, right), parameters)
      | (Some data_type, None) \<Rightarrow>
          rbind (constrain_direct_parameter right data_type parameters) (\<lambda>(right, parameters).
            Inr ((left, right), parameters))
      | (None, Some data_type) \<Rightarrow>
          rbind (constrain_direct_parameter left data_type parameters) (\<lambda>(left, parameters).
            Inr ((left, right), parameters))
      | (None, None) \<Rightarrow>
          if \<not> null_literal left \<and> \<not> null_literal right
          then Inl (sql_error_new ErrType ''comparison operand types cannot be inferred'' s)
          else Inr ((left, right), parameters))"

section \<open>Expressions\<close>

datatype aggregate_policy = Allowed | Forbidden

fun contains_aggregate :: "sql_expr \<Rightarrow> bool" where
  "contains_aggregate (ExAggregate _ _ _) = True"
| "contains_aggregate (ExUnary _ e _) = contains_aggregate e"
| "contains_aggregate (ExIsNull e _ _) = contains_aggregate e"
| "contains_aggregate (ExBinary l _ r _) = (contains_aggregate l \<or> contains_aggregate r)"
| "contains_aggregate _ = False"

fun bind_expr ::
    "sql_expr \<Rightarrow> scope \<Rightarrow> data_type option \<Rightarrow> aggregate_policy \<Rightarrow> parameter_spec list
      \<Rightarrow> sql_error + bound_expr \<times> parameter_spec list" where
  "bind_expr (ExLiteral v s) tables expected policy parameters =
     enforce_expected (BLiteral v s) expected parameters"
| "bind_expr (ExParameter index s) tables expected policy parameters =
     rbind (record_parameter index expected s parameters) (\<lambda>parameters.
       enforce_expected (BParameter index expected s) expected parameters)"
| "bind_expr (ExColumn qualifier name s) tables expected policy parameters =
     rbind (resolve_column tables qualifier name) (\<lambda>column.
       enforce_expected (BColumn column s) expected parameters)"
| "bind_expr (ExUnary op inner s) tables expected policy parameters =
     rbind (bind_expr inner tables (Some (case op of SNot \<Rightarrow> DBool | SNegate \<Rightarrow> DInt64)) policy parameters)
       (\<lambda>(inner, parameters). enforce_expected (BUnary op inner s) expected parameters)"
| "bind_expr (ExBinary left op right s) tables expected policy parameters =
     (if is_comparison op then
        rbind (bind_expr left tables None policy parameters) (\<lambda>(left, parameters).
          rbind (bind_expr right tables (ty_data_type (sql_type_of left)) policy parameters) (\<lambda>(right, parameters).
            rbind (unify_comparison_types left right parameters s) (\<lambda>((left, right), parameters).
              enforce_expected (BBinary left op right s) expected parameters)))
      else
        rbind (bind_expr left tables (Some DBool) policy parameters) (\<lambda>(left, parameters).
          rbind (bind_expr right tables (Some DBool) policy parameters) (\<lambda>(right, parameters).
            enforce_expected (BBinary left op right s) expected parameters)))"
| "bind_expr (ExIsNull inner negated s) tables expected policy parameters =
     rbind (bind_expr inner tables None policy parameters) (\<lambda>(inner, parameters).
       enforce_expected (BIsNull inner negated s) expected parameters)"
| "bind_expr (ExAggregate function argument s) tables expected policy parameters =
     (if policy \<noteq> Allowed
      then Inl (sql_error_new ErrType ''aggregate functions are not allowed in this clause'' s)
      else rbind (case argument of
             None \<Rightarrow> Inr (None, parameters)
           | Some a \<Rightarrow>
               if contains_aggregate a
               then Inl (sql_error_new ErrType ''nested aggregate functions are not supported'' (expr_span a))
               else rbind (bind_expr a tables (if function = AggSum then Some DInt64 else None) Forbidden parameters)
                 (\<lambda>(a, parameters). Inr (Some a, parameters)))
        (\<lambda>(argument, parameters). enforce_expected (BAggregate function argument s) expected parameters))"

definition bind_predicate ::
    "sql_expr \<Rightarrow> scope \<Rightarrow> parameter_spec list \<Rightarrow> sql_error + bound_expr \<times> parameter_spec list" where
  "bind_predicate e tables parameters =
     rbind (bind_expr e tables (Some DBool) Forbidden parameters) (\<lambda>(bound, parameters).
       if ty_data_type (sql_type_of bound) \<noteq> Some DBool
       then Inl (sql_error_new ErrType ''clause requires a BOOL expression'' (expr_span e))
       else Inr (bound, parameters))"

fun same_expression :: "bound_expr \<Rightarrow> bound_expr \<Rightarrow> bool" where
  "same_expression (BLiteral l _) (BLiteral r _) = (l = r)"
| "same_expression (BParameter l _ _) (BParameter r _ _) = (l = r)"
| "same_expression (BColumn l _) (BColumn r _) =
     (bc_table_id l = bc_table_id r \<and> bc_column_index l = bc_column_index r)"
| "same_expression (BUnary left_op l _) (BUnary right_op r _) = (left_op = right_op \<and> same_expression l r)"
| "same_expression (BBinary left_a left_op left_b _) (BBinary right_a right_op right_b _) =
     (left_op = right_op \<and> same_expression left_a right_a \<and> same_expression left_b right_b)"
| "same_expression (BIsNull l left_negated _) (BIsNull r right_negated _) =
     (left_negated = right_negated \<and> same_expression l r)"
| "same_expression (BAggregate left_function left_argument _) (BAggregate right_function right_argument _) =
     (left_function = right_function \<and>
      (case (left_argument, right_argument) of
         (None, None) \<Rightarrow> True
       | (Some l, Some r) \<Rightarrow> same_expression l r
       | _ \<Rightarrow> False))"
| "same_expression _ _ = False"

fun group_compatible :: "bound_expr \<Rightarrow> bound_expr list \<Rightarrow> bool" where
  "group_compatible e group_by =
     (list_ex (same_expression e) group_by \<or>
      (case e of
         BColumn _ _ \<Rightarrow> False
       | BUnary _ e _ \<Rightarrow> group_compatible e group_by
       | BIsNull e _ _ \<Rightarrow> group_compatible e group_by
       | BBinary l _ r _ \<Rightarrow> group_compatible l group_by \<and> group_compatible r group_by
       | _ \<Rightarrow> True))"

declare group_compatible.simps [simp del]

fun collect_aggregates :: "bound_expr \<Rightarrow> bound_expr list \<Rightarrow> bound_expr list" where
  "collect_aggregates (BAggregate f a s) output = output @ [BAggregate f a s]"
| "collect_aggregates (BUnary _ e _) output = collect_aggregates e output"
| "collect_aggregates (BIsNull e _ _) output = collect_aggregates e output"
| "collect_aggregates (BBinary l _ r _) output = collect_aggregates r (collect_aggregates l output)"
| "collect_aggregates _ output = output"

fun deduplicate_loop :: "bound_expr list \<Rightarrow> bound_expr list \<Rightarrow> bound_expr list" where
  "deduplicate_loop unique [] = unique"
| "deduplicate_loop unique (expression # rest) =
     deduplicate_loop
       (if list_ex (\<lambda>existing. same_expression existing expression) unique then unique else unique @ [expression])
       rest"

definition deduplicate_expressions :: "bound_expr list \<Rightarrow> bound_expr list" where
  "deduplicate_expressions expressions = deduplicate_loop [] expressions"

definition expression_name :: "bound_expr \<Rightarrow> nat \<Rightarrow> string" where
  "expression_name e pos =
     (case e of
        BColumn c _ \<Rightarrow> col_name (bc_column c)
      | BAggregate AggCount _ _ \<Rightarrow> ''count''
      | BAggregate AggSum _ _ \<Rightarrow> ''sum''
      | BAggregate AggMin _ _ \<Rightarrow> ''min''
      | BAggregate AggMax _ _ \<Rightarrow> ''max''
      | _ \<Rightarrow> ''expr'' @ decimal (pos + 1))"

section \<open>Statements\<close>

definition require_table :: "sql_catalog \<Rightarrow> ident \<Rightarrow> sql_error + table_def" where
  "require_table cat name =
     ok_or (resolve_table cat name) (sql_error_new ErrBind ''table does not exist'' (id_span name))"

definition bind_table_source :: "sql_catalog \<Rightarrow> table_source \<Rightarrow> nat \<Rightarrow> sql_error + bound_table" where
  "bind_table_source cat source slot_offset =
     rbind (require_table cat (ts_name source)) (\<lambda>table.
       Inr \<lparr>bd_table = table,
            bd_alias = (case ts_alias source of None \<Rightarrow> td_name table | Some alias \<Rightarrow> id_value alias),
            bd_slot_offset = slot_offset\<rparr>)"

definition reject_null_for_non_nullable :: "bound_expr \<Rightarrow> column \<Rightarrow> span \<Rightarrow> sql_error + unit" where
  "reject_null_for_non_nullable e column s =
     (if \<not> col_nullable column \<and> null_literal e
      then Inl (sql_error_new ErrConstraint ''column is not nullable'' s) else Inr ())"

text \<open>
  A value for a column: the part that \<open>bind_insert\<close> and \<open>bind_update\<close> share.
\<close>

definition bind_column_value ::
    "sql_expr \<Rightarrow> scope \<Rightarrow> column \<Rightarrow> parameter_spec list \<Rightarrow> sql_error + bound_expr \<times> parameter_spec list" where
  "bind_column_value v tables column parameters =
     rbind (bind_expr v tables (Some (col_data_type column)) Forbidden parameters) (\<lambda>(bound, parameters).
       rbind (reject_null_for_non_nullable bound column (expr_span v)) (\<lambda>_.
         Inr (bound, if \<not> col_nullable column then require_direct_parameter_value bound parameters
                     else parameters)))"

fun insert_targets :: "table_def \<Rightarrow> nat list \<Rightarrow> ident list \<Rightarrow> sql_error + nat list" where
  "insert_targets table targets [] = Inr targets"
| "insert_targets table targets (column # rest) =
     rbind (ok_or (find_column table column)
              (sql_error_new ErrBind ''column does not exist in table'' (id_span column))) (\<lambda>index.
       if index \<in> set targets
       then Inl (sql_error_new ErrBind ''column appears more than once in INSERT'' (id_span column))
       else insert_targets table (targets @ [index]) rest)"

fun bind_insert_values ::
    "table_def \<Rightarrow> (nat \<times> sql_expr) list \<Rightarrow> bound_expr option list \<Rightarrow> parameter_spec list
      \<Rightarrow> sql_error + bound_expr option list \<times> parameter_spec list" where
  "bind_insert_values table [] normalized parameters = Inr (normalized, parameters)"
| "bind_insert_values table ((target, v) # rest) normalized parameters =
     rbind (bind_column_value v [] (columns (td_schema table) ! target) parameters) (\<lambda>(bound, parameters).
       bind_insert_values table rest (normalized[target := Some bound]) parameters)"

definition complete_insert :: "table_def \<Rightarrow> span \<Rightarrow> nat \<times> bound_expr option \<Rightarrow> sql_error + bound_expr" where
  "complete_insert table s = (\<lambda>(index, value).
     case value of
       Some value \<Rightarrow> Inr value
     | None \<Rightarrow>
         if \<not> col_nullable (columns (td_schema table) ! index)
         then Inl (sql_error_new ErrConstraint ''INSERT omits required column'' s)
         else Inr (BLiteral Null s))"

definition bind_insert ::
    "sql_catalog \<Rightarrow> insert_stmt \<Rightarrow> parameter_spec list \<Rightarrow> sql_error + bound_statement \<times> parameter_spec list" where
  "bind_insert cat ins parameters =
     rbind (require_table cat (ins_table ins)) (\<lambda>table.
       let n = length (columns (td_schema table)); s = id_span (ins_table ins) in
       rbind (case ins_columns ins of
                Some cols \<Rightarrow> insert_targets table [] cols
              | None \<Rightarrow> Inr [0..<n]) (\<lambda>target_columns.
         if length target_columns \<noteq> length (ins_values ins)
         then Inl (sql_error_new ErrConstraint ''INSERT names other target columns than values'' s)
         else rbind (bind_insert_values table (zip target_columns (ins_values ins)) (replicate n None) parameters)
           (\<lambda>(normalized, parameters).
             rbind (try_map (complete_insert table s) (enumerate 0 normalized)) (\<lambda>values.
               Inr (BsInsert table values, parameters)))))"

fun bind_assignments ::
    "table_def \<Rightarrow> scope \<Rightarrow> assignment list \<Rightarrow> (nat \<times> bound_expr) list \<Rightarrow> parameter_spec list
      \<Rightarrow> sql_error + (nat \<times> bound_expr) list \<times> parameter_spec list" where
  "bind_assignments table tables [] assignments parameters = Inr (assignments, parameters)"
| "bind_assignments table tables (assignment # rest) assignments parameters =
     rbind (ok_or (find_column table (asg_column assignment))
              (sql_error_new ErrBind ''column does not exist in table'' (id_span (asg_column assignment)))) (\<lambda>column_index.
       if column_index \<in> fst ` set assignments
       then Inl (sql_error_new ErrBind ''column is assigned more than once'' (id_span (asg_column assignment)))
       else rbind (bind_column_value (asg_value assignment) tables
                     (columns (td_schema table) ! column_index) parameters) (\<lambda>(v, parameters).
         bind_assignments table tables rest (assignments @ [(column_index, v)]) parameters))"

definition bind_selection ::
    "sql_expr option \<Rightarrow> scope \<Rightarrow> parameter_spec list \<Rightarrow> sql_error + bound_expr option \<times> parameter_spec list" where
  "bind_selection selection tables parameters =
     (case selection of
        None \<Rightarrow> Inr (None, parameters)
      | Some e \<Rightarrow> rbind (bind_predicate e tables parameters) (\<lambda>(bound, parameters). Inr (Some bound, parameters)))"

definition bind_update ::
    "sql_catalog \<Rightarrow> update_stmt \<Rightarrow> parameter_spec list \<Rightarrow> sql_error + bound_statement \<times> parameter_spec list" where
  "bind_update cat update parameters =
     rbind (require_table cat (upd_table update)) (\<lambda>table.
       let tables = scope_single table (td_name table) 0 in
       rbind (bind_assignments table tables (upd_assignments update) [] parameters) (\<lambda>(assignments, parameters).
         rbind (bind_selection (upd_selection update) tables parameters) (\<lambda>(selection, parameters).
           Inr (BsUpdate table assignments selection, parameters))))"

definition bind_delete ::
    "sql_catalog \<Rightarrow> delete_stmt \<Rightarrow> parameter_spec list \<Rightarrow> sql_error + bound_statement \<times> parameter_spec list" where
  "bind_delete cat delete parameters =
     rbind (require_table cat (del_table delete)) (\<lambda>table.
       rbind (bind_selection (del_selection delete) (scope_single table (td_name table) 0) parameters)
         (\<lambda>(selection, parameters). Inr (BsDelete table selection, parameters)))"

fun bind_joins ::
    "sql_catalog \<Rightarrow> join_clause list \<Rightarrow> scope \<Rightarrow> logical_plan \<Rightarrow> parameter_spec list
      \<Rightarrow> sql_error + (scope \<times> logical_plan) \<times> parameter_spec list" where
  "bind_joins cat [] tables plan parameters = Inr ((tables, plan), parameters)"
| "bind_joins cat (join # rest) tables plan parameters =
     rbind (bind_table_source cat (jn_right join) (total_columns tables)) (\<lambda>right.
       rbind (scope_push tables right (ts_span (jn_right join))) (\<lambda>tables.
         rbind (bind_predicate (jn_on join) tables parameters) (\<lambda>(on, parameters).
           bind_joins cat rest tables (LJoin plan (LScan right) on) parameters)))"

fun bind_expressions ::
    "sql_expr list \<Rightarrow> scope \<Rightarrow> bound_expr list \<Rightarrow> parameter_spec list
      \<Rightarrow> sql_error + bound_expr list \<times> parameter_spec list" where
  "bind_expressions [] tables bound parameters = Inr (bound, parameters)"
| "bind_expressions (e # rest) tables bound parameters =
     rbind (bind_expr e tables None Forbidden parameters) (\<lambda>(b, parameters).
       bind_expressions rest tables (bound @ [b]) parameters)"

definition wildcard_columns :: "scope \<Rightarrow> span \<Rightarrow> named_expr list" where
  "wildcard_columns tables s =
     concat (map (\<lambda>table. map (\<lambda>(column_index, column).
         \<lparr>ne_expr = BColumn (bound_column_of table column_index column) s, ne_name = col_name column\<rparr>)
       (enumerate 0 (columns (td_schema (bd_table table))))) tables)"

fun bind_projection ::
    "(nat \<times> select_item) list \<Rightarrow> scope \<Rightarrow> named_expr list \<Rightarrow> parameter_spec list
      \<Rightarrow> sql_error + named_expr list \<times> parameter_spec list" where
  "bind_projection [] tables output parameters = Inr (output, parameters)"
| "bind_projection ((pos, item) # rest) tables output parameters =
     (case item of
        SelWildcard s \<Rightarrow> bind_projection rest tables (output @ wildcard_columns tables s) parameters
      | SelExpr e alias \<Rightarrow>
          rbind (bind_expr e tables None Allowed parameters) (\<lambda>(bound, parameters).
            bind_projection rest tables
              (output @ [\<lparr>ne_expr = bound,
                 ne_name = (case alias of None \<Rightarrow> expression_name bound pos | Some a \<Rightarrow> id_value a)\<rparr>])
              parameters))"

definition bind_order_expression ::
    "sql_expr \<Rightarrow> scope \<Rightarrow> named_expr list \<Rightarrow> parameter_spec list \<Rightarrow> sql_error + bound_expr \<times> parameter_spec list" where
  "bind_order_expression expression tables output parameters =
     (let by_scope = bind_expr expression tables None Allowed parameters in
      case expression of
        ExColumn None name _ \<Rightarrow>
          (case filter (\<lambda>candidate. ident_matches name (ne_name candidate)) output of
             [alias] \<Rightarrow> Inr (bound_with_span (id_span name) (ne_expr alias), parameters)
           | [] \<Rightarrow> by_scope
           | _ \<Rightarrow> Inl (sql_error_new ErrBind ''ORDER BY name is ambiguous'' (id_span name)))
      | _ \<Rightarrow> by_scope)"

fun bind_orders ::
    "order_item list \<Rightarrow> scope \<Rightarrow> named_expr list \<Rightarrow> bound_order list \<Rightarrow> parameter_spec list
      \<Rightarrow> sql_error + bound_order list \<times> parameter_spec list" where
  "bind_orders [] tables output orders parameters = Inr (orders, parameters)"
| "bind_orders (order # rest) tables output orders parameters =
     rbind (bind_order_expression (oi_expr order) tables output parameters) (\<lambda>(e, parameters).
       bind_orders rest tables output (orders @ [\<lparr>bo_expr = e, bo_direction = oi_direction order\<rparr>]) parameters)"

definition bind_limit ::
    "sql_expr option \<Rightarrow> logical_plan \<Rightarrow> parameter_spec list \<Rightarrow> sql_error + logical_plan \<times> parameter_spec list" where
  "bind_limit limit plan parameters =
     (case limit of
        None \<Rightarrow> Inr (plan, parameters)
      | Some limit \<Rightarrow>
          rbind (bind_expr limit [] (Some DInt64) Forbidden parameters) (\<lambda>(limit, parameters).
            rbind (require (case limit of BLiteral (Int64 v) _ \<Rightarrow> 0 \<le> sint v | BParameter _ _ _ \<Rightarrow> True | _ \<Rightarrow> False)
                     (sql_error_new ErrConstraint ''LIMIT must be a non-negative INT64 literal or parameter''
                        (expression_span limit))) (\<lambda>_.
              Inr (LLimit plan limit, require_direct_parameter_value limit parameters))))"

definition plan_aggregates :: "named_expr list \<Rightarrow> bound_order list \<Rightarrow> bound_expr list" where
  "plan_aggregates output order_by =
     deduplicate_expressions
       (fold (\<lambda>order. collect_aggregates (bo_expr order)) order_by
         (fold (\<lambda>named. collect_aggregates (ne_expr named)) output []))"

definition plan_grouping ::
    "logical_plan \<Rightarrow> bound_expr list \<Rightarrow> named_expr list \<Rightarrow> bound_order list \<Rightarrow> sql_error + logical_plan" where
  "plan_grouping plan group_by output order_by =
     (let aggregates = plan_aggregates output order_by in
      if aggregates = [] \<and> group_by = [] then Inr plan
      else rbind (try_each (\<lambda>named. require (group_compatible (ne_expr named) group_by)
               (sql_error_new ErrType ''projection references a non-grouped column outside an aggregate''
                  (expression_span (ne_expr named)))) output) (\<lambda>_.
        rbind (try_each (\<lambda>order. require (group_compatible (bo_expr order) group_by)
                 (sql_error_new ErrType ''ORDER BY references a non-grouped column outside an aggregate''
                    (expression_span (bo_expr order)))) order_by) (\<lambda>_.
          Inr (LAggregate plan group_by aggregates))))"

definition bind_select ::
    "sql_catalog \<Rightarrow> select_stmt \<Rightarrow> parameter_spec list \<Rightarrow> sql_error + bound_statement \<times> parameter_spec list" where
  "bind_select cat select parameters =
     rbind (bind_table_source cat (sel_from select) 0) (\<lambda>first_bound.
       rbind (scope_push [] first_bound (ts_span (sel_from select))) (\<lambda>tables.
         rbind (bind_joins cat (sel_joins select) tables (LScan first_bound) parameters)
           (\<lambda>((tables, plan), parameters).
             rbind (bind_selection (sel_selection select) tables parameters) (\<lambda>(selection, parameters).
               let plan = (case selection of None \<Rightarrow> plan | Some predicate \<Rightarrow> LFilter plan predicate) in
               rbind (bind_expressions (sel_group_by select) tables [] parameters) (\<lambda>(group_by, parameters).
                 rbind (bind_projection (enumerate 0 (sel_projection select)) tables [] parameters)
                   (\<lambda>(output, parameters).
                     rbind (bind_orders (sel_order_by select) tables output [] parameters)
                       (\<lambda>(order_by, parameters).
                         rbind (plan_grouping plan group_by output order_by) (\<lambda>plan.
                           rbind (bind_limit (sel_limit select)
                                    (if order_by = [] then plan else LSort plan order_by) parameters)
                             (\<lambda>(plan, parameters).
                               Inr (BsQuery (LProject plan output) output, parameters))))))))))"

definition bind_create_table ::
    "sql_catalog \<Rightarrow> create_table_stmt \<Rightarrow> span \<Rightarrow> sql_error + bound_statement" where
  "bind_create_table cat create s =
     (if resolve_table cat (ct_name create) \<noteq> None \<or> resolve_index cat (ct_name create) \<noteq> None
      then Inl (sql_error_new ErrBind ''catalog object already exists'' (id_span (ct_name create)))
      else
        let sch = \<lparr>columns = map (\<lambda>column.
              \<lparr>col_name = id_value (cd_name column), col_data_type = cd_data_type column,
               col_nullable = cd_nullable column, col_primary_key = cd_primary_key column\<rparr>) (ct_columns create)\<rparr>
        in rbind (map_err (\<lambda>_. sql_error_new ErrConstraint ''invalid schema'' s) (schema_validate sch)) (\<lambda>_.
             Inr (BsCreateTable (id_value (ct_name create)) sch)))"

definition bind_create_index :: "sql_catalog \<Rightarrow> create_index_stmt \<Rightarrow> sql_error + bound_statement" where
  "bind_create_index cat create =
     (if resolve_index cat (ci_name create) \<noteq> None \<or> resolve_table cat (ci_name create) \<noteq> None
      then Inl (sql_error_new ErrBind ''catalog object already exists'' (id_span (ci_name create)))
      else rbind (require_table cat (ci_table create)) (\<lambda>table.
        rbind (ok_or (find_column table (ci_column create))
                 (sql_error_new ErrBind ''column does not exist in table'' (id_span (ci_column create)))) (\<lambda>column_index.
          Inr (BsCreateIndex (id_value (ci_name create)) table column_index))))"

fun bind_statement ::
    "sql_catalog \<Rightarrow> statement \<Rightarrow> span \<Rightarrow> parameter_spec list
      \<Rightarrow> sql_error + bound_statement \<times> parameter_spec list" where
  "bind_statement cat (StCreateTable create) s parameters =
     rbind (bind_create_table cat create s) (\<lambda>b. Inr (b, parameters))"
| "bind_statement cat (StCreateIndex create) s parameters =
     rbind (bind_create_index cat create) (\<lambda>b. Inr (b, parameters))"
| "bind_statement cat (StInsert ins) s parameters = bind_insert cat ins parameters"
| "bind_statement cat (StUpdate update) s parameters = bind_update cat update parameters"
| "bind_statement cat (StDelete delete) s parameters = bind_delete cat delete parameters"
| "bind_statement cat (StSelect select) s parameters = bind_select cat select parameters"
| "bind_statement cat StBegin s parameters = Inr (BsTransaction TxBegin, parameters)"
| "bind_statement cat StCommit s parameters = Inr (BsTransaction TxCommit, parameters)"
| "bind_statement cat StRollback s parameters = Inr (BsTransaction TxRollback, parameters)"
| "bind_statement cat (StExplain inner inner_span) s parameters =
     rbind (bind_statement cat inner inner_span parameters) (\<lambda>(bound, parameters).
       case bound of
         BsTransaction _ \<Rightarrow>
           Inl (sql_unsupported ''EXPLAIN does not accept transaction-control statements'' inner_span)
       | _ \<Rightarrow> Inr (BsExplain bound, parameters))"

record bind_output =
  bout_statement :: bound_statement
  bout_parameters :: "parameter_spec list"

definition bind :: "statement \<times> span \<Rightarrow> sql_catalog \<Rightarrow> sql_error + bind_output" where
  "bind stmt cat =
     rbind (bind_statement cat (fst stmt) (snd stmt) []) (\<lambda>(bound, parameters).
       Inr \<lparr>bout_statement = bound, bout_parameters = sort_key ps_index parameters\<rparr>)"

definition output_schema :: "named_expr list \<Rightarrow> (string \<times> sql_type) list" where
  "output_schema output = map (\<lambda>expression. (ne_name expression, sql_type_of (ne_expr expression))) output"

end
