(* ===== verification/Sql_Typing.thy ===== *)
theory Sql_Typing
  imports Sql_Binder
begin

text \<open>
  The binder infers types soundly: every expression it returns is well typed for the columns of its
  scope and for the parameter types it reports, so its evaluation cannot meet a value of the wrong
  type, a missing column or a missing parameter.
\<close>

section \<open>Slots\<close>

definition table_columns :: "bound_table \<Rightarrow> column list" where
  "table_columns t = columns (td_schema (bd_table t))"

definition scope_columns :: "scope \<Rightarrow> column list" where
  "scope_columns tables = concat (map table_columns tables)"

fun slots_from :: "nat \<Rightarrow> scope \<Rightarrow> bool" where
  "slots_from n [] = True"
| "slots_from n (t # ts) = (bd_slot_offset t = n \<and> slots_from (n + length (table_columns t)) ts)"

lemma slots_from_append:
  "slots_from n (ts @ us) \<longleftrightarrow> slots_from n ts \<and> slots_from (n + length (scope_columns ts)) us"
  by (induction n ts rule: slots_from.induct) (auto simp: scope_columns_def add.assoc)

lemma slots_from_lookup:
  assumes "slots_from n tables" "t \<in> set tables" "i < length (table_columns t)"
  shows "n \<le> bd_slot_offset t \<and>
    checked_get (scope_columns tables) (bd_slot_offset t - n + i) = Some (table_columns t ! i)"
  using assms
proof (induction n tables rule: slots_from.induct)
  case (2 n t' ts)
  show ?case
  proof (cases "t = t'")
    case True
    with 2 show ?thesis by (auto simp: scope_columns_def checked_get_def nth_append)
  next
    case False
    with 2 have IH: "n + length (table_columns t') \<le> bd_slot_offset t"
      "checked_get (scope_columns ts) (bd_slot_offset t - (n + length (table_columns t')) + i) = Some (table_columns t ! i)"
      by auto
    then show ?thesis
      by (auto simp: scope_columns_def checked_get_def nth_append split: if_splits)
  qed
qed simp

lemma total_columns_slots:
  assumes "slots_from 0 tables" shows "total_columns tables = length (scope_columns tables)"
proof (cases tables rule: rev_cases)
  case (snoc ts t)
  with assms show ?thesis
    by (simp add: total_columns_def slots_from_append) (simp add: scope_columns_def table_columns_def)
qed (simp add: total_columns_def scope_columns_def)

lemma find_enumerate:
  assumes "find (\<lambda>(_, x). P x) (enumerate 0 xs) = Some (i, x)" shows "i < length xs \<and> xs ! i = x"
  using assms by (auto simp: find_Some_iff nth_enumerate_eq)

lemma resolve_column_cases:
  assumes "resolve_column tables q name = Inr c"
  obtains t i where "t \<in> set tables" "i < length (table_columns t)" "c = bound_column_of t i (table_columns t ! i)"
proof -
  let ?g = "\<lambda>table. map_option (\<lambda>(column_index, column). bound_column_of table column_index column)
               (find (\<lambda>(_, column). ident_matches name (col_name column))
                 (enumerate 0 (columns (td_schema (bd_table table)))))"
  from assms have "List.map_filter ?g (filter (qualifies q) tables) = [c]"
    by (auto simp: resolve_column_def split: list.splits)
  then have "c \<in> set (List.map_filter ?g (filter (qualifies q) tables))" by simp
  then obtain t where t: "t \<in> set tables" "?g t = Some c"
    by (auto simp: List.map_filter_def)
  then obtain i col where col: "find (\<lambda>(_, column). ident_matches name (col_name column))
        (enumerate 0 (table_columns t)) = Some (i, col)" "c = bound_column_of t i col"
    by (auto simp: table_columns_def)
  from that[OF t(1), of i] find_enumerate[OF col(1)] col(2) show thesis by simp
qed

lemma resolve_column_slot:
  assumes slots: "slots_from 0 tables" and c: "resolve_column tables q name = Inr c"
  shows "checked_get (scope_columns tables) (bc_input_slot c) = Some (bc_column c)"
proof -
  from c obtain t i where t: "t \<in> set tables" "i < length (table_columns t)"
    and eq: "c = bound_column_of t i (table_columns t ! i)" by (rule resolve_column_cases)
  from slots_from_lookup[OF slots t] show ?thesis by (simp add: eq bound_column_of_def)
qed

section \<open>Parameter specifications\<close>

definition refines :: "parameter_spec list \<Rightarrow> parameter_spec list \<Rightarrow> bool" where
  "refines ps ps' \<longleftrightarrow> (\<forall>p \<in> set ps. \<exists>p' \<in> set ps'. ps_index p' = ps_index p
     \<and> (ps_data_type p = None \<or> ps_data_type p' = ps_data_type p))"

lemma refines_refl [simp]: "refines ps ps"
  by (auto simp: refines_def)

lemma refines_trans: "refines ps qs \<Longrightarrow> refines qs rs \<Longrightarrow> refines ps rs"
  unfolding refines_def by (metis (no_types, lifting))

lemma refines_append [simp]: "refines ps (ps @ qs)"
  by (auto simp: refines_def)

lemma refines_set: "set ps \<subseteq> set qs \<Longrightarrow> refines ps qs"
  by (auto simp: refines_def)

lemma typed_mono: "refines ps ps' \<Longrightarrow> typed ps cols e \<Longrightarrow> typed ps' cols e"
proof (induction e)
  case (BParameter i d s)
  then obtain p where p: "p \<in> set ps" "ps_index p = i" "d = None \<or> ps_data_type p = d" by auto
  with BParameter(1) obtain p' where "p' \<in> set ps'" "ps_index p' = i"
      "ps_data_type p = None \<or> ps_data_type p' = ps_data_type p"
    unfolding refines_def by metis
  with p show ?case by auto
next
  case (BUnary op e s)
  then show ?case by (cases op) auto
qed auto

lemma update_first_append:
  "\<not> list_ex P xs \<Longrightarrow> update_first P f (xs @ ys) = xs @ update_first P f ys"
  by (induction xs) auto

lemma map_update_first:
  "(\<And>x. g (f x) = g x) \<Longrightarrow> map g (update_first P f xs) = map g xs"
  by (induction xs) auto

lemma refines_update_first:
  assumes "\<And>p. find P ps = Some p \<Longrightarrow> ps_data_type p = None \<or> ps_data_type (f p) = ps_data_type p"
    and "\<And>p. ps_index (f p) = ps_index p"
  shows "refines ps (update_first P f ps)"
  using assms(1)
proof (induction ps)
  case (Cons p ps)
  show ?case
  proof (cases "P p")
    case True
    with Cons.prems[of p] assms(2) show ?thesis by (auto simp: refines_def)
  next
    case False
    with Cons show ?thesis by (auto simp: refines_def)
  qed
qed simp

lemma find_update_first:
  "find (\<lambda>p. ps_index p = i) ps = Some p \<Longrightarrow> (\<And>p. ps_index (f p) = ps_index p) \<Longrightarrow>
   find (\<lambda>p. ps_index p = i) (update_first (\<lambda>p. ps_index p = i) f ps) = Some (f p)"
  by (induction ps) (auto split: if_splits)

lemma find_append_Some: "find P xs = Some x \<Longrightarrow> find P (xs @ ys) = Some x"
  by (induction xs) auto

lemma find_append_None: "\<not> list_ex P xs \<Longrightarrow> find P (xs @ ys) = find P ys"
  by (induction xs) auto

lemma find_None_ex: "find P xs = None \<longleftrightarrow> \<not> list_ex P xs"
  by (induction xs) auto

text \<open>The recorded type of a parameter expression.\<close>

definition exact :: "parameter_spec list \<Rightarrow> bound_expr \<Rightarrow> bool" where
  "exact ps b \<longleftrightarrow> (\<forall>i d s. b = BParameter i d s \<longrightarrow>
     (\<exists>p. find (\<lambda>p. ps_index p = i) ps = Some p \<and> ps_data_type p = d))"

lemma exact_append: "exact ps b \<Longrightarrow> exact (ps @ qs) b"
  unfolding exact_def by (metis find_append_Some)

lemma untyped_cases:
  assumes "ty_data_type (sql_type_of b) = None"
  obtains (Parameter) i s where "b = BParameter i None s"
    | (Null_literal) "null_literal b"
    | (Aggregate) f a s where "b = BAggregate f a s"
proof (cases b)
  case (BUnary op e s)
  with assms show ?thesis by (cases op) (auto simp: type_known_def)
qed (use assms that in \<open>auto simp: type_known_def\<close>)

text \<open>
  \<open>grows ps is ps'\<close>: the parameters \<open>is\<close> are added at the end, everything before is untouched.
\<close>

definition grows :: "parameter_spec list \<Rightarrow> nat list \<Rightarrow> parameter_spec list \<Rightarrow> bool" where
  "grows ps idxs ps' \<longleftrightarrow> (\<exists>new. ps' = ps @ new \<and> map ps_index new = idxs)"

lemma grows_refl [simp]: "grows ps [] ps"
  by (simp add: grows_def)

lemma grows_trans: "grows ps xs qs \<Longrightarrow> grows qs ys rs \<Longrightarrow> grows ps (xs @ ys) rs"
  by (auto simp: grows_def)

lemma grows_refines: "grows ps xs qs \<Longrightarrow> refines ps qs"
  by (auto simp: grows_def)

lemma grows_indexes: "grows ps xs qs \<Longrightarrow> ps_index ` set qs = ps_index ` set ps \<union> set xs"
  by (auto simp: grows_def)

lemma grows_update:
  assumes "grows ps xs qs" "i \<in> set xs" "i \<notin> ps_index ` set ps" "\<And>p. ps_index (f p) = ps_index p"
  shows "grows ps xs (update_first (\<lambda>p. ps_index p = i) f qs)"
proof -
  from assms(1) obtain new where new: "qs = ps @ new" "map ps_index new = xs" by (auto simp: grows_def)
  have "\<not> list_ex (\<lambda>p. ps_index p = i) ps" using assms(3) by (auto simp: list_ex_iff)
  then have "update_first (\<lambda>p. ps_index p = i) f qs = ps @ update_first (\<lambda>p. ps_index p = i) f new"
    by (simp add: new update_first_append)
  moreover have "map ps_index (update_first (\<lambda>p. ps_index p = i) f new) = xs"
    using new assms(4) by (simp add: map_update_first)
  ultimately show ?thesis by (auto simp: grows_def)
qed

section \<open>The effect of constraining a parameter\<close>

lemma constrain_spec:
  assumes "constrain_direct_parameter b d ps = Inr (b', ps')" and "exact ps b"
  shows "refines ps ps'" and "exact ps' b'" and "typed ps cols b \<Longrightarrow> typed ps' cols b'"
    and "case b of BParameter i _ _ \<Rightarrow> ps' = update_first (\<lambda>p. ps_index p = i) (\<lambda>p. p\<lparr>ps_data_type := Some d\<rparr>) ps
         | _ \<Rightarrow> ps' = ps \<and> b' = b"
    and "(\<exists>i e s. b = BParameter i e s) \<Longrightarrow> operand d b'"
proof -
  have "refines ps ps' \<and> exact ps' b' \<and> (typed ps cols b \<longrightarrow> typed ps' cols b') \<and>
     (case b of BParameter i _ _ \<Rightarrow> ps' = update_first (\<lambda>p. ps_index p = i) (\<lambda>p. p\<lparr>ps_data_type := Some d\<rparr>) ps
         | _ \<Rightarrow> ps' = ps \<and> b' = b) \<and> ((\<exists>i e s. b = BParameter i e s) \<longrightarrow> operand d b')"
  proof (cases b)
    case (BParameter i e s)
    let ?P = "\<lambda>p. ps_index p = i" and ?f = "\<lambda>p :: parameter_spec. p\<lparr>ps_data_type := Some d\<rparr>"
    from assms(1) have e: "e = None \<or> e = Some d" and b': "b' = BParameter i (Some d) s"
      and ps': "ps' = update_first ?P ?f ps"
      by (auto simp: BParameter constrain_direct_parameter_def split: if_splits)
    from assms(2) obtain p where p: "find ?P ps = Some p" "ps_data_type p = e" by (auto simp: BParameter exact_def)
    have find': "find ?P ps' = Some (?f p)" unfolding ps' by (rule find_update_first[OF p(1)]) simp
    then have mem: "?f p \<in> set ps'" by (auto simp: find_Some_iff)
    have idx: "ps_index p = i" using p(1) by (auto simp: find_Some_iff)
    have "refines ps ps'" unfolding ps' using p e by (intro refines_update_first) auto
    moreover have "exact ps' b'" using find' by (auto simp: b' exact_def)
    moreover have "typed ps' cols b'" using mem idx by (auto simp: b' intro!: bexI[of _ "?f p"])
    moreover have "operand d b'" by (simp add: b' operand_def)
    ultimately show ?thesis by (simp add: BParameter ps')
  qed (use assms in \<open>auto simp: constrain_direct_parameter_def\<close>)
  then show "refines ps ps'" "exact ps' b'" "typed ps cols b \<Longrightarrow> typed ps' cols b'"
    "case b of BParameter i _ _ \<Rightarrow> ps' = update_first (\<lambda>p. ps_index p = i) (\<lambda>p. p\<lparr>ps_data_type := Some d\<rparr>) ps
         | _ \<Rightarrow> ps' = ps \<and> b' = b"
    "(\<exists>i e s. b = BParameter i e s) \<Longrightarrow> operand d b'" by blast+
qed

lemma constrain_grows:
  assumes "constrain_direct_parameter b d qs = Inr (b', qs')" "exact qs b" "grows ps xs qs"
    and "\<And>i e s. b = BParameter i e s \<Longrightarrow> i \<in> set xs \<and> i \<notin> ps_index ` set ps"
  shows "grows ps xs qs'"
proof (cases b)
  case (BParameter i e s)
  with constrain_spec(4)[OF assms(1,2)] assms(3,4) show ?thesis by (auto intro: grows_update)
qed (use constrain_spec(4)[OF assms(1,2)] assms(3) in auto)

lemma enforce_spec:
  assumes "enforce_expected b expected ps = Inr (b', ps')" and "exact ps b"
  shows "refines ps ps'" and "exact ps' b'" and "typed ps cols b \<Longrightarrow> typed ps' cols b'"
    and "typed ps cols b \<Longrightarrow> expected = Some d \<Longrightarrow> operand d b'"
proof -
  have "refines ps ps' \<and> exact ps' b' \<and> (typed ps cols b \<longrightarrow> typed ps' cols b') \<and>
      (typed ps cols b \<longrightarrow> expected = Some d \<longrightarrow> operand d b')"
  proof (cases expected)
    case None
    with assms show ?thesis by (auto simp: enforce_expected_def)
  next
    case (Some c)
    show ?thesis
    proof (cases "ty_data_type (sql_type_of b)")
      case None
      with Some assms(1) have c: "constrain_direct_parameter b c ps = Inr (b', ps')"
        by (simp add: enforce_expected_def)
      note spec = constrain_spec[OF c assms(2)]
      from None have "operand c b'" if "typed ps cols b"
      proof (cases rule: untyped_cases)
        case Null_literal
        with spec(4) show ?thesis by (cases b) (auto simp: operand_def)
      qed (use that spec(5) in auto)
      with spec(1-3) Some show ?thesis by auto
    next
      case (Some actual)
      with \<open>expected = Some c\<close> assms show ?thesis
        by (auto simp: enforce_expected_def operand_def split: if_splits)
    qed
  qed
  then show "refines ps ps'" "exact ps' b'" "typed ps cols b \<Longrightarrow> typed ps' cols b'"
    "typed ps cols b \<Longrightarrow> expected = Some d \<Longrightarrow> operand d b'" by blast+
qed

lemma enforce_grows:
  assumes "enforce_expected b expected qs = Inr (b', qs')" "exact qs b" "grows ps xs qs"
    and "\<And>i e s. b = BParameter i e s \<Longrightarrow> i \<in> set xs \<and> i \<notin> ps_index ` set ps"
  shows "grows ps xs qs'"
  using assms constrain_grows[OF _ assms(2,3,4)]
  by (auto simp: enforce_expected_def split: option.splits if_splits)

section \<open>Expressions\<close>

fun expr_parameters :: "sql_expr \<Rightarrow> nat list" where
  "expr_parameters (ExParameter i _) = [i]"
| "expr_parameters (ExUnary _ e _) = expr_parameters e"
| "expr_parameters (ExBinary l _ r _) = expr_parameters l @ expr_parameters r"
| "expr_parameters (ExIsNull e _ _) = expr_parameters e"
| "expr_parameters (ExAggregate _ (Some a) _) = expr_parameters a"
| "expr_parameters _ = []"

definition fresh :: "parameter_spec list \<Rightarrow> nat list \<Rightarrow> bool" where
  "fresh ps idxs \<longleftrightarrow> distinct idxs \<and> set idxs \<inter> ps_index ` set ps = {}"

lemma fresh_left: "fresh ps (xs @ ys) \<Longrightarrow> fresh ps xs"
  by (auto simp: fresh_def)

lemma fresh_right: "fresh ps (xs @ ys) \<Longrightarrow> grows ps xs qs \<Longrightarrow> fresh qs ys"
  unfolding fresh_def using grows_indexes[of ps xs qs] by (simp add: Int_Un_distrib Int_Un_distrib2) blast

lemma exact_other: "(\<And>i d s. b \<noteq> BParameter i d s) \<Longrightarrow> exact ps b"
  by (auto simp: exact_def)

lemma enforce_known:
  "enforce_expected b expected ps = Inr (b', ps') \<Longrightarrow> (\<And>i d s. b \<noteq> BParameter i d s) \<Longrightarrow> b' = b \<and> ps' = ps"
  by (auto simp: enforce_expected_def constrain_direct_parameter_def split: option.splits if_splits bound_expr.splits)

lemma bind_parameter_source:
  assumes "bind_expr e tables expected policy ps = Inr (BParameter i d s, ps')"
  shows "e = ExParameter i s"
proof (cases e)
  case (ExParameter j t)
  with assms show ?thesis
    by (auto simp: rbind_eq_Inr enforce_expected_def constrain_direct_parameter_def split: option.splits if_splits)
next
  case (ExBinary l op r t)
  with assms show ?thesis by (auto simp: rbind_eq_Inr split: if_splits dest!: enforce_known)
next
  case (ExAggregate f a t)
  with assms show ?thesis by (auto simp: rbind_eq_Inr split: if_splits dest!: enforce_known)
qed (use assms in \<open>auto simp: rbind_eq_Inr dest!: enforce_known\<close>)

lemma record_fresh:
  "fresh ps [i] \<Longrightarrow> record_parameter i d s ps = Inr (ps @ [\<lparr>ps_index = i, ps_data_type = d, ps_nullable = True\<rparr>])"
proof -
  assume "fresh ps [i]"
  then have "find (\<lambda>p. ps_index p = i) ps = None" by (auto simp: fresh_def find_None_ex list_ex_iff)
  then show ?thesis by (simp add: record_parameter_def)
qed

lemma unify_grows:
  assumes "unify_comparison_types l r qs s = Inr ((l', r'), qs')" "exact qs l" "exact qs r" "grows ps xs qs"
    and "\<And>i e s. l = BParameter i e s \<or> r = BParameter i e s \<Longrightarrow> i \<in> set xs \<and> i \<notin> ps_index ` set ps"
  shows "grows ps xs qs'"
  using assms(1) constrain_grows[OF _ assms(2,4)] constrain_grows[OF _ assms(3,4)] assms(4,5)
  by (auto simp: unify_comparison_types_def rbind_eq_Inr split: option.splits if_splits) metis+

lemma bind_expr_grows:
  assumes "bind_expr e tables expected policy ps = Inr (b, ps')" and "fresh ps (expr_parameters e)"
  shows "grows ps (expr_parameters e) ps' \<and> exact ps' b"
  using assms
proof (induction e arbitrary: expected policy ps b ps')
  case (ExLiteral v s)
  then show ?case using enforce_known[OF ExLiteral(1)[simplified]] by (simp add: exact_def)
next
  case (ExParameter i s)
  let ?p = "\<lparr>ps_index = i, ps_data_type = expected, ps_nullable = True\<rparr>"
  have fresh: "fresh ps [i]" using ExParameter by simp
  have enf: "enforce_expected (BParameter i expected s) expected (ps @ [?p]) = Inr (b, ps')"
    using ExParameter.prems by (simp add: record_fresh[OF fresh])
  have notin: "\<not> list_ex (\<lambda>p. ps_index p = i) ps" using fresh by (auto simp: fresh_def list_ex_iff)
  have ex: "exact (ps @ [?p]) (BParameter i expected s)"
    by (auto simp: exact_def find_append_None[OF notin])
  have "grows ps [i] (ps @ [?p])" by (simp add: grows_def)
  from enforce_grows[OF enf ex this] enforce_spec(2)[OF enf ex] fresh show ?case by (auto simp: fresh_def)
next
  case (ExColumn q n s)
  then show ?case by (auto simp: rbind_eq_Inr exact_def dest!: enforce_known)
next
  case (ExUnary op e s)
  then obtain b1 where "bind_expr e tables (Some (case op of SNot \<Rightarrow> DBool | SNegate \<Rightarrow> DInt64)) policy ps = Inr (b1, ps')"
    and "b = BUnary op b1 s"
    by (auto simp: rbind_eq_Inr dest!: enforce_known)
  with ExUnary show ?case by (auto simp: exact_def)
next
  case (ExBinary l op r s)
  have fresh: "fresh ps (expr_parameters l)" using ExBinary.prems(2) by (simp add: fresh_left)
  show ?case
  proof (cases "is_comparison op")
    case True
    with ExBinary.prems obtain l1 ps1 r1 ps2 l2 r2 where
      l: "bind_expr l tables None policy ps = Inr (l1, ps1)"
      and r: "bind_expr r tables (ty_data_type (sql_type_of l1)) policy ps1 = Inr (r1, ps2)"
      and u: "unify_comparison_types l1 r1 ps2 s = Inr ((l2, r2), ps')" and b: "b = BBinary l2 op r2 s"
      by (auto simp: rbind_eq_Inr dest!: enforce_known)
    from ExBinary.IH(1)[OF l fresh] have g1: "grows ps (expr_parameters l) ps1" "exact ps1 l1" by auto
    have fresh2: "fresh ps1 (expr_parameters r)" using ExBinary.prems(2) g1(1) by (auto intro: fresh_right)
    from ExBinary.IH(2)[OF r fresh2] have g2: "grows ps1 (expr_parameters r) ps2" "exact ps2 r1" by auto
    have ex: "exact ps2 l1" using g1(2) g2(1) exact_append by (auto simp: grows_def)
    have "grows ps (expr_parameters l @ expr_parameters r) ps'"
    proof (rule unify_grows[OF u ex g2(2) grows_trans[OF g1(1) g2(1)]])
      fix i e t assume "l1 = BParameter i e t \<or> r1 = BParameter i e t"
      with l r bind_parameter_source have "l = ExParameter i t \<or> r = ExParameter i t" by blast
      then have "i \<in> set (expr_parameters l @ expr_parameters r)" by auto
      with ExBinary.prems(2) show "i \<in> set (expr_parameters l @ expr_parameters r) \<and> i \<notin> ps_index ` set ps"
        by (auto simp: fresh_def)
    qed
    then show ?thesis by (simp add: b exact_def)
  next
    case False
    with ExBinary.prems obtain l1 ps1 r1 where
      l: "bind_expr l tables (Some DBool) policy ps = Inr (l1, ps1)"
      and r: "bind_expr r tables (Some DBool) policy ps1 = Inr (r1, ps')" and b: "b = BBinary l1 op r1 s"
      by (auto simp: rbind_eq_Inr dest!: enforce_known)
    from ExBinary.IH(1)[OF l fresh] have g1: "grows ps (expr_parameters l) ps1" by auto
    have "fresh ps1 (expr_parameters r)" using ExBinary.prems(2) g1 by (auto intro: fresh_right)
    from ExBinary.IH(2)[OF r this] g1 show ?thesis by (auto simp: b exact_def intro: grows_trans)
  qed
next
  case (ExIsNull e negated s)
  then obtain b1 where "bind_expr e tables None policy ps = Inr (b1, ps')" and "b = BIsNull b1 negated s"
    by (auto simp: rbind_eq_Inr dest!: enforce_known)
  with ExIsNull show ?case by (auto simp: exact_def)
next
  case (ExAggregate f a s)
  show ?case
  proof (cases a)
    case None
    with ExAggregate.prems show ?thesis by (auto simp: exact_def split: if_splits dest!: enforce_known)
  next
    case (Some e)
    with ExAggregate.prems obtain b1 where
      e: "bind_expr e tables (if f = AggSum then Some DInt64 else None) Forbidden ps = Inr (b1, ps')"
      and b: "b = BAggregate f (Some b1) s"
      by (auto simp: rbind_eq_Inr split: if_splits dest!: enforce_known)
    from ExAggregate.IH[OF _ e] ExAggregate.prems(2) show ?thesis by (auto simp: b exact_def Some)
  qed
qed

lemma forbidden_no_aggregate:
  "bind_expr e tables expected Forbidden ps = Inr (b, ps') \<Longrightarrow> \<not> contains_aggregate e"
  by (induction e arbitrary: expected ps b ps') (auto simp: rbind_eq_Inr split: if_splits)

lemma no_aggregate_bound:
  assumes "bind_expr e tables expected policy ps = Inr (b, ps')" "\<not> contains_aggregate e"
  shows "b \<noteq> BAggregate f a s"
  using assms
  by (cases e) (auto simp: rbind_eq_Inr enforce_expected_def constrain_direct_parameter_def
      split: option.splits if_splits bound_expr.splits)

lemma operand_typed: "operand d b \<Longrightarrow> ty_data_type (sql_type_of b) = None \<Longrightarrow> null_literal b"
  by (auto simp: operand_def)

lemma bind_expr_typed:
  assumes "bind_expr e tables expected policy ps = Inr (b, ps')" and "fresh ps (expr_parameters e)"
    and "slots_from 0 tables" and "\<not> contains_aggregate e"
  shows "typed ps' (scope_columns tables) b \<and> (\<forall>d. expected = Some d \<longrightarrow> operand d b)"
  using assms(1,2,4)
proof (induction e arbitrary: expected ps b ps')
  case (ExLiteral v s)
  from enforce_spec(3,4)[OF ExLiteral(1)[simplified]] show ?case by (simp add: exact_def)
next
  case (ExParameter i s)
  let ?p = "\<lparr>ps_index = i, ps_data_type = expected, ps_nullable = True\<rparr>"
  have fresh: "fresh ps [i]" using ExParameter by simp
  have enf: "enforce_expected (BParameter i expected s) expected (ps @ [?p]) = Inr (b, ps')"
    using ExParameter.prems by (simp add: record_fresh[OF fresh])
  have notin: "\<not> list_ex (\<lambda>p. ps_index p = i) ps" using fresh by (auto simp: fresh_def list_ex_iff)
  have ex: "exact (ps @ [?p]) (BParameter i expected s)"
    by (auto simp: exact_def find_append_None[OF notin])
  from enforce_spec(3,4)[OF enf ex] show ?case by simp
next
  case (ExColumn q n s)
  then obtain c where c: "resolve_column tables q n = Inr c"
    and enf: "enforce_expected (BColumn c s) expected ps = Inr (b, ps')"
    by (auto simp: rbind_eq_Inr)
  from enforce_spec(3,4)[OF enf] resolve_column_slot[OF assms(3) c] show ?case by (simp add: exact_def)
next
  case (ExUnary op e s)
  let ?d = "case op of SNot \<Rightarrow> DBool | SNegate \<Rightarrow> DInt64"
  from ExUnary.prems obtain b1 ps1 where e: "bind_expr e tables (Some ?d) policy ps = Inr (b1, ps1)"
    and enf: "enforce_expected (BUnary op b1 s) expected ps1 = Inr (b, ps')"
    by (auto simp: rbind_eq_Inr)
  from ExUnary.IH[OF e] ExUnary.prems have "typed ps1 (scope_columns tables) (BUnary op b1 s)"
    by (cases op) auto
  with enforce_spec(3,4)[OF enf] show ?case by (simp add: exact_def)
next
  case (ExBinary l op r s)
  have fresh: "fresh ps (expr_parameters l)" using ExBinary.prems(2) by (simp add: fresh_left)
  let ?cols = "scope_columns tables"
  show ?case
  proof (cases "is_comparison op")
    case True
    with ExBinary.prems obtain l1 ps1 r1 ps2 l2 r2 ps3 where
      l: "bind_expr l tables None policy ps = Inr (l1, ps1)"
      and r: "bind_expr r tables (ty_data_type (sql_type_of l1)) policy ps1 = Inr (r1, ps2)"
      and u: "unify_comparison_types l1 r1 ps2 s = Inr ((l2, r2), ps3)"
      and enf: "enforce_expected (BBinary l2 op r2 s) expected ps3 = Inr (b, ps')"
      by (auto simp: rbind_eq_Inr)
    from bind_expr_grows[OF l fresh] have g1: "grows ps (expr_parameters l) ps1" "exact ps1 l1" by auto
    have fresh2: "fresh ps1 (expr_parameters r)" using ExBinary.prems(2) g1(1) by (auto intro: fresh_right)
    from bind_expr_grows[OF r fresh2] have g2: "grows ps1 (expr_parameters r) ps2" "exact ps2 r1" by auto
    have ex: "exact ps2 l1" using g1(2) g2(1) exact_append by (auto simp: grows_def)
    have tl: "typed ps2 ?cols l1"
      using ExBinary.IH(1)[OF l fresh] ExBinary.prems(3) typed_mono[OF grows_refines[OF g2(1)]] by auto
    have tr: "typed ps2 ?cols r1" and opr: "\<And>d. ty_data_type (sql_type_of l1) = Some d \<Longrightarrow> operand d r1"
      using ExBinary.IH(2)[OF r fresh2] ExBinary.prems(3) by auto
    have "typed ps3 ?cols (BBinary l2 op r2 s)"
    proof (cases "ty_data_type (sql_type_of l1)")
      case (Some d)
      with opr have "operand d r1" "operand d l1" by (auto simp: operand_def)
      moreover have "l2 = l1 \<and> r2 = r1 \<and> ps3 = ps2"
        using u Some operand_typed[OF \<open>operand d r1\<close>]
        by (cases r1) (auto simp: unify_comparison_types_def rbind_eq_Inr constrain_direct_parameter_def
            split: option.splits if_splits)
      ultimately show ?thesis using tl tr True by auto
    next
      case left: None
      show ?thesis
      proof (cases "ty_data_type (sql_type_of r1)")
        case None
        with left u tl tr True show ?thesis
          by (auto simp: unify_comparison_types_def split: if_splits)
      next
        case (Some d)
        with left u have c: "constrain_direct_parameter l1 d ps2 = Inr (l2, ps3)" and r2: "r2 = r1"
          by (auto simp: unify_comparison_types_def rbind_eq_Inr)
        note spec = constrain_spec[OF c ex]
        from left have "operand d l2"
        proof (cases rule: untyped_cases)
          case Null_literal
          with spec(4) show ?thesis by (cases l1) (auto simp: operand_def)
        next
          case (Aggregate f a t)
          with no_aggregate_bound[OF l] ExBinary.prems(3) show ?thesis by auto
        qed (use spec(5) in auto)
        moreover have "operand d r1" using Some by (simp add: operand_def)
        ultimately show ?thesis using spec(3)[OF tl] typed_mono[OF spec(1) tr] True r2 by auto
      qed
    qed
    with enforce_spec(3,4)[OF enf] show ?thesis by (simp add: exact_def)
  next
    case False
    with ExBinary.prems obtain l1 ps1 r1 ps2 where
      l: "bind_expr l tables (Some DBool) policy ps = Inr (l1, ps1)"
      and r: "bind_expr r tables (Some DBool) policy ps1 = Inr (r1, ps2)"
      and enf: "enforce_expected (BBinary l1 op r1 s) expected ps2 = Inr (b, ps')"
      by (auto simp: rbind_eq_Inr)
    from bind_expr_grows[OF l fresh] have g1: "grows ps (expr_parameters l) ps1" by auto
    have fresh2: "fresh ps1 (expr_parameters r)" using ExBinary.prems(2) g1 by (auto intro: fresh_right)
    from bind_expr_grows[OF r fresh2] have g2: "grows ps1 (expr_parameters r) ps2" by auto
    have "typed ps2 ?cols (BBinary l1 op r1 s)"
      using ExBinary.IH(1)[OF l fresh] ExBinary.IH(2)[OF r fresh2] ExBinary.prems(3) False
        typed_mono[OF grows_refines[OF g2]] by auto
    with enforce_spec(3,4)[OF enf] show ?thesis by (simp add: exact_def)
  qed
next
  case (ExIsNull e negated s)
  then obtain b1 ps1 where e: "bind_expr e tables None policy ps = Inr (b1, ps1)"
    and enf: "enforce_expected (BIsNull b1 negated s) expected ps1 = Inr (b, ps')"
    by (auto simp: rbind_eq_Inr)
  from ExIsNull.IH[OF e] ExIsNull.prems enforce_spec(3,4)[OF enf] show ?case by (simp add: exact_def)
qed simp

section \<open>Aggregates\<close>

text \<open>\<open>contains_aggregate\<close> of \<open>crates/aster-db/src/executor.rs\<close>, on bound expressions.\<close>

fun exec_contains_aggregate :: "bound_expr \<Rightarrow> bool" where
  "exec_contains_aggregate (BAggregate _ _ _) = True"
| "exec_contains_aggregate (BUnary _ e _) = exec_contains_aggregate e"
| "exec_contains_aggregate (BIsNull e _ _) = exec_contains_aggregate e"
| "exec_contains_aggregate (BBinary l _ r _) = (exec_contains_aggregate l \<or> exec_contains_aggregate r)"
| "exec_contains_aggregate _ = False"

text \<open>The arguments of the aggregates in an expression.\<close>

fun aggregate_arguments :: "bound_expr \<Rightarrow> bound_expr list" where
  "aggregate_arguments (BAggregate _ a _) = (case a of None \<Rightarrow> [] | Some a \<Rightarrow> [a])"
| "aggregate_arguments (BUnary _ e _) = aggregate_arguments e"
| "aggregate_arguments (BIsNull e _ _) = aggregate_arguments e"
| "aggregate_arguments (BBinary l _ r _) = aggregate_arguments l @ aggregate_arguments r"
| "aggregate_arguments _ = []"

lemma collect_aggregates_append: "collect_aggregates e out = out @ collect_aggregates e []"
proof (induction e arbitrary: out)
  case (BBinary l op r s)
  then show ?case by (metis collect_aggregates.simps(4) append_assoc)
next
  case (BUnary op e s)
  from BUnary.IH[of out] show ?case by simp
next
  case (BIsNull e negated s)
  from BIsNull.IH[of out] show ?case by simp
qed simp_all

lemma collected_arguments:
  "concat (map aggregate_arguments (collect_aggregates e [])) = aggregate_arguments e"
proof (induction e)
  case (BBinary l op r s)
  then show ?case by (simp add: collect_aggregates_append[of r "collect_aggregates l []"])
qed auto

lemma constrain_shape:
  "constrain_direct_parameter b d ps = Inr (b', ps') \<Longrightarrow>
     exec_contains_aggregate b' = exec_contains_aggregate b \<and> aggregate_arguments b' = aggregate_arguments b"
  by (cases b) (auto simp: constrain_direct_parameter_def split: if_splits)

lemma enforce_shape:
  "enforce_expected b expected ps = Inr (b', ps') \<Longrightarrow>
     exec_contains_aggregate b' = exec_contains_aggregate b \<and> aggregate_arguments b' = aggregate_arguments b"
  by (auto simp: enforce_expected_def split: option.splits if_splits dest: constrain_shape)

lemma unify_shape:
  assumes "unify_comparison_types l r ps s = Inr ((l', r'), ps')"
  shows "exec_contains_aggregate l' = exec_contains_aggregate l" "exec_contains_aggregate r' = exec_contains_aggregate r"
    "aggregate_arguments l' = aggregate_arguments l" "aggregate_arguments r' = aggregate_arguments r"
  using assms constrain_shape
  by (fastforce simp: unify_comparison_types_def rbind_eq_Inr split: option.splits if_splits)+

lemma bind_expr_contains_aggregate:
  "bind_expr e tables expected policy ps = Inr (b, ps') \<Longrightarrow> exec_contains_aggregate b = contains_aggregate e"
proof (induction e arbitrary: expected policy ps b ps')
  case (ExBinary l op r s)
  show ?case
  proof (cases "is_comparison op")
    case True
    with ExBinary.prems obtain l1 ps1 r1 ps2 l2 r2 where
      l: "bind_expr l tables None policy ps = Inr (l1, ps1)"
      and r: "bind_expr r tables (ty_data_type (sql_type_of l1)) policy ps1 = Inr (r1, ps2)"
      and u: "unify_comparison_types l1 r1 ps2 s = Inr ((l2, r2), ps')" and b: "b = BBinary l2 op r2 s"
      by (auto simp: rbind_eq_Inr dest!: enforce_known)
    from ExBinary.IH(1)[OF l] ExBinary.IH(2)[OF r] unify_shape(1,2)[OF u] show ?thesis by (simp add: b)
  next
    case False
    with ExBinary show ?thesis by (fastforce simp: rbind_eq_Inr dest!: enforce_known)
  qed
next
  case (ExParameter i s)
  then show ?case by (auto simp: rbind_eq_Inr dest!: enforce_shape)
next
  case (ExAggregate f a s)
  then show ?case by (auto simp: rbind_eq_Inr split: if_splits dest!: enforce_known)
qed (fastforce simp: rbind_eq_Inr dest!: enforce_known)+

lemma no_aggregate_arguments: "\<not> exec_contains_aggregate b \<Longrightarrow> aggregate_arguments b = []"
  by (induction b) auto

lemma bind_expr_arguments_typed:
  assumes "bind_expr e tables expected policy ps = Inr (b, ps')" and "fresh ps (expr_parameters e)"
    and "slots_from 0 tables"
  shows "\<forall>a \<in> set (aggregate_arguments b). typed ps' (scope_columns tables) a"
  using assms(1,2)
proof (induction e arbitrary: expected policy ps b ps')
  case (ExUnary op e s)
  then show ?case by (auto simp: rbind_eq_Inr dest!: enforce_known)
next
  case (ExBinary l op r s)
  have fresh: "fresh ps (expr_parameters l)" using ExBinary.prems(2) by (simp add: fresh_left)
  show ?case
  proof (cases "is_comparison op")
    case True
    with ExBinary.prems obtain l1 ps1 r1 ps2 l2 r2 where
      l: "bind_expr l tables None policy ps = Inr (l1, ps1)"
      and r: "bind_expr r tables (ty_data_type (sql_type_of l1)) policy ps1 = Inr (r1, ps2)"
      and u: "unify_comparison_types l1 r1 ps2 s = Inr ((l2, r2), ps')" and b: "b = BBinary l2 op r2 s"
      by (auto simp: rbind_eq_Inr dest!: enforce_known)
    from bind_expr_grows[OF l fresh] have g1: "grows ps (expr_parameters l) ps1" "exact ps1 l1" by auto
    have fresh2: "fresh ps1 (expr_parameters r)" using ExBinary.prems(2) g1(1) by (auto intro: fresh_right)
    from bind_expr_grows[OF r fresh2] have g2: "grows ps1 (expr_parameters r) ps2" "exact ps2 r1" by auto
    have ex: "exact ps2 l1" using g1(2) g2(1) exact_append by (auto simp: grows_def)
    have ref: "refines ps2 ps'"
      using u constrain_spec(1)[OF _ ex] constrain_spec(1)[OF _ g2(2)]
      by (auto simp: unify_comparison_types_def rbind_eq_Inr split: option.splits if_splits)
    show ?thesis
      using ExBinary.IH(1)[OF l fresh] ExBinary.IH(2)[OF r fresh2] unify_shape(3,4)[OF u]
        typed_mono[OF ref] typed_mono[OF grows_refines[OF g2(1)]] by (auto simp: b)
  next
    case False
    with ExBinary.prems obtain l1 ps1 r1 where
      l: "bind_expr l tables (Some DBool) policy ps = Inr (l1, ps1)"
      and r: "bind_expr r tables (Some DBool) policy ps1 = Inr (r1, ps')" and b: "b = BBinary l1 op r1 s"
      by (auto simp: rbind_eq_Inr dest!: enforce_known)
    from bind_expr_grows[OF l fresh] have g1: "grows ps (expr_parameters l) ps1" by auto
    have fresh2: "fresh ps1 (expr_parameters r)" using ExBinary.prems(2) g1 by (auto intro: fresh_right)
    from bind_expr_grows[OF r fresh2] have g2: "grows ps1 (expr_parameters r) ps'" by auto
    show ?thesis
      using ExBinary.IH(1)[OF l fresh] ExBinary.IH(2)[OF r fresh2] typed_mono[OF grows_refines[OF g2]]
      by (auto simp: b)
  qed
next
  case (ExIsNull e negated s)
  then show ?case by (auto simp: rbind_eq_Inr dest!: enforce_known)
next
  case (ExAggregate f a s)
  show ?case
  proof (cases a)
    case None
    with ExAggregate.prems show ?thesis by (auto split: if_splits dest!: enforce_known)
  next
    case (Some e)
    with ExAggregate.prems obtain b1 where
      e: "bind_expr e tables (if f = AggSum then Some DInt64 else None) Forbidden ps = Inr (b1, ps')"
      and b: "b = BAggregate f (Some b1) s"
      by (auto simp: rbind_eq_Inr split: if_splits dest!: enforce_known)
    from bind_expr_typed[OF e _ assms(3) forbidden_no_aggregate[OF e]] ExAggregate.prems(2) show ?thesis
      by (simp add: b Some)
  qed
qed (auto simp: rbind_eq_Inr dest!: enforce_shape)

end
