(* ===== verification/Sql_Sound.thy ===== *)
theory Sql_Sound
  imports Sql_Typing
begin

text \<open>
  Type soundness of whole statements.  \<open>sites\<close> lists the expressions of a bound statement with the
  columns they are evaluated over and the type their context requires; all of them are well typed.
\<close>

section \<open>Expressions of a statement\<close>

type_synonym site = "column list \<times> data_type option \<times> bound_expr"

fun plan_columns :: "logical_plan \<Rightarrow> column list" where
  "plan_columns (LScan t) = table_columns t"
| "plan_columns (LFilter p _) = plan_columns p"
| "plan_columns (LJoin l r _) = plan_columns l @ plan_columns r"
| "plan_columns (LAggregate p _ _) = plan_columns p"
| "plan_columns (LSort p _) = plan_columns p"
| "plan_columns (LLimit p _) = plan_columns p"
| "plan_columns (LProject p _) = plan_columns p"

text \<open>An output or sort expression: itself if it has no aggregate, and the arguments of its aggregates.\<close>

definition output_sites :: "column list \<Rightarrow> bound_expr \<Rightarrow> site list" where
  "output_sites cols e =
     (if exec_contains_aggregate e then [] else [(cols, None, e)])
     @ map (\<lambda>a. (cols, None, a)) (aggregate_arguments e)"

fun plan_sites :: "logical_plan \<Rightarrow> site list" where
  "plan_sites (LScan t) = []"
| "plan_sites (LFilter p e) = plan_sites p @ [(plan_columns p, Some DBool, e)]"
| "plan_sites (LJoin l r on) = plan_sites l @ plan_sites r @ [(plan_columns l @ plan_columns r, Some DBool, on)]"
| "plan_sites (LAggregate p group_by aggregates) =
     plan_sites p @ map (\<lambda>e. (plan_columns p, None, e)) group_by
     @ concat (map (output_sites (plan_columns p)) aggregates)"
| "plan_sites (LSort p orders) = plan_sites p @ concat (map (\<lambda>order. output_sites (plan_columns p) (bo_expr order)) orders)"
| "plan_sites (LLimit p e) = plan_sites p @ [([], Some DInt64, e)]"
| "plan_sites (LProject p output) =
     plan_sites p @ concat (map (\<lambda>named. output_sites (plan_columns p) (ne_expr named)) output)"

definition selection_sites :: "column list \<Rightarrow> bound_expr option \<Rightarrow> site list" where
  "selection_sites cols selection = (case selection of None \<Rightarrow> [] | Some e \<Rightarrow> [(cols, Some DBool, e)])"

fun sites :: "bound_statement \<Rightarrow> site list" where
  "sites (BsInsert table values) =
     map (\<lambda>(column, e). ([], Some (col_data_type column), e)) (zip (columns (td_schema table)) values)"
| "sites (BsUpdate table assignments selection) =
     (let cols = columns (td_schema table) in
      map (\<lambda>(c, e). (cols, Some (col_data_type (cols ! c)), e)) assignments @ selection_sites cols selection)"
| "sites (BsDelete table selection) = selection_sites (columns (td_schema table)) selection"
| "sites (BsQuery plan _) = plan_sites plan"
| "sites (BsExplain statement) = sites statement"
| "sites _ = []"

definition selection_parameters :: "sql_expr option \<Rightarrow> nat list" where
  "selection_parameters selection = (case selection of None \<Rightarrow> [] | Some e \<Rightarrow> expr_parameters e)"

fun item_parameters :: "select_item \<Rightarrow> nat list" where
  "item_parameters (SelWildcard _) = []"
| "item_parameters (SelExpr e _) = expr_parameters e"

fun statement_parameters :: "statement \<Rightarrow> nat list" where
  "statement_parameters (StInsert ins) = concat (map expr_parameters (ins_values ins))"
| "statement_parameters (StUpdate upd) =
     concat (map (\<lambda>a. expr_parameters (asg_value a)) (upd_assignments upd)) @ selection_parameters (upd_selection upd)"
| "statement_parameters (StDelete del) = selection_parameters (del_selection del)"
| "statement_parameters (StSelect sel) =
     concat (map (\<lambda>j. expr_parameters (jn_on j)) (sel_joins sel))
     @ selection_parameters (sel_selection sel)
     @ concat (map expr_parameters (sel_group_by sel))
     @ concat (map item_parameters (sel_projection sel))
     @ concat (map (\<lambda>o'. expr_parameters (oi_expr o')) (sel_order_by sel))
     @ selection_parameters (sel_limit sel)"
| "statement_parameters (StExplain statement _) = statement_parameters statement"
| "statement_parameters _ = []"

section \<open>Well-typed sites\<close>

definition site_ok :: "parameter_spec list \<Rightarrow> site \<Rightarrow> bool" where
  "site_ok ps = (\<lambda>(cols, t, e). typed ps cols e \<and> (\<forall>d. t = Some d \<longrightarrow> operand d e))"

definition sites_ok :: "parameter_spec list \<Rightarrow> site list \<Rightarrow> bool" where
  "sites_ok ps ss \<longleftrightarrow> (\<forall>s \<in> set ss. site_ok ps s)"

lemma sites_ok_simps [simp]:
  "sites_ok ps []"
  "sites_ok ps (s # ss) \<longleftrightarrow> site_ok ps s \<and> sites_ok ps ss"
  "sites_ok ps (ss @ ts) \<longleftrightarrow> sites_ok ps ss \<and> sites_ok ps ts"
  by (auto simp: sites_ok_def)

lemma sites_ok_mono: "refines ps qs \<Longrightarrow> sites_ok ps ss \<Longrightarrow> sites_ok qs ss"
  unfolding sites_ok_def site_ok_def by (auto intro: typed_mono)

lemma sites_ok_grows: "sites_ok ps ss \<Longrightarrow> grows ps xs qs \<Longrightarrow> sites_ok qs ss"
  by (rule sites_ok_mono[OF grows_refines])

lemma sites_ok_concat: "sites_ok ps (concat sss) \<longleftrightarrow> (\<forall>ss \<in> set sss. sites_ok ps ss)"
  by (auto simp: sites_ok_def)

lemma sites_ok_map: "sites_ok ps (map f xs) \<longleftrightarrow> (\<forall>x \<in> set xs. site_ok ps (f x))"
  by (auto simp: sites_ok_def)

lemma bind_forbidden_site:
  assumes "bind_expr e tables expected Forbidden ps = Inr (b, ps')" "fresh ps (expr_parameters e)"
    "slots_from 0 tables"
  shows "site_ok ps' (scope_columns tables, expected, b)" "grows ps (expr_parameters e) ps'"
  using bind_expr_typed[OF assms forbidden_no_aggregate[OF assms(1)]] bind_expr_grows[OF assms(1,2)]
  by (simp_all add: site_ok_def)

lemma bind_allowed_sites:
  assumes "bind_expr e tables None policy ps = Inr (b, ps')" "fresh ps (expr_parameters e)"
    "slots_from 0 tables"
  shows "sites_ok ps' (output_sites (scope_columns tables) b)" "grows ps (expr_parameters e) ps'"
  using bind_expr_typed[OF assms] bind_expr_arguments_typed[OF assms] bind_expr_grows[OF assms(1,2)]
    bind_expr_contains_aggregate[OF assms(1)]
  by (auto simp: output_sites_def site_ok_def sites_ok_map)

lemma bind_predicate_site:
  assumes "bind_predicate e tables ps = Inr (b, ps')" "fresh ps (expr_parameters e)" "slots_from 0 tables"
  shows "site_ok ps' (scope_columns tables, Some DBool, b)" "grows ps (expr_parameters e) ps'"
  using assms bind_forbidden_site[of e tables "Some DBool" ps b ps']
  by (auto simp: bind_predicate_def rbind_eq_Inr split: if_splits)

lemma bind_selection_sites:
  assumes "bind_selection sel tables ps = Inr (b, ps')" "fresh ps (selection_parameters sel)" "slots_from 0 tables"
  shows "sites_ok ps' (selection_sites (scope_columns tables) b)" "grows ps (selection_parameters sel) ps'"
  using assms bind_predicate_site[of _ tables ps _ ps']
  by (auto simp: bind_selection_def selection_parameters_def selection_sites_def rbind_eq_Inr split: option.splits)

lemma scope_single_slots [simp]:
  "slots_from 0 (scope_single table alias 0)"
  "scope_columns (scope_single table alias 0) = columns (td_schema table)"
  by (simp_all add: scope_single_def scope_columns_def table_columns_def)

lemma require_direct_grows:
  assumes "grows ps xs qs" "\<And>i d s. b = BParameter i d s \<Longrightarrow> i \<in> set xs \<and> i \<notin> ps_index ` set ps"
  shows "grows ps xs (require_direct_parameter_value b qs)"
  using assms by (cases b) (auto simp: require_direct_parameter_value_def intro!: grows_update)

lemma require_direct_refines: "refines qs (require_direct_parameter_value b qs)"
  by (cases b) (auto simp: require_direct_parameter_value_def intro!: refines_update_first)

lemma bind_column_value_site:
  assumes "bind_column_value e tables c ps = Inr (b, ps')" "fresh ps (expr_parameters e)" "slots_from 0 tables"
  shows "site_ok ps' (scope_columns tables, Some (col_data_type c), b)" "grows ps (expr_parameters e) ps'"
proof -
  from assms(1) obtain qs where
    bind: "bind_expr e tables (Some (col_data_type c)) Forbidden ps = Inr (b, qs)"
    and ps': "ps' = qs \<or> ps' = require_direct_parameter_value b qs"
    by (auto simp: bind_column_value_def rbind_eq_Inr split: if_splits)
  note site = bind_forbidden_site[OF bind assms(2,3)]
  have "refines qs ps'" using ps' require_direct_refines by auto
  with site(1) show "site_ok ps' (scope_columns tables, Some (col_data_type c), b)"
    using sites_ok_mono[of qs ps' "[(scope_columns tables, Some (col_data_type c), b)]"] by simp
  have "i \<in> set (expr_parameters e) \<and> i \<notin> ps_index ` set ps" if b: "b = BParameter i d s" for i d s
  proof -
    from bind_parameter_source[OF bind[unfolded b]] have "e = ExParameter i s" .
    with assms(2) show ?thesis by (auto simp: fresh_def)
  qed
  with ps' site(2) require_direct_grows show "grows ps (expr_parameters e) ps'" by blast
qed

section \<open>INSERT, UPDATE and DELETE\<close>

lemma position_less: "position P xs = Some i \<Longrightarrow> i < length xs"
  by (induction xs arbitrary: i) (auto split: if_splits)

lemma bind_assignments_sites:
  assumes "bind_assignments table tables as acc ps = Inr (out, ps')"
    and "fresh ps (concat (map (\<lambda>a. expr_parameters (asg_value a)) as))" and "slots_from 0 tables"
    and "scope_columns tables = cols" "cols = columns (td_schema table)"
    and "sites_ok ps (map (\<lambda>(c, e). (cols, Some (col_data_type (cols ! c)), e)) acc)"
  shows "sites_ok ps' (map (\<lambda>(c, e). (cols, Some (col_data_type (cols ! c)), e)) out)
    \<and> grows ps (concat (map (\<lambda>a. expr_parameters (asg_value a)) as)) ps'"
  using assms(1,2,6)
proof (induction as arbitrary: acc ps)
  case (Cons a as)
  from Cons.prems(1) obtain c v qs where
    v: "bind_column_value (asg_value a) tables (columns (td_schema table) ! c) ps = Inr (v, qs)"
    and rest: "bind_assignments table tables as (acc @ [(c, v)]) qs = Inr (out, ps')"
    by (auto simp: rbind_eq_Inr split: if_splits)
  have fresh: "fresh ps (expr_parameters (asg_value a))" using Cons.prems(2) by (auto intro: fresh_left)
  note site = bind_column_value_site[OF v fresh assms(3)]
  have "fresh qs (concat (map (\<lambda>a. expr_parameters (asg_value a)) as))"
    using Cons.prems(2) site(2) by (auto intro: fresh_right)
  from Cons.IH[OF rest this] site sites_ok_grows[OF Cons.prems(3) site(2)] assms(4,5) grows_trans[OF site(2)]
  show ?case by auto
qed simp

lemma bind_insert_values_sites:
  assumes "bind_insert_values table tvs norm ps = Inr (out, ps')"
    and "fresh ps (concat (map (\<lambda>(_, v). expr_parameters v) tvs))"
    and "\<forall>(t, _) \<in> set tvs. t < length norm"
    and "\<forall>i < length norm. \<forall>b. norm ! i = Some b \<longrightarrow> site_ok ps ([], Some (col_data_type (columns (td_schema table) ! i)), b)"
  shows "length out = length norm
    \<and> (\<forall>i < length norm. \<forall>b. out ! i = Some b \<longrightarrow> site_ok ps' ([], Some (col_data_type (columns (td_schema table) ! i)), b))
    \<and> grows ps (concat (map (\<lambda>(_, v). expr_parameters v) tvs)) ps'"
  using assms
proof (induction tvs arbitrary: norm ps)
  case (Cons tv tvs)
  obtain t v where tv: "tv = (t, v)" by (cases tv)
  from Cons.prems(1) obtain b qs where
    b: "bind_column_value v [] (columns (td_schema table) ! t) ps = Inr (b, qs)"
    and rest: "bind_insert_values table tvs (norm[t := Some b]) qs = Inr (out, ps')"
    by (auto simp: tv rbind_eq_Inr)
  have fresh: "fresh ps (expr_parameters v)" using Cons.prems(2) by (auto simp: tv intro: fresh_left)
  note site = bind_column_value_site[OF b fresh, simplified]
  have fresh2: "fresh qs (concat (map (\<lambda>(_, v). expr_parameters v) tvs))"
    using Cons.prems(2) site(2) by (auto simp: tv intro: fresh_right)
  have old: "site_ok qs ([], Some (col_data_type (columns (td_schema table) ! i)), b')"
    if "i < length norm" "norm ! i = Some b'" for i b'
    using that Cons.prems(4) sites_ok_grows[OF _ site(2), of "[([], Some (col_data_type (columns (td_schema table) ! i)), b')]"]
    by simp
  have "\<forall>i < length (norm[t := Some b]). \<forall>b'. norm[t := Some b] ! i = Some b' \<longrightarrow>
      site_ok qs ([], Some (col_data_type (columns (td_schema table) ! i)), b')"
  proof (intro allI impI)
    fix i b' assume "i < length (norm[t := Some b])" "norm[t := Some b] ! i = Some b'"
    then show "site_ok qs ([], Some (col_data_type (columns (td_schema table) ! i)), b')"
      using site(1) old by (cases "i = t") (auto simp: scope_columns_def)
  qed
  from Cons.IH[OF rest fresh2 _ this] Cons.prems(3) grows_trans[OF site(2)] show ?case
    by (auto simp: tv)
qed simp

lemma insert_targets_range:
  "insert_targets table acc cs = Inr out \<Longrightarrow> set acc \<subseteq> {..<length (columns (td_schema table))} \<Longrightarrow>
     set out \<subseteq> {..<length (columns (td_schema table))}"
  by (induction table acc cs rule: insert_targets.induct)
    (fastforce simp: rbind_eq_Inr ok_or_eq_Inr find_column_def split: if_splits dest: position_less)+

lemma map_snd_zip_parameters:
  "length ts = length vs \<Longrightarrow> map (\<lambda>(_, v). expr_parameters v) (zip ts vs) = map expr_parameters vs"
  by (induction ts vs rule: list_induct2) auto

lemma bind_insert_sites:
  assumes "bind_insert cat ins ps = Inr (b, ps')" "fresh ps (concat (map expr_parameters (ins_values ins)))"
  shows "sites_ok ps' (sites b)"
proof -
  from assms(1) obtain table where
    table: "require_table cat (ins_table ins) = Inr table" by (auto simp: bind_insert_def rbind_eq_Inr)
  let ?cols = "columns (td_schema table)"
  from assms(1) table obtain targets norm vs where
    targets: "(case ins_columns ins of Some cols \<Rightarrow> insert_targets table [] cols | None \<Rightarrow> Inr [0..<length ?cols]) = Inr targets"
    and len: "length targets = length (ins_values ins)"
    and bound: "bind_insert_values table (zip targets (ins_values ins)) (replicate (length ?cols) None) ps = Inr (norm, ps')"
    and vs: "try_map (complete_insert table (id_span (ins_table ins))) (enumerate 0 norm) = Inr vs"
    and b: "b = BsInsert table vs"
    by (auto simp: bind_insert_def rbind_eq_Inr Let_def split: if_splits)
  have range: "set targets \<subseteq> {..<length ?cols}"
    using targets insert_targets_range[of table "[]"] by (auto split: option.splits)
  have norm: "length norm = length ?cols"
    "\<And>i e. i < length ?cols \<Longrightarrow> norm ! i = Some e \<Longrightarrow> site_ok ps' ([], Some (col_data_type (?cols ! i)), e)"
    using bind_insert_values_sites[OF bound] range assms(2)
    by (auto simp: map_snd_zip_parameters[OF len] dest!: set_zip_leftD)
  from vs have vals: "length vs = length norm"
    "\<And>i. i < length norm \<Longrightarrow> complete_insert table (id_span (ins_table ins)) (i, norm ! i) = Inr (vs ! i)"
    by (auto simp: try_map_eq_Inr list_all2_conv_all_nth nth_enumerate_eq)
  have "site_ok ps' ([], Some (col_data_type (?cols ! i)), vs ! i)" if "i < length ?cols" for i
  proof (cases "norm ! i")
    case None
    with vals(2)[of i] norm(1) that have "vs ! i = BLiteral Null (id_span (ins_table ins))"
      by (auto simp: complete_insert_def split: if_splits)
    then show ?thesis by (simp add: site_ok_def operand_def)
  next
    case (Some e)
    with vals(2)[of i] norm that show ?thesis by (simp add: complete_insert_def)
  qed
  then show ?thesis
    using vals(1) norm(1) by (auto simp: b sites_ok_map in_set_zip)
qed

section \<open>SELECT\<close>

lemma bind_joins_sites:
  assumes "bind_joins cat js tables plan ps = Inr ((tables', plan'), ps')"
    and "fresh ps (concat (map (\<lambda>j. expr_parameters (jn_on j)) js))"
    and "slots_from 0 tables" "plan_columns plan = scope_columns tables" "sites_ok ps (plan_sites plan)"
  shows "slots_from 0 tables' \<and> plan_columns plan' = scope_columns tables' \<and> sites_ok ps' (plan_sites plan')
    \<and> grows ps (concat (map (\<lambda>j. expr_parameters (jn_on j)) js)) ps'"
  using assms
proof (induction js arbitrary: tables plan ps)
  case (Cons j js)
  from Cons.prems(1) obtain right on qs where
    right: "bind_table_source cat (jn_right j) (total_columns tables) = Inr right"
    and on: "bind_predicate (jn_on j) (tables @ [right]) ps = Inr (on, qs)"
    and rest: "bind_joins cat js (tables @ [right]) (LJoin plan (LScan right) on) qs = Inr ((tables', plan'), ps')"
    by (auto simp: rbind_eq_Inr scope_push_def split: if_splits)
  have offset: "bd_slot_offset right = length (scope_columns tables)"
    using right total_columns_slots[OF Cons.prems(3)] by (auto simp: bind_table_source_def rbind_eq_Inr)
  then have slots: "slots_from 0 (tables @ [right])" using Cons.prems(3) by (simp add: slots_from_append)
  have cols: "scope_columns (tables @ [right]) = plan_columns plan @ table_columns right"
    using Cons.prems(4) by (simp add: scope_columns_def)
  have fresh: "fresh ps (expr_parameters (jn_on j))" using Cons.prems(2) by (auto intro: fresh_left)
  note site = bind_predicate_site[OF on fresh slots]
  have fresh2: "fresh qs (concat (map (\<lambda>j. expr_parameters (jn_on j)) js))"
    using Cons.prems(2) site(2) by (auto intro: fresh_right)
  have "sites_ok qs (plan_sites (LJoin plan (LScan right) on))"
    using site(1) cols sites_ok_grows[OF Cons.prems(5) site(2)] by simp
  from Cons.IH[OF rest fresh2 slots _ this] cols grows_trans[OF site(2)] show ?case by auto
qed simp

lemma bind_expressions_sites:
  assumes "bind_expressions es tables acc ps = Inr (out, ps')" "fresh ps (concat (map expr_parameters es))"
    and "slots_from 0 tables" "sites_ok ps (map (\<lambda>e. (scope_columns tables, None, e)) acc)"
  shows "sites_ok ps' (map (\<lambda>e. (scope_columns tables, None, e)) out) \<and> grows ps (concat (map expr_parameters es)) ps'"
  using assms
proof (induction es arbitrary: acc ps)
  case (Cons e es)
  from Cons.prems(1) obtain b qs where
    b: "bind_expr e tables None Forbidden ps = Inr (b, qs)"
    and rest: "bind_expressions es tables (acc @ [b]) qs = Inr (out, ps')"
    by (auto simp: rbind_eq_Inr)
  have fresh: "fresh ps (expr_parameters e)" using Cons.prems(2) by (auto intro: fresh_left)
  note site = bind_forbidden_site[OF b fresh Cons.prems(3)]
  have "fresh qs (concat (map expr_parameters es))" using Cons.prems(2) site(2) by (auto intro: fresh_right)
  from Cons.IH[OF rest this Cons.prems(3)] site sites_ok_grows[OF Cons.prems(4) site(2)] grows_trans[OF site(2)]
  show ?case by auto
qed simp

abbreviation output_ok :: "parameter_spec list \<Rightarrow> column list \<Rightarrow> bound_expr list \<Rightarrow> bool" where
  "output_ok ps cols es \<equiv> sites_ok ps (concat (map (output_sites cols) es))"

lemma wildcard_sites:
  assumes "slots_from 0 tables"
  shows "output_ok ps (scope_columns tables) (map ne_expr (wildcard_columns tables s))"
proof -
  have "sites_ok ps (output_sites (scope_columns tables) e)"
    if "e \<in> ne_expr ` set (wildcard_columns tables s)" for e
  proof -
    from that obtain t i where t: "t \<in> set tables" "i < length (table_columns t)"
      and e: "e = BColumn (bound_column_of t i (table_columns t ! i)) s"
      by (auto simp: wildcard_columns_def in_set_enumerate_eq table_columns_def)
    from slots_from_lookup[OF assms t] show ?thesis
      by (simp add: e output_sites_def site_ok_def bound_column_of_def)
  qed
  then show ?thesis by (auto simp: sites_ok_concat)
qed

lemma bind_projection_sites:
  assumes "bind_projection items tables acc ps = Inr (out, ps')"
    and "fresh ps (concat (map (\<lambda>(_, i). item_parameters i) items))" and "slots_from 0 tables"
    and "output_ok ps (scope_columns tables) (map ne_expr acc)"
  shows "output_ok ps' (scope_columns tables) (map ne_expr out)
    \<and> grows ps (concat (map (\<lambda>(_, i). item_parameters i) items)) ps'"
  using assms
proof (induction items arbitrary: acc ps)
  case (Cons pi items)
  obtain pos item where pi: "pi = (pos, item)" by (cases pi)
  show ?case
  proof (cases item)
    case (SelWildcard s)
    with Cons.prems(1) have rest: "bind_projection items tables (acc @ wildcard_columns tables s) ps = Inr (out, ps')"
      by (simp add: pi)
    from Cons.IH[OF rest _ Cons.prems(3)] Cons.prems(2,4) wildcard_sites[OF Cons.prems(3)] show ?thesis
      by (simp add: pi SelWildcard)
  next
    case (SelExpr e name)
    with Cons.prems(1) obtain b qs where
      b: "bind_expr e tables None Allowed ps = Inr (b, qs)"
      and rest: "bind_projection items tables (acc @ [\<lparr>ne_expr = b,
         ne_name = (case name of None \<Rightarrow> expression_name b pos | Some a \<Rightarrow> id_value a)\<rparr>]) qs = Inr (out, ps')"
      by (auto simp: pi rbind_eq_Inr)
    have fresh: "fresh ps (expr_parameters e)" using Cons.prems(2) by (auto simp: pi SelExpr intro: fresh_left)
    note site = bind_allowed_sites[OF b fresh Cons.prems(3)]
    have "fresh qs (concat (map (\<lambda>(_, i). item_parameters i) items))"
      using Cons.prems(2) site(2) by (auto simp: pi SelExpr intro: fresh_right)
    from Cons.IH[OF rest this Cons.prems(3)] site sites_ok_grows[OF Cons.prems(4) site(2)]
      grows_trans[OF site(2)] show ?thesis by (auto simp: pi SelExpr)
  qed
qed simp

lemma output_sites_with_span:
  "sites_ok ps (output_sites cols (bound_with_span s e)) \<longleftrightarrow> sites_ok ps (output_sites cols e)"
proof -
  have "typed ps cols (bound_with_span s e) = typed ps cols e"
  proof (cases e)
    case (BUnary op x t)
    then show ?thesis by (cases op) auto
  qed auto
  moreover have "exec_contains_aggregate (bound_with_span s e) = exec_contains_aggregate e"
    "aggregate_arguments (bound_with_span s e) = aggregate_arguments e"
    by (cases e; simp)+
  ultimately show ?thesis by (auto simp: output_sites_def site_ok_def)
qed

lemma bind_order_sites:
  assumes "bind_order_expression e tables output ps = Inr (b, ps')" "fresh ps (expr_parameters e)"
    and "slots_from 0 tables" "output_ok ps (scope_columns tables) (map ne_expr output)"
  shows "sites_ok ps' (output_sites (scope_columns tables) b)" "grows ps (expr_parameters e) ps'"
proof -
  have unique: "named \<in> set output" if "filter P output = [named]" for P named
  proof -
    from that have "set (filter P output) = {named}" by simp
    then show ?thesis by auto
  qed
  have "bind_expr e tables None Allowed ps = Inr (b, ps') \<or>
      (\<exists>named s. named \<in> set output \<and> b = bound_with_span s (ne_expr named) \<and> ps' = ps \<and> expr_parameters e = [])"
    using assms(1)
    by (auto simp: bind_order_expression_def Let_def dest!: unique split: sql_expr.splits option.splits list.splits)
  then consider (bind) "bind_expr e tables None Allowed ps = Inr (b, ps')"
    | (aliased) named s where "named \<in> set output" "b = bound_with_span s (ne_expr named)" "ps' = ps"
        "expr_parameters e = []" by blast
  then have "sites_ok ps' (output_sites (scope_columns tables) b) \<and> grows ps (expr_parameters e) ps'"
  proof cases
    case bind
    from bind_allowed_sites[OF bind assms(2,3)] show ?thesis by simp
  next
    case aliased
    with assms(4) show ?thesis by (auto simp: output_sites_with_span sites_ok_concat)
  qed
  then show "sites_ok ps' (output_sites (scope_columns tables) b)" "grows ps (expr_parameters e) ps'" by auto
qed

lemma bind_orders_sites:
  assumes "bind_orders os tables output acc ps = Inr (out, ps')"
    and "fresh ps (concat (map (\<lambda>order. expr_parameters (oi_expr order)) os))" and "slots_from 0 tables"
    and "output_ok ps (scope_columns tables) (map ne_expr output)"
    and "output_ok ps (scope_columns tables) (map bo_expr acc)"
  shows "output_ok ps' (scope_columns tables) (map bo_expr out)
    \<and> grows ps (concat (map (\<lambda>order. expr_parameters (oi_expr order)) os)) ps'"
  using assms
proof (induction os arbitrary: acc ps)
  case (Cons order os)
  from Cons.prems(1) obtain b qs where
    b: "bind_order_expression (oi_expr order) tables output ps = Inr (b, qs)"
    and rest: "bind_orders os tables output (acc @ [\<lparr>bo_expr = b, bo_direction = oi_direction order\<rparr>]) qs = Inr (out, ps')"
    by (auto simp: rbind_eq_Inr)
  have fresh: "fresh ps (expr_parameters (oi_expr order))" using Cons.prems(2) by (auto intro: fresh_left)
  note site = bind_order_sites[OF b fresh Cons.prems(3,4)]
  have "fresh qs (concat (map (\<lambda>order. expr_parameters (oi_expr order)) os))"
    using Cons.prems(2) site(2) by (auto intro: fresh_right)
  from Cons.IH[OF rest this Cons.prems(3)] site sites_ok_grows[OF Cons.prems(4) site(2)]
    sites_ok_grows[OF Cons.prems(5) site(2)] grows_trans[OF site(2)] show ?case by auto
qed simp

lemma set_deduplicate: "set (deduplicate_loop unique es) \<subseteq> set unique \<union> set es"
proof (induction unique es rule: deduplicate_loop.induct)
  case (2 unique e rest)
  then show ?case by (auto split: if_splits)
qed simp

lemma fold_collect:
  "fold (\<lambda>x. collect_aggregates (f x)) xs acc = acc @ concat (map (\<lambda>x. collect_aggregates (f x) []) xs)"
proof (induction xs arbitrary: acc)
  case (Cons x xs)
  with collect_aggregates_append[of "f x" acc] show ?case by simp
qed simp

lemma collected_sites:
  assumes "sites_ok ps (output_sites cols e)" "a \<in> set (collect_aggregates e [])"
  shows "sites_ok ps (output_sites cols a)"
proof -
  have "set (aggregate_arguments a) \<subseteq> set (aggregate_arguments e)"
    using assms(2) unfolding collected_arguments[of e, symmetric] by auto
  moreover have "exec_contains_aggregate a" using assms(2)
  proof (induction e)
    case (BBinary l op r s)
    then show ?case by (auto simp: collect_aggregates_append[of r "collect_aggregates l []"])
  qed auto
  ultimately show ?thesis using assms(1) by (auto simp: output_sites_def sites_ok_def)
qed

lemma plan_grouping_sites:
  assumes "plan_grouping plan group_by output order_by = Inr plan'"
    and "sites_ok ps (plan_sites plan)" "sites_ok ps (map (\<lambda>e. (plan_columns plan, None, e)) group_by)"
    and "output_ok ps (plan_columns plan) (map ne_expr output)" "output_ok ps (plan_columns plan) (map bo_expr order_by)"
  shows "sites_ok ps (plan_sites plan') \<and> plan_columns plan' = plan_columns plan"
proof -
  have "set (plan_aggregates output order_by) \<subseteq>
      (\<Union>e \<in> ne_expr ` set output \<union> bo_expr ` set order_by. set (collect_aggregates e []))"
    unfolding plan_aggregates_def deduplicate_expressions_def
    by (rule subset_trans[OF set_deduplicate]) (auto simp: fold_collect)
  then have "output_ok ps (plan_columns plan) (plan_aggregates output order_by)"
    using assms(4,5) collected_sites by (fastforce simp: sites_ok_concat)
  then show ?thesis
    using assms(1-3) by (auto simp: plan_grouping_def Let_def rbind_eq_Inr split: if_splits)
qed

lemma bind_limit_sites:
  assumes "bind_limit limit plan ps = Inr (plan', ps')" "fresh ps (selection_parameters limit)"
    and "sites_ok ps (plan_sites plan)"
  shows "sites_ok ps' (plan_sites plan') \<and> plan_columns plan' = plan_columns plan \<and> refines ps ps'"
proof (cases limit)
  case None
  with assms show ?thesis by (simp add: bind_limit_def)
next
  case (Some e)
  with assms(1) obtain b qs where b: "bind_expr e [] (Some DInt64) Forbidden ps = Inr (b, qs)"
    and plan': "plan' = LLimit plan b" "ps' = require_direct_parameter_value b qs"
    by (auto simp: bind_limit_def rbind_eq_Inr)
  have fresh: "fresh ps (expr_parameters e)" using assms(2) Some by (simp add: selection_parameters_def)
  note site = bind_forbidden_site[OF b fresh, simplified]
  have ref: "refines qs ps'" unfolding plan' by (rule require_direct_refines)
  have "sites_ok qs (plan_sites plan')"
    using site sites_ok_grows[OF assms(3) site(2)] by (simp add: plan' scope_columns_def)
  then have "sites_ok ps' (plan_sites plan')" by (rule sites_ok_mono[OF ref])
  with refines_trans[OF grows_refines[OF site(2)] ref] show ?thesis by (simp add: plan'(1))
qed

lemma enumerate_parameters:
  "map (\<lambda>(_, i). item_parameters i) (enumerate n items) = map item_parameters items"
  by (induction items arbitrary: n) auto

lemma bind_select_sites:
  assumes "bind_select cat sel ps = Inr (b, ps')" "fresh ps (statement_parameters (StSelect sel))"
  shows "sites_ok ps' (sites b)"
proof -
  from assms(1) obtain first tables plan ps1 selection ps2 group_by ps3 outs ps4 order_by ps5 plan2 plan3 where
    first: "bind_table_source cat (sel_from sel) 0 = Inr first"
    and joins: "bind_joins cat (sel_joins sel) [first] (LScan first) ps = Inr ((tables, plan), ps1)"
    and selection: "bind_selection (sel_selection sel) tables ps1 = Inr (selection, ps2)"
    and group: "bind_expressions (sel_group_by sel) tables [] ps2 = Inr (group_by, ps3)"
    and outp: "bind_projection (enumerate 0 (sel_projection sel)) tables [] ps3 = Inr (outs, ps4)"
    and orders: "bind_orders (sel_order_by sel) tables outs [] ps4 = Inr (order_by, ps5)"
    and grouping: "plan_grouping (case selection of None \<Rightarrow> plan | Some predicate \<Rightarrow> LFilter plan predicate)
      group_by outs order_by = Inr plan2"
    and limit: "bind_limit (sel_limit sel) (if order_by = [] then plan2 else LSort plan2 order_by) ps5 = Inr (plan3, ps')"
    and b: "b = BsQuery (LProject plan3 outs) outs"
    by (auto simp: bind_select_def rbind_eq_Inr Let_def scope_push_def)
  have slots1: "slots_from 0 [first]" "plan_columns (LScan first) = scope_columns [first]"
    using first by (auto simp: bind_table_source_def rbind_eq_Inr scope_columns_def)
  note fresh = assms(2)[unfolded statement_parameters.simps]
  from bind_joins_sites[OF joins fresh_left[OF fresh] slots1]
  have slots: "slots_from 0 tables" and cols: "plan_columns plan = scope_columns tables"
    and s1: "sites_ok ps1 (plan_sites plan)" and g1: "grows ps (concat (map (\<lambda>j. expr_parameters (jn_on j)) (sel_joins sel))) ps1"
    by auto
  note fresh1 = fresh_right[OF fresh g1]
  note s2 = bind_selection_sites[OF selection fresh_left[OF fresh1] slots]
  note fresh2 = fresh_right[OF fresh1 s2(2)]
  from bind_expressions_sites[OF group fresh_left[OF fresh2] slots]
  have s3: "sites_ok ps3 (map (\<lambda>e. (scope_columns tables, None, e)) group_by)"
    and g3: "grows ps2 (concat (map expr_parameters (sel_group_by sel))) ps3" by auto
  note fresh3 = fresh_right[OF fresh2 g3]
  from bind_projection_sites[OF outp _ slots] fresh_left[OF fresh3]
  have s4: "output_ok ps4 (scope_columns tables) (map ne_expr outs)"
    and g4: "grows ps3 (concat (map item_parameters (sel_projection sel))) ps4"
    by (auto simp: enumerate_parameters)
  note fresh4 = fresh_right[OF fresh3 g4]
  from bind_orders_sites[OF orders fresh_left[OF fresh4] slots s4]
  have s5: "output_ok ps5 (scope_columns tables) (map bo_expr order_by)"
    and g5: "grows ps4 (concat (map (\<lambda>order. expr_parameters (oi_expr order)) (sel_order_by sel))) ps5" by auto
  note fresh5 = fresh_right[OF fresh4 g5]
  let ?plan1 = "case selection of None \<Rightarrow> plan | Some predicate \<Rightarrow> LFilter plan predicate"
  have cols1: "plan_columns ?plan1 = scope_columns tables" using cols by (simp split: option.split)
  have p2: "sites_ok ps2 (plan_sites ?plan1)"
    using s2(1) sites_ok_grows[OF s1 s2(2)] cols by (simp add: selection_sites_def split: option.splits)
  have p5: "sites_ok ps5 (plan_sites ?plan1)"
    using p2 by (blast intro: sites_ok_grows g3 g4 g5)
  have g: "sites_ok ps5 (map (\<lambda>e. (scope_columns tables, None, e)) group_by)"
    using s3 by (blast intro: sites_ok_grows g4 g5)
  have o5: "output_ok ps5 (scope_columns tables) (map ne_expr outs)" using s4 by (blast intro: sites_ok_grows g5)
  from plan_grouping_sites[OF grouping p5] g o5 s5 cols1
  have p6: "sites_ok ps5 (plan_sites plan2)" "plan_columns plan2 = scope_columns tables" by auto
  then have "sites_ok ps5 (plan_sites (if order_by = [] then plan2 else LSort plan2 order_by))"
    using s5 by (auto simp: sites_ok_concat)
  from bind_limit_sites[OF limit fresh5 this] p6(2)
  have p7: "sites_ok ps' (plan_sites plan3)" "plan_columns plan3 = scope_columns tables" "refines ps5 ps'"
    by (auto split: if_splits)
  with sites_ok_mono[OF p7(3) o5] show ?thesis by (simp add: b comp_def)
qed

section \<open>Soundness\<close>

lemma bind_statement_sites:
  assumes "bind_statement cat st s ps = Inr (b, ps')" "fresh ps (statement_parameters st)"
  shows "sites_ok ps' (sites b)"
  using assms
proof (induction st arbitrary: s b)
  case (StInsert ins)
  then show ?case by (auto intro: bind_insert_sites)
next
  case (StUpdate upd)
  then obtain table assignments qs selection where
    assignments: "bind_assignments table (scope_single table (td_name table) 0) (upd_assignments upd) [] ps = Inr (assignments, qs)"
    and selection: "bind_selection (upd_selection upd) (scope_single table (td_name table) 0) qs = Inr (selection, ps')"
    and b: "b = BsUpdate table assignments selection"
    by (auto simp: bind_update_def rbind_eq_Inr Let_def)
  note fresh = StUpdate.prems(2)[unfolded statement_parameters.simps]
  from bind_assignments_sites[OF assignments fresh_left[OF fresh]]
  have a: "sites_ok qs (map (\<lambda>(c, e). (columns (td_schema table), Some (col_data_type (columns (td_schema table) ! c)), e)) assignments)"
    and g: "grows ps (concat (map (\<lambda>a. expr_parameters (asg_value a)) (upd_assignments upd))) qs" by auto
  from bind_selection_sites[OF selection fresh_right[OF fresh g]] sites_ok_grows[OF a] show ?case
    by (auto simp: b Let_def)
next
  case (StDelete del)
  then obtain table selection where
    selection: "bind_selection (del_selection del) (scope_single table (td_name table) 0) ps = Inr (selection, ps')"
    and b: "b = BsDelete table selection"
    by (auto simp: bind_delete_def rbind_eq_Inr)
  from bind_selection_sites[OF selection] StDelete.prems(2) show ?case by (simp add: b)
next
  case (StSelect sel)
  then show ?case by (auto intro: bind_select_sites simp del: statement_parameters.simps)
next
  case (StExplain st t)
  have "b = BsExplain b1 \<and> qs = ps'" if "(case b1 of BsTransaction _ \<Rightarrow> Inl x | _ \<Rightarrow> Inr (BsExplain b1, qs)) = Inr (b, ps')"
    for b1 qs and x :: sql_error
    using that by (cases b1) auto
  with StExplain.prems(1) obtain b1 where b1: "bind_statement cat st t ps = Inr (b1, ps')" and b: "b = BsExplain b1"
    by (fastforce simp: rbind_eq_Inr)
  from StExplain.IH[OF b1] StExplain.prems(2) show ?case by (simp add: b)
qed (auto simp: rbind_eq_Inr bind_create_table_def bind_create_index_def Let_def split: if_splits)

lemma bind_sites:
  assumes "bind st cat = Inr out" "distinct (statement_parameters (fst st))"
  shows "sites_ok (bout_parameters out) (sites (bout_statement out))"
proof -
  from assms(1) obtain ps where ps: "bind_statement cat (fst st) (snd st) [] = Inr (bout_statement out, ps)"
    and out: "bout_parameters out = sort_key ps_index ps"
    by (auto simp: bind_def rbind_eq_Inr)
  have "sites_ok ps (sites (bout_statement out))"
    using bind_statement_sites[OF ps] assms(2) by (simp add: fresh_def)
  moreover have "refines ps (bout_parameters out)" by (rule refines_set) (simp add: out)
  ultimately show ?thesis by (rule sites_ok_mono[rotated])
qed

text \<open>
  C38: Statements that bind do not go wrong.  Let a statement whose parameters are numbered
  differently be bound, and let parameter values be accepted by \<open>validate_parameters\<close>.  Then on a row
  that fits its input columns, every expression of the bound statement evaluates to a value of its
  static type, which is the type its context requires, or fails because an \<open>INT64\<close> negation overflows.
  It never meets an operand of the wrong type, a missing column or a missing parameter.
\<close>

theorem bound_expressions_sound:
  assumes "bind st cat = Inr out" and "distinct (statement_parameters (fst st))"
    and "validate_parameters (bout_parameters out) vs = Inr ()"
    and "(cols, required, e) \<in> set (sites (bout_statement out))"
    and "list_all2 cell_ok cols (row_values r)"
  shows "case sql_evaluate e r vs of
           Inl err \<Rightarrow> overflow_error err
         | Inr v \<Rightarrow> value_in v (sql_type_of e) \<and> (\<forall>d. required = Some d \<longrightarrow> v = Null \<or> value_data_type v = Some d)"
proof -
  from bind_sites[OF assms(1,2)] assms(4)
  have e: "typed (bout_parameters out) cols e" "\<And>d. required = Some d \<Longrightarrow> operand d e"
    by (auto simp: sites_ok_def site_ok_def)
  from typed_evaluate[OF e(1) assms(3,5)] show ?thesis
    by (cases "sql_evaluate e r vs") (auto dest: e(2) operand_value)
qed

section \<open>Example\<close>

definition sx_ident :: "string \<Rightarrow> ident" where
  "sx_ident name = \<lparr>id_value = name, id_quoted = False, id_span = span_default\<rparr>"

definition sx_columns :: "column list" where
  "sx_columns =
     [\<lparr>col_name = ''id'', col_data_type = DInt64, col_nullable = False, col_primary_key = True\<rparr>,
      \<lparr>col_name = ''balance'', col_data_type = DInt64, col_nullable = True, col_primary_key = False\<rparr>]"

definition sx_table :: table_def where
  "sx_table = \<lparr>td_id = 1, td_name = ''accounts'', td_schema = \<lparr>columns = sx_columns\<rparr>\<rparr>"

text \<open>\<open>DELETE FROM accounts WHERE Balance < -?\<close>\<close>

definition sx_statement :: statement where
  "sx_statement = StDelete \<lparr>del_table = sx_ident ''accounts'',
     del_selection = Some (ExBinary (ExColumn None (sx_ident ''Balance'') span_default) SLt
       (ExUnary SNegate (ExParameter 0 span_default) span_default) span_default)\<rparr>"

definition sx_predicate :: bound_expr where
  "sx_predicate = BBinary
     (BColumn \<lparr>bc_table_id = 1, bc_table_name = ''accounts'', bc_table_alias = ''accounts'', bc_column_index = 1,
        bc_input_slot = 1, bc_column = sx_columns ! 1\<rparr> span_default) SLt
     (BUnary SNegate (BParameter 0 (Some DInt64) span_default) span_default) span_default"

lemma sx_bind:
  "bind (sx_statement, span_default) (memory_catalog_view \<lparr>mc_tables = [sx_table], mc_indexes = []\<rparr>)
   = Inr \<lparr>bout_statement = BsDelete sx_table (Some sx_predicate),
          bout_parameters = [\<lparr>ps_index = 0, ps_data_type = Some DInt64, ps_nullable = True\<rparr>]\<rparr>"
  by code_simp

theorem bound_expressions_sound_witness:
  "case sql_evaluate sx_predicate \<lparr>row_values = [Int64 1, Int64 7]\<rparr> [Int64 5] of
     Inl err \<Rightarrow> overflow_error err
   | Inr v \<Rightarrow> value_in v (sql_type_of sx_predicate) \<and> (v = Null \<or> value_data_type v = Some DBool)"
proof -
  have parameters: "distinct (statement_parameters (fst (sx_statement, span_default)))"
    by (simp add: sx_statement_def selection_parameters_def)
  have accepted: "validate_parameters [\<lparr>ps_index = 0, ps_data_type = Some DInt64, ps_nullable = True\<rparr>] [Int64 5] = Inr ()"
    by code_simp
  have site: "(sx_columns, Some DBool, sx_predicate) \<in> set (sites (BsDelete sx_table (Some sx_predicate)))"
    by (simp add: selection_sites_def sx_table_def)
  have "list_all2 cell_ok sx_columns (row_values \<lparr>row_values = [Int64 1, Int64 7]\<rparr>)"
    by (simp add: sx_columns_def cell_ok_def)
  from bound_expressions_sound[OF sx_bind parameters, simplified, OF accepted site[simplified] this]
  show ?thesis by (simp split: sum.splits)
qed

end
