(* ===== verification/Sql_Scope.thy ===== *)
theory Sql_Scope
  imports Sql_Sound
begin

text \<open>
  Where the columns of a bound query come from: every column of an expression belongs to a table of
  its scope, and the tables of a query are laid out side by side in its input rows.
\<close>

section \<open>Columns of expressions\<close>

fun bound_columns :: "bound_expr \<Rightarrow> bound_column list" where
  "bound_columns (BColumn c _) = [c]"
| "bound_columns (BUnary _ e _) = bound_columns e"
| "bound_columns (BBinary l _ r _) = bound_columns l @ bound_columns r"
| "bound_columns (BIsNull e _ _) = bound_columns e"
| "bound_columns (BAggregate _ (Some a) _) = bound_columns a"
| "bound_columns _ = []"

definition scope_column :: "scope \<Rightarrow> bound_column \<Rightarrow> bool" where
  "scope_column tables c \<longleftrightarrow>
     (\<exists>t \<in> set tables. \<exists>i < length (table_columns t). c = bound_column_of t i (table_columns t ! i))"

definition columns_in :: "scope \<Rightarrow> bound_expr \<Rightarrow> bool" where
  "columns_in tables e \<longleftrightarrow> (\<forall>c \<in> set (bound_columns e). scope_column tables c)"

lemma columns_in_simps [simp]:
  "columns_in tables (BLiteral v s)" "columns_in tables (BParameter i d s)"
  "columns_in tables (BColumn c s) \<longleftrightarrow> scope_column tables c"
  "columns_in tables (BUnary op e s) \<longleftrightarrow> columns_in tables e"
  "columns_in tables (BBinary l bop r s) \<longleftrightarrow> columns_in tables l \<and> columns_in tables r"
  "columns_in tables (BIsNull e negated s) \<longleftrightarrow> columns_in tables e"
  "columns_in tables (BAggregate f None s)"
  "columns_in tables (BAggregate f (Some a) s) \<longleftrightarrow> columns_in tables a"
  by (auto simp: columns_in_def)

lemma constrain_columns: "constrain_direct_parameter b d ps = Inr (b', ps') \<Longrightarrow> bound_columns b' = bound_columns b"
  by (cases b) (auto simp: constrain_direct_parameter_def split: if_splits)

lemma enforce_columns: "enforce_expected b expected ps = Inr (b', ps') \<Longrightarrow> bound_columns b' = bound_columns b"
  by (auto simp: enforce_expected_def split: option.splits if_splits dest: constrain_columns)

lemma unify_columns:
  assumes "unify_comparison_types l r ps s = Inr ((l', r'), ps')"
  shows "bound_columns l' = bound_columns l" "bound_columns r' = bound_columns r"
  using assms constrain_columns
  by (fastforce simp: unify_comparison_types_def rbind_eq_Inr split: option.splits if_splits)+

lemma resolve_column_scope: "resolve_column tables q name = Inr c \<Longrightarrow> scope_column tables c"
  unfolding scope_column_def by (meson resolve_column_cases)

lemma bind_expr_columns:
  "bind_expr e tables expected policy ps = Inr (b, ps') \<Longrightarrow> columns_in tables b"
proof (induction e arbitrary: expected policy ps b ps')
  case (ExBinary l op r s)
  show ?case
  proof (cases "is_comparison op")
    case True
    with ExBinary.prems obtain l1 ps1 r1 ps2 l2 r2 where
      l: "bind_expr l tables None policy ps = Inr (l1, ps1)"
      and r: "bind_expr r tables (ty_data_type (sql_type_of l1)) policy ps1 = Inr (r1, ps2)"
      and u: "unify_comparison_types l1 r1 ps2 s = Inr ((l2, r2), ps')" and b: "b = BBinary l2 op r2 s"
      by (auto simp: rbind_eq_Inr dest!: enforce_known)
    from ExBinary.IH(1)[OF l] ExBinary.IH(2)[OF r] unify_columns[OF u] show ?thesis
      by (simp add: b) (simp add: columns_in_def)
  next
    case False
    with ExBinary.prems obtain l1 ps1 r1 where
      l: "bind_expr l tables (Some DBool) policy ps = Inr (l1, ps1)"
      and r: "bind_expr r tables (Some DBool) policy ps1 = Inr (r1, ps')" and b: "b = BBinary l1 op r1 s"
      by (auto simp: rbind_eq_Inr dest!: enforce_known)
    from ExBinary.IH(1)[OF l] ExBinary.IH(2)[OF r] show ?thesis by (simp add: b)
  qed
next
  case (ExParameter i s)
  then show ?case by (auto simp: rbind_eq_Inr columns_in_def dest!: enforce_columns)
next
  case (ExColumn q n s)
  then show ?case by (auto simp: rbind_eq_Inr dest!: enforce_known resolve_column_scope)
next
  case (ExAggregate f a s)
  show ?case
  proof (cases a)
    case None
    with ExAggregate.prems show ?thesis by (auto split: if_splits dest!: enforce_known)
  next
    case (Some e)
    with ExAggregate.prems obtain b1 where
      e: "bind_expr e tables (if f = AggSum then Some DInt64 else None) Forbidden ps = Inr (b1, ps')"
      and b: "b = BAggregate f (Some b1) s"
      by (auto simp: rbind_eq_Inr split: if_splits dest!: enforce_known)
    from ExAggregate.IH[OF _ e] show ?thesis by (simp add: b Some)
  qed
next
  case (ExUnary op e s)
  then obtain b1 where "bind_expr e tables (Some (case op of SNot \<Rightarrow> DBool | SNegate \<Rightarrow> DInt64)) policy ps = Inr (b1, ps')"
    and "b = BUnary op b1 s"
    by (auto simp: rbind_eq_Inr dest!: enforce_known)
  with ExUnary.IH show ?case by simp
next
  case (ExIsNull e negated s)
  then obtain b1 where "bind_expr e tables None policy ps = Inr (b1, ps')" and "b = BIsNull b1 negated s"
    by (auto simp: rbind_eq_Inr dest!: enforce_known)
  with ExIsNull.IH show ?case by simp
next
  case (ExLiteral v s)
  then show ?case by (auto simp: columns_in_def dest!: enforce_columns)
qed

lemma bind_predicate_columns: "bind_predicate e tables ps = Inr (b, ps') \<Longrightarrow> columns_in tables b"
  by (auto simp: bind_predicate_def rbind_eq_Inr split: if_splits intro: bind_expr_columns)

section \<open>Plans\<close>

fun plan_scope :: "logical_plan \<Rightarrow> scope" where
  "plan_scope (LScan t) = [t]"
| "plan_scope (LFilter p _) = plan_scope p"
| "plan_scope (LJoin l r _) = plan_scope l @ plan_scope r"
| "plan_scope (LAggregate p _ _) = plan_scope p"
| "plan_scope (LSort p _) = plan_scope p"
| "plan_scope (LLimit p _) = plan_scope p"
| "plan_scope (LProject p _) = plan_scope p"

lemma plan_columns_scope: "plan_columns p = scope_columns (plan_scope p)"
  by (induction p) (simp_all add: scope_columns_def)

text \<open>The shape of a plan: joins of scans, and other operators above them.\<close>

fun from_clause :: "logical_plan \<Rightarrow> bool" where
  "from_clause (LScan _) = True"
| "from_clause (LJoin l (LScan _) on) = from_clause l"
| "from_clause _ = False"

fun plan_ok :: "logical_plan \<Rightarrow> bool" where
  "plan_ok (LScan t) = True"
| "plan_ok (LFilter p e) = (plan_ok p \<and> columns_in (plan_scope p) e)"
| "plan_ok (LJoin l r on) = (plan_ok l \<and> from_clause (LJoin l r on) \<and> columns_in (plan_scope l @ plan_scope r) on)"
| "plan_ok (LAggregate p _ _) = plan_ok p"
| "plan_ok (LSort p _) = plan_ok p"
| "plan_ok (LLimit p _) = plan_ok p"
| "plan_ok (LProject p _) = plan_ok p"

definition resolved :: "sql_catalog \<Rightarrow> scope \<Rightarrow> bool" where
  "resolved cat tables \<longleftrightarrow> (\<forall>t \<in> set tables. \<exists>name. resolve_table cat name = Some (bd_table t))"

definition layout :: "sql_catalog \<Rightarrow> logical_plan \<Rightarrow> bool" where
  "layout cat plan \<longleftrightarrow> plan_ok plan \<and> slots_from 0 (plan_scope plan) \<and> resolved cat (plan_scope plan)"

lemma bind_table_source_resolved:
  "bind_table_source cat src offset = Inr t \<Longrightarrow> \<exists>name. resolve_table cat name = Some (bd_table t)"
  by (auto simp: bind_table_source_def require_table_def result_simps)

lemma bind_joins_layout:
  assumes "bind_joins cat js tables plan ps = Inr ((tables', plan'), ps')"
    and "layout cat plan" "from_clause plan" "plan_scope plan = tables"
  shows "layout cat plan' \<and> from_clause plan' \<and> plan_scope plan' = tables'"
  using assms
proof (induction js arbitrary: tables plan ps)
  case (Cons j js)
  from Cons.prems(1) obtain right on qs where
    right: "bind_table_source cat (jn_right j) (total_columns tables) = Inr right"
    and on: "bind_predicate (jn_on j) (tables @ [right]) ps = Inr (on, qs)"
    and rest: "bind_joins cat js (tables @ [right]) (LJoin plan (LScan right) on) qs = Inr ((tables', plan'), ps')"
    by (auto simp: rbind_eq_Inr scope_push_def split: if_splits)
  have slots: "slots_from 0 tables" using Cons.prems(2,4) by (simp add: layout_def)
  then have "bd_slot_offset right = length (scope_columns tables)"
    using right total_columns_slots[OF slots] by (auto simp: bind_table_source_def rbind_eq_Inr)
  with slots Cons.prems(2-4) bind_predicate_columns[OF on] bind_table_source_resolved[OF right]
  have "layout cat (LJoin plan (LScan right) on)"
    by (auto simp: layout_def slots_from_append resolved_def)
  from Cons.IH[OF rest this] Cons.prems(3,4) show ?case by simp
qed simp

lemma plan_grouping_layout:
  "plan_grouping plan group_by outs order_by = Inr plan' \<Longrightarrow> layout cat plan \<Longrightarrow> layout cat plan'"
  by (auto simp: plan_grouping_def Let_def rbind_eq_Inr layout_def split: if_splits)

lemma bind_limit_layout: "bind_limit limit plan ps = Inr (plan', ps') \<Longrightarrow> layout cat plan \<Longrightarrow> layout cat plan'"
  by (auto simp: bind_limit_def rbind_eq_Inr layout_def split: option.splits)

lemma bind_select_layout:
  assumes "bind_select cat sel ps = Inr (b, ps')"
  shows "\<exists>plan outs. b = BsQuery plan outs \<and> layout cat plan"
proof -
  from assms obtain first tables plan ps1 selection ps2 group_by ps3 outs ps4 order_by ps5 plan2 plan3 where
    first: "bind_table_source cat (sel_from sel) 0 = Inr first"
    and joins: "bind_joins cat (sel_joins sel) [first] (LScan first) ps = Inr ((tables, plan), ps1)"
    and selection: "bind_selection (sel_selection sel) tables ps1 = Inr (selection, ps2)"
    and grouping: "plan_grouping (case selection of None \<Rightarrow> plan | Some predicate \<Rightarrow> LFilter plan predicate)
      group_by outs order_by = Inr plan2"
    and limit: "bind_limit (sel_limit sel) (if order_by = [] then plan2 else LSort plan2 order_by) ps5 = Inr (plan3, ps')"
    and b: "b = BsQuery (LProject plan3 outs) outs"
    by (auto simp: bind_select_def rbind_eq_Inr Let_def scope_push_def)
  have "layout cat (LScan first)"
    using first bind_table_source_resolved[OF first]
    by (auto simp: layout_def resolved_def bind_table_source_def rbind_eq_Inr)
  from bind_joins_layout[OF joins this] have plan: "layout cat plan" "plan_scope plan = tables" by auto
  then have "layout cat (case selection of None \<Rightarrow> plan | Some predicate \<Rightarrow> LFilter plan predicate)"
    using selection
    by (auto simp: layout_def bind_selection_def rbind_eq_Inr split: option.splits dest!: bind_predicate_columns)
  from plan_grouping_layout[OF grouping this]
  have "layout cat (if order_by = [] then plan2 else LSort plan2 order_by)" by (simp add: layout_def)
  from bind_limit_layout[OF limit this] show ?thesis by (auto simp: b layout_def)
qed

lemma bind_query_layout:
  assumes "bind st cat = Inr out" "bout_statement out = BsQuery plan outs"
  shows "layout cat plan"
proof -
  obtain ps where ps: "bind_statement cat (fst st) (snd st) [] = Inr (BsQuery plan outs, ps)"
    using assms by (auto simp: bind_def rbind_eq_Inr)
  have other: "b \<noteq> BsQuery plan outs" if "bind_insert cat ins qs = Inr (b, ps)" for b ins qs
    using that by (auto simp: bind_insert_def rbind_eq_Inr Let_def split: if_splits)
  have upd: "b \<noteq> BsQuery plan outs" if "bind_update cat upd qs = Inr (b, ps)" for b upd qs
    using that by (auto simp: bind_update_def rbind_eq_Inr Let_def)
  have del: "b \<noteq> BsQuery plan outs" if "bind_delete cat del qs = Inr (b, ps)" for b del qs
    using that by (auto simp: bind_delete_def rbind_eq_Inr)
  have table: "b \<noteq> BsQuery plan outs" if "bind_create_table cat c s = Inr b" for b c s
    using that by (auto simp: bind_create_table_def rbind_eq_Inr Let_def split: if_splits)
  have index: "b \<noteq> BsQuery plan outs" if "bind_create_index cat c = Inr b" for b c
    using that by (auto simp: bind_create_index_def rbind_eq_Inr split: if_splits)
  show ?thesis
  proof (cases "fst st")
    case (StSelect sel)
    with ps bind_select_layout[of cat sel "[]" _ ps] show ?thesis by auto
  next
    case (StExplain inner s)
    have "x \<noteq> BsQuery plan outs"
      if "(case b1 of BsTransaction _ \<Rightarrow> Inl err | _ \<Rightarrow> Inr (BsExplain b1, qs)) = Inr (x, ps)"
      for b1 qs x and err :: sql_error
      using that by (cases b1) auto
    with ps StExplain show ?thesis by (auto simp: rbind_eq_Inr)
  next
    case (StInsert ins)
    with ps other show ?thesis by auto
  next
    case (StUpdate u)
    with ps upd show ?thesis by auto
  next
    case (StDelete d)
    with ps del show ?thesis by auto
  next
    case (StCreateTable c)
    with ps table show ?thesis by (auto simp: rbind_eq_Inr)
  next
    case (StCreateIndex c)
    with ps index show ?thesis by (auto simp: rbind_eq_Inr)
  qed (use ps in auto)
qed

end
