(* ===== verification/Db_Executor.thy ===== *)
theory Db_Executor
  imports Sql_Sound Engine_Query
begin

text \<open>
  Execution of bound statements over the engine, \<open>crates/aster-db/src/executor.rs\<close>, and the catalog
  that the SQL front end sees, \<open>crates/aster-db/src/catalog.rs\<close>.  The transaction a statement works on
  is passed in and returned.  A statement that fails returns only its error; in the source the rows an
  UPDATE or DELETE had staged before it failed stay in the transaction.
\<close>

section \<open>Errors and outputs\<close>

text \<open>Errors of the page storage and of files keep their text only.\<close>

datatype db_error =
    DbSql sql_error
  | DbEngine engine_error
  | DbStorage string
  | DbIo string
  | DbTransactionNotFound u64
  | DbTransactionControl string
  | DbTransactionAborted abort_reason
  | DbRequestRejected request_rejection
  | DbResourceLimit string
  | DbCorruption string
  | DbInvariant string

definition MAX_RESULT_ROWS :: nat where "MAX_RESULT_ROWS = 16384"
definition MAX_INTERMEDIATE_ROWS :: nat where "MAX_INTERMEDIATE_ROWS = 1000000"

datatype statement_output =
    OutQuery "string list" "row list"
  | OutMutation nat
  | OutExplain string

record exec_row =
  xr_row :: row
  xr_aggregates :: "(bound_expr \<times> sql_value) list"

definition exec_row_plain :: "row \<Rightarrow> exec_row" where
  "exec_row_plain r = \<lparr>xr_row = r, xr_aggregates = []\<rparr>"

definition exec_row_empty :: exec_row where
  "exec_row_empty = exec_row_plain \<lparr>row_values = []\<rparr>"

section \<open>Catalog\<close>

definition engine_catalog_tables :: "engine \<Rightarrow> transaction option \<Rightarrow> table_def list" where
  "engine_catalog_tables e t =
     (let def_of = \<lambda>m. \<lparr>td_id = tm_id m, td_name = tm_name m, td_schema = tm_schema m\<rparr> in
      sort_key td_id
        (map def_of (bt_values (cat_tables (eng_catalog e)))
         @ (case t of
              None \<Rightarrow> []
            | Some t \<Rightarrow> List.map_filter (\<lambda>mut. case mut of CreateTable m \<Rightarrow> Some (def_of m) | CreateIndex _ \<Rightarrow> None)
                (txn_catalog_mutations t))))"

definition engine_catalog_indexes :: "engine \<Rightarrow> transaction option \<Rightarrow> index_def list" where
  "engine_catalog_indexes e t =
     (let def_of = \<lambda>i. \<lparr>xd_id = im_id i, xd_name = im_name i, xd_table_id = im_table_id i, xd_column_index = im_column i\<rparr> in
      sort_key xd_id
        (map def_of (bt_values (cat_indexes (eng_catalog e)))
         @ (case t of
              None \<Rightarrow> []
            | Some t \<Rightarrow> List.map_filter (\<lambda>mut. case mut of CreateTable _ \<Rightarrow> None | CreateIndex i \<Rightarrow> Some (def_of i))
                (txn_catalog_mutations t))))"

definition engine_catalog :: "engine \<Rightarrow> transaction option \<Rightarrow> sql_catalog" where
  "engine_catalog e t =
     \<lparr>resolve_table = \<lambda>name. find (\<lambda>table. ident_matches name (td_name table)) (engine_catalog_tables e t),
      resolve_index = \<lambda>name. find (\<lambda>index. ident_matches name (xd_name index)) (engine_catalog_indexes e t),
      table_indexes = \<lambda>tid. filter (\<lambda>index. xd_table_id index = tid) (engine_catalog_indexes e t)\<rparr>"

section \<open>Expressions with aggregates\<close>

definition exec_type_error :: "string \<Rightarrow> sql_value \<Rightarrow> bound_expr \<Rightarrow> db_error" where
  "exec_type_error operation v expression =
     DbSql (sql_error_new ErrType (''cannot '' @ operation) (expression_span expression))"

definition exec_truth :: "sql_value \<Rightarrow> bound_expr \<Rightarrow> db_error + truth_value" where
  "exec_truth v expression =
     (case v of
        Bool b \<Rightarrow> Inr (if b then TvTrue else TvFalse)
      | Null \<Rightarrow> Inr TvUnknown
      | other \<Rightarrow> Inl (exec_type_error ''use as a predicate'' other expression))"

definition exec_compare ::
    "sql_value \<Rightarrow> sql_binary_op \<Rightarrow> sql_value \<Rightarrow> bound_expr \<Rightarrow> db_error + sql_value" where
  "exec_compare left operator right expression =
     rbind (map_err (\<lambda>_. DbSql (sql_error_new ErrType ''cannot compare'' (expression_span expression)))
              (checked_cmp left right)) (\<lambda>ordering.
       case ordering of
         None \<Rightarrow> Inr Null
       | Some ord \<Rightarrow>
           (case comparison_result operator ord of Some b \<Rightarrow> Inr (Bool b) | None \<Rightarrow> Inl (DbSql unreachable)))"

fun evaluate_exec :: "bound_expr \<Rightarrow> exec_row \<Rightarrow> sql_value list \<Rightarrow> db_error + sql_value" where
  "evaluate_exec expression row parameters =
     (if \<not> exec_contains_aggregate expression
      then map_err DbSql (sql_evaluate expression (xr_row row) parameters)
      else
        (case expression of
           BAggregate _ _ _ \<Rightarrow>
             (case find (\<lambda>(candidate, _). same_expression candidate expression) (xr_aggregates row) of
                Some (_, v) \<Rightarrow> Inr v
              | None \<Rightarrow> Inl (DbInvariant ''aggregate value was not computed''))
         | BUnary op e s \<Rightarrow>
             rbind (evaluate_exec e row parameters) (\<lambda>v.
               case op of
                 SNot \<Rightarrow> rbind (exec_truth v expression) (\<lambda>t. Inr (tv_into_value (tv_not t)))
               | SNegate \<Rightarrow>
                   (case v of
                      Null \<Rightarrow> Inr Null
                    | Int64 i \<Rightarrow> ok_or (map_option Int64 (i64_checked_neg i))
                        (DbSql (sql_error_new ErrConstraint ''INT64 negation overflow'' s))
                    | other \<Rightarrow> Inl (exec_type_error ''negate'' other expression)))
         | BBinary left op right s \<Rightarrow>
             rbind (evaluate_exec left row parameters) (\<lambda>l.
               case op of
                 SAnd \<Rightarrow> rbind (exec_truth l expression) (\<lambda>left_truth.
                   if left_truth = TvFalse then Inr (Bool False)
                   else rbind (evaluate_exec right row parameters) (\<lambda>r.
                     rbind (exec_truth r expression) (\<lambda>right_truth.
                       Inr (tv_into_value (tv_and left_truth right_truth)))))
               | SOr \<Rightarrow> rbind (exec_truth l expression) (\<lambda>left_truth.
                   if left_truth = TvTrue then Inr (Bool True)
                   else rbind (evaluate_exec right row parameters) (\<lambda>r.
                     rbind (exec_truth r expression) (\<lambda>right_truth.
                       Inr (tv_into_value (tv_or left_truth right_truth)))))
               | comparison \<Rightarrow>
                   rbind (evaluate_exec right row parameters) (\<lambda>r. exec_compare l comparison r expression))
         | BIsNull e negated s \<Rightarrow>
             rbind (evaluate_exec e row parameters) (\<lambda>v.
               Inr (Bool (if negated then \<not> is_null v else is_null v)))
         | _ \<Rightarrow> Inl (DbInvariant ''aggregate expression traversal reached an unexpected scalar leaf'')))"

declare evaluate_exec.simps [simp del]

definition predicate_exec :: "bound_expr \<Rightarrow> exec_row \<Rightarrow> sql_value list \<Rightarrow> db_error + bool" where
  "predicate_exec expression row parameters =
     (if \<not> exec_contains_aggregate expression
      then map_err DbSql (predicate_matches expression (xr_row row) parameters)
      else rbind (evaluate_exec expression row parameters) (\<lambda>v.
        rbind (exec_truth v expression) (\<lambda>t. Inr (t = TvTrue))))"

section \<open>Joins\<close>

definition ensure_intermediate_bound :: "exec_row list \<Rightarrow> db_error + unit" where
  "ensure_intermediate_bound rows =
     (if MAX_INTERMEDIATE_ROWS < length rows
      then Inl (DbResourceLimit ''physical plan produced too many intermediate rows'') else Inr ())"

definition combine_rows :: "exec_row \<Rightarrow> exec_row \<Rightarrow> exec_row" where
  "combine_rows left right =
     \<lparr>xr_row = \<lparr>row_values = row_values (xr_row left) @ row_values (xr_row right)\<rparr>,
      xr_aggregates = xr_aggregates left @ xr_aggregates right\<rparr>"

fun plan_tables :: "physical_plan \<Rightarrow> u64 list" where
  "plan_tables (PSeqScan table) = [td_id (bd_table table)]"
| "plan_tables (PIndexScan table _ _) = [td_id (bd_table table)]"
| "plan_tables (PFilter input _) = plan_tables input"
| "plan_tables (PHashAggregate input _ _) = plan_tables input"
| "plan_tables (PSort input _) = plan_tables input"
| "plan_tables (PLimit input _) = plan_tables input"
| "plan_tables (PProject input _) = plan_tables input"
| "plan_tables (PJoin left right _ _) = plan_tables left @ plan_tables right"

definition hash_join_keys :: "bound_expr \<Rightarrow> physical_plan \<Rightarrow> (bound_expr \<times> nat) option" where
  "hash_join_keys on right_plan =
     (case on of
        BBinary (BColumn left_column ls) SEq (BColumn right_column rs) _ \<Rightarrow>
          (let right_tables = plan_tables right_plan in
           if bc_table_id right_column \<in> set right_tables \<and> bc_table_id left_column \<notin> set right_tables
           then Some (BColumn left_column ls, bc_column_index right_column)
           else if bc_table_id left_column \<in> set right_tables \<and> bc_table_id right_column \<notin> set right_tables
           then Some (BColumn right_column rs, bc_column_index left_column)
           else None)
      | _ \<Rightarrow> None)"

definition join_push ::
    "bound_expr \<Rightarrow> sql_value list \<Rightarrow> exec_row \<Rightarrow> exec_row list \<Rightarrow> exec_row \<Rightarrow> db_error + exec_row list" where
  "join_push on parameters outer output inner =
     (let joined = combine_rows outer inner in
      rbind (predicate_exec on joined parameters) (\<lambda>matches.
        if matches then
          (let output = output @ [joined] in rbind (ensure_intermediate_bound output) (\<lambda>_. Inr output))
        else Inr output))"

definition value_key :: "sql_value \<Rightarrow> db_error + bytes" where
  "value_key v = map_err (\<lambda>e. DbEngine (Core e)) (encode_value v [])"

definition bucket_push ::
    "(bytes, exec_row list) btmap \<Rightarrow> bytes \<Rightarrow> exec_row \<Rightarrow> (bytes, exec_row list) btmap" where
  "bucket_push buckets key row =
     bt_insert key ((case bt_get buckets key of None \<Rightarrow> [] | Some rows \<Rightarrow> rows) @ [row]) buckets"

definition build_bucket ::
    "nat \<Rightarrow> (bytes, exec_row list) btmap \<Rightarrow> exec_row \<Rightarrow> db_error + (bytes, exec_row list) btmap" where
  "build_bucket right_column buckets row =
     rbind (ok_or (checked_get (row_values (xr_row row)) right_column)
              (DbInvariant ''hash-join inner column is outside row'')) (\<lambda>v.
       if is_null v then Inr buckets
       else rbind (value_key v) (\<lambda>key. Inr (bucket_push buckets key row)))"

definition hash_probe ::
    "bound_expr \<Rightarrow> bound_expr \<Rightarrow> sql_value list \<Rightarrow> (bytes, exec_row list) btmap \<Rightarrow> exec_row list \<Rightarrow> exec_row
      \<Rightarrow> db_error + exec_row list" where
  "hash_probe on left_key parameters buckets output outer =
     rbind (evaluate_exec left_key outer parameters) (\<lambda>v.
       if is_null v then Inr output
       else rbind (value_key v) (\<lambda>key.
         case bt_get buckets key of
           None \<Rightarrow> Inr output
         | Some matches \<Rightarrow> try_fold (join_push on parameters outer) output matches))"

definition hash_join ::
    "bound_expr \<Rightarrow> bound_expr \<Rightarrow> nat \<Rightarrow> sql_value list \<Rightarrow> exec_row list \<Rightarrow> exec_row list
      \<Rightarrow> db_error + exec_row list" where
  "hash_join on left_key right_column parameters left right =
     rbind (try_fold (build_bucket right_column) bt_empty right) (\<lambda>buckets.
       try_fold (hash_probe on left_key parameters buckets) [] left)"

definition nested_loop_join ::
    "bound_expr \<Rightarrow> sql_value list \<Rightarrow> exec_row list \<Rightarrow> exec_row list \<Rightarrow> db_error + exec_row list" where
  "nested_loop_join on parameters left right =
     try_fold (\<lambda>output outer. try_fold (join_push on parameters outer) output right) [] left"

text \<open>
  \<open>execute_join\<close> after both inputs have been executed, the left one first.
\<close>

definition execute_join ::
    "bound_expr \<Rightarrow> join_algorithm \<Rightarrow> physical_plan \<Rightarrow> sql_value list \<Rightarrow> exec_row list \<Rightarrow> exec_row list
      \<Rightarrow> db_error + exec_row list" where
  "execute_join on algorithm right_plan parameters left right =
     (case hash_join_keys on right_plan of
        Some (left_key, right_column) \<Rightarrow>
          if algorithm \<noteq> NestedLoop then hash_join on left_key right_column parameters left right
          else nested_loop_join on parameters left right
      | None \<Rightarrow> nested_loop_join on parameters left right)"

section \<open>Aggregates\<close>

definition aggregate_values :: "bound_expr \<Rightarrow> exec_row list \<Rightarrow> sql_value list \<Rightarrow> db_error + sql_value list" where
  "aggregate_values argument rows parameters = try_map (\<lambda>row. evaluate_exec argument row parameters) rows"

definition sum_step ::
    "bound_expr \<Rightarrow> bound_expr \<Rightarrow> sql_value list \<Rightarrow> u64 option \<Rightarrow> exec_row \<Rightarrow> db_error + u64 option" where
  "sum_step expression argument parameters acc row =
     rbind (evaluate_exec argument row parameters) (\<lambda>v.
       case v of
         Null \<Rightarrow> Inr acc
       | Int64 i \<Rightarrow>
           (case i64_checked_add (case acc of None \<Rightarrow> 0 | Some s \<Rightarrow> s) i of
              Some s \<Rightarrow> Inr (Some s)
            | None \<Rightarrow> Inl (DbSql (sql_error_new ErrConstraint ''INT64 SUM overflow'' (expression_span expression))))
       | other \<Rightarrow> Inl (exec_type_error ''SUM'' other expression))"

definition flat_cmp :: "sql_value \<Rightarrow> sql_value \<Rightarrow> ordering option" where
  "flat_cmp a b = (case checked_cmp a b of Inr (Some ord) \<Rightarrow> Some ord | _ \<Rightarrow> None)"

definition extreme_step ::
    "aggregate_function \<Rightarrow> bound_expr \<Rightarrow> sql_value list \<Rightarrow> sql_value option \<Rightarrow> exec_row
      \<Rightarrow> db_error + sql_value option" where
  "extreme_step function argument parameters selected row =
     rbind (evaluate_exec argument row parameters) (\<lambda>v.
       if is_null v then Inr selected
       else
         let replace = (case selected of
             None \<Rightarrow> True
           | Some current \<Rightarrow>
               (case function of
                  AggMin \<Rightarrow> flat_cmp v current = Some OLess
                | AggMax \<Rightarrow> flat_cmp v current = Some OGreater
                | _ \<Rightarrow> False))
         in Inr (if replace then Some v else selected))"

definition compute_aggregate :: "bound_expr \<Rightarrow> exec_row list \<Rightarrow> sql_value list \<Rightarrow> db_error + sql_value" where
  "compute_aggregate expression rows parameters =
     (case expression of
        BAggregate AggCount argument _ \<Rightarrow>
          rbind (case argument of
                   Some a \<Rightarrow> rbind (aggregate_values a rows parameters) (\<lambda>vs. Inr (length (filter (\<lambda>v. \<not> is_null v) vs)))
                 | None \<Rightarrow> Inr (length rows)) (\<lambda>count.
            if 2 ^ 63 \<le> count then Inl (DbResourceLimit ''COUNT exceeds INT64'')
            else Inr (Int64 (of_nat count)))
      | BAggregate AggSum argument _ \<Rightarrow>
          rbind (ok_or argument (DbInvariant ''SUM is missing its argument'')) (\<lambda>argument.
            rbind (try_fold (sum_step expression argument parameters) None rows) (\<lambda>total.
              Inr (case total of None \<Rightarrow> Null | Some s \<Rightarrow> Int64 s)))
      | BAggregate function argument _ \<Rightarrow>
          rbind (ok_or argument (DbInvariant ''MIN/MAX is missing its argument'')) (\<lambda>argument.
            rbind (try_fold (extreme_step function argument parameters) None rows) (\<lambda>selected.
              Inr (case selected of None \<Rightarrow> Null | Some v \<Rightarrow> v)))
      | _ \<Rightarrow> Inl (DbInvariant ''aggregate plan contains a scalar expression''))"

definition group_push ::
    "bound_expr list \<Rightarrow> sql_value list \<Rightarrow> (bytes, exec_row list) btmap \<Rightarrow> exec_row
      \<Rightarrow> db_error + (bytes, exec_row list) btmap" where
  "group_push group_by parameters groups row =
     rbind (try_map (\<lambda>expression. evaluate_exec expression row parameters) group_by) (\<lambda>values.
       rbind (map_err (\<lambda>e. DbEngine (Core e)) (encode_row \<lparr>row_values = values\<rparr>)) (\<lambda>key.
         Inr (bucket_push groups key row)))"

definition group_output :: "bound_expr list \<Rightarrow> sql_value list \<Rightarrow> exec_row list \<Rightarrow> db_error + exec_row" where
  "group_output aggregates parameters rows =
     rbind (try_map (\<lambda>aggregate. rbind (compute_aggregate aggregate rows parameters) (\<lambda>v. Inr (aggregate, v))) aggregates)
       (\<lambda>computed.
         Inr \<lparr>xr_row = (case rows of [] \<Rightarrow> \<lparr>row_values = []\<rparr> | row # _ \<Rightarrow> xr_row row), xr_aggregates = computed\<rparr>)"

definition aggregate_rows ::
    "exec_row list \<Rightarrow> bound_expr list \<Rightarrow> bound_expr list \<Rightarrow> sql_value list \<Rightarrow> db_error + exec_row list" where
  "aggregate_rows input group_by aggregates parameters =
     rbind (try_fold (group_push group_by parameters) bt_empty input) (\<lambda>groups.
       let groups = (if bt_entries groups = [] \<and> group_by = [] then bt_insert [] [] groups else groups) in
       try_map (group_output aggregates parameters) (bt_values groups))"

section \<open>Sorting\<close>

definition compare_sort_values :: "sql_value \<Rightarrow> sql_value \<Rightarrow> ordering" where
  "compare_sort_values left right =
     (case (left, right) of
        (Null, Null) \<Rightarrow> OEqual
      | (Null, _) \<Rightarrow> OGreater
      | (_, Null) \<Rightarrow> OLess
      | _ \<Rightarrow> (case flat_cmp left right of None \<Rightarrow> OEqual | Some ord \<Rightarrow> ord))"

fun compare_order_keys :: "sql_value list \<Rightarrow> sql_value list \<Rightarrow> bound_order list \<Rightarrow> ordering" where
  "compare_order_keys (l # ls) (r # rs) (order # orders) =
     (let comparison = (case bo_direction order of
          Asc \<Rightarrow> compare_sort_values l r
        | Desc \<Rightarrow> ordering_reverse (compare_sort_values l r))
      in if comparison \<noteq> OEqual then comparison else compare_order_keys ls rs orders)"
| "compare_order_keys _ _ _ = OEqual"

definition sort_rows :: "exec_row list \<Rightarrow> bound_order list \<Rightarrow> sql_value list \<Rightarrow> db_error + exec_row list" where
  "sort_rows input order_by parameters =
     rbind (try_map (\<lambda>row. rbind (try_map (\<lambda>order. evaluate_exec (bo_expr order) row parameters) order_by)
              (\<lambda>keys. Inr (row, keys))) input) (\<lambda>keyed.
       Inr (map fst (sort_by (\<lambda>l r. compare_order_keys (snd l) (snd r) order_by) keyed)))"

section \<open>Plans\<close>

fun filter_rows :: "bound_expr \<Rightarrow> sql_value list \<Rightarrow> exec_row list \<Rightarrow> db_error + exec_row list" where
  "filter_rows predicate parameters [] = Inr []"
| "filter_rows predicate parameters (row # rows) =
     rbind (predicate_exec predicate row parameters) (\<lambda>keep.
       rbind (filter_rows predicate parameters rows) (\<lambda>rest. Inr (if keep then row # rest else rest)))"

definition project_row :: "named_expr list \<Rightarrow> sql_value list \<Rightarrow> exec_row \<Rightarrow> db_error + exec_row" where
  "project_row expressions parameters row =
     rbind (try_map (\<lambda>expression. evaluate_exec (ne_expr expression) row parameters) expressions) (\<lambda>values.
       Inr (exec_row_plain \<lparr>row_values = values\<rparr>))"

definition limit_count :: "bound_expr \<Rightarrow> sql_value list \<Rightarrow> db_error + nat" where
  "limit_count limit parameters =
     rbind (evaluate_exec limit exec_row_empty parameters) (\<lambda>v.
       case v of
         Int64 i \<Rightarrow>
           if 0 \<le> sint i then Inr (nat (sint i))
           else Inl (DbSql (sql_error_new ErrConstraint ''LIMIT must evaluate to a non-negative INT64''
                  (expression_span limit)))
       | _ \<Rightarrow> Inl (DbSql (sql_error_new ErrConstraint ''LIMIT must evaluate to a non-negative INT64''
                  (expression_span limit))))"

definition index_scan ::
    "engine \<Rightarrow> transaction \<Rightarrow> bound_table \<Rightarrow> index_def \<Rightarrow> index_constraint \<Rightarrow> sql_value list
      \<Rightarrow> db_error + exec_row list" where
  "index_scan e t table index constraint parameters =
     rbind (evaluate_exec (ic_value constraint) exec_row_empty parameters) (\<lambda>v.
       rbind (map_err DbEngine
           (if ic_operator constraint = SEq \<and> \<not> is_null v then scan_secondary e t (xd_id index) v
            else scan_table e t (td_id (bd_table table)))) (\<lambda>rows.
         Inr (map exec_row_plain rows)))"

text \<open>Every operator checks the number of its rows.\<close>

definition bounded :: "db_error + exec_row list \<Rightarrow> db_error + exec_row list" where
  "bounded result = rbind result (\<lambda>rows. rbind (ensure_intermediate_bound rows) (\<lambda>_. Inr rows))"

fun execute_plan ::
    "engine \<Rightarrow> transaction \<Rightarrow> sql_value list \<Rightarrow> physical_plan \<Rightarrow> db_error + exec_row list" where
  "execute_plan e t parameters (PSeqScan table) =
     bounded (rbind (map_err DbEngine (scan_table e t (td_id (bd_table table)))) (\<lambda>rows.
       Inr (map exec_row_plain rows)))"
| "execute_plan e t parameters (PIndexScan table index constraint) =
     bounded (index_scan e t table index constraint parameters)"
| "execute_plan e t parameters (PFilter input predicate) =
     bounded (rbind (execute_plan e t parameters input) (filter_rows predicate parameters))"
| "execute_plan e t parameters (PJoin left right on algorithm) =
     bounded (rbind (execute_plan e t parameters left) (\<lambda>left_rows.
       rbind (execute_plan e t parameters right) (execute_join on algorithm right parameters left_rows)))"
| "execute_plan e t parameters (PHashAggregate input group_by aggregates) =
     bounded (rbind (execute_plan e t parameters input) (\<lambda>rows. aggregate_rows rows group_by aggregates parameters))"
| "execute_plan e t parameters (PSort input order_by) =
     bounded (rbind (execute_plan e t parameters input) (\<lambda>rows. sort_rows rows order_by parameters))"
| "execute_plan e t parameters (PLimit input limit) =
     bounded (rbind (execute_plan e t parameters input) (\<lambda>rows.
       rbind (limit_count limit parameters) (\<lambda>n. Inr (take n rows))))"
| "execute_plan e t parameters (PProject input expressions) =
     bounded (rbind (execute_plan e t parameters input) (try_map (project_row expressions parameters)))"

section \<open>Statements\<close>

definition primary_key_column :: "table_def \<Rightarrow> db_error + nat" where
  "primary_key_column table =
     ok_or (position col_primary_key (columns (td_schema table))) (DbInvariant ''table has no primary key'')"

text \<open>The selection of \<open>UPDATE\<close> and \<open>DELETE\<close>: a failing predicate counts as false and is then reported.\<close>

definition selects :: "bound_expr option \<Rightarrow> exec_row \<Rightarrow> sql_value list \<Rightarrow> db_error + bool" where
  "selects selection row parameters =
     (case selection of
        None \<Rightarrow> Inr True
      | Some predicate \<Rightarrow>
          if \<not> (case predicate_exec predicate row parameters of Inl _ \<Rightarrow> False | Inr b \<Rightarrow> b)
          then rbind (predicate_exec predicate row parameters) (\<lambda>_. Inr False)
          else Inr True)"

definition assign_values ::
    "(nat \<times> bound_expr) list \<Rightarrow> exec_row \<Rightarrow> sql_value list \<Rightarrow> row \<Rightarrow> db_error + row" where
  "assign_values assignments row parameters original =
     try_fold (\<lambda>updated (column, expression).
       rbind (evaluate_exec expression row parameters) (\<lambda>v.
         if column < length (row_values updated)
         then Inr (updated\<lparr>row_values := (row_values updated)[column := v]\<rparr>)
         else Inl (DbInvariant ''UPDATE target column is outside row''))) original assignments"

definition update_row ::
    "engine \<Rightarrow> table_def \<Rightarrow> nat \<Rightarrow> (nat \<times> bound_expr) list \<Rightarrow> bound_expr option \<Rightarrow> sql_value list
      \<Rightarrow> transaction \<times> nat \<Rightarrow> row \<Rightarrow> db_error + transaction \<times> nat" where
  "update_row e table primary_key assignments selection parameters = (\<lambda>(t, affected_rows) original.
     rbind (selects selection (exec_row_plain original) parameters) (\<lambda>selected.
       if \<not> selected then Inr (t, affected_rows)
       else rbind (assign_values assignments (exec_row_plain original) parameters original) (\<lambda>updated.
         rbind (ok_or (checked_get (row_values original) primary_key)
                  (DbInvariant ''primary-key slot is outside row'')) (\<lambda>key.
           rbind (map_err DbEngine (engine_update e t (td_id table) key updated)) (\<lambda>(changed, t).
             Inr (t, if changed then affected_rows + 1 else affected_rows))))))"

definition delete_row ::
    "engine \<Rightarrow> table_def \<Rightarrow> nat \<Rightarrow> bound_expr option \<Rightarrow> sql_value list
      \<Rightarrow> transaction \<times> nat \<Rightarrow> row \<Rightarrow> db_error + transaction \<times> nat" where
  "delete_row e table primary_key selection parameters = (\<lambda>(t, affected_rows) row.
     rbind (selects selection (exec_row_plain row) parameters) (\<lambda>selected.
       if \<not> selected then Inr (t, affected_rows)
       else rbind (ok_or (checked_get (row_values row) primary_key)
                  (DbInvariant ''primary-key slot is outside row'')) (\<lambda>key.
           rbind (map_err DbEngine (engine_delete e t (td_id table) key)) (\<lambda>(changed, t).
             Inr (t, if changed then affected_rows + 1 else affected_rows)))))"

definition execute_bound ::
    "engine \<Rightarrow> transaction \<Rightarrow> bound_statement \<Rightarrow> physical_plan option \<Rightarrow> sql_value list
      \<Rightarrow> db_error + statement_output \<times> transaction" where
  "execute_bound e t statement plan parameters =
     (case statement of
        BsCreateTable name sch \<Rightarrow>
          rbind (map_err DbEngine (create_table e t name sch)) (\<lambda>(_, t). Inr (OutMutation 0, t))
      | BsCreateIndex name table column_index \<Rightarrow>
          rbind (map_err DbEngine (create_index e t name (td_id table) column_index)) (\<lambda>(_, t). Inr (OutMutation 0, t))
      | BsInsert table values \<Rightarrow>
          rbind (try_map (\<lambda>expression. evaluate_exec expression exec_row_empty parameters) values) (\<lambda>values.
            rbind (map_err DbEngine (engine_insert e t (td_id table) \<lparr>row_values = values\<rparr>)) (\<lambda>t.
              Inr (OutMutation 1, t)))
      | BsUpdate table assignments selection \<Rightarrow>
          rbind (map_err DbEngine (scan_table e t (td_id table))) (\<lambda>rows.
            rbind (primary_key_column table) (\<lambda>primary_key.
              rbind (try_fold (update_row e table primary_key assignments selection parameters) (t, 0) rows)
                (\<lambda>(t, affected_rows). Inr (OutMutation affected_rows, t))))
      | BsDelete table selection \<Rightarrow>
          rbind (map_err DbEngine (scan_table e t (td_id table))) (\<lambda>rows.
            rbind (primary_key_column table) (\<lambda>primary_key.
              rbind (try_fold (delete_row e table primary_key selection parameters) (t, 0) rows)
                (\<lambda>(t, affected_rows). Inr (OutMutation affected_rows, t))))
      | BsQuery _ output \<Rightarrow>
          rbind (ok_or plan (DbInvariant ''query has no optimized physical plan'')) (\<lambda>plan.
            rbind (execute_plan e t parameters plan) (\<lambda>rows.
              if MAX_RESULT_ROWS < length rows then Inl (DbResourceLimit ''query produced too many rows'')
              else Inr (OutQuery (map ne_name output) (map xr_row rows), t)))
      | BsExplain _ \<Rightarrow> Inl (DbInvariant ''EXPLAIN must be handled before execution'')
      | BsTransaction _ \<Rightarrow> Inl (DbInvariant ''transaction control must be handled by Database''))"

definition newline_line :: "string \<Rightarrow> string" where
  "newline_line s = s @ [CHR 0x0A]"

definition explain_statement :: "bound_statement \<Rightarrow> physical_plan option \<Rightarrow> db_error + statement_output" where
  "explain_statement statement plan =
     (case statement of
        BsQuery _ _ \<Rightarrow>
          rbind (ok_or plan (DbInvariant ''EXPLAIN query has no physical plan'')) (\<lambda>plan.
            Inr (OutExplain (explain_physical plan)))
      | BsCreateTable name _ \<Rightarrow> Inr (OutExplain (newline_line (''CreateTable name='' @ name)))
      | BsCreateIndex name table _ \<Rightarrow>
          Inr (OutExplain (newline_line (''CreateIndex name='' @ name @ '' table='' @ td_name table)))
      | BsInsert table _ \<Rightarrow> Inr (OutExplain (newline_line (''Insert table='' @ td_name table)))
      | BsUpdate table _ _ \<Rightarrow> Inr (OutExplain (newline_line (''Update table='' @ td_name table)))
      | BsDelete table _ \<Rightarrow> Inr (OutExplain (newline_line (''Delete table='' @ td_name table)))
      | _ \<Rightarrow> Inl (DbInvariant ''invalid nested EXPLAIN target''))"

section \<open>Preparation\<close>

text \<open>
  \<open>physical_plan\<close> and \<open>prepare_and_execute_output\<close> of \<open>crates/aster-db/src/database.rs\<close>.  Names are bound in
  the catalog with the changes staged by the transaction, plans are chosen in the committed one.
\<close>

definition physical_plan_of :: "bound_statement \<Rightarrow> sql_catalog \<Rightarrow> physical_plan option" where
  "physical_plan_of statement cat = (case statement of BsQuery plan _ \<Rightarrow> Some (optimize cat plan) | _ \<Rightarrow> None)"

definition prepare_and_execute_output ::
    "engine \<Rightarrow> transaction \<Rightarrow> statement \<times> span \<Rightarrow> sql_value list \<Rightarrow> db_error + statement_output \<times> transaction" where
  "prepare_and_execute_output e t parsed parameters =
     rbind (map_err DbSql (bind parsed (engine_catalog e (Some t)))) (\<lambda>bound.
       rbind (map_err DbSql (validate_parameters (bout_parameters bound) parameters)) (\<lambda>_.
         case bout_statement bound of
           BsTransaction _ \<Rightarrow>
             Inl (DbTransactionControl ''transaction control must be dispatched before execution'')
         | BsExplain (BsTransaction _) \<Rightarrow>
             Inl (DbTransactionControl ''EXPLAIN does not accept transaction control'')
         | BsExplain inner \<Rightarrow>
             rbind (explain_statement inner (physical_plan_of inner (engine_catalog e None))) (\<lambda>output.
               Inr (output, t))
         | statement \<Rightarrow>
             execute_bound e t statement (physical_plan_of statement (engine_catalog e None)) parameters))"

end
