(* ===== verification/Db_Optimize.thy ===== *)
theory Db_Optimize
  imports Sql_Scope Db_Executor
begin

text \<open>
  The optimizer does not change the result of a query.  Index scans and hash joins are compared with
  the plan that scans whole tables and joins by nested loops.
\<close>

section \<open>The reference plan\<close>

fun naive :: "logical_plan \<Rightarrow> physical_plan" where
  "naive (LScan table) = PSeqScan table"
| "naive (LFilter input predicate) = PFilter (naive input) predicate"
| "naive (LJoin left right on) = PJoin (naive left) (naive right) on NestedLoop"
| "naive (LAggregate input group_by aggregates) = PHashAggregate (naive input) group_by aggregates"
| "naive (LSort input order_by) = PSort (naive input) order_by"
| "naive (LLimit input limit) = PLimit (naive input) limit"
| "naive (LProject input expressions) = PProject (naive input) expressions"

text \<open>
  Index scans and hash joins encode values, which fails for those longer than \<open>MAX_VALUE_BYTES\<close>.
  Two results agree if the second is the first or this failure whenever the first is a success.
\<close>

definition value_limit :: db_error where
  "value_limit = DbEngine (Core (LimitExceeded ''value bytes''))"

definition agrees :: "db_error + 'a \<Rightarrow> db_error + 'a \<Rightarrow> bool" where
  "agrees r r' \<longleftrightarrow> (\<forall>x. r = Inr x \<longrightarrow> r' = Inr x \<or> r' = Inl value_limit)"

lemma agrees_refl [simp]: "agrees r r"
  by (simp add: agrees_def)

lemma agrees_rbind:
  "agrees r r' \<Longrightarrow> (\<And>x. r = Inr x \<Longrightarrow> agrees (f x) (f' x)) \<Longrightarrow> agrees (rbind r f) (rbind r' f')"
  by (cases r) (auto simp: agrees_def)

lemma agrees_bounded: "agrees r r' \<Longrightarrow> agrees (bounded r) (bounded r')"
  unfolding bounded_def by (rule agrees_rbind) auto

lemma agrees_try_fold:
  "(\<And>s x. x \<in> set xs \<Longrightarrow> agrees (f s x) (g s x)) \<Longrightarrow> agrees (try_fold f s xs) (try_fold g s xs)"
  by (induction xs arbitrary: s) (auto intro!: agrees_rbind)

lemma value_key_cases: "(\<exists>key. value_key v = Inr key) \<or> value_key v = Inl value_limit"
  by (cases "(v, [] :: bytes)" rule: encode_value.cases)
    (auto simp: value_key_def encode_bytes_def MAX_VALUE_BYTES_def value_limit_def)

section \<open>Predicates that hold\<close>

lemma typed_no_aggregate: "typed specs cols e \<Longrightarrow> \<not> exec_contains_aggregate e"
  by (induction specs cols e rule: typed.induct) auto

lemma sql_truth_True: "sql_truth v s = Inr TvTrue \<longleftrightarrow> v = Bool True"
  by (cases "(v, s)" rule: sql_truth.cases) auto

lemma predicate_exec_True:
  assumes "\<not> exec_contains_aggregate p"
  shows "predicate_exec p r ps = Inr True \<longleftrightarrow> sql_evaluate p (xr_row r) ps = Inr (Bool True)"
  using assms by (auto simp: predicate_exec_def predicate_matches_def rbind_eq_Inr map_err_eq_Inr sql_truth_True)

lemma evaluate_exec_scalar:
  "\<not> exec_contains_aggregate p \<Longrightarrow> evaluate_exec p r ps = map_err DbSql (sql_evaluate p (xr_row r) ps)"
  by (simp add: evaluate_exec.simps)

lemma equality_True:
  assumes "sql_evaluate (BBinary l SEq r s) row ps = Inr (Bool True)"
  obtains v where "v \<noteq> Null" "sql_evaluate l row ps = Inr v" "sql_evaluate r row ps = Inr v"
  using assms
  by (auto simp: rbind_eq_Inr sql_compare_def map_err_eq_Inr checked_cmp_equal_iff split: option.splits)

lemma conjunction_True:
  assumes "sql_evaluate (BBinary l SAnd r s) row ps = Inr (Bool True)"
  shows "sql_evaluate l row ps = Inr (Bool True)" "sql_evaluate r row ps = Inr (Bool True)"
  using assms
  by (auto simp: rbind_eq_Inr sql_truth_True split: if_splits elim!: tv_and.elims tv_into_value.elims)

lemma column_evaluates:
  "sql_evaluate (BColumn c s) row ps = Inr v \<Longrightarrow>
     bc_input_slot c < length (row_values row) \<and> v = row_values row ! bc_input_slot c"
  by (auto simp: rbind_eq_Inr result_simps)

section \<open>Index scans\<close>

lemma filter_rows_skip:
  assumes "filter_rows p ps rows = Inr rs"
    and "\<And>r. r \<in> set rows \<Longrightarrow> predicate_exec p r ps = Inr True \<Longrightarrow> Q r"
  shows "filter_rows p ps (filter Q rows) = Inr rs"
  using assms
proof (induction rows arbitrary: rs)
  case (Cons r rows)
  from Cons.prems(1) obtain keep rest where keep: "predicate_exec p r ps = Inr keep"
    and rest: "filter_rows p ps rows = Inr rest" and rs: "rs = (if keep then r # rest else rest)"
    by (auto simp: rbind_eq_Inr)
  have "filter_rows p ps (filter Q rows) = Inr rest" using Cons.IH[OF rest] Cons.prems(2) by simp
  with keep rs Cons.prems(2)[of r] show ?case by auto
qed simp

definition index_use :: "bound_table \<Rightarrow> sql_catalog \<Rightarrow> bound_expr \<Rightarrow> index_def \<times> index_constraint \<Rightarrow> bool" where
  "index_use table cat p = (\<lambda>(ix, ct).
     ix \<in> set (table_indexes cat (td_id (bd_table table)))
     \<and> (\<forall>row row' ps. sql_evaluate p row ps = Inr (Bool True) \<longrightarrow> ic_operator ct = SEq \<longrightarrow>
          (\<exists>v. sql_evaluate (ic_value ct) row' ps = Inr v
             \<and> column_value (Some row) (xd_column_index ix) = Some v))
     \<and> \<not> exec_contains_aggregate (ic_value ct)
     \<and> (\<forall>specs cols ps. typed specs cols p \<longrightarrow> validate_parameters specs ps = Inr () \<longrightarrow>
          (\<exists>v. \<forall>row. sql_evaluate (ic_value ct) row ps = Inr v)))"

lemma sargable_cases:
  assumes "sargable p = Some (col, op, v)"
  obtains l bop r s cs where "p = BBinary l bop r s"
    "l = BColumn col cs \<and> v = r \<and> op = bop \<or> r = BColumn col cs \<and> v = l \<and> op = reverse_comparison bop"
    "(\<exists>w ws. v = BLiteral w ws) \<or> (\<exists>i d ws. v = BParameter i d ws)"
proof -
  obtain l bop r s where p: "p = BBinary l bop r s" and "is_comparison bop"
    using assms by (auto simp: sargable_def split: bound_expr.splits if_splits)
  then show ?thesis using assms that by (cases l; cases r) (auto simp: sargable_def split: if_splits)
qed

lemma choose_index_for_use:
  assumes "choose_index_for table p cat = Some c" "columns_in [table] p" "bd_slot_offset table = 0"
  shows "index_use table cat p c"
proof -
  obtain col op v where sarg: "sargable p = Some (col, op, v)"
    using assms(1) by (auto simp: choose_index_for_def split: option.splits)
  from assms(1) sarg obtain ix where
    ix: "find (\<lambda>candidate. xd_column_index candidate = bc_column_index col)
       (table_indexes cat (td_id (bd_table table))) = Some ix"
    and c: "c = (ix, \<lparr>ic_column_index = bc_column_index col, ic_operator = op, ic_value = v\<rparr>)"
    by (auto simp: choose_index_for_def split: option.splits if_splits)
  have ix': "ix \<in> set (table_indexes cat (td_id (bd_table table)))" "xd_column_index ix = bc_column_index col"
    using ix by (auto simp: find_Some_iff)
  obtain l bop r s cs where p: "p = BBinary l bop r s"
    and sides: "l = BColumn col cs \<and> v = r \<and> op = bop \<or> r = BColumn col cs \<and> v = l \<and> op = reverse_comparison bop"
    and v: "(\<exists>w ws. v = BLiteral w ws) \<or> (\<exists>i d ws. v = BParameter i d ws)"
    using sarg by (rule sargable_cases)
  have slot: "bc_input_slot col = bc_column_index col"
    using assms(2,3) sides by (auto simp: p scope_column_def bound_column_of_def)
  have eq: "bop = SEq" if "op = SEq" using that sides by (cases bop) auto
  have "\<exists>w. sql_evaluate v row' ps = Inr w \<and> column_value (Some row) (xd_column_index ix) = Some w"
    if holds: "sql_evaluate p row ps = Inr (Bool True)" and op: "op = SEq" for row row' ps
  proof -
    from holds eq[OF op] obtain w where w: "sql_evaluate l row ps = Inr w" "sql_evaluate r row ps = Inr w"
      unfolding p by (auto simp del: sql_evaluate.simps elim: equality_True)
    then have "sql_evaluate v row ps = Inr w" and col: "sql_evaluate (BColumn col cs) row ps = Inr w"
      using sides by auto
    then have "sql_evaluate v row' ps = Inr w" using v by auto
    with column_evaluates[OF col] show ?thesis by (simp add: column_value_def ix'(2) slot)
  qed
  moreover have "\<exists>w. \<forall>row. sql_evaluate v row ps = Inr w"
    if typed: "typed specs cols p" and ps: "validate_parameters specs ps = Inr ()" for specs cols ps
  proof -
    from typed sides have "typed specs cols v" by (auto simp: p)
    with v show ?thesis using validate_parameters_value[OF ps] by (fastforce simp: result_simps checked_get_def)
  qed
  moreover have "\<not> exec_contains_aggregate v" using v by auto
  ultimately show ?thesis using ix'(1) unfolding index_use_def c by simp blast
qed

lemma choose_index_use:
  assumes "choose_index table p cat = Some c" "columns_in [table] p" "bd_slot_offset table = 0"
  shows "index_use table cat p c"
  using assms
proof (induction table p cat rule: choose_index.induct)
  case (1 table p cat)
  show ?case
  proof (cases "\<exists>l r s. p = BBinary l SAnd r s")
    case True
    then obtain l r s where p: "p = BBinary l SAnd r s" by blast
    show ?thesis
    proof (cases "choose_index table l cat")
      case (Some c')
      with 1 have "index_use table cat l c" by (simp add: p choose_index.simps[of table "BBinary l SAnd r s"])
      then show ?thesis unfolding p index_use_def
        by (auto simp del: sql_evaluate.simps dest: conjunction_True(1))
    next
      case None
      with 1 have "index_use table cat r c" by (simp add: p choose_index.simps[of table "BBinary l SAnd r s"])
      then show ?thesis unfolding p index_use_def
        by (auto simp del: sql_evaluate.simps dest: conjunction_True(2))
    qed
  next
    case False
    then have "choose_index table p cat = choose_index_for table p cat"
      by (auto simp: choose_index.simps[of table p] split: bound_expr.splits sql_binary_op.splits)
    with 1 show ?thesis by (auto intro: choose_index_for_use)
  qed
qed

lemma engine_catalog_index:
  assumes "engine_inv e" "ix \<in> set (table_indexes (engine_catalog e None) tid)"
  obtains i where "catalog_index (eng_catalog e) (xd_id ix) = Some i" "im_table_id i = tid"
    "im_column i = xd_column_index ix"
proof -
  from assms(2) obtain i where i: "i \<in> set (bt_values (cat_indexes (eng_catalog e)))"
    "xd_id ix = im_id i" "im_table_id i = tid" "im_column i = xd_column_index ix"
    by (auto simp: engine_catalog_def engine_catalog_indexes_def Let_def)
  then obtain ident where "bt_get (cat_indexes (eng_catalog e)) ident = Some i"
    by (auto simp: bt_values_def bt_entries_get)
  moreover have "ident = im_id i" using assms(1) calculation by (auto simp: engine_inv_def meta_inv_def catalog_ok_def)
  ultimately show ?thesis using i by (intro that[of i]) (auto simp: catalog_index_def)
qed

lemma scan_secondary_limit:
  assumes "scan_table e t tid = Inr rows" "catalog_index (eng_catalog e) iid = Some i" "v \<noteq> Null"
    and "value_key v = Inl value_limit"
  shows "map_err DbEngine (scan_secondary e t iid v) = Inl value_limit"
  using assms
  by (cases "encode_value v []")
    (auto simp: scan_table_def scan_secondary_def value_key_def value_limit_def rbind_eq_Inr is_null_def)

lemma index_scan_agrees:
  assumes inv: "engine_inv e" and ts: "txn_read_ts t = last_applied e"
    and use: "index_use table (engine_catalog e None) p (ix, ct)"
    and typed: "typed specs cols p" and ps: "validate_parameters specs ps = Inr ()"
  shows "agrees (execute_plan e t ps (PFilter (PSeqScan table) p))
    (execute_plan e t ps (PFilter (PIndexScan table ix ct) p))"
  unfolding agrees_def
proof (intro allI impI)
  let ?tid = "td_id (bd_table table)"
  fix out
  assume naive: "execute_plan e t ps (PFilter (PSeqScan table) p) = Inr out"
  then obtain rows where scan: "scan_table e t ?tid = Inr rows" and bound: "length rows \<le> MAX_INTERMEDIATE_ROWS"
    and filtered: "filter_rows p ps (map exec_row_plain rows) = Inr out" and out: "length out \<le> MAX_INTERMEDIATE_ROWS"
    by (auto simp: bounded_def ensure_intermediate_bound_def rbind_eq_Inr map_err_eq_Inr split: if_splits)
  have agg: "\<not> exec_contains_aggregate (ic_value ct)"
    and "\<exists>v. \<forall>row. sql_evaluate (ic_value ct) row ps = Inr v"
    using use typed ps unfolding index_use_def by blast+
  then obtain v where v: "\<And>row. sql_evaluate (ic_value ct) row ps = Inr v" by blast
  show "execute_plan e t ps (PFilter (PIndexScan table ix ct) p) = Inr out
      \<or> execute_plan e t ps (PFilter (PIndexScan table ix ct) p) = Inl value_limit"
  proof (cases "ic_operator ct = SEq \<and> v \<noteq> Null")
    case True
    obtain i where i: "catalog_index (eng_catalog e) (xd_id ix) = Some i" "im_table_id i = ?tid"
      "im_column i = xd_column_index ix"
      using inv use by (auto simp: index_use_def elim: engine_catalog_index)
    let ?Q = "\<lambda>r. column_value (Some r) (im_column i) = Some v"
    consider (limit) "value_key v = Inl value_limit" | (key) bs where "encode_value v [] = Inr bs"
      using value_key_cases[of v] by (auto simp: value_key_def map_err_eq_Inr)
    then show ?thesis
    proof cases
      case limit
      with scan_secondary_limit[OF scan i(1)] True show ?thesis
        by (simp add: index_scan_def evaluate_exec_scalar[OF agg] v bounded_def is_null_def)
    next
      case key
      have "scan_secondary e t (xd_id ix) v = Inr (filter ?Q rows)"
        using scan_secondary_filter[OF inv ts i(1) _ key] True scan i(2) by simp
      moreover have "filter_rows p ps (map exec_row_plain (filter ?Q rows)) = Inr out"
      proof -
        have "?Q (xr_row r)" if "predicate_exec p r ps = Inr True" for r
        proof -
          have "sql_evaluate p (xr_row r) ps = Inr (Bool True)"
            using that predicate_exec_True[OF typed_no_aggregate[OF typed]] by blast
          then have "\<exists>w. sql_evaluate (ic_value ct) (xr_row r) ps = Inr w
              \<and> column_value (Some (xr_row r)) (xd_column_index ix) = Some w"
            using use True unfolding index_use_def by blast
          then show ?thesis using v by (simp add: i(3))
        qed
        then show ?thesis
          using filter_rows_skip[OF filtered, of "\<lambda>r. ?Q (xr_row r)"] by (simp add: filter_map o_def exec_row_plain_def)
      qed
      moreover have "length (filter ?Q rows) \<le> MAX_INTERMEDIATE_ROWS"
        using bound length_filter_le[of ?Q rows] by linarith
      ultimately show ?thesis using True out
        by (simp add: index_scan_def evaluate_exec_scalar[OF agg] v bounded_def ensure_intermediate_bound_def is_null_def)
    qed
  next
    case False
    with naive show ?thesis by (auto simp: index_scan_def evaluate_exec_scalar[OF agg] v is_null_def)
  qed
qed

section \<open>Hash joins\<close>

lemma join_fold_skip:
  assumes "try_fold (join_push on ps outer) out rows = Inr out'"
    and "\<And>r. r \<in> set rows \<Longrightarrow> predicate_exec on (combine_rows outer r) ps = Inr True \<Longrightarrow> Q r"
  shows "try_fold (join_push on ps outer) out (filter Q rows) = Inr out'"
  using assms
proof (induction rows arbitrary: out)
  case (Cons r rows)
  from Cons.prems(1) obtain mid where mid: "join_push on ps outer out r = Inr mid"
    and rest: "try_fold (join_push on ps outer) mid rows = Inr out'" by (auto simp: rbind_eq_Inr)
  have skipped: "try_fold (join_push on ps outer) mid (filter Q rows) = Inr out'"
    using Cons.IH[OF rest] Cons.prems(2) by simp
  show ?case
  proof (cases "Q r")
    case False
    with Cons.prems(2)[of r] mid have "mid = out" by (auto simp: join_push_def Let_def rbind_eq_Inr split: if_splits)
    with False skipped show ?thesis by simp
  qed (simp add: mid skipped)
qed simp

definition bucket :: "(bytes, exec_row list) btmap \<Rightarrow> bytes \<Rightarrow> exec_row list" where
  "bucket buckets key = (case bt_get buckets key of None \<Rightarrow> [] | Some rows \<Rightarrow> rows)"

definition in_bucket :: "nat \<Rightarrow> bytes \<Rightarrow> exec_row \<Rightarrow> bool" where
  "in_bucket column key r \<longleftrightarrow>
     \<not> is_null (row_values (xr_row r) ! column) \<and> value_key (row_values (xr_row r) ! column) = Inr key"

lemma build_buckets:
  assumes "\<And>r. r \<in> set rows \<Longrightarrow> column < length (row_values (xr_row r))"
    and "\<And>key. bucket buckets key = filter (in_bucket column key) seen"
  shows "try_fold (build_bucket column) buckets rows = Inl value_limit
    \<or> (\<exists>built. try_fold (build_bucket column) buckets rows = Inr built
         \<and> (\<forall>key. bucket built key = filter (in_bucket column key) (seen @ rows)))"
  using assms
proof (induction rows arbitrary: buckets seen)
  case (Cons r rows)
  let ?v = "row_values (xr_row r) ! column"
  have get: "checked_get (row_values (xr_row r)) column = Some ?v" using Cons.prems(1)[of r] by (simp add: checked_get_def)
  show ?case
  proof (cases "value_key ?v = Inl value_limit \<and> \<not> is_null ?v")
    case True
    then show ?thesis by (simp add: build_bucket_def get)
  next
    case False
    then obtain mid where mid: "build_bucket column buckets r = Inr mid"
      and buckets: "\<And>key. bucket mid key = filter (in_bucket column key) (seen @ [r])"
    proof (cases "is_null ?v")
      case True
      then have "\<not> in_bucket column k r" for k by (simp add: in_bucket_def)
      with True show ?thesis using that[of buckets] Cons.prems(2) by (simp add: build_bucket_def get)
    next
      case nonnull: False
      with False value_key_cases[of ?v] obtain key where "value_key ?v = Inr key" by auto
      moreover from this nonnull have "in_bucket column k r \<longleftrightarrow> k = key" for k by (auto simp: in_bucket_def)
      moreover have "bucket (bucket_push buckets key r) k = bucket buckets k @ (if k = key then [r] else [])" for k
        by (simp add: bucket_push_def bucket_def)
      ultimately show ?thesis using that[of "bucket_push buckets key r"] nonnull Cons.prems(2)
        by (simp add: build_bucket_def get)
    qed
    from Cons.IH[of mid "seen @ [r]"] Cons.prems(1) buckets show ?thesis by (simp add: mid)
  qed
qed simp

lemma hash_probe_agrees:
  assumes key: "evaluate_exec left_key outer ps = Inr v"
    and buckets: "\<And>key. bucket buckets key = filter (in_bucket column key) rows"
    and match: "\<And>r. r \<in> set rows \<Longrightarrow> predicate_exec on (combine_rows outer r) ps = Inr True
      \<Longrightarrow> v \<noteq> Null \<and> row_values (xr_row r) ! column = v"
  shows "agrees (try_fold (join_push on ps outer) out rows) (hash_probe on left_key ps buckets out outer)"
  unfolding agrees_def
proof (intro allI impI)
  fix out'
  assume nested: "try_fold (join_push on ps outer) out rows = Inr out'"
  consider (null) "v = Null" | (limit) "v \<noteq> Null" "value_key v = Inl value_limit" | (key) k where "v \<noteq> Null" "value_key v = Inr k"
    using value_key_cases[of v] by blast
  then show "hash_probe on left_key ps buckets out outer = Inr out' \<or> hash_probe on left_key ps buckets out outer = Inl value_limit"
  proof cases
    case null
    have "out' = out" using join_fold_skip[OF nested, of "\<lambda>_. False"] match null by auto
    then show ?thesis by (simp add: hash_probe_def key null is_null_def)
  next
    case limit
    then show ?thesis by (simp add: hash_probe_def key is_null_def)
  next
    case (key k)
    have "try_fold (join_push on ps outer) out (bucket buckets k) = Inr out'"
      unfolding buckets using match key by (intro join_fold_skip[OF nested]) (auto simp: in_bucket_def is_null_def)
    moreover have "hash_probe on left_key ps buckets out outer = try_fold (join_push on ps outer) out (bucket buckets k)"
      using key by (simp add: hash_probe_def assms(1) bucket_def is_null_def split: option.split)
    ultimately show ?thesis by simp
  qed
qed

lemma hash_join_agrees:
  assumes column: "\<And>r. r \<in> set right \<Longrightarrow> column < length (row_values (xr_row r))"
    and key: "\<And>outer. outer \<in> set left \<Longrightarrow> \<exists>v. evaluate_exec left_key outer ps = Inr v"
    and match: "\<And>outer r v. outer \<in> set left \<Longrightarrow> r \<in> set right \<Longrightarrow> evaluate_exec left_key outer ps = Inr v
      \<Longrightarrow> predicate_exec on (combine_rows outer r) ps = Inr True \<Longrightarrow> v \<noteq> Null \<and> row_values (xr_row r) ! column = v"
  shows "agrees (nested_loop_join on ps left right) (hash_join on left_key column ps left right)"
proof -
  have "bucket bt_empty k = filter (in_bucket column k) []" for k by (simp add: bucket_def)
  from build_buckets[OF column this] consider (limit) "try_fold (build_bucket column) bt_empty right = Inl value_limit"
    | (built) built where "try_fold (build_bucket column) bt_empty right = Inr built"
      "\<And>k. bucket built k = filter (in_bucket column k) right" by auto
  then show ?thesis
  proof cases
    case limit
    then show ?thesis by (simp add: hash_join_def agrees_def)
  next
    case built
    have "agrees (try_fold (join_push on ps outer) out right) (hash_probe on left_key ps built out outer)"
      if outer: "outer \<in> set left" for outer out
    proof -
      obtain v where v: "evaluate_exec left_key outer ps = Inr v" using key[OF outer] by blast
      show ?thesis using match[OF outer _ v] by (intro hash_probe_agrees[OF v built(2)]) blast
    qed
    then show ?thesis by (auto simp: nested_loop_join_def hash_join_def built(1) intro: agrees_try_fold)
  qed
qed

section \<open>Rows fit their columns\<close>

lemma created_table:
  "(case mut of CreateTable m \<Rightarrow> Some (f m) | CreateIndex i \<Rightarrow> None) = Some d \<longleftrightarrow> (\<exists>m. mut = CreateTable m \<and> f m = d)"
  by (cases mut) auto

lemma engine_catalog_table:
  assumes inv: "engine_inv e" and ok: "txn_ok e t" and td: "td \<in> set (engine_catalog_tables e (Some t))"
  obtains m where "table_for_transaction e t (td_id td) = Inr m" "tm_schema m = td_schema td"
proof -
  have cat: "catalog_ok (eng_catalog e)" using inv by (simp add: engine_inv_def meta_inv_def)
  have staged: "tables_staged (eng_catalog e) (staged_tables (txn_catalog_mutations t))"
    using ok by (simp add: txn_ok_def)
  from td consider (committed) ident m where "bt_get (cat_tables (eng_catalog e)) ident = Some m"
      "td_id td = tm_id m" "td_schema td = tm_schema m"
    | (staged) m where "CreateTable m \<in> set (txn_catalog_mutations t)" "td_id td = tm_id m" "td_schema td = tm_schema m"
    by (auto simp: engine_catalog_tables_def Let_def set_bt_values set_map_filter created_table)
  then show ?thesis
  proof cases
    case committed
    then have "catalog_table (eng_catalog e) (tm_id m) = Some m" using cat by (auto simp: catalog_ok_def catalog_table_def)
    moreover from this staged have "staged_table t (tm_id m) = None"
      by (force simp: staged_table_None tables_staged_def set_staged catalog_table_def)
    ultimately show ?thesis using committed that by (simp add: table_for_transaction_Inr)
  next
    case staged': staged
    then have "staged_table t (tm_id m) = Some m" using staged by (simp add: staged_table_iff tables_staged_def)
    with staged' show ?thesis using that by (simp add: table_for_transaction_Inr)
  qed
qed

lemma read_key_fits:
  assumes inv: "engine_inv e" and ok: "txn_ok e t" and r: "read_key e t k = Some r"
    and m: "table_for_transaction e t (lk_table_id k) = Inr m"
  shows "row_ok (tm_schema m) r"
proof (cases "overlay t k")
  case None
  with r obtain v where "v \<in> set (prim e k)" "rv_row v = Some r" by (auto simp: read_key_view dest!: view_SomeD)
  with inv have "row_fits (eng_catalog e) k r" by (auto simp: engine_inv_def rows_inv_def)
  moreover have "staged_table t (lk_table_id k) = None" if "catalog_table (eng_catalog e) (lk_table_id k) = Some x" for x
    using that ok by (force simp: txn_ok_def staged_table_None tables_staged_def set_staged catalog_table_def)
  ultimately show ?thesis using m by (auto simp: row_fits_def table_for_transaction_Inr)
next
  case (Some mut)
  with r obtain w where w: "bt_get (txn_writes t) k = Some w" "tw_mutation w = Put r"
    by (auto simp: read_key_def overlay_def split: mutation.splits)
  with ok have "write_logical_key w = Inr k" "write_fits e t w" by (auto simp: txn_ok_def txn_wf_def)
  with w(2) m show ?thesis by (auto simp: write_fits_def write_logical_key_def logical_key_new_ok)
qed

lemma scan_table_fits:
  assumes "engine_inv e" "txn_ok e t" "td \<in> set (engine_catalog_tables e (Some t))"
    and scan: "scan_table e t (td_id td) = Inr rows" and r: "r \<in> set rows"
  shows "list_all2 cell_ok (columns (td_schema td)) (row_values r)"
proof -
  obtain ks where "rows = List.map_filter (read_key e t) ks" "\<forall>k \<in> set ks. lk_table_id k = td_id td"
    using scan by (rule scan_table_Inr)
  with r obtain k where k: "read_key e t k = Some r" "lk_table_id k = td_id td" by (auto simp: set_map_filter)
  from assms(1-3) obtain m where m: "table_for_transaction e t (td_id td) = Inr m" "tm_schema m = td_schema td"
    by (rule engine_catalog_table)
  from read_key_fits[OF assms(1,2) k(1)] k(2) m show ?thesis by (simp add: row_ok_def)
qed

definition fits :: "scope \<Rightarrow> exec_row \<Rightarrow> bool" where
  "fits tables r \<longleftrightarrow> list_all2 cell_ok (scope_columns tables) (row_values (xr_row r))"

lemma fits_combine: "fits ls l \<Longrightarrow> fits rs r \<Longrightarrow> fits (ls @ rs) (combine_rows l r)"
  by (auto simp: fits_def combine_rows_def scope_columns_def intro: list_all2_appendI)

lemma seq_scan_fits:
  assumes "engine_inv e" "txn_ok e t" "resolved (engine_catalog e (Some t)) [table]"
    and "execute_plan e t ps (PSeqScan table) = Inr rows" "r \<in> set rows"
  shows "fits [table] r"
proof -
  have "bd_table table \<in> set (engine_catalog_tables e (Some t))"
    using assms(3) by (auto simp: resolved_def engine_catalog_def find_Some_iff)
  from scan_table_fits[OF assms(1,2) this] assms(4,5) show ?thesis
    by (auto simp: bounded_def rbind_eq_Inr map_err_eq_Inr exec_row_plain_def fits_def scope_columns_def table_columns_def)
qed

lemma nested_loop_rows:
  assumes "nested_loop_join on ps left right = Inr rows" "r \<in> set rows"
  shows "\<exists>l \<in> set left. \<exists>x \<in> set right. r = combine_rows l x"
proof -
  let ?P = "\<lambda>rows. \<forall>r \<in> set rows. \<exists>l \<in> set left. \<exists>x \<in> set right. r = combine_rows l x"
  have push: "?P u \<Longrightarrow> l \<in> set left \<Longrightarrow> x \<in> set right \<Longrightarrow> join_push on ps l u x = Inr v \<Longrightarrow> ?P v" for u l x v
    by (auto simp: join_push_def Let_def rbind_eq_Inr split: if_splits) blast
  have inner: "?P v" if "?P u" "l \<in> set left" "try_fold (join_push on ps l) u right = Inr v" for u l v
    by (rule try_fold_invariant[where P = ?P, OF that(3,1)]) (rule push[OF _ that(2)])
  have "?P rows"
    using assms(1) unfolding nested_loop_join_def
    by (rule try_fold_invariant[where P = ?P]) (simp, rule inner)
  then show ?thesis using assms(2) by blast
qed

lemma execute_join_nested [simp]:
  "execute_join on NestedLoop right_plan ps left right = nested_loop_join on ps left right"
  by (simp add: execute_join_def split: option.split)

lemma from_clause_fits:
  assumes "engine_inv e" "txn_ok e t"
    and "from_clause plan" "resolved (engine_catalog e (Some t)) (plan_scope plan)"
    and "execute_plan e t ps (naive plan) = Inr rows" "r \<in> set rows"
  shows "fits (plan_scope plan) r"
  using assms(3-)
proof (induction plan arbitrary: rows r rule: from_clause.induct)
  case (1 table)
  with seq_scan_fits[OF assms(1,2)] show ?case by simp
next
  case (2 l table on)
  from 2 obtain left right where left: "execute_plan e t ps (naive l) = Inr left"
    and right: "execute_plan e t ps (PSeqScan table) = Inr right" and "nested_loop_join on ps left right = Inr rows"
    by (auto simp: bounded_def rbind_eq_Inr)
  with 2 obtain x y where "x \<in> set left" "y \<in> set right" "r = combine_rows x y" by (auto dest: nested_loop_rows)
  moreover have "resolved (engine_catalog e (Some t)) [table]" "resolved (engine_catalog e (Some t)) (plan_scope l)"
    using 2 by (auto simp: resolved_def)
  ultimately show ?case using 2 left seq_scan_fits[OF assms(1,2) _ right] by (auto intro!: fits_combine)
qed simp_all

section \<open>Join algorithms\<close>

lemma join_column:
  assumes "slots_from 0 (tables @ [inner])" "distinct (map (\<lambda>t. td_id (bd_table t)) (tables @ [inner]))"
    and "scope_column (tables @ [inner]) c"
  shows "bc_table_id c = td_id (bd_table inner) \<Longrightarrow>
      bc_input_slot c = length (scope_columns tables) + bc_column_index c
      \<and> bc_column_index c < length (table_columns inner)"
    and "bc_table_id c \<noteq> td_id (bd_table inner) \<Longrightarrow> checked_get (scope_columns tables) (bc_input_slot c) = Some (bc_column c)"
proof -
  obtain t i where t: "t \<in> set (tables @ [inner])" and i: "i < length (table_columns t)"
    and c: "c = bound_column_of t i (table_columns t ! i)"
    using assms(3) by (auto simp: scope_column_def)
  have slots: "slots_from 0 tables" "bd_slot_offset inner = length (scope_columns tables)"
    using assms(1) by (auto simp: slots_from_append)
  show "bc_input_slot c = length (scope_columns tables) + bc_column_index c
      \<and> bc_column_index c < length (table_columns inner)" if "bc_table_id c = td_id (bd_table inner)"
  proof -
    have "t = inner" using that t assms(2) by (auto simp: c bound_column_of_def image_iff)
    then show ?thesis using i slots(2) by (simp add: c bound_column_of_def)
  qed
  show "checked_get (scope_columns tables) (bc_input_slot c) = Some (bc_column c)"
    if "bc_table_id c \<noteq> td_id (bd_table inner)"
  proof -
    have "t \<in> set tables" using that t by (auto simp: c bound_column_of_def)
    from slots_from_lookup[OF slots(1) this i] show ?thesis by (simp add: c bound_column_of_def)
  qed
qed

lemma hash_columns_agree:
  assumes slots: "slots_from 0 (tables @ [inner])"
    and once: "distinct (map (\<lambda>t. td_id (bd_table t)) (tables @ [inner]))"
    and k: "scope_column (tables @ [inner]) k" "bc_table_id k \<noteq> td_id (bd_table inner)"
    and c: "scope_column (tables @ [inner]) c" "bc_table_id c = td_id (bd_table inner)"
    and left: "\<And>r. r \<in> set left \<Longrightarrow> fits tables r" and right: "\<And>r. r \<in> set right \<Longrightarrow> fits [inner] r"
    and match: "\<And>r. predicate_exec on r ps = Inr True \<Longrightarrow> \<exists>v. v \<noteq> Null
      \<and> sql_evaluate (BColumn k ks) (xr_row r) ps = Inr v \<and> sql_evaluate (BColumn c cs) (xr_row r) ps = Inr v"
  shows "agrees (nested_loop_join on ps left right) (hash_join on (BColumn k ks) (bc_column_index c) ps left right)"
proof (rule hash_join_agrees)
  note k_slot = join_column(2)[OF slots once k] and c_slot = join_column(1)[OF slots once c]
  show column: "bc_column_index c < length (row_values (xr_row r))" if "r \<in> set right" for r
    using right[OF that] c_slot by (auto simp: fits_def scope_columns_def dest: list_all2_lengthD)
  have key: "bc_input_slot k < length (row_values (xr_row outer))
      \<and> evaluate_exec (BColumn k ks) outer ps = Inr (row_values (xr_row outer) ! bc_input_slot k)"
    if "outer \<in> set left" for outer
  proof -
    from left[OF that] k_slot have "bc_input_slot k < length (row_values (xr_row outer))"
      and "cell_ok (bc_column k) (row_values (xr_row outer) ! bc_input_slot k)"
      by (auto simp: fits_def list_all2_conv_all_nth result_simps)
    then show ?thesis
      by (auto simp: evaluate_exec_scalar checked_get_def cell_ok_def ensure_runtime_type_def split: option.splits if_splits)
  qed
  show "\<exists>v. evaluate_exec (BColumn k ks) outer ps = Inr v" if "outer \<in> set left" for outer using key[OF that] by blast
  show "v \<noteq> Null \<and> row_values (xr_row r) ! bc_column_index c = v"
    if outer: "outer \<in> set left" and r: "r \<in> set right" and v: "evaluate_exec (BColumn k ks) outer ps = Inr v"
      and holds: "predicate_exec on (combine_rows outer r) ps = Inr True" for outer r v
  proof -
    have "length (row_values (xr_row outer)) = length (scope_columns tables)"
      using left[OF outer] by (simp add: fits_def list_all2_lengthD)
    moreover obtain w where "w \<noteq> Null"
      and k: "sql_evaluate (BColumn k ks) (xr_row (combine_rows outer r)) ps = Inr w"
      and c: "sql_evaluate (BColumn c cs) (xr_row (combine_rows outer r)) ps = Inr w" using match[OF holds] by blast
    ultimately show ?thesis
      using key[OF outer] v c_slot column_evaluates[OF k] column_evaluates[OF c]
      by (auto simp: combine_rows_def nth_append)
  qed
qed

lemma join_agrees:
  assumes slots: "slots_from 0 (tables @ [inner])"
    and once: "distinct (map (\<lambda>t. td_id (bd_table t)) (tables @ [inner]))"
    and on: "columns_in (tables @ [inner]) on"
    and left: "\<And>r. r \<in> set left \<Longrightarrow> fits tables r" and right: "\<And>r. r \<in> set right \<Longrightarrow> fits [inner] r"
  shows "agrees (nested_loop_join on ps left right) (execute_join on algorithm (PSeqScan inner) ps left right)"
proof (cases "hash_join_keys on (PSeqScan inner)")
  case None
  then show ?thesis by (simp add: execute_join_def)
next
  case (Some key)
  obtain a as b bs s where e: "on = BBinary (BColumn a as) SEq (BColumn b bs) s"
    using Some by (auto simp: hash_join_keys_def split: bound_expr.splits sql_binary_op.splits)
  let ?tid = "td_id (bd_table inner)"
  have scoped: "scope_column (tables @ [inner]) a" "scope_column (tables @ [inner]) b" using on by (simp_all add: e)
  have match: "\<exists>v. v \<noteq> Null \<and> sql_evaluate (BColumn a as) (xr_row r) ps = Inr v
      \<and> sql_evaluate (BColumn b bs) (xr_row r) ps = Inr v" if "predicate_exec on r ps = Inr True" for r
  proof -
    have "sql_evaluate on (xr_row r) ps = Inr (Bool True)" using that by (subst (asm) predicate_exec_True) (simp_all add: e)
    then show ?thesis unfolding e by (rule equality_True) blast
  qed
  consider (right) "bc_table_id a \<noteq> ?tid" "bc_table_id b = ?tid" "key = (BColumn a as, bc_column_index b)"
    | (left) "bc_table_id a = ?tid" "bc_table_id b \<noteq> ?tid" "key = (BColumn b bs, bc_column_index a)"
    using Some by (auto simp: e hash_join_keys_def Let_def split: if_splits)
  then have "agrees (nested_loop_join on ps left right) (hash_join on (fst key) (snd key) ps left right)"
  proof cases
    case right
    show ?thesis
      using hash_columns_agree[OF slots once scoped(1) right(1) scoped(2) right(2) assms(4,5) match] right(3) by simp
  next
    case left
    have match': "\<exists>v. v \<noteq> Null \<and> sql_evaluate (BColumn b bs) (xr_row r) ps = Inr v
      \<and> sql_evaluate (BColumn a as) (xr_row r) ps = Inr v" if "predicate_exec on r ps = Inr True" for r
      using match[OF that] by blast
    show ?thesis
      using hash_columns_agree[OF slots once scoped(2) left(2) scoped(1) left(1) assms(4,5) match'] left(3) by simp
  qed
  then show ?thesis by (simp add: execute_join_def Some split_beta)
qed

section \<open>The optimizer\<close>

lemma optimize_agrees:
  assumes inv: "engine_inv e" and ok: "txn_ok e t" and ts: "txn_read_ts t = last_applied e"
    and ps: "validate_parameters specs ps = Inr ()"
    and plan: "plan_ok plan" "slots_from 0 (plan_scope plan)" "resolved (engine_catalog e (Some t)) (plan_scope plan)"
    and once: "distinct (map (\<lambda>t. td_id (bd_table t)) (plan_scope plan))"
    and typed: "sites_ok specs (plan_sites plan)"
  shows "agrees (execute_plan e t ps (naive plan)) (execute_plan e t ps (optimize (engine_catalog e None) plan))"
  using plan once typed
proof (induction plan)
  case (LFilter input p)
  let ?cat = "engine_catalog e None"
  have IH: "agrees (execute_plan e t ps (naive (LFilter input p))) (execute_plan e t ps (PFilter (optimize ?cat input) p))"
    using LFilter by (auto intro!: agrees_bounded agrees_rbind)
  show ?case
  proof (cases "\<exists>table c. input = LScan table \<and> choose_index table p ?cat = Some c")
    case True
    then obtain table ix ct where input: "input = LScan table" and c: "choose_index table p ?cat = Some (ix, ct)" by auto
    have "index_use table ?cat p (ix, ct)" using LFilter.prems by (intro choose_index_use[OF c]) (simp_all add: input)
    moreover have "typed specs (plan_columns input) p" using LFilter.prems by (simp add: site_ok_def)
    ultimately show ?thesis using index_scan_agrees[OF inv ts _ _ ps] by (simp add: input c)
  next
    case False
    then have "optimize ?cat (LFilter input p) = PFilter (optimize ?cat input) p"
      by (auto split: logical_plan.splits option.splits)
    with IH show ?thesis by simp
  qed
next
  case (LJoin l r on)
  then obtain inner where r: "r = LScan inner" and from_l: "from_clause l" by (cases r) auto
  have l: "plan_ok l" "slots_from 0 (plan_scope l)" "resolved (engine_catalog e (Some t)) (plan_scope l)"
      "distinct (map (\<lambda>t. td_id (bd_table t)) (plan_scope l))" "sites_ok specs (plan_sites l)"
    and scan: "resolved (engine_catalog e (Some t)) [inner]"
    using LJoin.prems by (auto simp: r slots_from_append resolved_def)
  have tables: "slots_from 0 (plan_scope l @ [inner])"
      "distinct (map (\<lambda>t. td_id (bd_table t)) (plan_scope l @ [inner]))" "columns_in (plan_scope l @ [inner]) on"
    using LJoin.prems unfolding r by simp_all
  have "agrees (nested_loop_join on ps left right) (execute_join on algorithm (PSeqScan inner) ps left right)"
    if "execute_plan e t ps (naive l) = Inr left" "execute_plan e t ps (PSeqScan inner) = Inr right" for left right algorithm
    using from_clause_fits[OF inv ok from_l l(3) that(1)] seq_scan_fits[OF inv ok scan that(2)]
    by (rule join_agrees[OF tables])
  with LJoin.IH(1)[OF l] show ?case unfolding r by (auto intro!: agrees_bounded agrees_rbind)
qed (auto intro!: agrees_bounded agrees_rbind)

text \<open>
  C39: Plans chosen by the optimizer return what the query means.  Let a query be bound and its
  parameters accepted, for a transaction that reads the current state, and let no table occur twice in
  its \<open>FROM\<close> clause.  If scanning the tables, joining by nested loops and then filtering gives a result,
  \<open>prepare_and_execute_output\<close>, which uses indexes and hash joins, gives the same columns and the same rows
  in the same order, whatever the transaction has staged; the only other outcome is the error for a
  value that is too long to be encoded.
\<close>

theorem optimizer_preserves_results:
  assumes "engine_inv e" "txn_ok e t" "txn_read_ts t = last_applied e"
    and "bind st (engine_catalog e (Some t)) = Inr out" "distinct (statement_parameters (fst st))"
    and "bout_statement out = BsQuery plan outs"
    and "distinct (map (\<lambda>table. td_id (bd_table table)) (plan_scope plan))"
    and "validate_parameters (bout_parameters out) ps = Inr ()"
    and "execute_bound e t (BsQuery plan outs) (Some (naive plan)) ps = Inr res"
  shows "prepare_and_execute_output e t st ps = Inr res
    \<or> prepare_and_execute_output e t st ps = Inl (DbEngine (Core (LimitExceeded ''value bytes'')))"
proof -
  have "layout (engine_catalog e (Some t)) plan" using assms(4,6) by (rule bind_query_layout)
  moreover have "sites_ok (bout_parameters out) (plan_sites plan)" using bind_sites[OF assms(4,5)] assms(6) by simp
  ultimately have "agrees (execute_plan e t ps (naive plan)) (execute_plan e t ps (optimize (engine_catalog e None) plan))"
    using optimize_agrees[OF assms(1-3,8)] assms(7) by (simp add: layout_def)
  then have "agrees (execute_bound e t (BsQuery plan outs) (Some (naive plan)) ps)
      (execute_bound e t (BsQuery plan outs) (Some (optimize (engine_catalog e None) plan)) ps)"
    by (auto simp: execute_bound_def intro: agrees_rbind)
  with assms(9) show ?thesis
    by (simp add: agrees_def prepare_and_execute_output_def assms(4,6,8) physical_plan_of_def value_limit_def)
qed

section \<open>Examples\<close>

definition ox_column :: "string \<Rightarrow> string \<Rightarrow> sql_expr" where
  "ox_column table name = ExColumn (Some (sx_ident table)) (sx_ident name) span_default"

definition ox_source :: "string \<Rightarrow> string \<Rightarrow> table_source" where
  "ox_source name as_name = \<lparr>ts_name = sx_ident name, ts_alias = Some (sx_ident as_name), ts_span = span_default\<rparr>"

text \<open>\<open>SELECT a.id FROM acct a WHERE a.bal = ?\<close>\<close>

definition ox_lookup :: statement where
  "ox_lookup = StSelect \<lparr>sel_projection = [SelExpr (ox_column ''a'' ''id'') None], sel_from = ox_source ''acct'' ''a'',
     sel_joins = [], sel_selection = Some (ExBinary (ox_column ''a'' ''bal'') SEq (ExParameter 0 span_default) span_default),
     sel_group_by = [], sel_order_by = [], sel_limit = None\<rparr>"

definition ox_bound :: bind_output where
  "ox_bound = projr (bind (ox_lookup, span_default) (engine_catalog ex2 (Some ex_txn')))"

definition ox_plan :: "bound_statement \<Rightarrow> logical_plan" where
  "ox_plan st = (case st of BsQuery plan _ \<Rightarrow> plan)"

definition ox_outs :: "bound_statement \<Rightarrow> named_expr list" where
  "ox_outs st = (case st of BsQuery _ outs \<Rightarrow> outs)"

lemma ox_txn_ok: "txn_ok ex2 ex_txn'"
proof -
  have "catalog_ok (eng_catalog ex2)" using ex_inv(2) by (simp add: engine_inv_def meta_inv_def)
  moreover have "txn_ok ex2 ex_txn" by (simp add: ex_txn_def txn_ok_new)
  ultimately show ?thesis using txn_step_ok[OF txn_step.Insert[OF ex_insert]] ex_room by blast
qed

lemma query_keeps_transaction: "execute_bound e t (BsQuery plan outs) p ps = Inr (x, t') \<Longrightarrow> t' = t"
  by (auto simp: execute_bound_def rbind_eq_Inr split: if_splits)

theorem optimizer_preserves_results_witness:
  "prepare_and_execute_output ex2 ex_txn' (ox_lookup, span_default) [Text ''90'']
     = Inr (OutQuery [''id''] [\<lparr>row_values = [Text ''j'']\<rparr>, \<lparr>row_values = [Text ''k'']\<rparr>], ex_txn')
   \<or> prepare_and_execute_output ex2 ex_txn' (ox_lookup, span_default) [Text ''90'']
     = Inl (DbEngine (Core (LimitExceeded ''value bytes'')))"
proof -
  have "isl (bind (ox_lookup, span_default) (engine_catalog ex2 (Some ex_txn'))) = False" by code_simp
  then have bound: "bind (ox_lookup, span_default) (engine_catalog ex2 (Some ex_txn')) = Inr ox_bound"
    by (simp add: ox_bound_def)
  have "txn_read_ts ex_txn' = 2" by code_simp
  then have ts: "txn_read_ts ex_txn' = last_applied ex2" by (simp add: ex_last)
  have parameters: "distinct (statement_parameters (fst (ox_lookup, span_default)))" by code_simp
  let ?st = "bout_statement ox_bound"
  have query: "?st = BsQuery (ox_plan ?st) (ox_outs ?st)" by code_simp
  have once: "distinct (map (\<lambda>table. td_id (bd_table table)) (plan_scope (ox_plan ?st)))" by code_simp
  have accepted: "validate_parameters (bout_parameters ox_bound) [Text ''90''] = Inr ()" by code_simp
  let ?run = "execute_bound ex2 ex_txn' (BsQuery (ox_plan ?st) (ox_outs ?st)) (Some (naive (ox_plan ?st))) [Text ''90'']"
    and ?out = "OutQuery [''id''] [\<lparr>row_values = [Text ''j'']\<rparr>, \<lparr>row_values = [Text ''k'']\<rparr>]"
  have "map_sum (\<lambda>_. ()) fst ?run = Inr ?out" by code_simp
  then have result: "?run = Inr (?out, ex_txn')" by (cases ?run) (auto dest: query_keeps_transaction)
  show ?thesis
    by (rule optimizer_preserves_results[OF ex_inv(2) ox_txn_ok ts bound parameters query once accepted result])
qed

text \<open>
  The hypothesis on repeated tables cannot be dropped.  \<open>hash_join_keys\<close> recognises the columns of the inner
  table by the identifier of the table alone.  In
  \<open>SELECT a.id FROM acct a JOIN other b ON a.id = b.id JOIN acct c ON a.id = b.id\<close> it takes \<open>a.id\<close> for a column
  of \<open>c\<close>, so the second join keeps only the rows of \<open>c\<close> with the identifier of \<open>b\<close>.
\<close>

definition ox_txn :: transaction where
  "ox_txn = projr (engine_insert ex2
     (snd (projr (create_table ex2 ex_txn' ''other'' (tm_schema ex_table)))) 2 \<lparr>row_values = [Text ''k'', Null]\<rparr>)"

definition ox_repeated :: statement where
  "ox_repeated = (let on = ExBinary (ox_column ''a'' ''id'') SEq (ox_column ''b'' ''id'') span_default in
     StSelect \<lparr>sel_projection = [SelExpr (ox_column ''a'' ''id'') None], sel_from = ox_source ''acct'' ''a'',
     sel_joins = [\<lparr>jn_right = ox_source ''other'' ''b'', jn_on = on, jn_span = span_default\<rparr>,
                  \<lparr>jn_right = ox_source ''acct'' ''c'', jn_on = on, jn_span = span_default\<rparr>],
     sel_selection = None, sel_group_by = [], sel_order_by = [], sel_limit = None\<rparr>)"

lemma repeated_table_loses_rows:
  "let st = bout_statement (projr (bind (ox_repeated, span_default) (engine_catalog ex2 (Some ox_txn))));
       row = \<lparr>row_values = [Text ''k'']\<rparr> in
   map_sum id fst (execute_bound ex2 ox_txn st (Some (naive (ox_plan st))) []) = Inr (OutQuery [''id''] [row, row])
   \<and> map_sum id fst (prepare_and_execute_output ex2 ox_txn (ox_repeated, span_default) []) = Inr (OutQuery [''id''] [row])"
  by code_simp

text \<open>
  \<open>same_expression\<close> compares columns by table and position too, so \<open>MIN(b.id)\<close> is taken for \<open>MIN(a.id)\<close>
  when both aliases name one table: \<open>FROM acct a JOIN acct b ON a.id < b.id\<close> has the single row
  \<open>(j, k)\<close>, of which \<open>SELECT MIN(a.id), MIN(b.id)\<close> makes \<open>(j, j)\<close>.
\<close>

definition ox_self_join :: "sql_expr list \<Rightarrow> statement" where
  "ox_self_join items = StSelect \<lparr>sel_projection = map (\<lambda>e. SelExpr e None) items, sel_from = ox_source ''acct'' ''a'',
     sel_joins = [\<lparr>jn_right = ox_source ''acct'' ''b'',
        jn_on = ExBinary (ox_column ''a'' ''id'') SLt (ox_column ''b'' ''id'') span_default, jn_span = span_default\<rparr>],
     sel_selection = None, sel_group_by = [], sel_order_by = [], sel_limit = None\<rparr>"

definition ox_rows :: "db_error + statement_output \<times> transaction \<Rightarrow> row list" where
  "ox_rows result = (case result of Inr (OutQuery _ rows, _) \<Rightarrow> rows | _ \<Rightarrow> [])"

lemma self_join_aggregates_confused:
  "let run = (\<lambda>items. ox_rows (prepare_and_execute_output ex2 ex_txn' (ox_self_join items, span_default) []));
       minimum = (\<lambda>e. ExAggregate AggMin (Some e) span_default);
       a = ox_column ''a'' ''id''; b = ox_column ''b'' ''id'' in
   run [a, b] = [\<lparr>row_values = [Text ''j'', Text ''k'']\<rparr>]
   \<and> run [minimum a, minimum b] = [\<lparr>row_values = [Text ''j'', Text ''j'']\<rparr>]
   \<and> run [minimum b] = [\<lparr>row_values = [Text ''k'']\<rparr>]"
  by code_simp

end
