(* ===== verification/Spec2Isabelle.thy ===== *)
theory Spec2Isabelle
  imports Engine_Query Engine_Snapshot Raft_Commit Raft_Divergence Db_Optimize
begin

text \<open>
  A verification of AsterDB, a replicated SQL database written in Rust.

  \<^bold>\<open>The program.\<close>  A statement reaches a leader, which parses it, binds its names and
  types, plans it, runs it against a snapshot of the multi-version store and packs its writes into an
  attempt.  The attempt is an entry of the Raft log;
  once it is committed, every replica applies it at its log index, where it commits or aborts by the
  same deterministic rules.  The development models five layers and what holds
  between them.

  \<^item> \<open>crates/aster-core\<close>: values, schemas, rows and their binary formats (\<open>Core_Values\<close>, \<open>Core_Codec\<close>).
  \<^item> \<open>crates/aster-engine\<close>: the replicated state machine.  Catalog (\<open>Engine_Catalog\<close>), expressions
    (\<open>Engine_Expr\<close>), transactions and attempts (\<open>Engine_Txn\<close>), version chains (\<open>Engine_Chain\<close>), the
    engine itself (\<open>Engine_Mvcc\<close>), the operations of a transaction (\<open>Engine_Ops\<close>), queries
    (\<open>Engine_Query\<close>) and snapshots (\<open>Engine_Snapshot\<close>).
  \<^item> \<open>crates/aster-raft\<close> and the stable store of \<open>crates/aster-runtime\<close>: configurations and messages
    (\<open>Raft_Types\<close>), the log (\<open>Raft_Log\<close>), the node (\<open>Raft_Node\<close>), and \<open>StableStore\<close> with
    \<open>execute_actions\<close> (\<open>Raft_Store\<close>).
  \<^item> \<open>crates/aster-sql\<close> after parsing: syntax trees and diagnostics (\<open>Sql_Ast\<close>), catalogs, bound
    expressions, plans and the optimizer (\<open>Sql_Plan\<close>), evaluation (\<open>Sql_Eval\<close>) and the binder
    (\<open>Sql_Binder\<close>).
  \<^item> \<open>executor.rs\<close>, \<open>catalog.rs\<close> and the preparation of statements in \<open>database.rs\<close> of \<open>crates/aster-db\<close>
    (\<open>Db_Executor\<close>): the execution of bound statements by the operations of the engine.

  \<^bold>\<open>Correspondence.\<close>  A Rust struct is a record, an enum a datatype, a function or method one
  definition with the name of the source (suffixed or prefixed with the type where the name is taken in
  HOL).  \<open>Result\<close> is a sum with the error on the left and \<open>?\<close> is \<open>rbind\<close>.  \<open>BTreeMap\<close> and \<open>BTreeSet\<close> are
  \<open>btmap\<close> and \<open>btset\<close> (\<open>Aster_Prelude\<close>), sorted association lists with the proof of order in the type.
  \<open>i64\<close> and the \<open>u64\<close> of codecs, of the engine and of its counters are words.  In the Raft node, terms,
  indexes and node identifiers are natural numbers, and the bound \<open>u64_max\<close> is written where the code
  tests it.  The code tests terms before it increases them, but adds to the last index of the log without
  a check (\<open>become_leader\<close>, \<open>propose\<close>, \<open>reject_append\<close>, \<open>send_append\<close>, \<open>accept_append\<close>,
  \<open>on_snapshot_response\<close>), so the model agrees with it as long as no log reaches \<open>u64::MAX\<close>; the theorems
  on single nodes and stores and \<open>bounded_reach\<close> carry this as a hypothesis.  A method with \<open>&mut self\<close> takes the state and returns
  the new one; a handler of the Raft node returns the node and the actions it pushed.  Panics that the
  code could reach (slice indices) are the error \<open>Panic\<close>, and shown not to occur.  SHA-256 and
  \<open>serde_json\<close> are parameters.

  \<^bold>\<open>The engine.\<close>  \<open>Engine_Effect\<close> and \<open>Engine_Commit\<close> reduce an application to its effect on version
  chains; \<open>Engine_Inv\<close> proves the engine invariant for every operation; \<open>Engine_History\<close> draws the
  consequences for runs (snapshots are stable, the first committer wins); \<open>Engine_Spec\<close> proves totality,
  idempotence, at-most-once requests, atomicity, and the refinement of an abstract store under snapshot
  isolation, whose steps are labelled with the snapshot, the writes and the outcome of an attempt.
  \<open>Engine_Expr\<close> gives a declarative semantics of expressions that \<open>evaluate\<close> implements exactly, and
  \<open>Engine_Query\<close> says in what order and which rows a query returns.  \<open>Engine_Ops\<close> and \<open>Engine_Session\<close> say what a transaction reads and that a transaction
  running alone commits, and what an index lookup finds at a snapshot older than the index;
  \<open>Engine_Snapshot\<close> proves the round trips of snapshots and their records.

  \<^bold>\<open>Raft.\<close>  \<open>Raft_Micro\<close> defines the elementary moves of a node with their guards; \<open>Raft_Refine\<close> shows
  that every handler is a sequence of moves, \<open>Raft_Mirror\<close> that the stable store accepts the actions of
  a move and stays equal to the durable state; \<open>Raft_Step\<close> combines both for \<open>raft_step\<close> and for a crash
  between any two actions, after which the node still has its terms and votes, the entries and snapshots
  it acknowledged and the entries it applied.  A single step is considered for messages as well-formed
  nodes send them (\<open>input_ok\<close>), which the receiver does not check.  \<open>Raft_Cluster\<close>, where only messages
  that nodes sent are delivered, puts nodes on a network that loses, delays, reorders and
  repeats messages, with crashes and restarts, and shows that nodes stay well formed and never go back.
  \<open>Raft_Election\<close>, \<open>Raft_Matching\<close>, \<open>Raft_Ballot\<close> and
  \<open>Raft_Commit\<close> prove election safety, log matching, leader completeness and state machine safety.
  The last two need that a follower commits only what an append has verified, the flag \<open>strict\<close> of a
  cluster run.  The code takes the end of its whole log instead, and \<open>Raft_Divergence\<close> exhibits a run
  of the code in which two nodes apply different entries at the same index.

  \<^bold>\<open>SQL.\<close>  \<open>Sql_Eval\<close> has a type system for bound expressions and shows that a well-typed one evaluates
  to a value of its type or to an integer overflow.  \<open>Sql_Typing\<close> proves that the binder returns
  well-typed expressions only, \<open>Sql_Sound\<close> extends this to every expression of a bound statement, and
  \<open>Sql_Scope\<close> shows how the columns of a bound query are laid out in its rows.  \<open>Db_Optimize\<close> proves that
  the optimizer's plans return the rows of a reference plan without indexes and hash joins, from the
  exactness of index scans, the layout and the fact that stored rows fit their schema.  It needs that no
  table occurs twice in a query, and shows by evaluation what goes wrong otherwise.

  \<^bold>\<open>Bounds.\<close>  All functions of the model are total; loops recurse on lists or on a measure that is
  proved to decrease, and no definition carries fuel.

  \<^bold>\<open>Not modelled.\<close>  The event loop, sockets and timers of \<open>aster-runtime\<close> and \<open>aster-server\<close>, which are
  input and output, with the wire protocol and the terminal client; the files of the stable store and
  the failures of sending and answering in \<open>execute_actions\<close>, where the three steps of installing a
  snapshot are one; the
  simulator of \<open>aster-raft\<close>, a test harness.  The lexer and parser of \<open>aster-sql\<close>, the sessions and
  persistence of \<open>aster-db\<close> and the page storage of \<open>aster-storage\<close> are further components of their own.
\<close>

end
